(* ===== verification/Prelude.thy ===== *)
theory Prelude
  imports Main "HOL-Library.Word"
begin

text \<open>
  Shared vocabulary of the development: the faults an operation of the kernel can end in,
  the result type that carries them, the C character and string views used by every
  component that handles paths and buffers, and the generic list lemmas (fixed-width chunks,
  first matching index, circular indices) that the component proofs rest on.
\<close>

section \<open>Faults and results\<close>

text \<open>
  An operation of the C code returns a value, or the machine stops: \<open>assert\<close> and \<open>panic\<close>
  both end in \<open>_halt(1)\<close>.  Undefined behaviour of C that the code can reach is a fault of its
  own, so that a theorem about a result excludes it: a write past the end of a local buffer or an
  array (\<open>Overrun\<close>), a null pointer that is followed (\<open>Null_deref\<close>), a pointer read from
  memory that no object of the model lives at (\<open>Wild_ptr\<close>).  \<open>Diverge\<close> is a loop that uses
  up its fuel, \<open>Blocked\<close> a task that is suspended on a semaphore.
\<close>

datatype fault =
    Assert_fail
  | Panic string
  | Overrun
  | Null_deref
  | Wild_ptr
  | Diverge
  | Blocked

type_synonym 'a res = "fault + 'a"

definition rbind :: "'a res \<Rightarrow> ('a \<Rightarrow> 'b res) \<Rightarrow> 'b res" where
  "rbind m f = (case m of Inl e \<Rightarrow> Inl e | Inr x \<Rightarrow> f x)"

definition require :: "bool \<Rightarrow> fault \<Rightarrow> unit res" where
  "require b e = (if b then Inr () else Inl e)"

named_theorems res_simps "rules that run a chain of results"

lemma rbind_Inl [simp, res_simps]: "rbind (Inl e) f = Inl e"
  by (simp add: rbind_def)

lemma rbind_Inr [simp, res_simps]: "rbind (Inr x) f = f x"
  by (simp add: rbind_def)

lemma rbind_eq_Inr_iff [res_simps]: "rbind m f = Inr y \<longleftrightarrow> (\<exists>x. m = Inr x \<and> f x = Inr y)"
  by (cases m) auto

lemma rbind_eq_Inl_iff [res_simps]:
  "rbind m f = Inl e \<longleftrightarrow> m = Inl e \<or> (\<exists>x. m = Inr x \<and> f x = Inl e)"
  by (cases m) auto

lemma rbind_split:
  "P (rbind m f) \<longleftrightarrow> (\<forall>e. m = Inl e \<longrightarrow> P (Inl e)) \<and> (\<forall>x. m = Inr x \<longrightarrow> P (f x))"
  by (cases m) auto

lemma rbind_assoc: "rbind (rbind m f) g = rbind m (\<lambda>x. rbind (f x) g)"
  by (cases m) auto

lemma require_True [simp, res_simps]: "require True e = Inr ()"
  by (simp add: require_def)

lemma require_False [simp, res_simps]: "require False e = Inl e"
  by (simp add: require_def)

lemma require_eq_Inr_iff [res_simps]: "require b e = Inr u \<longleftrightarrow> b"
  by (simp add: require_def)

section \<open>Characters and strings\<close>

text \<open>The NUL byte, and the C string a buffer holds: the bytes before its first NUL.\<close>

abbreviation NUL :: char where
  "NUL \<equiv> CHR 0x00"

definition cstr :: "char list \<Rightarrow> string" where
  "cstr b = takeWhile (\<lambda>c. c \<noteq> NUL) b"

text \<open>\<open>char\<close> is signed on the x86 targets of the code; comparisons of \<open>char\<close> are signed.\<close>

definition schar :: "char \<Rightarrow> int" where
  "schar c = (let n = int (of_char c :: nat) in if n < 128 then n else n - 256)"

lemma of_char_less_256 [simp]: "(of_char c :: nat) < 256"
  by (metis of_char_mod_256 mod_less_divisor zero_less_numeral)

lemma schar_inject [simp]: "schar c = schar d \<longleftrightarrow> c = d"
proof
  assume "schar c = schar d"
  then have "int (of_char c :: nat) = int (of_char d)"
    using of_char_less_256 [of c] of_char_less_256 [of d]
    unfolding schar_def Let_def by (simp only: split: if_splits)
  then show "c = d"
    by simp
qed simp

lemma cstr_append_NUL [simp]: "NUL \<notin> set s \<Longrightarrow> cstr (s @ NUL # r) = s"
  by (auto simp: cstr_def takeWhile_tail takeWhile_append2)

lemma NUL_notin_cstr [simp]: "NUL \<notin> set (cstr b)"
  by (auto simp: cstr_def dest: set_takeWhileD)

lemma length_cstr_le: "length (cstr b) \<le> length b"
  by (simp add: cstr_def length_takeWhile_le)

section \<open>Lists\<close>

text \<open>Elements of a fixed encoded width: the \<open>i\<close>-th chunk of the concatenation.\<close>

lemma length_concat_chunks:
  assumes "\<And>x. x \<in> set xs \<Longrightarrow> length (f x) = w"
  shows "length (concat (map f xs)) = w * length xs"
  using assms by (induction xs) auto

lemma take_drop_concat_chunks:
  assumes "\<And>x. x \<in> set xs \<Longrightarrow> length (f x) = w" and "i < length xs"
  shows "take w (drop (w * i) (concat (map f xs) @ r)) = f (xs ! i)"
  using assms
proof (induction xs arbitrary: i)
  case Nil
  then show ?case by simp
next
  case (Cons x xs)
  show ?case
  proof (cases i)
    case 0
    with Cons.prems show ?thesis by simp
  next
    case (Suc j)
    have "drop (w * i) (concat (map f (x # xs)) @ r) = drop (w * j) (concat (map f xs) @ r)"
      using Cons.prems(1) [of x] Suc by simp
    with Cons Suc show ?thesis by simp
  qed
qed

lemma nth_update: "j < length xs \<Longrightarrow> xs[k := x] ! j = (if j = k then x else xs ! j)"
  by (cases "k < length xs") (auto simp: nth_list_update)

text \<open>The index of the first element that satisfies a predicate, as the C search loops find it.\<close>

fun find_idx :: "('a \<Rightarrow> bool) \<Rightarrow> 'a list \<Rightarrow> nat option" where
  "find_idx P [] = None"
| "find_idx P (x # xs) = (if P x then Some 0 else map_option Suc (find_idx P xs))"

lemma find_idx_None: "find_idx P xs = None \<longleftrightarrow> (\<forall>x \<in> set xs. \<not> P x)"
  by (induction xs) auto

lemma find_idx_Some:
  "find_idx P xs = Some i \<longleftrightarrow> i < length xs \<and> P (xs ! i) \<and> (\<forall>j < i. \<not> P (xs ! j))"
proof (induction xs arbitrary: i)
  case Nil
  then show ?case by simp
next
  case (Cons x xs)
  show ?case
  proof (cases i)
    case 0
    then show ?thesis by auto
  next
    case (Suc k)
    have "(\<forall>j < Suc k. \<not> P ((x # xs) ! j)) \<longleftrightarrow> \<not> P x \<and> (\<forall>j < k. \<not> P (xs ! j))"
      by (auto simp: less_Suc_eq_0_disj)
    with Suc Cons.IH [of k] show ?thesis by auto
  qed
qed

lemma find_idx_SomeD:
  assumes "find_idx P xs = Some i"
  shows "i < length xs" and "P (xs ! i)" and "\<And>j. j < i \<Longrightarrow> \<not> P (xs ! j)"
  using assms by (auto simp: find_idx_Some)

lemma find_idx_cong:
  "map P xs = map Q ys \<Longrightarrow> find_idx P xs = find_idx Q ys"
proof (induction xs arbitrary: ys)
  case Nil
  then show ?case by simp
next
  case (Cons x xs)
  then show ?case by (cases ys) auto
qed

section \<open>Circular indices\<close>

text \<open>
  The contents of a circular buffer of size \<open>n\<close> that starts at \<open>l\<close> and holds \<open>k\<close> elements.
  The semaphore's waiting list and the input event queue are such buffers.
\<close>

definition ring_list :: "'a list \<Rightarrow> nat \<Rightarrow> nat \<Rightarrow> 'a list" where
  "ring_list b l k = map (\<lambda>i. b ! ((l + i) mod length b)) [0..<k]"

lemma length_ring_list [simp]: "length (ring_list b l k) = k"
  by (simp add: ring_list_def)

lemma ring_list_0 [simp]: "ring_list b l 0 = []"
  by (simp add: ring_list_def)

lemma ring_list_Suc: "l < length b \<Longrightarrow>
  ring_list b l (Suc k) = b ! l # ring_list b (Suc l mod length b) k"
proof -
  assume l: "l < length b"
  have "[0..<Suc k] = 0 # map Suc [0..<k]"
    by (simp add: map_Suc_upt upt_conv_Cons)
  then show ?thesis
    using l by (simp add: ring_list_def comp_def mod_Suc_eq mod_add_left_eq)
qed

lemma ring_index_neq:
  assumes "l < n" and "i < k" and "k < (n :: nat)"
  shows "(l + i) mod n \<noteq> (l + k) mod n"
proof
  assume "(l + i) mod n = (l + k) mod n"
  then have "(i mod n) = (k mod n)"
    by (simp add: nat_mod_eq_iff)
  with assms show False by simp
qed

lemma ring_list_enq:
  assumes "l < length b" and "k < length b"
  shows "ring_list (b[(l + k) mod length b := x]) l (Suc k) = ring_list b l k @ [x]"
proof (rule nth_equalityI)
  show "length (ring_list (b[(l + k) mod length b := x]) l (Suc k)) = length (ring_list b l k @ [x])"
    by simp
next
  fix i
  assume "i < length (ring_list (b[(l + k) mod length b := x]) l (Suc k))"
  then have "i < Suc k" by simp
  moreover have "(l + k) mod length b < length b"
    using assms by (cases b) auto
  ultimately show "ring_list (b[(l + k) mod length b := x]) l (Suc k) ! i = (ring_list b l k @ [x]) ! i"
    using assms ring_index_neq [of l "length b" i k]
    by (auto simp: ring_list_def nth_append nth_list_update less_Suc_eq simp del: upt_Suc)
qed

lemma ring_list_update_outside:
  assumes "l < length b" and "k \<le> j" and "j < length b"
  shows "ring_list (b[(l + j) mod length b := x]) l k = ring_list b l k"
proof -
  have "(l + i) mod length b \<noteq> (l + j) mod length b" if "i < k" for i
    using assms that by (intro ring_index_neq) auto
  then show ?thesis
    by (auto simp: ring_list_def) (metis nth_list_update_neq)
qed

lemma ring_list_rotate: "ring_list b l (length b) = rotate l b"
  by (rule nth_equalityI) (simp_all add: ring_list_def nth_rotate)

end
