(* ===== verification/CString.thy ===== *)
theory CString
  imports Prelude "HOL-Library.Monad_Syntax"
begin

text \<open>
  The string and memory routines of the runtime library
  (\<open>abstract-machine/libs/klib/src/string.c\<close>), over a flat byte memory.  A loop that looks for a
  NUL byte may run for ever on a memory without one: those are \<open>partial_function (option)\<close>, and
  \<open>None\<close> is "does not return".  Loops bounded by a count are total.  \<open>assert\<close> on a null pointer is
  a fault.  The lemmas give each routine its C contract, and the two places where the code departs
  from it: \<open>strcmp\<close> on two empty strings and \<open>strncmp\<close> past a terminator.
\<close>

type_synonym mem = "nat \<Rightarrow> char"

section \<open>The routines\<close>

partial_function (option) strlen_loop :: "mem \<Rightarrow> nat \<Rightarrow> nat \<Rightarrow> nat option" where
  "strlen_loop m s index = (if m (s + index) \<noteq> NUL then strlen_loop m s (Suc index) else Some index)"

definition strlen :: "mem \<Rightarrow> nat \<Rightarrow> nat option" where
  "strlen m s = strlen_loop m s 0"

partial_function (option) strcpy_loop :: "mem \<Rightarrow> nat \<Rightarrow> nat \<Rightarrow> nat \<Rightarrow> nat \<Rightarrow> mem option" where
  "strcpy_loop m dst src di si =
     (if m (src + si) \<noteq> NUL
      then strcpy_loop (m(dst + di := m (src + si))) dst src (Suc di) (Suc si)
      else Some (m(dst + di := NUL)))"

definition strcpy :: "mem \<Rightarrow> nat \<Rightarrow> nat \<Rightarrow> mem option" where
  "strcpy m dst src = strcpy_loop m dst src 0 0"

definition strcat :: "mem \<Rightarrow> nat \<Rightarrow> nat \<Rightarrow> mem option" where
  "strcat m dst src = do { dst_len \<leftarrow> strlen m dst; strcpy_loop m dst src dst_len 0 }"

function strncpy_copy :: "mem \<Rightarrow> nat \<Rightarrow> nat \<Rightarrow> nat \<Rightarrow> nat \<Rightarrow> mem \<times> nat" where
  "strncpy_copy m dst src index n =
     (if index < n \<and> m (src + index) \<noteq> NUL
      then strncpy_copy (m(dst + index := m (src + index))) dst src (Suc index) n
      else (m, index))"
  by pat_completeness auto
termination
  by (relation "measure (\<lambda>(m, dst, src, index, n). n - index)") auto

function strncpy_pad :: "mem \<Rightarrow> nat \<Rightarrow> nat \<Rightarrow> nat \<Rightarrow> mem" where
  "strncpy_pad m dst index n =
     (if index < n then strncpy_pad (m(dst + index := NUL)) dst (Suc index) n else m)"
  by pat_completeness auto
termination
  by (relation "measure (\<lambda>(m, dst, index, n). n - index)") auto

declare strncpy_copy.simps [simp del] strncpy_pad.simps [simp del]

definition strncpy :: "mem \<Rightarrow> nat \<Rightarrow> nat \<Rightarrow> nat \<Rightarrow> mem" where
  "strncpy m dst src n =
     (let (m', index) = strncpy_copy m dst src 0 n in strncpy_pad m' dst index n)"

text \<open>
  \<open>strcmp\<close> compares up to the longer length \<open>len\<close> and stops at \<open>index == len - 1\<close> in
  \<open>size_t\<close> arithmetic: for two empty strings \<open>len - 1\<close> is \<open>2 ^ 32 - 1\<close>.
\<close>

partial_function (option) strcmp_loop :: "mem \<Rightarrow> nat \<Rightarrow> nat \<Rightarrow> nat \<Rightarrow> nat \<Rightarrow> int option" where
  "strcmp_loop m s1 s2 len index =
     (if schar (m (s1 + index)) > schar (m (s2 + index)) then Some 1
      else if schar (m (s1 + index)) < schar (m (s2 + index)) then Some (- 1)
      else if index = (len + 2 ^ 32 - 1) mod 2 ^ 32 then Some 0
      else strcmp_loop m s1 s2 len (Suc index))"

definition strcmp :: "mem \<Rightarrow> nat \<Rightarrow> nat \<Rightarrow> int option" where
  "strcmp m s1 s2 = do {
     len1 \<leftarrow> strlen m s1;
     len2 \<leftarrow> strlen m s2;
     strcmp_loop m s1 s2 (if len1 > len2 then len1 else len2) 0 }"

function strncmp_loop :: "mem \<Rightarrow> nat \<Rightarrow> nat \<Rightarrow> nat \<Rightarrow> nat \<Rightarrow> int" where
  "strncmp_loop m s1 s2 index n =
     (if index < n
      then if schar (m (s1 + index)) > schar (m (s2 + index)) then 1
           else if schar (m (s1 + index)) < schar (m (s2 + index)) then - 1
           else strncmp_loop m s1 s2 (Suc index) n
      else 0)"
  by pat_completeness auto
termination
  by (relation "measure (\<lambda>(m, s1, s2, index, n). n - index)") auto

declare strncmp_loop.simps [simp del]

definition strncmp :: "mem \<Rightarrow> nat \<Rightarrow> nat \<Rightarrow> nat \<Rightarrow> int" where
  "strncmp m s1 s2 n = strncmp_loop m s1 s2 0 n"

fun set_fwd :: "mem \<Rightarrow> nat \<Rightarrow> char \<Rightarrow> nat \<Rightarrow> mem" where
  "set_fwd m p c 0 = m"
| "set_fwd m p c (Suc n) = set_fwd (m(p := c)) (Suc p) c n"

definition memset :: "mem \<Rightarrow> nat \<Rightarrow> int \<Rightarrow> nat \<Rightarrow> mem res" where
  "memset m v c n =
     rbind (require (v \<noteq> 0) Assert_fail) (\<lambda>_. Inr (set_fwd m v (char_of (nat (c mod 256))) n))"

fun copy_fwd :: "mem \<Rightarrow> nat \<Rightarrow> nat \<Rightarrow> nat \<Rightarrow> mem" where
  "copy_fwd m d s 0 = m"
| "copy_fwd m d s (Suc n) = copy_fwd (m(d := m s)) (Suc d) (Suc s) n"

fun copy_bwd :: "mem \<Rightarrow> nat \<Rightarrow> nat \<Rightarrow> nat \<Rightarrow> mem" where
  "copy_bwd m d s 0 = m"
| "copy_bwd m d s (Suc n) = copy_bwd (m(d + n := m (s + n))) d s n"

definition memcpy :: "mem \<Rightarrow> nat \<Rightarrow> nat \<Rightarrow> nat \<Rightarrow> mem res" where
  "memcpy m out src n =
     rbind (require (out \<noteq> 0) Assert_fail) (\<lambda>_.
     rbind (require (src \<noteq> 0) Assert_fail) (\<lambda>_.
     Inr (copy_fwd m out src n)))"

fun memcmp_loop :: "mem \<Rightarrow> nat \<Rightarrow> nat \<Rightarrow> nat \<Rightarrow> int" where
  "memcmp_loop m p1 p2 0 = 0"
| "memcmp_loop m p1 p2 (Suc n) =
     (if (of_char (m p1) :: nat) > of_char (m p2) then 1
      else if (of_char (m p1) :: nat) < of_char (m p2) then - 1
      else memcmp_loop m (Suc p1) (Suc p2) n)"

definition memcmp :: "mem \<Rightarrow> nat \<Rightarrow> nat \<Rightarrow> nat \<Rightarrow> int" where
  "memcmp m s1 s2 n = (if n = 0 then 0 else memcmp_loop m s1 s2 n)"

definition memmove :: "mem \<Rightarrow> nat \<Rightarrow> nat \<Rightarrow> nat \<Rightarrow> mem res" where
  "memmove m dest src n =
     rbind (require (dest \<noteq> 0 \<and> src \<noteq> 0) Assert_fail) (\<lambda>_.
     Inr (if src > dest \<or> src + n \<le> dest then copy_fwd m dest src n else copy_bwd m dest src n))"

section \<open>Contracts\<close>

text \<open>A C string \<open>s\<close> lies at \<open>p\<close>: its bytes, none of them NUL, then a NUL.\<close>

definition cstr_at :: "mem \<Rightarrow> nat \<Rightarrow> string \<Rightarrow> bool" where
  "cstr_at m p s \<longleftrightarrow> (\<forall>i < length s. m (p + i) = s ! i \<and> s ! i \<noteq> NUL) \<and> m (p + length s) = NUL"

text \<open>The memory in which the \<open>n\<close> bytes from \<open>s\<close> have been moved, as a whole, to \<open>d\<close>.\<close>

definition blit :: "mem \<Rightarrow> nat \<Rightarrow> nat \<Rightarrow> nat \<Rightarrow> mem" where
  "blit m d s n = (\<lambda>a. if d \<le> a \<and> a < d + n then m (s + (a - d)) else m a)"

definition put_bytes :: "mem \<Rightarrow> nat \<Rightarrow> char list \<Rightarrow> mem" where
  "put_bytes m d bs = (\<lambda>a. if d \<le> a \<and> a < d + length bs then bs ! (a - d) else m a)"

lemma blit_0 [simp]: "blit m d s 0 = m"
  by (rule ext) (auto simp: blit_def)

lemma cstr_at_nth: "cstr_at m p s \<Longrightarrow> i < length s \<Longrightarrow> m (p + i) = s ! i"
  by (simp add: cstr_at_def)

lemma cstr_at_nonNUL: "cstr_at m p s \<Longrightarrow> i < length s \<Longrightarrow> s ! i \<noteq> NUL"
  by (simp add: cstr_at_def)

lemma cstr_at_upd:
  "cstr_at m p s \<Longrightarrow> a < p \<or> p + length s < a \<Longrightarrow> cstr_at (m(a := c)) p s"
  by (auto simp: cstr_at_def)

lemma cstr_at_end: "cstr_at m p s \<Longrightarrow> m (p + length s) = NUL"
  by (simp add: cstr_at_def)

lemma strlen_loop_cstr:
  "cstr_at m p s \<Longrightarrow> i \<le> length s \<Longrightarrow> strlen_loop m p i = Some (length s)"
proof (induction "length s - i" arbitrary: i)
  case 0
  then show ?case using cstr_at_end [of m p s] by (subst strlen_loop.simps) auto
next
  case (Suc k)
  then have "i < length s" by simp
  with Suc show ?case
    by (subst strlen_loop.simps) (simp add: cstr_at_nth cstr_at_nonNUL)
qed

lemma strlen_cstr: "cstr_at m p s \<Longrightarrow> strlen m p = Some (length s)"
  by (simp add: strlen_def strlen_loop_cstr)

text \<open>Forward copying is a block move unless the source starts below an overlapping destination.\<close>

lemma copy_fwd_blit:
  "d \<le> s \<or> s + n \<le> d \<Longrightarrow> copy_fwd m d s n = blit m d s n"
proof (induction n arbitrary: m d s)
  case 0
  then show ?case by simp
next
  case (Suc n)
  then have "copy_fwd m d s (Suc n) = blit (m(d := m s)) (Suc d) (Suc s) n"
    by (simp only: copy_fwd.simps, intro Suc.IH) auto
  also have "\<dots> = blit m d s (Suc n)"
    using Suc.prems by (auto simp: blit_def fun_eq_iff Suc_diff_Suc)
  finally show ?case .
qed

lemma copy_bwd_blit:
  "s \<le> d \<Longrightarrow> copy_bwd m d s n = blit m d s n"
proof (induction n arbitrary: m)
  case 0
  then show ?case by simp
next
  case (Suc n)
  then have "copy_bwd m d s (Suc n) = blit (m(d + n := m (s + n))) d s n"
    by simp
  also have "\<dots> = blit m d s (Suc n)"
    using Suc.prems by (auto simp: blit_def fun_eq_iff less_Suc_eq)
  finally show ?case .
qed

lemma memmove_blit:
  "dest \<noteq> 0 \<Longrightarrow> src \<noteq> 0 \<Longrightarrow> memmove m dest src n = Inr (blit m dest src n)"
  by (auto simp: memmove_def copy_fwd_blit copy_bwd_blit)

lemma set_fwd_eq: "set_fwd m p c n = (\<lambda>a. if p \<le> a \<and> a < p + n then c else m a)"
  by (induction n arbitrary: m p) (auto simp: fun_eq_iff)

lemma strncpy_pad_eq:
  "strncpy_pad m dst i n = (\<lambda>a. if dst + i \<le> a \<and> a < dst + n then NUL else m a)"
proof (induction m dst i n rule: strncpy_pad.induct)
  case (1 m dst i n)
  show ?case
  proof (cases "i < n")
    case True
    then have "strncpy_pad m dst i n = strncpy_pad (m(dst + i := NUL)) dst (Suc i) n"
      by (subst strncpy_pad.simps) simp
    also have "\<dots> = (\<lambda>a. if dst + i \<le> a \<and> a < dst + n then NUL else m a)"
      using True by (auto simp: "1.IH" intro!: ext)
    finally show ?thesis .
  next
    case False
    then show ?thesis
      by (subst strncpy_pad.simps) (auto intro!: ext)
  qed
qed

lemma strncpy_copy_eq:
  assumes "cstr_at m src s" and "i \<le> length s"
    and "src + length s < dst + i \<or> dst + n \<le> src"
  shows "strncpy_copy m dst src i n =
    (\<lambda>a. if dst + i \<le> a \<and> a < dst + min n (length s) then s ! (a - dst) else m a,
     max i (min n (length s)))"
  using assms
proof (induction m dst src i n rule: strncpy_copy.induct)
  case (1 m dst src i n)
  show ?case
  proof (cases "i < n \<and> i < length s")
    case True
    let ?m = "m(dst + i := s ! i)"
    from True "1.prems"(1) have run: "i < n \<and> m (src + i) \<noteq> NUL" "m (src + i) = s ! i"
      by (simp_all add: cstr_at_nth cstr_at_nonNUL)
    have str: "cstr_at ?m src s" and i: "Suc i \<le> length s"
      and sep: "src + length s < dst + Suc i \<or> dst + n \<le> src"
      using "1.prems" True by (auto intro!: cstr_at_upd simp del: fun_upd_apply)
    have "strncpy_copy ?m dst src (Suc i) n =
      (\<lambda>a. if dst + Suc i \<le> a \<and> a < dst + min n (length s) then s ! (a - dst) else ?m a,
       max (Suc i) (min n (length s)))"
      by (rule "1.IH" [OF run(1), unfolded run(2), OF str i sep])
    also have "(\<lambda>a. if dst + Suc i \<le> a \<and> a < dst + min n (length s) then s ! (a - dst) else ?m a) =
      (\<lambda>a. if dst + i \<le> a \<and> a < dst + min n (length s) then s ! (a - dst) else m a)"
      using True by (intro ext) (auto simp: not_le less_Suc_eq)
    finally show ?thesis
      using run True by (subst strncpy_copy.simps) (simp add: max_def fun_upd_def)
  next
    case False
    with "1.prems" have "n \<le> i \<or> m (src + i) = NUL" and "min n (length s) \<le> i"
      using cstr_at_end by force+
    then show ?thesis
      by (subst strncpy_copy.simps) (auto intro!: ext)
  qed
qed

text \<open>\<open>strncpy\<close> copies at most \<open>n\<close> bytes and pads with NUL up to \<open>n\<close>.\<close>

lemma strncpy_bytes:
  assumes "cstr_at m src s" and "src + length s < dst \<or> dst + n \<le> src"
  shows "strncpy m dst src n = put_bytes m dst (take n (s @ replicate n NUL))"
proof -
  from assms have "strncpy_copy m dst src 0 n =
    (\<lambda>a. if dst + 0 \<le> a \<and> a < dst + min n (length s) then s ! (a - dst) else m a,
     max 0 (min n (length s)))"
    by (intro strncpy_copy_eq) auto
  then show ?thesis
    by (auto simp: strncpy_def strncpy_pad_eq put_bytes_def nth_append intro!: ext)
qed

text \<open>\<open>strcpy\<close> and \<open>strcat\<close> write the source string and its terminator.\<close>

lemma strcpy_loop_bytes:
  assumes "cstr_at m src s" and "si \<le> length s"
    and "src + length s < dst + di \<or> dst + di + (length s - si) < src"
  shows "strcpy_loop m dst src di si = Some (put_bytes m (dst + di) (drop si s @ [NUL]))"
  using assms
proof (induction "length s - si" arbitrary: m di si)
  case 0
  then have "si = length s" and "m (src + length s) = NUL"
    using cstr_at_end [OF "0.prems"(1)] by simp_all
  then show ?case
    by (subst strcpy_loop.simps) (auto simp: put_bytes_def fun_upd_def intro!: ext)
next
  case (Suc k)
  let ?m = "m(dst + di := s ! si)"
  from Suc have si: "si < length s" by simp
  with Suc.prems(1) have ch: "m (src + si) = s ! si" "s ! si \<noteq> NUL"
    by (simp_all add: cstr_at_nth cstr_at_nonNUL)
  from Suc.prems si have str: "cstr_at ?m src s"
    and sep: "src + length s < dst + Suc di \<or> dst + Suc di + (length s - Suc si) < src"
    by (auto intro!: cstr_at_upd simp del: fun_upd_apply)
  have "strcpy_loop ?m dst src (Suc di) (Suc si) =
      Some (put_bytes ?m (dst + Suc di) (drop (Suc si) s @ [NUL]))"
    by (rule Suc.hyps(1) [OF _ str _ sep]) (use Suc.hyps(2) si in auto)
  also have "put_bytes ?m (dst + Suc di) (drop (Suc si) s @ [NUL]) =
      put_bytes m (dst + di) (drop si s @ [NUL])"
    using si by (intro ext)
      (auto simp: put_bytes_def Cons_nth_drop_Suc [symmetric] nth_Cons' less_Suc_eq)
  finally show ?case
    using ch by (subst strcpy_loop.simps) (simp add: fun_upd_def)
qed

lemma strcpy_bytes:
  "cstr_at m src s \<Longrightarrow> src + length s < dst \<or> dst + length s < src \<Longrightarrow>
   strcpy m dst src = Some (put_bytes m dst (s @ [NUL]))"
  using strcpy_loop_bytes [of m src s 0 dst 0] by (simp add: strcpy_def)

lemma strcat_bytes:
  "cstr_at m src s \<Longrightarrow> cstr_at m dst t \<Longrightarrow>
   src + length s < dst + length t \<or> dst + length t + length s < src \<Longrightarrow>
   strcat m dst src = Some (put_bytes m (dst + length t) (s @ [NUL]))"
  using strcpy_loop_bytes [of m src s 0 dst "length t"] by (simp add: strcat_def strlen_cstr)

text \<open>The reference comparison: the first differing \<open>char\<close>, as signed values, decides.\<close>

definition cmp_char :: "char \<Rightarrow> char \<Rightarrow> int" where
  "cmp_char c d = (if schar c > schar d then 1 else if schar c < schar d then - 1 else 0)"

fun str_cmp :: "string \<Rightarrow> string \<Rightarrow> int" where
  "str_cmp [] [] = 0"
| "str_cmp (c # s) [] = cmp_char c NUL"
| "str_cmp [] (d # t) = cmp_char NUL d"
| "str_cmp (c # s) (d # t) = (if c = d then str_cmp s t else cmp_char c d)"

lemma cmp_char_0 [simp]: "cmp_char c d = 0 \<longleftrightarrow> c = d"
  by (auto simp: cmp_char_def simp flip: schar_inject)

lemma str_cmp_eq_0: "NUL \<notin> set s \<Longrightarrow> NUL \<notin> set t \<Longrightarrow> str_cmp s t = 0 \<longleftrightarrow> s = t"
  by (induction s t rule: str_cmp.induct) auto

lemma str_cmp_refl [simp]: "str_cmp s s = 0"
  by (induction s) auto

lemma cstr_at_set: "cstr_at m p s \<Longrightarrow> NUL \<notin> set s"
  by (auto simp: cstr_at_def in_set_conv_nth)

lemma strcmp_loop_unfold:
  "strcmp_loop m p q len i =
    (if m (p + i) = m (q + i)
     then if i = (len + 2 ^ 32 - 1) mod 2 ^ 32 then Some 0 else strcmp_loop m p q len (Suc i)
     else Some (cmp_char (m (p + i)) (m (q + i))))"
proof (cases "m (p + i) = m (q + i)")
  case False
  then have "schar (m (p + i)) \<noteq> schar (m (q + i))" by simp
  with False show ?thesis
    by (subst strcmp_loop.simps) (auto simp: cmp_char_def)
qed (subst strcmp_loop.simps, simp)

lemma strcmp_loop_cstr:
  assumes "cstr_at m p s" and "cstr_at m q t"
    and "len = max (length s) (length t)" and "0 < len" and "len < 2 ^ 32"
    and "i < len" and "take i s = take i t"
  shows "strcmp_loop m p q len i = Some (str_cmp (drop i s) (drop i t))"
  using assms(6,7)
proof (induction "len - i" arbitrary: i)
  case 0
  then show ?case by simp
next
  case (Suc k)
  have last: "(len + 2 ^ 32 - 1) mod 2 ^ 32 = len - 1"
    using assms(4,5) by (simp add: mod_if)
  have bnd: "i \<le> length s \<and> i \<le> length t"
  proof (rule ccontr)
    assume "\<not> ?thesis"
    then have "length (take i s) \<noteq> length (take i t)"
      using Suc.prems(1) assms(3) by (auto simp: min_def max_def split: if_splits)
    with Suc.prems(2) show False by metis
  qed
  show ?case
  proof (cases "i < length s \<and> i < length t")
    case True
    then have mp: "m (p + i) = s ! i" and mq: "m (q + i) = t ! i"
      using assms(1,2) by (simp_all add: cstr_at_nth)
    have ds: "drop i s = s ! i # drop (Suc i) s" and dt: "drop i t = t ! i # drop (Suc i) t"
      using True by (simp_all add: Cons_nth_drop_Suc)
    have rec: "strcmp_loop m p q len (Suc i) = Some (str_cmp (drop (Suc i) s) (drop (Suc i) t))"
      if "s ! i = t ! i" and "i \<noteq> len - 1"
      using Suc.hyps(2) Suc.prems that True
      by (intro Suc.hyps(1)) (auto simp: take_Suc_conv_app_nth)
    have "drop (Suc i) s = []" "drop (Suc i) t = []" if "i = len - 1"
      using that assms(3,4) by auto
    with rec show ?thesis
      by (subst strcmp_loop_unfold, unfold last) (auto simp: mp mq ds dt)
  next
    case False
    with bnd Suc.prems(1) assms(3)
    have "i = length s \<and> i < length t \<or> i < length s \<and> i = length t" by auto
    then show ?thesis
    proof
      assume i: "i = length s \<and> i < length t"
      then have "m (p + i) = NUL" "m (q + i) = t ! i" "t ! i \<noteq> NUL"
        using assms(1,2) by (auto simp: cstr_at_end cstr_at_nth cstr_at_nonNUL)
      moreover have "drop i t = t ! i # drop (Suc i) t" "drop i s = []"
        using i by (simp_all add: Cons_nth_drop_Suc)
      ultimately show ?thesis
        by (subst strcmp_loop_unfold) auto
    next
      assume i: "i < length s \<and> i = length t"
      then have "m (q + i) = NUL" "m (p + i) = s ! i" "s ! i \<noteq> NUL"
        using assms(1,2) by (auto simp: cstr_at_end cstr_at_nth cstr_at_nonNUL)
      moreover have "drop i s = s ! i # drop (Suc i) s" "drop i t = []"
        using i by (simp_all add: Cons_nth_drop_Suc)
      ultimately show ?thesis
        by (subst strcmp_loop_unfold) auto
    qed
  qed
qed

lemma strcmp_cstr:
  assumes "cstr_at m p s" and "cstr_at m q t" and "s \<noteq> [] \<or> t \<noteq> []"
    and "max (length s) (length t) < 2 ^ 32"
  shows "strcmp m p q = Some (str_cmp s t)"
proof -
  have "strcmp_loop m p q (max (length s) (length t)) 0 = Some (str_cmp (drop 0 s) (drop 0 t))"
    using assms by (intro strcmp_loop_cstr) (auto simp: less_max_iff_disj)
  moreover have "(if length s > length t then length s else length t) = max (length s) (length t)"
    by auto
  ultimately show ?thesis
    using assms(1,2) by (simp add: strcmp_def strlen_cstr)
qed

lemma memcmp_loop_0: "memcmp_loop m p q n = 0 \<longleftrightarrow> (\<forall>i < n. m (p + i) = m (q + i))"
proof (induction n arbitrary: p q)
  case 0
  then show ?case by simp
next
  case (Suc n)
  have "(\<forall>i < Suc n. m (p + i) = m (q + i)) \<longleftrightarrow>
      m p = m q \<and> (\<forall>i < n. m (Suc p + i) = m (Suc q + i))"
    by (auto simp: less_Suc_eq_0_disj)
  moreover have "(of_char (m p) :: nat) = of_char (m q) \<longleftrightarrow> m p = m q"
    by simp
  ultimately show ?case
    using Suc by (auto simp: less_le)
qed

section \<open>Properties\<close>

text \<open>
  C1. \<open>memmove\<close> moves a block of bytes as a whole, whatever the overlap of source and
  destination: afterwards the destination holds the bytes the source held before, and no other
  byte has changed.
\<close>

theorem memmove_correct:
  assumes "dest \<noteq> 0" and "src \<noteq> 0"
  shows "\<exists>m'. memmove m dest src n = Inr m' \<and>
    (\<forall>i < n. m' (dest + i) = m (src + i)) \<and>
    (\<forall>a. a < dest \<or> dest + n \<le> a \<longrightarrow> m' a = m a)"
  using memmove_blit [OF assms] by (auto simp: blit_def)

theorem memmove_correct_witness:
  "\<exists>m'. memmove (\<lambda>a. char_of a) 12 10 5 = Inr m' \<and> m' 14 = char_of (12 :: nat)"
proof -
  obtain m' where "memmove (\<lambda>a. char_of a) 12 10 5 = Inr m'"
    and "\<forall>i < (5::nat). m' (12 + i) = char_of (10 + i)"
    using memmove_correct [of 12 10 "\<lambda>a. char_of a" 5] by auto
  moreover from this(2) have "m' (12 + 2) = char_of (10 + (2::nat))"
    by (rule allE [of _ 2]) simp
  ultimately show ?thesis by auto
qed

text \<open>
  On two C strings that are not both empty, \<open>strcmp\<close> returns, with the sign of the first
  pair of signed characters that differ, and it returns 0 exactly when the strings are equal.
\<close>

theorem strcmp_correct:
  assumes "cstr_at m p s" and "cstr_at m q t" and "s \<noteq> [] \<or> t \<noteq> []"
    and "max (length s) (length t) < 2 ^ 32"
  shows "strcmp m p q = Some (str_cmp s t) \<and> (strcmp m p q = Some 0 \<longleftrightarrow> s = t)"
  using strcmp_cstr [OF assms] str_cmp_eq_0 [of s t] assms(1,2) by (auto simp: cstr_at_set)

theorem strcmp_correct_witness:
  "strcmp (put_bytes (put_bytes (\<lambda>_. NUL) 4 ''/dev'') 16 ''/proc'') 4 16 = Some (- 1)"
proof -
  let ?m = "put_bytes (put_bytes (\<lambda>_. NUL) 4 ''/dev'') 16 ''/proc''"
  have "cstr_at ?m 4 ''/dev''" and "cstr_at ?m 16 ''/proc''"
    by code_simp+
  then show ?thesis
    using strcmp_correct [of ?m 4 "''/dev''" 16 "''/proc''"]
    by (simp add: cmp_char_def schar_def)
qed

text \<open>
  On two empty strings \<open>strcmp\<close> does not stop at the terminators: the loop bound
  \<open>len - 1\<close> wraps to \<open>2 ^ 32 - 1\<close>, so the bytes that happen to follow the two terminators
  decide the answer, and two equal (empty) strings compare as different.
\<close>

theorem strcmp_empty_overread:
  assumes "cstr_at m p []" and "cstr_at m q []" and "m (p + 1) \<noteq> m (q + 1)"
  shows "strcmp m p q = Some (cmp_char (m (p + 1)) (m (q + 1))) \<and> strcmp m p q \<noteq> Some 0"
proof -
  have "m p = m q"
    using assms(1,2) by (simp add: cstr_at_def)
  then have "strcmp_loop m p q 0 0 = strcmp_loop m p q 0 1"
    by (subst strcmp_loop_unfold) simp
  also have "\<dots> = Some (cmp_char (m (p + 1)) (m (q + 1)))"
    using assms(3) by (subst strcmp_loop_unfold) simp
  finally show ?thesis
    using assms by (simp add: strcmp_def strlen_cstr)
qed

theorem strcmp_empty_overread_witness:
  "strcmp (put_bytes (\<lambda>_. NUL) 9 ''x'') 4 8 = Some (- 1)"
proof -
  let ?m = "put_bytes (\<lambda>_. NUL) 9 ''x''"
  have "cstr_at ?m 4 []" and "cstr_at ?m 8 []" and "?m (4 + 1) \<noteq> ?m (8 + 1)"
    by code_simp+
  then show ?thesis
    using strcmp_empty_overread [of ?m 4 8] by (simp add: put_bytes_def cmp_char_def schar_def)
qed

text \<open>
  \<open>strncpy\<close> from a C string into a buffer that does not overlap it writes exactly the first
  \<open>n\<close> bytes of the string padded with NULs, and nothing else; in particular with \<open>n\<close> the length
  plus one, as the kernel calls it, the buffer then holds the string.
\<close>

theorem strncpy_correct:
  assumes "cstr_at m src s" and "src + length s < dst \<or> dst + n \<le> src"
  shows "strncpy m dst src n = put_bytes m dst (take n (s @ replicate n NUL)) \<and>
    (n = length s + 1 \<longrightarrow> cstr_at (strncpy m dst src n) dst s)"
proof -
  have eq: "strncpy m dst src n = put_bytes m dst (take n (s @ replicate n NUL))"
    using assms by (rule strncpy_bytes)
  have "cstr_at (strncpy m dst src n) dst s" if "n = length s + 1"
    using that cstr_at_set [OF assms(1)] unfolding eq
    by (auto simp: cstr_at_def put_bytes_def nth_append in_set_conv_nth)
  with eq show ?thesis by blast
qed

theorem strncpy_correct_witness:
  "cstr_at (strncpy (put_bytes (\<lambda>_. NUL) 4 ''/dev'') 16 4 5) 16 ''/dev''"
proof -
  let ?m = "put_bytes (\<lambda>_. NUL) 4 ''/dev''"
  have "cstr_at ?m 4 ''/dev''"
    by code_simp
  then have "5 = length ''/dev'' + 1 \<longrightarrow> cstr_at (strncpy ?m 16 4 5) 16 ''/dev''"
    by (intro conjunct2 [OF strncpy_correct]) simp_all
  then show ?thesis
    by (rule mp) simp
qed

end
