(* ===== verification/Ramdisk.thy ===== *)
theory Ramdisk
  imports Prelude
begin

text \<open>
  The RAM disk device (\<open>kernel/src/devices/ramdisk/ramdisk.c\<close>) and the C structures the file
  system keeps on it (\<open>struct inode\<close>, \<open>struct ext2_dir_entry\<close>, \<open>struct ext2_dir\<close> of
  \<open>kernel/include/vfs.h\<close>) with their i386 layout: little-endian fields, natural alignment.
  A disk is the byte memory relative to \<open>rd->start\<close>; the driver checks no bounds, so offsets
  outside the device are bytes like any other and staying inside is a property of its client.
  The locale \<open>disk_object\<close> is what that client relies on: an object that was written is read back,
  and writes to other bytes leave it alone.  It is interpreted on the two structures.
\<close>

section \<open>The device\<close>

type_synonym disk = "int \<Rightarrow> char"

definition RD_SIZE :: int where
  "RD_SIZE = 4 * 1048576"

definition rd_read :: "disk \<Rightarrow> int \<Rightarrow> nat \<Rightarrow> char list" where
  "rd_read d offset count = map (\<lambda>i. d (offset + int i)) [0..<count]"

definition rd_write :: "disk \<Rightarrow> int \<Rightarrow> char list \<Rightarrow> disk" where
  "rd_write d offset buf =
     (\<lambda>a. if offset \<le> a \<and> a < offset + int (length buf) then buf ! nat (a - offset) else d a)"

text \<open>\<open>rd_init\<close>: the second RAM disk is allocated and zeroed, the first is the linked image.\<close>

definition rd_init :: "nat \<Rightarrow> disk \<Rightarrow> disk" where
  "rd_init devid img = (if devid = 1 then img else (\<lambda>_. NUL))"

lemma length_rd_read [simp]: "length (rd_read d off n) = n"
  by (simp add: rd_read_def)

lemma rd_read_write_same [simp]: "n = length bs \<Longrightarrow> rd_read (rd_write d off bs) off n = bs"
  by (auto simp: rd_read_def rd_write_def intro: nth_equalityI)

lemma rd_read_write_other:
  "off' + int n \<le> off \<or> off + int (length bs) \<le> off' \<Longrightarrow>
   rd_read (rd_write d off bs) off' n = rd_read d off' n"
  by (auto simp: rd_read_def rd_write_def)

lemma rd_read_take: "k \<le> n \<Longrightarrow> take k (rd_read d off n) = rd_read d off k"
  by (simp add: rd_read_def take_map)

lemma rd_read_zero [simp]: "rd_read (\<lambda>_. NUL) off n = replicate n NUL"
  by (rule nth_equalityI) (simp_all add: rd_read_def)

section \<open>Integers in memory\<close>

fun enc_le :: "nat \<Rightarrow> nat \<Rightarrow> char list" where
  "enc_le 0 n = []"
| "enc_le (Suc k) n = char_of (n mod 256) # enc_le k (n div 256)"

fun dec_le :: "char list \<Rightarrow> nat" where
  "dec_le [] = 0"
| "dec_le (c # cs) = of_char c + 256 * dec_le cs"

lemma length_enc_le [simp]: "length (enc_le k n) = k"
  by (induction k arbitrary: n) auto

lemma dec_enc_le: "dec_le (enc_le k n) = n mod 256 ^ k"
proof (induction k arbitrary: n)
  case 0
  then show ?case by simp
next
  case (Suc k)
  have "n mod 256 ^ Suc k = n mod 256 + 256 * (n div 256 mod 256 ^ k)"
    by (simp add: mod_mult2_eq)
  with Suc show ?case by simp
qed

lemma dec_le_replicate_NUL [simp]: "dec_le (replicate k NUL) = 0"
  by (induction k) auto

lemma dec_le_bound: "dec_le bs < 256 ^ length bs"
proof (induction bs)
  case Nil
  then show ?case by simp
next
  case (Cons c cs)
  have "dec_le (c # cs) < 256 + 256 * dec_le cs"
    using of_char_less_256 [of c] unfolding dec_le.simps by linarith
  also have "\<dots> \<le> 256 * 256 ^ length cs"
    using Cons by simp
  finally show ?case by simp
qed

lemma dec_le_less: "length bs = k \<Longrightarrow> dec_le bs < 256 ^ k"
  using dec_le_bound [of bs] by simp

definition enc_u16 :: "nat \<Rightarrow> char list" where "enc_u16 n = enc_le 2 n"
definition enc_u32 :: "nat \<Rightarrow> char list" where "enc_u32 n = enc_le 4 n"
definition enc_s32 :: "int \<Rightarrow> char list" where "enc_s32 x = enc_le 4 (nat (x mod 2 ^ 32))"
definition dec_s32 :: "char list \<Rightarrow> int" where
  "dec_s32 bs = (let n = int (dec_le bs) in if n < 2 ^ 31 then n else n - 2 ^ 32)"

lemma length_enc_ints [simp]:
  "length (enc_u16 n) = 2" "length (enc_u32 n) = 4" "length (enc_s32 x) = 4"
  by (simp_all add: enc_u16_def enc_u32_def enc_s32_def)

lemma dec_enc_u16 [simp]: "n < 2 ^ 16 \<Longrightarrow> dec_le (enc_u16 n) = n"
  by (simp add: enc_u16_def dec_enc_le)

lemma dec_enc_u32 [simp]: "n < 2 ^ 32 \<Longrightarrow> dec_le (enc_u32 n) = n"
  by (simp add: enc_u32_def dec_enc_le)

lemma dec_enc_s32 [simp]:
  assumes "- (2 ^ 31) \<le> x" and "x < 2 ^ 31"
  shows "dec_s32 (enc_s32 x) = x"
proof -
  have "nat (x mod 2 ^ 32) < 2 ^ 32"
    using nat_less_iff [of "x mod 2 ^ 32" "2 ^ 32"] by simp
  then have "int (dec_le (enc_s32 x)) = x mod 2 ^ 32"
    by (simp add: enc_s32_def dec_enc_le)
  moreover have "x mod 2 ^ 32 = (if 0 \<le> x then x else x + 2 ^ 32)"
    using assms mod_pos_pos_trivial [of "x + 2 ^ 32" "2 ^ 32"] by simp
  ultimately show ?thesis
    using assms by (auto simp: dec_s32_def Let_def)
qed

section \<open>Inodes and directories\<close>

record inode =
  i_mod :: nat
  i_size :: nat
  i_nblocks :: nat
  i_offset :: int
  i_refcnt :: int
  i_ptr :: nat
  i_fs :: nat
  i_ops :: nat

record edt =
  e_ino :: nat
  e_ftype :: nat
  e_valid :: nat
  e_name :: "char list"

record ed =
  etrs :: "edt list"
  maxuse :: nat

definition EXT2_FT_REG_FILE :: nat where "EXT2_FT_REG_FILE = 1"
definition EXT2_FT_DIR :: nat where "EXT2_FT_DIR = 16"
definition NFILEINFS :: nat where "NFILEINFS = 80"
definition FILEBLOCK :: nat where "FILEBLOCK = 4096"
definition RAMBLOCK :: int where "RAMBLOCK = 524288"
definition MAXFS :: nat where "MAXFS = 7"

definition sizeof_inode :: nat where "sizeof_inode = 32"
definition sizeof_edt :: nat where "sizeof_edt = 44"
definition sizeof_ed :: nat where "sizeof_ed = 3524"
definition INOSIZE :: int where "INOSIZE = int (sizeof_inode * NFILEINFS)"

definition enc_inode :: "inode \<Rightarrow> char list" where
  "enc_inode i = enc_u16 (i_mod i) @ [NUL, NUL] @ enc_u32 (i_size i) @ enc_u32 (i_nblocks i) @
     enc_s32 (i_offset i) @ enc_s32 (i_refcnt i) @ enc_u32 (i_ptr i) @ enc_u32 (i_fs i) @
     enc_u32 (i_ops i)"

definition dec_inode :: "char list \<Rightarrow> inode" where
  "dec_inode bs =
     \<lparr>i_mod = dec_le (take 2 bs), i_size = dec_le (take 4 (drop 4 bs)),
      i_nblocks = dec_le (take 4 (drop 8 bs)), i_offset = dec_s32 (take 4 (drop 12 bs)),
      i_refcnt = dec_s32 (take 4 (drop 16 bs)), i_ptr = dec_le (take 4 (drop 20 bs)),
      i_fs = dec_le (take 4 (drop 24 bs)), i_ops = dec_le (take 4 (drop 28 bs))\<rparr>"

definition wf_inode :: "inode \<Rightarrow> bool" where
  "wf_inode i \<longleftrightarrow> i_mod i < 2 ^ 16 \<and> i_size i < 2 ^ 32 \<and> i_nblocks i < 2 ^ 32 \<and>
     - (2 ^ 31) \<le> i_offset i \<and> i_offset i < 2 ^ 31 \<and> - (2 ^ 31) \<le> i_refcnt i \<and> i_refcnt i < 2 ^ 31 \<and>
     i_ptr i < 2 ^ 32 \<and> i_fs i < 2 ^ 32 \<and> i_ops i < 2 ^ 32"

definition enc_edt :: "edt \<Rightarrow> char list" where
  "enc_edt e = enc_u32 (e_ino e) @ enc_u32 (e_ftype e) @ enc_u32 (e_valid e) @ e_name e"

definition dec_edt :: "char list \<Rightarrow> edt" where
  "dec_edt bs = \<lparr>e_ino = dec_le (take 4 bs), e_ftype = dec_le (take 4 (drop 4 bs)),
     e_valid = dec_le (take 4 (drop 8 bs)), e_name = take 32 (drop 12 bs)\<rparr>"

definition wf_edt :: "edt \<Rightarrow> bool" where
  "wf_edt e \<longleftrightarrow> e_ino e < 2 ^ 32 \<and> e_ftype e < 2 ^ 32 \<and> e_valid e < 2 ^ 32 \<and> length (e_name e) = 32"

definition enc_ed :: "ed \<Rightarrow> char list" where
  "enc_ed r = concat (map enc_edt (etrs r)) @ enc_u32 (maxuse r)"

definition dec_ed :: "char list \<Rightarrow> ed" where
  "dec_ed bs = \<lparr>etrs = map (\<lambda>i. dec_edt (take 44 (drop (44 * i) bs))) [0..<80],
     maxuse = dec_le (take 4 (drop 3520 bs))\<rparr>"

definition wf_ed :: "ed \<Rightarrow> bool" where
  "wf_ed r \<longleftrightarrow> length (etrs r) = 80 \<and> list_all wf_edt (etrs r) \<and> maxuse r < 2 ^ 32"

text \<open>What \<open>memset(r, 0, sizeof(ed_t))\<close> leaves.\<close>

definition zero_edt :: edt where
  "zero_edt = \<lparr>e_ino = 0, e_ftype = 0, e_valid = 0, e_name = replicate 32 NUL\<rparr>"

definition zero_ed :: ed where
  "zero_ed = \<lparr>etrs = replicate 80 zero_edt, maxuse = 0\<rparr>"

definition zero_inode :: inode where
  "zero_inode = \<lparr>i_mod = 0, i_size = 0, i_nblocks = 0, i_offset = 0, i_refcnt = 0, i_ptr = 0,
     i_fs = 0, i_ops = 0\<rparr>"

lemma dec_enc_inode: "wf_inode i \<Longrightarrow> dec_inode (enc_inode i) = i"
  by (cases i) (simp add: wf_inode_def enc_inode_def dec_inode_def)

lemma length_enc_inode [simp]: "length (enc_inode i) = 32"
  by (simp add: enc_inode_def)

lemma length_enc_edt: "wf_edt e \<Longrightarrow> length (enc_edt e) = 44"
  by (simp add: enc_edt_def wf_edt_def)

lemma dec_enc_edt: "wf_edt e \<Longrightarrow> dec_edt (enc_edt e) = e"
  by (cases e) (simp add: wf_edt_def enc_edt_def dec_edt_def)

lemma length_enc_ed: "wf_ed r \<Longrightarrow> length (enc_ed r) = 3524"
  by (simp add: enc_ed_def wf_ed_def list_all_iff length_enc_edt length_concat_chunks [where w = 44])

lemma dec_enc_ed:
  assumes wf: "wf_ed r"
  shows "dec_ed (enc_ed r) = r"
proof -
  have len: "length (etrs r) = 80" and es: "\<And>e. e \<in> set (etrs r) \<Longrightarrow> wf_edt e"
    using wf by (auto simp: wf_ed_def list_all_iff)
  have chunk: "take 44 (drop (44 * i) (enc_ed r)) = enc_edt (etrs r ! i)" if "i < 80" for i
    unfolding enc_ed_def using that len es
    by (intro take_drop_concat_chunks) (auto simp: length_enc_edt)
  have "map (\<lambda>i. dec_edt (take 44 (drop (44 * i) (enc_ed r)))) [0..<80] = etrs r"
    using len es by (auto intro!: nth_equalityI simp: chunk dec_enc_edt)
  moreover have "length (concat (map enc_edt (etrs r))) = 3520"
    using len es by (simp add: length_concat_chunks [where w = 44] length_enc_edt)
  then have "take 4 (drop 3520 (enc_ed r)) = enc_u32 (maxuse r)"
    by (simp add: enc_ed_def)
  ultimately show ?thesis
    using wf by (cases r) (simp add: dec_ed_def wf_ed_def)
qed

lemma wf_dec_edt:
  assumes "length bs = 44"
  shows "wf_edt (dec_edt bs)"
  using assms dec_le_less [of "take 4 bs" 4] dec_le_less [of "take 4 (drop 4 bs)" 4]
    dec_le_less [of "take 4 (drop 8 bs)" 4]
  by (simp add: wf_edt_def dec_edt_def)

lemma wf_dec_ed:
  assumes "length bs = 3524"
  shows "wf_ed (dec_ed bs)"
  using assms dec_le_less [of "take 4 (drop 3520 bs)" 4]
  by (auto simp: wf_ed_def dec_ed_def list_all_iff intro!: wf_dec_edt)

lemma dec_s32_bound:
  assumes "length bs = 4"
  shows "- (2 ^ 31) \<le> dec_s32 bs" and "dec_s32 bs < 2 ^ 31"
  using dec_le_less [OF assms] by (auto simp: dec_s32_def Let_def)

lemma wf_dec_inode:
  assumes "length bs = 32"
  shows "wf_inode (dec_inode bs)"
  using assms dec_le_less [of "take 2 bs" 2] dec_le_less [of "take 4 (drop 4 bs)" 4]
    dec_le_less [of "take 4 (drop 8 bs)" 4] dec_s32_bound [of "take 4 (drop 12 bs)"]
    dec_s32_bound [of "take 4 (drop 16 bs)"] dec_le_less [of "take 4 (drop 20 bs)" 4]
    dec_le_less [of "take 4 (drop 24 bs)" 4] dec_le_less [of "take 4 (drop 28 bs)" 4]
  by (simp add: wf_inode_def dec_inode_def)

lemma wf_zero_edt [simp]: "wf_edt zero_edt"
  by (simp add: wf_edt_def zero_edt_def)

lemma wf_zero_ed [simp]: "wf_ed zero_ed"
  by (simp add: wf_ed_def zero_ed_def list_all_iff)

lemma wf_zero_inode [simp]: "wf_inode zero_inode"
  by (simp add: wf_inode_def zero_inode_def)

section \<open>The interface of an object stored on a disk\<close>

locale disk_object =
  fixes enc :: "'a \<Rightarrow> char list"
    and dec :: "char list \<Rightarrow> 'a"
    and wf :: "'a \<Rightarrow> bool"
    and sz :: nat
  assumes dec_enc: "wf x \<Longrightarrow> dec (enc x) = x"
    and len_enc: "wf x \<Longrightarrow> length (enc x) = sz"
begin

lemma get_put_same: "wf x \<Longrightarrow> dec (rd_read (rd_write d off (enc x)) off sz) = x"
  by (simp add: dec_enc len_enc)

lemma get_put_bytes_other:
  "off' + int sz \<le> off \<or> off + int (length bs) \<le> off' \<Longrightarrow>
   dec (rd_read (rd_write d off bs) off' sz) = dec (rd_read d off' sz)"
  by (simp add: rd_read_write_other)

lemma bytes_put_other:
  "wf x \<Longrightarrow> off' + int n \<le> off \<or> off + int sz \<le> off' \<Longrightarrow>
   rd_read (rd_write d off (enc x)) off' n = rd_read d off' n"
  by (simp add: rd_read_write_other len_enc)

end

interpretation inode_obj: disk_object enc_inode dec_inode wf_inode 32
  by unfold_locales (simp_all add: dec_enc_inode)

interpretation ed_obj: disk_object enc_ed dec_ed wf_ed 3524
  by unfold_locales (simp_all add: dec_enc_ed length_enc_ed)

section \<open>Typed reads and writes\<close>

text \<open>
  The calls \<open>dev->ops->read(dev, off, (void*)p, sizeof(T))\<close> and the corresponding writes of the
  file system, for \<open>T\<close> an inode, a directory or a whole block.
\<close>

definition get_inode :: "disk \<Rightarrow> int \<Rightarrow> inode" where
  "get_inode d off = dec_inode (rd_read d off 32)"

definition put_inode :: "disk \<Rightarrow> int \<Rightarrow> inode \<Rightarrow> disk" where
  "put_inode d off i = rd_write d off (enc_inode i)"

definition get_ed :: "disk \<Rightarrow> int \<Rightarrow> ed" where
  "get_ed d off = dec_ed (rd_read d off 3524)"

definition put_ed :: "disk \<Rightarrow> int \<Rightarrow> ed \<Rightarrow> disk" where
  "put_ed d off r = rd_write d off (enc_ed r)"

definition zero_block :: "disk \<Rightarrow> int \<Rightarrow> disk" where
  "zero_block d off = rd_write d off (replicate FILEBLOCK NUL)"

lemma wf_get_ed [simp]: "wf_ed (get_ed d off)"
  by (simp add: get_ed_def wf_dec_ed)

lemma wf_get_inode [simp]: "wf_inode (get_inode d off)"
  by (simp add: get_inode_def wf_dec_inode)

lemma length_etrs_get_ed [simp]: "length (etrs (get_ed d off)) = 80"
  using wf_get_ed [of d off] by (simp add: wf_ed_def)

lemma dec_ed_zeros: "dec_ed (replicate 3524 NUL) = zero_ed"
proof -
  have "dec_edt (replicate 44 NUL) = zero_edt"
    by (simp add: dec_edt_def zero_edt_def flip: replicate_add)
  then have "map (\<lambda>i. dec_edt (take 44 (drop (44 * i) (replicate 3524 NUL)))) [0..<80] = replicate 80 zero_edt"
    by (auto intro!: nth_equalityI)
  then show ?thesis
    by (simp add: dec_ed_def zero_ed_def)
qed

named_theorems disk_simps "reads over writes at the same or at disjoint places"

lemma get_inode_put_inode_same [disk_simps]:
  "wf_inode i \<Longrightarrow> get_inode (put_inode d off i) off = i"
  by (simp add: get_inode_def put_inode_def inode_obj.dec_enc)

lemma get_ed_put_ed_same [disk_simps]: "wf_ed r \<Longrightarrow> get_ed (put_ed d off r) off = r"
  by (simp add: get_ed_def put_ed_def ed_obj.get_put_same)

lemma get_inode_put_inode_other [disk_simps]:
  "off' + 32 \<le> off \<or> off + 32 \<le> off' \<Longrightarrow> get_inode (put_inode d off i) off' = get_inode d off'"
  by (simp add: get_inode_def put_inode_def inode_obj.get_put_bytes_other)

lemma get_inode_put_ed_other [disk_simps]:
  "wf_ed r \<Longrightarrow> off' + 32 \<le> off \<or> off + 3524 \<le> off' \<Longrightarrow>
   get_inode (put_ed d off r) off' = get_inode d off'"
  by (simp add: get_inode_def put_ed_def ed_obj.bytes_put_other)

lemma get_ed_put_ed_other [disk_simps]:
  "wf_ed r \<Longrightarrow> off' + 3524 \<le> off \<or> off + 3524 \<le> off' \<Longrightarrow> get_ed (put_ed d off r) off' = get_ed d off'"
  by (simp add: get_ed_def put_ed_def ed_obj.bytes_put_other)

lemma get_ed_put_inode_other [disk_simps]:
  "off' + 3524 \<le> off \<or> off + 32 \<le> off' \<Longrightarrow> get_ed (put_inode d off i) off' = get_ed d off'"
  by (simp add: get_ed_def put_inode_def ed_obj.get_put_bytes_other)

lemma get_ed_zero_block_other [disk_simps]:
  "off' + 3524 \<le> off \<or> off + 4096 \<le> off' \<Longrightarrow> get_ed (zero_block d off) off' = get_ed d off'"
  by (simp add: get_ed_def zero_block_def FILEBLOCK_def ed_obj.get_put_bytes_other)

lemma get_inode_zero_block_other [disk_simps]:
  "off' + 32 \<le> off \<or> off + 4096 \<le> off' \<Longrightarrow> get_inode (zero_block d off) off' = get_inode d off'"
  by (simp add: get_inode_def zero_block_def FILEBLOCK_def inode_obj.get_put_bytes_other)

lemma get_ed_write_other [disk_simps]:
  "off' + 3524 \<le> off \<or> off + int (length bs) \<le> off' \<Longrightarrow>
   get_ed (rd_write d off bs) off' = get_ed d off'"
  by (simp add: get_ed_def ed_obj.get_put_bytes_other)

lemma get_inode_write_other [disk_simps]:
  "off' + 32 \<le> off \<or> off + int (length bs) \<le> off' \<Longrightarrow>
   get_inode (rd_write d off bs) off' = get_inode d off'"
  by (simp add: get_inode_def inode_obj.get_put_bytes_other)

lemma read_put_inode_other [disk_simps]:
  "off' + int n \<le> off \<or> off + 32 \<le> off' \<Longrightarrow>
   rd_read (put_inode d off i) off' n = rd_read d off' n"
  by (simp add: put_inode_def rd_read_write_other)

lemma read_put_ed_other [disk_simps]:
  "wf_ed r \<Longrightarrow> off' + int n \<le> off \<or> off + 3524 \<le> off' \<Longrightarrow>
   rd_read (put_ed d off r) off' n = rd_read d off' n"
  by (simp add: put_ed_def ed_obj.bytes_put_other)

lemma get_ed_zero_block_same [disk_simps]: "get_ed (zero_block d off) off = zero_ed"
proof -
  have "rd_read (zero_block d off) off 3524 = take 3524 (rd_read (zero_block d off) off 4096)"
    by (simp add: rd_read_take)
  also have "\<dots> = replicate 3524 NUL"
    by (simp add: zero_block_def FILEBLOCK_def)
  finally show ?thesis
    by (simp add: get_ed_def dec_ed_zeros)
qed

end
