(* ===== verification/Fs.thy ===== *)
theory Fs
  imports Ramdisk
begin

text \<open>
  The on-disk file system of \<open>kernel/src/vfs.c\<close>: \<open>fsinit\<close>, \<open>fsgetinode\<close> (path walk, search, create,
  remove) and \<open>fslookup\<close>.  The model keeps the code's decomposition into a walk over the
  directories of a path, a scan of the last directory for the file or directory asked for, and the
  three things that can follow: return the inode number, remove the entry, create a new one.
  Scratch buffers obtained from \<open>pmm->alloc\<close> and given back are local values; messages printed
  under \<open>plock\<close> are left out.
\<close>

unbundle bit_operations_syntax

section \<open>State\<close>

record filesystem =
  fs_name :: string
  fsoff :: int
  inooff :: "int list"
  blooff :: int
  fs_dev :: nat

text \<open>
  Addresses the code stores in inodes: of the \<open>filesystem_t\<close> the operations work on, and of the
  table \<open>inode_ops\<close>.
\<close>

record fsenv =
  fs_at :: nat
  inode_ops_at :: nat

definition O_CREAT :: int where "O_CREAT = 0x1"
definition O_RDONLY :: int where "O_RDONLY = 0x10"
definition O_WRONLY :: int where "O_WRONLY = 0x100"
definition O_RDWR :: int where "O_RDWR = 0x110"
definition O_DIR :: int where "O_DIR = 0x1000"
definition O_CHECK :: int where "O_CHECK = 0x10000"
definition O_RM :: int where "O_RM = 0x10000000"

lemmas flag_defs = O_CREAT_def O_RDONLY_def O_WRONLY_def O_RDWR_def O_DIR_def O_CHECK_def O_RM_def

definition has :: "int \<Rightarrow> int \<Rightarrow> bool" where
  "has flags b \<longleftrightarrow> flags AND b \<noteq> 0"

text \<open>The \<open>uint32_t\<close> value \<open>-1\<close> that \<open>fsgetinode\<close> returns for "no inode".\<close>

definition NO_INO :: nat where "NO_INO = 4294967295"

definition fsinit :: "filesystem \<Rightarrow> string \<Rightarrow> nat \<Rightarrow> filesystem" where
  "fsinit fs name dev = fs\<lparr>fs_name := name, fs_dev := dev,
     inooff := replicate NFILEINFS (- 1), blooff := - 1\<rparr>"

text \<open>Where inode number \<open>i\<close> and block number \<open>n\<close> of a file system lie on its disk.\<close>

definition ino_addr :: "filesystem \<Rightarrow> nat \<Rightarrow> int" where
  "ino_addr fs i = fsoff fs + inooff fs ! i"

definition blk_addr :: "filesystem \<Rightarrow> nat \<Rightarrow> int" where
  "blk_addr fs n = fsoff fs + blooff fs + int FILEBLOCK * int n"

section \<open>Path walk and directory scan\<close>

text \<open>
  \<open>dirname\<close> is a slash followed by the bytes of \<open>total\<close> from index 1 up to the next slash; what
  follows is \<open>rest\<close>.  The buffer has 35 bytes, so more than 33 bytes of name lose the terminator
  or run past its end.
\<close>

definition first_comp :: "string \<Rightarrow> string" where
  "first_comp tot = takeWhile (\<lambda>c. c \<noteq> CHR ''/'') (drop 1 tot)"

text \<open>
  \<open>strcmp\<close> of an entry's name field with a string: \<open>None\<close> where it reads past the name (no
  terminator in the field, or two empty strings).
\<close>

definition name_eq :: "edt \<Rightarrow> string \<Rightarrow> bool option" where
  "name_eq e s =
     (if NUL \<notin> set (e_name e) \<or> cstr (e_name e) = [] \<and> s = [] then None
      else Some (cstr (e_name e) = s))"

datatype scan = Scan_miss | Scan_clash | Scan_assert | Scan_overread | Scan_hit nat

fun scan_file :: "string \<Rightarrow> edt list \<Rightarrow> nat \<Rightarrow> scan" where
  "scan_file nm [] ind = Scan_miss"
| "scan_file nm (e # es) ind =
     (if e_valid e = 1 then
        case name_eq e (CHR ''/'' # nm) of
          None \<Rightarrow> Scan_overread
        | Some True \<Rightarrow> if e_ftype e = EXT2_FT_DIR then Scan_clash else Scan_assert
        | Some False \<Rightarrow>
            if e_ftype e = EXT2_FT_REG_FILE then
              case name_eq e nm of
                None \<Rightarrow> Scan_overread
              | Some True \<Rightarrow> Scan_hit ind
              | Some False \<Rightarrow> scan_file nm es (Suc ind)
            else scan_file nm es (Suc ind)
      else scan_file nm es (Suc ind))"

fun scan_dir :: "string \<Rightarrow> edt list \<Rightarrow> nat \<Rightarrow> scan" where
  "scan_dir nm [] ind = Scan_miss"
| "scan_dir nm (e # es) ind =
     (if e_valid e = 1 then
        case name_eq e nm of
          None \<Rightarrow> Scan_overread
        | Some True \<Rightarrow> if e_ftype e = EXT2_FT_REG_FILE then Scan_clash else Scan_assert
        | Some False \<Rightarrow>
            if e_ftype e = EXT2_FT_DIR then
              case name_eq e (CHR ''/'' # nm) of
                None \<Rightarrow> Scan_overread
              | Some True \<Rightarrow> Scan_hit ind
              | Some False \<Rightarrow> scan_dir nm es (Suc ind)
            else scan_dir nm es (Suc ind)
      else scan_dir nm es (Suc ind))"

text \<open>The loop for a component that is not the last: find a directory entry of that name.\<close>

fun find_dir :: "string \<Rightarrow> edt list \<Rightarrow> edt option res" where
  "find_dir nm [] = Inr None"
| "find_dir nm (e # es) =
     (if e_valid e = 1 \<and> e_ftype e = EXT2_FT_DIR then
        case name_eq e (CHR ''/'' # nm) of
          None \<Rightarrow> Inl Overrun
        | Some True \<Rightarrow> Inr (Some e)
        | Some False \<Rightarrow> find_dir nm es
      else find_dir nm es)"

datatype walk_end = Walk_none | Walk_last inode string

text \<open>
  The \<open>while\<close> loop of \<open>fsgetinode\<close>.  \<open>cur\<close> is the inode buffer that each step overwrites with
  the inode of the directory entered.  A non-empty \<open>total\<close> gets shorter with every step; only the
  empty path keeps \<open>total\<close> empty, and the fuel bounds that case by the number of inodes.
\<close>

fun walk :: "nat \<Rightarrow> filesystem \<Rightarrow> disk \<Rightarrow> inode \<Rightarrow> string \<Rightarrow> walk_end res" where
  "walk 0 fs d cur tot = Inl Diverge"
| "walk (Suc fuel) fs d cur tot =
     (let nm = first_comp tot in
      rbind (require (length nm \<le> 33) Overrun) (\<lambda>_.
      if Suc (length nm) = length tot then Inr (Walk_last cur nm)
      else rbind (find_dir nm (etrs (get_ed d (blk_addr fs (i_nblocks cur))))) (\<lambda>r.
        case r of
          None \<Rightarrow> Inr Walk_none
        | Some e \<Rightarrow>
            rbind (require (e_ino e < NFILEINFS) Overrun) (\<lambda>_.
            walk fuel fs d (get_inode d (ino_addr fs (e_ino e))) (drop (Suc (length nm)) tot)))))"

section \<open>Removing and creating\<close>

definition clear_valid :: "ed \<Rightarrow> nat \<Rightarrow> ed" where
  "clear_valid r ind = r\<lparr>etrs := (etrs r)[ind := (etrs r ! ind)\<lparr>e_valid := 0\<rparr>]\<rparr>"

definition remove_file ::
  "filesystem \<Rightarrow> disk \<Rightarrow> inode \<Rightarrow> ed \<Rightarrow> nat \<Rightarrow> (nat \<times> filesystem \<times> disk) res" where
  "remove_file fs d cur r ind =
     (let ret = e_ino (etrs r ! ind);
          d1 = zero_block d (blk_addr fs ret);
          d2 = put_ed d1 (blk_addr fs (i_nblocks cur)) (clear_valid r ind)
      in Inr (ret, fs, d2))"

definition remove_dir ::
  "filesystem \<Rightarrow> disk \<Rightarrow> inode \<Rightarrow> ed \<Rightarrow> nat \<Rightarrow> (nat \<times> filesystem \<times> disk) res" where
  "remove_dir fs d cur r ind =
     (let ret = e_ino (etrs r ! ind);
          rdir = get_ed d (blk_addr fs ret)
      in if list_ex (\<lambda>e. e_valid e = 1) (etrs rdir) then Inr (NO_INO, fs, d)
         else
           let d1 = put_ed d (blk_addr fs ret) zero_ed;
               d2 = put_ed d1 (blk_addr fs (i_nblocks cur)) (clear_valid r ind)
           in Inr (ret, fs, d2))"

text \<open>
  \<open>strncpy(name, s, strlen(s) + 1)\<close> into the 32-byte name field: the string and its terminator,
  the bytes behind them stay.
\<close>

definition set_name :: "char list \<Rightarrow> string \<Rightarrow> char list res" where
  "set_name old s =
     rbind (require (length s + 1 \<le> 32) Overrun) (\<lambda>_. Inr (s @ NUL # drop (length s + 1) old))"

definition new_inode :: "fsenv \<Rightarrow> filesystem \<Rightarrow> nat \<Rightarrow> inode" where
  "new_inode E fs i =
     \<lparr>i_mod = nat O_RDWR, i_size = 0, i_nblocks = i, i_offset = 4 + int (i * sizeof_inode),
      i_refcnt = 0, i_ptr = fs_dev fs, i_fs = fs_at E, i_ops = inode_ops_at E\<rparr>"

text \<open>The search for a free directory slot and what it stores there.\<close>

definition add_entry :: "ed \<Rightarrow> nat \<Rightarrow> nat \<Rightarrow> string \<Rightarrow> (nat \<times> ed) res" where
  "add_entry r ino ftype nm =
     (case find_idx (\<lambda>e. e_valid e = 0) (etrs r) of
        None \<Rightarrow> Inr (NFILEINFS, r)
      | Some j \<Rightarrow>
          rbind (set_name (e_name (etrs r ! j)) nm) (\<lambda>name.
          Inr (j, r\<lparr>etrs := (etrs r)[j :=
            \<lparr>e_ino = ino, e_ftype = ftype, e_valid = 1, e_name = name\<rparr>]\<rparr>)))"

definition create_inode ::
  "fsenv \<Rightarrow> filesystem \<Rightarrow> disk \<Rightarrow> inode \<Rightarrow> string \<Rightarrow> bool \<Rightarrow> (nat \<times> filesystem \<times> disk) res" where
  "create_inode E fs d cur nm isdir =
     (let r = get_ed d (blk_addr fs (i_nblocks cur)) in
      case find_idx (\<lambda>x. x = - 1) (inooff fs) of
        None \<Rightarrow> Inr (NO_INO, fs, d)
      | Some i \<Rightarrow>
          let fs' = fs\<lparr>inooff := (inooff fs)[i := 4 + int (i * sizeof_inode)]\<rparr>;
              d1 = put_inode d (ino_addr fs' i) (new_inode E fs i);
              d2 = (if isdir then put_ed d1 (blk_addr fs i) zero_ed else zero_block d1 (blk_addr fs i))
          in
          rbind (add_entry r i (if isdir then EXT2_FT_DIR else EXT2_FT_REG_FILE)
                   (if isdir then CHR ''/'' # nm else nm)) (\<lambda>(j, r').
          let grow = (j = maxuse r);
              cur' = (if grow then cur\<lparr>i_size := (i_size cur + sizeof_edt) mod 2 ^ 32\<rparr> else cur);
              d3 = (if grow then put_inode d2 (fsoff fs + i_offset cur) cur' else d2);
              r'' = (if grow then r'\<lparr>maxuse := maxuse r + 1\<rparr> else r')
          in Inr (i, fs', put_ed d3 (blk_addr fs (i_nblocks cur)) r'')))"

section \<open>\<open>fsgetinode\<close> and \<open>fslookup\<close>\<close>

definition fsgetinode ::
  "fsenv \<Rightarrow> filesystem \<Rightarrow> disk \<Rightarrow> inode \<Rightarrow> string \<Rightarrow> int \<Rightarrow> (nat \<times> filesystem \<times> disk) res" where
  "fsgetinode E fs d cur path flags =
     rbind (require (length path \<le> 129) Overrun) (\<lambda>_.
     rbind (require (i_fs cur = fs_at E \<and> i_ptr cur = fs_dev fs) Wild_ptr) (\<lambda>_.
     rbind (walk (length path + NFILEINFS + 1) fs d cur path) (\<lambda>w.
     case w of
       Walk_none \<Rightarrow> Inr (NO_INO, fs, d)
     | Walk_last c nm \<Rightarrow>
         let r = get_ed d (blk_addr fs (i_nblocks c));
             isdir = has flags O_DIR
         in
         case (if isdir then scan_dir nm (etrs r) 0 else scan_file nm (etrs r) 0) of
           Scan_overread \<Rightarrow> Inl Overrun
         | Scan_assert \<Rightarrow> Inl Assert_fail
         | Scan_clash \<Rightarrow> Inr (NO_INO, fs, d)
         | Scan_hit ind \<Rightarrow>
             if \<not> has flags O_RM then Inr (e_ino (etrs r ! ind), fs, d)
             else if isdir then remove_dir fs d c r ind
             else remove_file fs d c r ind
         | Scan_miss \<Rightarrow>
             if has flags O_CREAT then create_inode E fs d c nm isdir
             else Inr (NO_INO, fs, d))))"

definition fslookup ::
  "fsenv \<Rightarrow> filesystem \<Rightarrow> disk \<Rightarrow> string \<Rightarrow> int \<Rightarrow> (inode option \<times> filesystem \<times> disk) res" where
  "fslookup E fs d path flags =
     rbind (require (fs_dev fs \<noteq> 0) Null_deref) (\<lambda>_.
     let root = get_inode d (ino_addr fs 0) in
     rbind (fsgetinode E fs d root path flags) (\<lambda>(inonum, fs1, d1).
     if inonum = NO_INO then Inr (None, fs1, d1)
     else
       rbind (require (inonum < NFILEINFS) Overrun) (\<lambda>_.
       let ret = get_inode d1 (ino_addr fs1 inonum) in
       if has flags O_RM
       then Inr (Some ret, fs1\<lparr>inooff := (inooff fs1)[inonum := - 1]\<rparr>,
                 put_inode d1 (ino_addr fs1 inonum) zero_inode)
       else Inr (Some ret, fs1, d1))))"

end
