(* ===== verification/Fs_Inv.thy ===== *)
theory Fs_Inv
  imports Fs
begin

text \<open>
  The invariant of the on-disk file system and its abstraction to a tree of directories: the
  geometry that keeps inodes and blocks apart, what a well-formed directory entry is, the tree
  that the directory blocks spell out, and the lemmas that relate the code's searches to it.
\<close>

section \<open>Geometry\<close>

definition fs_geom :: "fsenv \<Rightarrow> filesystem \<Rightarrow> bool" where
  "fs_geom E fs \<longleftrightarrow> 0 \<le> fsoff fs \<and> fsoff fs + RAMBLOCK \<le> RD_SIZE \<and> blooff fs = 4 + INOSIZE \<and>
     length (inooff fs) = NFILEINFS \<and> inooff fs ! 0 = 4 \<and>
     (\<forall>i < NFILEINFS. inooff fs ! i = - 1 \<or> inooff fs ! i = 4 + int (i * sizeof_inode)) \<and>
     fs_dev fs \<noteq> 0 \<and> fs_dev fs < 2 ^ 32 \<and> fs_at E < 2 ^ 32 \<and> inode_ops_at E < 2 ^ 32"

definition used :: "filesystem \<Rightarrow> nat \<Rightarrow> bool" where
  "used fs i \<longleftrightarrow> i < NFILEINFS \<and> inooff fs ! i \<noteq> - 1"

definition iaddr :: "filesystem \<Rightarrow> nat \<Rightarrow> int" where
  "iaddr fs i = fsoff fs + 4 + 32 * int i"

lemmas size_defs = NFILEINFS_def FILEBLOCK_def sizeof_inode_def sizeof_edt_def sizeof_ed_def INOSIZE_def

lemma blk_addr_geom: "fs_geom E fs \<Longrightarrow> blk_addr fs n = fsoff fs + 2564 + 4096 * int n"
  by (simp add: fs_geom_def blk_addr_def size_defs)

lemma ino_addr_used: "fs_geom E fs \<Longrightarrow> used fs i \<Longrightarrow> ino_addr fs i = iaddr fs i"
  by (auto simp: fs_geom_def used_def ino_addr_def iaddr_def size_defs)

lemma used_0: "fs_geom E fs \<Longrightarrow> used fs 0"
  by (simp add: fs_geom_def used_def size_defs)

lemma used_less: "used fs i \<Longrightarrow> i < 80"
  by (simp add: used_def NFILEINFS_def)

text \<open>Reads over writes, by object number.\<close>

lemma dir_put_dir:
  "fs_geom E fs \<Longrightarrow> wf_ed r \<Longrightarrow>
   get_ed (put_ed d (blk_addr fs j) r) (blk_addr fs i) = (if i = j then r else get_ed d (blk_addr fs i))"
proof -
  assume g: "fs_geom E fs" and wf: "wf_ed r"
  consider "i = j" | "i < j" | "j < i" by linarith
  then show ?thesis
  proof cases
    case 1
    with wf show ?thesis by (simp add: disk_simps)
  next
    case 2
    with g wf show ?thesis by (subst get_ed_put_ed_other) (auto simp: blk_addr_geom)
  next
    case 3
    with g wf show ?thesis by (subst get_ed_put_ed_other) (auto simp: blk_addr_geom)
  qed
qed

lemma dir_zero_block:
  "fs_geom E fs \<Longrightarrow>
   get_ed (zero_block d (blk_addr fs j)) (blk_addr fs i) = (if i = j then zero_ed else get_ed d (blk_addr fs i))"
proof -
  assume g: "fs_geom E fs"
  consider "i = j" | "i < j" | "j < i" by linarith
  then show ?thesis
  proof cases
    case 1
    then show ?thesis by (simp add: disk_simps)
  next
    case 2
    with g show ?thesis by (subst get_ed_zero_block_other) (auto simp: blk_addr_geom)
  next
    case 3
    with g show ?thesis by (subst get_ed_zero_block_other) (auto simp: blk_addr_geom)
  qed
qed

lemma dir_put_ino:
  "fs_geom E fs \<Longrightarrow> j < 80 \<Longrightarrow>
   get_ed (put_inode d (iaddr fs j) x) (blk_addr fs i) = get_ed d (blk_addr fs i)"
  by (subst get_ed_put_inode_other) (auto simp: blk_addr_geom iaddr_def)

lemma ino_put_dir:
  "fs_geom E fs \<Longrightarrow> i < 80 \<Longrightarrow> wf_ed r \<Longrightarrow>
   get_inode (put_ed d (blk_addr fs j) r) (iaddr fs i) = get_inode d (iaddr fs i)"
  by (subst get_inode_put_ed_other) (auto simp: blk_addr_geom iaddr_def)

lemma ino_zero_block:
  "fs_geom E fs \<Longrightarrow> i < 80 \<Longrightarrow>
   get_inode (zero_block d (blk_addr fs j)) (iaddr fs i) = get_inode d (iaddr fs i)"
  by (subst get_inode_zero_block_other) (auto simp: blk_addr_geom iaddr_def)

lemma ino_put_ino:
  "wf_inode x \<Longrightarrow>
   get_inode (put_inode d (iaddr fs j) x) (iaddr fs i) = (if i = j then x else get_inode d (iaddr fs i))"
proof -
  assume wf: "wf_inode x"
  consider "i = j" | "i < j" | "j < i" by linarith
  then show ?thesis
  proof cases
    case 1
    with wf show ?thesis by (simp add: disk_simps)
  next
    case 2
    then show ?thesis by (subst get_inode_put_inode_other) (auto simp: iaddr_def)
  next
    case 3
    then show ?thesis by (subst get_inode_put_inode_other) (auto simp: iaddr_def)
  qed
qed

lemmas layout_simps = dir_put_dir dir_zero_block dir_put_ino ino_put_dir ino_zero_block ino_put_ino

section \<open>Directory entries and names\<close>

text \<open>A directory is stored under its name with a leading slash, a file under its bare name.\<close>

definition entry_name :: "edt \<Rightarrow> string" where
  "entry_name e = (if e_ftype e = EXT2_FT_DIR then drop 1 (cstr (e_name e)) else cstr (e_name e))"

definition good_name :: "string \<Rightarrow> bool" where
  "good_name c \<longleftrightarrow> c \<noteq> [] \<and> CHR ''/'' \<notin> set c \<and> NUL \<notin> set c \<and> length c \<le> 30"

definition entry_ok :: "edt \<Rightarrow> bool" where
  "entry_ok e \<longleftrightarrow> e_valid e \<le> 1 \<and>
     (e_valid e = 1 \<longrightarrow> NUL \<in> set (e_name e) \<and> entry_name e \<noteq> [] \<and> CHR ''/'' \<notin> set (entry_name e) \<and>
        (e_ftype e = EXT2_FT_DIR \<and> hd (cstr (e_name e)) = CHR ''/'' \<or> e_ftype e = EXT2_FT_REG_FILE))"

definition live :: "string \<Rightarrow> edt \<Rightarrow> bool" where
  "live c e \<longleftrightarrow> e_valid e = 1 \<and> entry_name e = c"

lemma ftype_neq [simp]: "EXT2_FT_DIR \<noteq> EXT2_FT_REG_FILE" "EXT2_FT_REG_FILE \<noteq> EXT2_FT_DIR"
  by (simp_all add: EXT2_FT_DIR_def EXT2_FT_REG_FILE_def)

lemma entry_cstr_dir:
  "entry_ok e \<Longrightarrow> e_valid e = 1 \<Longrightarrow> e_ftype e = EXT2_FT_DIR \<Longrightarrow> cstr (e_name e) = CHR ''/'' # entry_name e"
  by (cases "cstr (e_name e)") (auto simp: entry_ok_def entry_name_def)

lemma entry_cstr_file:
  "e_ftype e = EXT2_FT_REG_FILE \<Longrightarrow> cstr (e_name e) = entry_name e"
  by (simp add: entry_name_def)

lemma entry_ftype:
  "entry_ok e \<Longrightarrow> e_valid e = 1 \<Longrightarrow> e_ftype e = EXT2_FT_DIR \<or> e_ftype e = EXT2_FT_REG_FILE"
  by (auto simp: entry_ok_def)

lemma name_eq_dir:
  assumes "entry_ok e" and "e_valid e = 1" and "good_name c"
  shows "name_eq e (CHR ''/'' # c) = Some (e_ftype e = EXT2_FT_DIR \<and> live c e)"
  using entry_ftype [OF assms(1,2)]
proof
  assume "e_ftype e = EXT2_FT_DIR"
  with assms show ?thesis
    by (auto simp: name_eq_def entry_cstr_dir live_def) (auto simp: entry_ok_def)
next
  assume f: "e_ftype e = EXT2_FT_REG_FILE"
  have "CHR ''/'' \<notin> set (entry_name e)" and "NUL \<in> set (e_name e)"
    using assms by (auto simp: entry_ok_def)
  with f assms show ?thesis
    by (auto simp: name_eq_def entry_cstr_file live_def)
qed

lemma name_eq_file:
  assumes "entry_ok e" and "e_valid e = 1" and "good_name c"
  shows "name_eq e c = Some (e_ftype e = EXT2_FT_REG_FILE \<and> live c e)"
  using entry_ftype [OF assms(1,2)]
proof
  assume "e_ftype e = EXT2_FT_DIR"
  with assms show ?thesis
    by (auto simp: name_eq_def entry_cstr_dir live_def good_name_def) (auto simp: entry_ok_def)
next
  assume f: "e_ftype e = EXT2_FT_REG_FILE"
  with assms show ?thesis
    by (auto simp: name_eq_def entry_cstr_file live_def good_name_def) (auto simp: entry_ok_def)
qed

text \<open>The code's searches, on well-formed entries, are the search for the live entry of a name.\<close>

lemma scan_file_live:
  assumes "\<forall>e \<in> set es. entry_ok e" and "good_name c"
  shows "scan_file c es i = (case find_idx (live c) es of None \<Rightarrow> Scan_miss
    | Some k \<Rightarrow> if e_ftype (es ! k) = EXT2_FT_DIR then Scan_clash else Scan_hit (i + k))"
  using assms(1)
proof (induction es arbitrary: i)
  case Nil
  then show ?case by simp
next
  case (Cons e es)
  then have ok: "entry_ok e" by simp
  show ?case
  proof (cases "e_valid e = 1")
    case True
    note eqs = name_eq_dir [OF ok True assms(2)] name_eq_file [OF ok True assms(2)]
    show ?thesis
      using entry_ftype [OF ok True] Cons True eqs
      by (cases "live c e"; cases "find_idx (live c) es") auto
  next
    case False
    then have "\<not> live c e" by (simp add: live_def)
    with False Cons show ?thesis
      by (auto split: option.split)
  qed
qed

lemma scan_dir_live:
  assumes "\<forall>e \<in> set es. entry_ok e" and "good_name c"
  shows "scan_dir c es i = (case find_idx (live c) es of None \<Rightarrow> Scan_miss
    | Some k \<Rightarrow> if e_ftype (es ! k) = EXT2_FT_DIR then Scan_hit (i + k) else Scan_clash)"
  using assms(1)
proof (induction es arbitrary: i)
  case Nil
  then show ?case by simp
next
  case (Cons e es)
  then have ok: "entry_ok e" by simp
  show ?case
  proof (cases "e_valid e = 1")
    case True
    note eqs = name_eq_dir [OF ok True assms(2)] name_eq_file [OF ok True assms(2)]
    show ?thesis
      using entry_ftype [OF ok True] Cons True eqs
      by (cases "live c e"; cases "find_idx (live c) es") auto
  next
    case False
    then have "\<not> live c e" by (simp add: live_def)
    with False Cons show ?thesis
      by (auto split: option.split)
  qed
qed

definition names_distinct :: "edt list \<Rightarrow> bool" where
  "names_distinct es \<longleftrightarrow> (\<forall>i < length es. \<forall>j < length es.
     e_valid (es ! i) = 1 \<longrightarrow> e_valid (es ! j) = 1 \<longrightarrow> entry_name (es ! i) = entry_name (es ! j) \<longrightarrow> i = j)"

lemma names_distinct_Cons:
  "names_distinct (e # es) \<longleftrightarrow>
    names_distinct es \<and> (e_valid e = 1 \<longrightarrow> (\<forall>f \<in> set es. \<not> live (entry_name e) f))"
  by (auto simp: names_distinct_def live_def all_set_conv_all_nth All_less_Suc2 eq_commute)

lemma find_dir_live:
  assumes "\<forall>e \<in> set es. entry_ok e" and "good_name c" and "names_distinct es"
  shows "find_dir c es = Inr (case find_idx (live c) es of None \<Rightarrow> None
    | Some k \<Rightarrow> if e_ftype (es ! k) = EXT2_FT_DIR then Some (es ! k) else None)"
  using assms(1,3)
proof (induction es)
  case Nil
  then show ?case by simp
next
  case (Cons e es)
  then have ok: "entry_ok e" by simp
  show ?case
  proof (cases "live c e")
    case True
    then have v: "e_valid e = 1" and "\<forall>f \<in> set es. \<not> live c f"
      using Cons.prems by (auto simp: names_distinct_Cons live_def)
    then have "find_idx (live c) es = None" by (simp add: find_idx_None)
    with True v Cons ok assms(2) show ?thesis
      by (auto simp: name_eq_dir names_distinct_Cons)
  next
    case False
    have IH: "find_dir c es = Inr (case find_idx (live c) es of None \<Rightarrow> None
        | Some k \<Rightarrow> if e_ftype (es ! k) = EXT2_FT_DIR then Some (es ! k) else None)"
      using Cons names_distinct_Cons by auto
    show ?thesis
    proof (cases "e_valid e = 1")
      case True
      with False IH show ?thesis
        by (simp add: name_eq_dir [OF ok True assms(2)] split: option.split)
    next
      case nv: False
      with False IH show ?thesis
        by (simp split: option.split)
    qed
  qed
qed

section \<open>Paths\<close>

definition path_of :: "string list \<Rightarrow> string" where
  "path_of cs = concat (map (\<lambda>c. CHR ''/'' # c) cs)"

lemma path_of_Cons: "path_of (c # cs) = CHR ''/'' # c @ path_of cs"
  by (simp add: path_of_def)

lemma path_of_Nil [simp]: "path_of [] = []"
  by (simp add: path_of_def)

lemma path_of_append: "path_of (cs @ ds) = path_of cs @ path_of ds"
  by (simp add: path_of_def)

lemma first_comp_path_of:
  assumes "CHR ''/'' \<notin> set c"
  shows "first_comp (path_of (c # cs)) = c"
proof (cases cs)
  case Nil
  with assms show ?thesis
    by (auto simp: first_comp_def path_of_Cons takeWhile_eq_all_conv)
next
  case (Cons b bs)
  have "takeWhile (\<lambda>x. x \<noteq> CHR ''/'') (c @ CHR ''/'' # b @ path_of bs) = c"
    using assms by (subst takeWhile_append2) auto
  with Cons show ?thesis
    by (simp add: first_comp_def path_of_Cons)
qed

lemma rest_path_of: "drop (Suc (length c)) (path_of (c # cs)) = path_of cs"
  by (simp add: path_of_Cons)

lemma last_path_of: "Suc (length c) = length (path_of (c # cs)) \<longleftrightarrow> cs = []"
  by (cases cs) (simp_all add: path_of_Cons)

section \<open>The tree and the invariant\<close>

text \<open>
  The abstract state: for every directory inode the names it holds, each with whether it is a
  directory and its inode number.
\<close>

type_synonym tree = "nat \<Rightarrow> string \<Rightarrow> (bool \<times> nat) option"

definition dir_map :: "edt list \<Rightarrow> string \<Rightarrow> (bool \<times> nat) option" where
  "dir_map es c = map_option (\<lambda>k. (e_ftype (es ! k) = EXT2_FT_DIR, e_ino (es ! k))) (find_idx (live c) es)"

definition entries :: "filesystem \<Rightarrow> disk \<Rightarrow> nat \<Rightarrow> edt list" where
  "entries fs d i = etrs (get_ed d (blk_addr fs i))"

definition node :: "filesystem \<Rightarrow> disk \<Rightarrow> nat \<Rightarrow> inode" where
  "node fs d i = get_inode d (iaddr fs i)"

definition tree_of :: "filesystem \<Rightarrow> disk \<Rightarrow> nat set \<Rightarrow> tree" where
  "tree_of fs d D = (\<lambda>i. if i \<in> D then dir_map (entries fs d i) else Map.empty)"

fun twalk :: "tree \<Rightarrow> nat \<Rightarrow> string list \<Rightarrow> nat option" where
  "twalk t n [] = Some n"
| "twalk t n (c # cs) = (case t n c of Some (True, m) \<Rightarrow> twalk t m cs | _ \<Rightarrow> None)"

text \<open>
  \<open>D\<close> is the set of inode numbers that are directories.  A reference to inode \<open>i\<close> is a valid
  entry with that number in one of them; a directory other than the root has one reference, a file
  as many as its \<open>refcnt\<close> says, plus one.
\<close>

definition refs :: "filesystem \<Rightarrow> disk \<Rightarrow> nat set \<Rightarrow> nat \<Rightarrow> (nat \<times> nat) set" where
  "refs fs d D i = {(p, k). p \<in> D \<and> k < 80 \<and> e_valid (entries fs d p ! k) = 1 \<and>
     e_ino (entries fs d p ! k) = i}"

definition node_ok :: "fsenv \<Rightarrow> filesystem \<Rightarrow> disk \<Rightarrow> nat \<Rightarrow> bool" where
  "node_ok E fs d i \<longleftrightarrow> i_nblocks (node fs d i) = i \<and> i_offset (node fs d i) = 4 + 32 * int i \<and>
     i_fs (node fs d i) = fs_at E \<and> i_ptr (node fs d i) = fs_dev fs"

definition entry_target_ok :: "filesystem \<Rightarrow> nat set \<Rightarrow> edt \<Rightarrow> bool" where
  "entry_target_ok fs D e \<longleftrightarrow> entry_ok e \<and>
     (e_valid e = 1 \<longrightarrow> used fs (e_ino e) \<and> e_ino e \<noteq> 0 \<and>
        (e_ftype e = EXT2_FT_DIR \<longleftrightarrow> e_ino e \<in> D))"

definition dir_ok :: "filesystem \<Rightarrow> disk \<Rightarrow> nat set \<Rightarrow> nat \<Rightarrow> bool" where
  "dir_ok fs d D i \<longleftrightarrow> (\<forall>e \<in> set (entries fs d i). entry_target_ok fs D e) \<and>
     names_distinct (entries fs d i)"

definition fs_struct :: "fsenv \<Rightarrow> filesystem \<Rightarrow> disk \<Rightarrow> nat set \<Rightarrow> bool" where
  "fs_struct E fs d D \<longleftrightarrow> fs_geom E fs \<and> 0 \<in> D \<and>
     (\<forall>i. used fs i \<longrightarrow> node_ok E fs d i) \<and> (\<forall>i \<in> D. used fs i \<and> dir_ok fs d D i)"

text \<open>
  \<open>fs_struct\<close> is what searches need; \<open>fs_inv\<close> adds the link counts, which are wrong for a moment
  inside \<open>vfsunlink\<close>.
\<close>

definition fs_inv :: "fsenv \<Rightarrow> filesystem \<Rightarrow> disk \<Rightarrow> nat set \<Rightarrow> bool" where
  "fs_inv E fs d D \<longleftrightarrow> fs_struct E fs d D \<and>
     (\<forall>i. used fs i \<longrightarrow> i \<noteq> 0 \<longrightarrow>
        int (card (refs fs d D i)) = (if i \<in> D then 1 else i_refcnt (node fs d i) + 1))"

lemma fs_structD:
  assumes "fs_struct E fs d D"
  shows "fs_geom E fs" and "0 \<in> D" and "used fs i \<Longrightarrow> node_ok E fs d i"
    and "i \<in> D \<Longrightarrow> used fs i" and "i \<in> D \<Longrightarrow> dir_ok fs d D i"
  using assms by (auto simp: fs_struct_def)

lemma fs_inv_struct: "fs_inv E fs d D \<Longrightarrow> fs_struct E fs d D"
  by (simp add: fs_inv_def)

lemma fs_invD:
  assumes "fs_inv E fs d D"
  shows "fs_geom E fs" and "0 \<in> D" and "used fs i \<Longrightarrow> node_ok E fs d i"
    and "i \<in> D \<Longrightarrow> used fs i" and "i \<in> D \<Longrightarrow> dir_ok fs d D i"
    and "used fs i \<Longrightarrow> i \<noteq> 0 \<Longrightarrow>
      int (card (refs fs d D i)) = (if i \<in> D then 1 else i_refcnt (node fs d i) + 1)"
  using assms by (auto simp: fs_inv_def fs_struct_def)

lemma length_entries [simp]: "length (entries fs d i) = 80"
  by (simp add: entries_def)

lemma dir_okD:
  assumes "dir_ok fs d D i"
  shows "\<forall>e \<in> set (entries fs d i). entry_ok e" and "names_distinct (entries fs d i)"
    and "e \<in> set (entries fs d i) \<Longrightarrow> entry_target_ok fs D e"
  using assms by (auto simp: dir_ok_def entry_target_ok_def)

lemma dir_map_SomeD:
  assumes "dir_map es c = Some (b, n)"
  obtains k where "k < length es" and "live c (es ! k)" and "find_idx (live c) es = Some k"
    and "b = (e_ftype (es ! k) = EXT2_FT_DIR)" and "n = e_ino (es ! k)"
  using assms by (auto simp: dir_map_def dest: find_idx_SomeD)

lemma tree_target:
  assumes "fs_struct E fs d D" and "tree_of fs d D p c = Some (b, n)"
  shows "used fs n" and "n \<noteq> 0" and "b \<longleftrightarrow> n \<in> D"
proof -
  from assms(2) have p: "p \<in> D" and "dir_map (entries fs d p) c = Some (b, n)"
    by (auto simp: tree_of_def split: if_splits)
  from this(2) obtain k where k: "k < 80" "live c (entries fs d p ! k)"
    and b: "b = (e_ftype (entries fs d p ! k) = EXT2_FT_DIR)" and n: "n = e_ino (entries fs d p ! k)"
    by (auto elim: dir_map_SomeD)
  have "entry_target_ok fs D (entries fs d p ! k)"
    using fs_structD(5) [OF assms(1) p] k(1) by (auto intro!: dir_okD(3))
  with k(2) b n show "used fs n" and "n \<noteq> 0" and "b \<longleftrightarrow> n \<in> D"
    by (auto simp: entry_target_ok_def live_def)
qed

lemma twalk_dir: "fs_struct E fs d D \<Longrightarrow> n \<in> D \<Longrightarrow> twalk (tree_of fs d D) n cs = Some m \<Longrightarrow> m \<in> D"
proof (induction cs arbitrary: n)
  case Nil
  then show ?case by simp
next
  case (Cons c cs)
  then obtain k where "tree_of fs d D n c = Some (True, k)" and "twalk (tree_of fs d D) k cs = Some m"
    by (auto split: option.splits prod.splits bool.splits)
  with Cons tree_target(3) [OF Cons.prems(1) this(1)] show ?case by auto
qed

section \<open>The path walk of \<open>fsgetinode\<close>\<close>

lemma node_get: "fs_geom E fs \<Longrightarrow> used fs i \<Longrightarrow> get_inode d (ino_addr fs i) = node fs d i"
  by (simp add: ino_addr_used node_def)

lemma node_nblocks: "fs_struct E fs d D \<Longrightarrow> used fs i \<Longrightarrow> i_nblocks (node fs d i) = i"
  using fs_structD(3) by (auto simp: node_ok_def)

lemma walk_path:
  assumes inv: "fs_struct E fs d D" and "n \<in> D" and "\<forall>c \<in> set cs. good_name c"
    and "good_name c" and "length cs < fuel"
  shows "walk fuel fs d (node fs d n) (path_of (cs @ [c])) =
    Inr (case twalk (tree_of fs d D) n cs of None \<Rightarrow> Walk_none | Some m \<Rightarrow> Walk_last (node fs d m) c)"
  using assms(2,3,5)
proof (induction cs arbitrary: n fuel)
  case Nil
  then obtain f where "fuel = Suc f" by (cases fuel) auto
  with assms(4) last_path_of [of c "[]"] show ?case
    by (simp add: first_comp_path_of good_name_def)
next
  case (Cons b cs)
  then obtain f where fuel: "fuel = Suc f" and "length cs < f" by (cases fuel) auto
  have b: "first_comp (path_of (b # cs @ [c])) = b" "length b \<le> 33" and gb: "good_name b"
    using Cons.prems by (auto simp: good_name_def intro!: first_comp_path_of)
  have blk: "i_nblocks (node fs d n) = n"
    using node_nblocks [OF inv] fs_structD(4) [OF inv Cons.prems(1)] by simp
  note dn = fs_structD(5) [OF inv Cons.prems(1)]
  have fd: "find_dir b (etrs (get_ed d (blk_addr fs n))) =
      Inr (case find_idx (live b) (entries fs d n) of None \<Rightarrow> None
        | Some k \<Rightarrow> if e_ftype (entries fs d n ! k) = EXT2_FT_DIR then Some (entries fs d n ! k) else None)"
    using find_dir_live [OF dir_okD(1) [OF dn] gb dir_okD(2) [OF dn]] by (simp add: entries_def)
  have notlast: "Suc (length b) \<noteq> length (path_of (b # cs @ [c]))"
    using last_path_of [of b "cs @ [c]"] by simp
  show ?case
  proof (cases "find_idx (live b) (entries fs d n)")
    case None
    with Cons.prems(1) have "tree_of fs d D n b = None"
      by (simp add: tree_of_def dir_map_def)
    with None fuel b notlast fd show ?thesis
      by (simp add: blk Let_def)
  next
    case (Some k)
    let ?e = "entries fs d n ! k"
    have t: "tree_of fs d D n b = Some (e_ftype ?e = EXT2_FT_DIR, e_ino ?e)"
      using Some Cons.prems(1) by (simp add: tree_of_def dir_map_def)
    show ?thesis
    proof (cases "e_ftype ?e = EXT2_FT_DIR")
      case True
      with tree_target [OF inv t] have eD: "e_ino ?e \<in> D" "used fs (e_ino ?e)" by auto
      have "get_inode d (ino_addr fs (e_ino ?e)) = node fs d (e_ino ?e)"
        using node_get fs_structD(1) [OF inv] eD by blast
      moreover have "walk f fs d (node fs d (e_ino ?e)) (path_of (cs @ [c])) =
        Inr (case twalk (tree_of fs d D) (e_ino ?e) cs of None \<Rightarrow> Walk_none | Some m \<Rightarrow> Walk_last (node fs d m) c)"
        using Cons.prems eD \<open>length cs < f\<close> by (intro Cons.IH) auto
      ultimately show ?thesis
        using True Some fuel b notlast fd t used_less [OF eD(2)] rest_path_of [of b "cs @ [c]"]
        by (simp add: blk Let_def NFILEINFS_def)
    next
      case False
      with Some fuel b notlast fd t show ?thesis
        by (simp add: blk Let_def)
    qed
  qed
qed

end
