(* ===== verification/Fs_Ops.thy ===== *)
theory Fs_Ops
  imports Fs_Inv
begin

text \<open>
  What the operations of the file system do to the tree: looking up reads it, creating adds one
  name, removing takes one away, and the invariant survives.  The first part updates directories as
  lists of entries; the second shows which file system invariant the disk writes of each operation
  leave; the third runs \<open>fslookup\<close> on a path.
\<close>

section \<open>Directories as finite maps\<close>

lemma find_idx_live:
  assumes "names_distinct es"
  shows "find_idx (live c) es = Some k \<longleftrightarrow> k < length es \<and> live c (es ! k)"
proof
  assume "find_idx (live c) es = Some k"
  then show "k < length es \<and> live c (es ! k)" by (auto dest: find_idx_SomeD)
next
  assume k: "k < length es \<and> live c (es ! k)"
  then obtain j where j: "find_idx (live c) es = Some j"
    by (metis find_idx_None not_Some_eq nth_mem)
  then have "j < length es" and "live c (es ! j)" by (auto dest: find_idx_SomeD)
  with k assms have "j = k" by (auto simp: names_distinct_def live_def)
  with j show "find_idx (live c) es = Some k" by simp
qed

lemma dir_map_live:
  "names_distinct es \<Longrightarrow> k < length es \<Longrightarrow> live c (es ! k) \<Longrightarrow>
   dir_map es c = Some (e_ftype (es ! k) = EXT2_FT_DIR, e_ino (es ! k))"
  using find_idx_live [of es c k] by (simp add: dir_map_def)

lemma dir_map_None: "dir_map es c = None \<longleftrightarrow> (\<forall>e \<in> set es. \<not> live c e)"
  by (simp add: dir_map_def find_idx_None)

lemma live_nthD:
  assumes "dir_map es c = None" and "k < length es"
  shows "\<not> live c (es ! k)"
  using assms by (simp add: dir_map_None)

lemma names_distinct_insert:
  assumes "names_distinct es" and "dir_map es (entry_name e) = None"
  shows "names_distinct (es[k := e])"
  using assms(1) live_nthD [OF assms(2)]
  by (fastforce simp: names_distinct_def nth_update live_def split: if_splits)

lemma dir_map_insert:
  assumes nd: "names_distinct es" and k: "k < length es" "e_valid (es ! k) = 0"
    and new: "dir_map es (entry_name e) = None" and v: "e_valid e = 1"
  shows "dir_map (es[k := e]) = (dir_map es)(entry_name e \<mapsto> (e_ftype e = EXT2_FT_DIR, e_ino e))"
proof
  fix c
  note nd' = names_distinct_insert [OF nd new, of k]
  show "dir_map (es[k := e]) c = ((dir_map es)(entry_name e \<mapsto> (e_ftype e = EXT2_FT_DIR, e_ino e))) c"
  proof (cases "c = entry_name e")
    case True
    with dir_map_live [OF nd', of k c] k v show ?thesis by (simp add: live_def)
  next
    case ne: False
    show ?thesis
    proof (cases "\<exists>j < length es. live c (es ! j)")
      case True
      then obtain j where j: "j < length es" "live c (es ! j)" by auto
      with k have "j \<noteq> k" by (auto simp: live_def)
      with j ne dir_map_live [OF nd j] dir_map_live [OF nd', of j c] show ?thesis by simp
    next
      case False
      then have "dir_map es c = None" by (auto simp: dir_map_None in_set_conv_nth)
      moreover have "\<not> live c (es[k := e] ! j)" if "j < length es" for j
        using False that ne by (cases "j = k") (auto simp: nth_update, simp add: live_def)
      then have "dir_map (es[k := e]) c = None"
        by (auto simp: dir_map_None in_set_conv_nth)
      ultimately show ?thesis using ne by simp
    qed
  qed
qed

lemma names_distinct_delete:
  "names_distinct es \<Longrightarrow> names_distinct (es[k := (es ! k)\<lparr>e_valid := 0\<rparr>])"
  by (auto simp: names_distinct_def nth_update split: if_splits)

lemma dir_map_delete:
  assumes nd: "names_distinct es" and k: "k < length es" "live c (es ! k)"
  shows "dir_map (es[k := (es ! k)\<lparr>e_valid := 0\<rparr>]) = (dir_map es)(c := None)"
proof
  fix c'
  let ?es = "es[k := (es ! k)\<lparr>e_valid := 0\<rparr>]"
  note nd' = names_distinct_delete [OF nd, of k]
  show "dir_map ?es c' = ((dir_map es)(c := None)) c'"
  proof (cases "\<exists>j < length es. j \<noteq> k \<and> live c' (es ! j)")
    case True
    then obtain j where j: "j < length es" "j \<noteq> k" "live c' (es ! j)" by auto
    with nd k have "c' \<noteq> c" by (auto simp: names_distinct_def live_def)
    with j dir_map_live [OF nd j(1,3)] dir_map_live [OF nd', of j c'] show ?thesis by simp
  next
    case False
    then have "\<not> live c' (?es ! j)" if "j < length es" for j
      using that by (cases "j = k") (auto simp: nth_update, simp add: live_def)
    then have "dir_map ?es c' = None"
      by (auto simp: dir_map_None in_set_conv_nth)
    moreover have "c' = c \<or> dir_map es c' = None"
      using False k by (auto simp: dir_map_None in_set_conv_nth live_def)
    ultimately show ?thesis by auto
  qed
qed

lemma dir_map_zeros [simp]: "dir_map (replicate n zero_edt) = Map.empty"
  by (auto simp: dir_map_None live_def zero_edt_def)

lemma names_distinct_zeros [simp]: "names_distinct (replicate n zero_edt)"
  by (simp add: names_distinct_def zero_edt_def)

lemma entry_target_ok_zero [simp]: "entry_target_ok fs D zero_edt"
  by (simp add: entry_target_ok_def entry_ok_def zero_edt_def)

lemma entry_target_ok_mono:
  "entry_target_ok fs D e \<Longrightarrow> (e_valid e = 1 \<Longrightarrow> used fs (e_ino e) \<Longrightarrow> used fs' (e_ino e)) \<Longrightarrow>
   (e_valid e = 1 \<Longrightarrow> used fs (e_ino e) \<Longrightarrow> e_ino e \<in> D' \<longleftrightarrow> e_ino e \<in> D) \<Longrightarrow> entry_target_ok fs' D' e"
  by (auto simp: entry_target_ok_def)

section \<open>Inode table updates\<close>

lemma geom_set: "fs_geom E fs \<Longrightarrow> i \<noteq> 0 \<Longrightarrow> x = - 1 \<or> x = 4 + int (i * sizeof_inode) \<Longrightarrow>
  fs_geom E (fs\<lparr>inooff := (inooff fs)[i := x]\<rparr>)"
  by (auto simp: fs_geom_def nth_update)

lemma used_set:
  "fs_geom E fs \<Longrightarrow> i < 80 \<Longrightarrow> used (fs\<lparr>inooff := (inooff fs)[i := x]\<rparr>) j \<longleftrightarrow> (if j = i then x \<noteq> - 1 else used fs j)"
  by (auto simp: used_def fs_geom_def NFILEINFS_def nth_update)

lemma addr_set [simp]:
  "blk_addr (fs\<lparr>inooff := x\<rparr>) = blk_addr fs" "iaddr (fs\<lparr>inooff := x\<rparr>) = iaddr fs"
  by (auto simp: blk_addr_def iaddr_def)

lemma entries_set [simp]: "entries (fs\<lparr>inooff := x\<rparr>) = entries fs"
  by (auto simp: entries_def fun_eq_iff)

lemma node_set [simp]: "node (fs\<lparr>inooff := x\<rparr>) = node fs"
  by (auto simp: node_def fun_eq_iff)

lemma tree_set [simp]: "tree_of (fs\<lparr>inooff := x\<rparr>) = tree_of fs"
  by (auto simp: tree_of_def fun_eq_iff)

lemma refs_set [simp]: "refs (fs\<lparr>inooff := x\<rparr>) = refs fs"
  by (auto simp: refs_def fun_eq_iff)

lemma node_ok_set [simp]: "node_ok E (fs\<lparr>inooff := x\<rparr>) d i = node_ok E fs d i"
  by (simp add: node_ok_def)

lemma entryD:
  assumes "fs_inv E fs d D" and "p \<in> D" and "k < 80"
  shows "entry_target_ok fs D (entries fs d p ! k)"
  using fs_invD(5) [OF assms(1,2)] assms(3) by (auto intro!: dir_okD(3))

lemma finite_D: "fs_inv E fs d D \<Longrightarrow> finite D"
proof -
  assume "fs_inv E fs d D"
  then have "D \<subseteq> {..< 80}" using fs_invD(4) used_less by blast
  then show ?thesis using finite_subset by blast
qed

lemma finite_refs: "fs_inv E fs d D \<Longrightarrow> finite (refs fs d D i)"
  by (rule finite_subset [of _ "D \<times> {..< 80}"]) (auto simp: refs_def dest: finite_D)

lemma refs_used: "fs_inv E fs d D \<Longrightarrow> x \<in> refs fs d D i \<Longrightarrow> used fs i \<and> i \<noteq> 0"
  using entryD [of E fs d D "fst x" "snd x"] by (auto simp: refs_def entry_target_ok_def)


section \<open>Adding a name\<close>

lemma refs_insert:
  assumes "p \<in> D" and "k < 80" and "e_valid (entries fs d p ! k) = 0" and "e_valid e = 1" and "D \<subseteq> D'"
    and ent: "\<And>j. j \<in> D' \<Longrightarrow> entries fs' d' j = (if j = p then (entries fs d p)[k := e]
      else if j \<in> D then entries fs d j else replicate 80 zero_edt)"
  shows "refs fs' d' D' x = (if x = e_ino e then insert (p, k) (refs fs d D x) else refs fs d D x)"
proof -
  have "(j, l) \<in> refs fs' d' D' x \<longleftrightarrow> j = p \<and> l = k \<and> x = e_ino e \<or> (j, l) \<in> refs fs d D x" for j l
  proof (cases "j \<in> D'")
    case True
    with ent [OF True] assms(1-4) show ?thesis
      by (cases "l < 80") (auto simp: refs_def nth_update zero_edt_def)
  next
    case False
    with assms(1,5) show ?thesis by (auto simp: refs_def)
  qed
  then show ?thesis by auto
qed

lemma fs_inv_insert:
  assumes inv: "fs_inv E fs d D" and p: "p \<in> D" and k: "k < 80" "e_valid (entries fs d p ! k) = 0"
    and new: "dir_map (entries fs d p) (entry_name e) = None"
    and ok: "entry_ok e" and v: "e_valid e = 1" and i: "e_ino e \<noteq> 0"
    and kind: "used fs (e_ino e) \<Longrightarrow> e_ino e \<notin> D \<and> e_ftype e \<noteq> EXT2_FT_DIR"
    and D': "D' = (if e_ftype e = EXT2_FT_DIR then insert (e_ino e) D else D)"
    and geom: "fs_geom E fs'"
    and us: "\<And>j. used fs' j \<longleftrightarrow> used fs j \<or> j = e_ino e"
    and ent: "\<And>j. j \<in> D' \<Longrightarrow> entries fs' d' j = (if j = p then (entries fs d p)[k := e]
      else if j \<in> D then entries fs d j else replicate 80 zero_edt)"
    and nod: "\<And>j. used fs' j \<Longrightarrow> node_ok E fs' d' j"
    and cnt: "\<And>j. used fs j \<Longrightarrow> j \<notin> D \<Longrightarrow> j \<noteq> e_ino e \<Longrightarrow>
      i_refcnt (node fs' d' j) = i_refcnt (node fs d j)"
    and cnt1: "e_ftype e \<noteq> EXT2_FT_DIR \<Longrightarrow> i_refcnt (node fs' d' (e_ino e)) =
      (if used fs (e_ino e) then i_refcnt (node fs d (e_ino e)) + 1 else 0)"
  shows "fs_inv E fs' d' D'"
    and "tree_of fs' d' D' = (tree_of fs d D)(p := (tree_of fs d D p)(entry_name e \<mapsto>
           (e_ftype e = EXT2_FT_DIR, e_ino e)))"
proof -
  let ?i = "e_ino e"
  have DD: "D \<subseteq> D'" using D' by auto
  have iD: "?i \<notin> D" using kind fs_invD(4) [OF inv] by auto
  have tgt: "entry_target_ok fs' D' f" if "entry_target_ok fs D f" for f
    using that us kind iD D' by (elim entry_target_ok_mono) auto
  have "entry_target_ok fs' D' e"
    using ok us D' iD i by (auto simp: entry_target_ok_def)
  moreover have "\<forall>f \<in> set (entries fs d p). entry_target_ok fs' D' f"
    using dir_okD(3) [OF fs_invD(5) [OF inv p]] tgt by auto
  ultimately have "\<forall>f \<in> set ((entries fs d p)[k := e]). entry_target_ok fs' D' f"
    using set_update_subset_insert by fast
  with p DD ent [of p] names_distinct_insert [OF dir_okD(2) [OF fs_invD(5) [OF inv p]] new]
  have dp: "dir_ok fs' d' D' p" by (auto simp: dir_ok_def)
  have dirs: "dir_ok fs' d' D' j" if "j \<in> D'" for j
    using dp fs_invD(5) [OF inv, of j] ent [OF that] tgt by (cases "j = p") (auto simp: dir_ok_def)
  have usD: "used fs' j" if "j \<in> D'" for j
    using that D' us fs_invD(4) [OF inv] by (auto split: if_splits)
  have refs: "refs fs' d' D' x = (if x = ?i then insert (p, k) (refs fs d D x) else refs fs d D x)" for x
    using refs_insert [OF p k v DD ent] .
  have pk: "(p, k) \<notin> refs fs d D ?i" using k by (simp add: refs_def)
  have fresh: "refs fs d D ?i = {}" if "\<not> used fs ?i"
    using that refs_used [OF inv] by blast
  have links: "int (card (refs fs' d' D' j)) = (if j \<in> D' then 1 else i_refcnt (node fs' d' j) + 1)"
    if j: "used fs' j" "j \<noteq> 0" for j
  proof (cases "j = ?i")
    case True
    show ?thesis
    proof (cases "used fs ?i")
      case u: True
      have "int (card (refs fs' d' D' ?i)) = int (card (refs fs d D ?i)) + 1"
        using pk finite_refs [OF inv] by (simp add: refs)
      with u True kind [OF u] cnt1 fs_invD(6) [OF inv u i] D' show ?thesis by auto
    next
      case False
      with fresh have "card (refs fs' d' D' ?i) = 1" by (simp add: refs)
      with True False cnt1 D' iD show ?thesis by auto
    qed
  next
    case False
    with j us have u: "used fs j" by blast
    from False D' have "j \<in> D' \<longleftrightarrow> j \<in> D" by auto
    with False cnt [OF u] fs_invD(6) [OF inv u j(2)] show ?thesis by (auto simp: refs)
  qed
  show "fs_inv E fs' d' D'"
    using geom nod dirs usD links fs_invD(2) [OF inv] DD by (auto simp: fs_inv_def fs_struct_def)
  show "tree_of fs' d' D' = (tree_of fs d D)(p := (tree_of fs d D p)(entry_name e \<mapsto>
           (e_ftype e = EXT2_FT_DIR, ?i)))" (is "_ = ?t")
  proof
    fix j
    show "tree_of fs' d' D' j = ?t j"
    proof (cases "j = p")
      case True
      with dir_map_insert [OF dir_okD(2) [OF fs_invD(5) [OF inv p]] _ k(2) new v] k(1) p DD ent [of p]
      show ?thesis by (auto simp: tree_of_def)
    next
      case False
      with ent [of j] DD show ?thesis by (auto simp: tree_of_def)
    qed
  qed
qed

section \<open>Taking a name away\<close>

lemma refs_delete:
  assumes "p \<in> D'" and "k < 80" and "D' = D - {n}" and "n \<in> D \<Longrightarrow> \<forall>x \<in> set (entries fs d n). e_valid x \<noteq> 1"
    and ent: "\<And>j. j \<in> D' \<Longrightarrow> entries fs' d' j =
      (if j = p then (entries fs d p)[k := (entries fs d p ! k)\<lparr>e_valid := 0\<rparr>] else entries fs d j)"
  shows "refs fs' d' D' x = refs fs d D x - {(p, k)}"
proof -
  have "(j, l) \<in> refs fs' d' D' x \<longleftrightarrow> (j, l) \<in> refs fs d D x \<and> (j, l) \<noteq> (p, k)" for j l
  proof (cases "j \<in> D'")
    case True
    with ent [OF True] assms(1-3) show ?thesis
      by (cases "l < 80") (auto simp: refs_def nth_update)
  next
    case False
    with assms(3,4) show ?thesis by (auto simp: refs_def)
  qed
  then show ?thesis by auto
qed

lemma fs_inv_delete:
  assumes inv: "fs_inv E fs d D" and p: "p \<in> D" and k: "k < 80" "live c (entries fs d p ! k)"
    and n: "n = e_ino (entries fs d p ! k)"
    and D': "D' = D - {n}"
    and empty: "n \<in> D \<Longrightarrow> \<forall>x \<in> set (entries fs d n). e_valid x \<noteq> 1"
    and geom: "fs_geom E fs'"
    and us: "\<And>j. used fs' j \<longleftrightarrow> used fs j \<and> (j \<noteq> n \<or> n \<notin> D \<and> i_refcnt (node fs d n) \<noteq> 0)"
    and ent: "\<And>j. j \<in> D' \<Longrightarrow> entries fs' d' j =
      (if j = p then (entries fs d p)[k := (entries fs d p ! k)\<lparr>e_valid := 0\<rparr>] else entries fs d j)"
    and nod: "\<And>j. used fs' j \<Longrightarrow> node_ok E fs' d' j"
    and cnt: "\<And>j. used fs' j \<Longrightarrow> j \<notin> D \<Longrightarrow>
      i_refcnt (node fs' d' j) = i_refcnt (node fs d j) - (if j = n then 1 else 0)"
  shows "fs_inv E fs' d' D'"
    and "tree_of fs' d' D' = (tree_of fs d D)(p := (tree_of fs d D p)(c := None))"
proof -
  let ?es = "(entries fs d p)[k := (entries fs d p ! k)\<lparr>e_valid := 0\<rparr>]"
  have tk: "entry_target_ok fs D (entries fs d p ! k)" using entryD [OF inv p k(1)] .
  have v: "e_valid (entries fs d p ! k) = 1" using k(2) by (simp add: live_def)
  have n0: "used fs n" "n \<noteq> 0" using tk v n by (auto simp: entry_target_ok_def)
  have pn: "p \<noteq> n" using empty k(1) v p by (auto simp: all_set_conv_all_nth)
  then have pD: "p \<in> D'" using p D' by simp
  have refs: "refs fs' d' D' x = refs fs d D x - {(p, k)}" for x
    using refs_delete [OF pD k(1) D' empty ent] .
  have pk: "(p, k) \<in> refs fs d D n" using p k v n by (simp add: refs_def)
  have card_n: "int (card (refs fs' d' D' n)) = int (card (refs fs d D n)) - 1"
    using pk finite_refs [OF inv] by (simp add: refs card_Diff_singleton)
      (metis card_gt_0_iff empty_iff of_nat_1 of_nat_diff One_nat_def Suc_leI)
  have gone: "refs fs' d' D' n = {}" if "\<not> used fs' n"
  proof -
    have "int (card (refs fs d D n)) = 1"
      using that us n0 fs_invD(6) [OF inv n0] by (auto split: if_splits)
    with card_n have "card (refs fs' d' D' n) = 0" by simp
    moreover have "finite (refs fs' d' D' n)" using finite_refs [OF inv] by (simp add: refs)
    ultimately show ?thesis by simp
  qed
  have tgt: "entry_target_ok fs' D' f" if f: "f \<in> set (entries fs' d' j)" and j: "j \<in> D'" for f j
  proof -
    obtain l where l: "l < 80" "f = entries fs' d' j ! l" using f by (auto simp: in_set_conv_nth)
    show ?thesis
    proof (cases "e_valid f = 1")
      case True
      with l j have "(j, l) \<in> refs fs' d' D' (e_ino f)" by (simp add: refs_def)
      with gone have "used fs' n \<or> e_ino f \<noteq> n" by auto
      moreover have jl: "j \<noteq> p \<or> l \<noteq> k" using ent [OF j] l True k(1) by auto
      then have "f = entries fs d j ! l" using ent [OF j] l by (auto simp: nth_update)
      moreover have "j \<in> D" using j D' by simp
      then have "entry_target_ok fs D (entries fs d j ! l)" using entryD [OF inv _ l(1)] by blast
      ultimately show ?thesis using True us D' by (auto simp: entry_target_ok_def)
    next
      case False
      have "f = entries fs d j ! l \<or> f = (entries fs d p ! k)\<lparr>e_valid := 0\<rparr>"
        using ent [OF j] l by (auto simp: nth_update split: if_splits)
      moreover have "entry_ok (entries fs d j ! l)"
        using entryD [OF inv _ l(1), of j] j D' by (simp add: entry_target_ok_def)
      ultimately show ?thesis using False by (auto simp: entry_target_ok_def entry_ok_def)
    qed
  qed
  have nd: "names_distinct (entries fs' d' j)" if "j \<in> D'" for j
    using ent [OF that] names_distinct_delete [OF dir_okD(2) [OF fs_invD(5) [OF inv p]], of k]
      dir_okD(2) [OF fs_invD(5) [OF inv, of j]] that D' by auto
  have links: "int (card (refs fs' d' D' j)) = (if j \<in> D' then 1 else i_refcnt (node fs' d' j) + 1)"
    if j: "used fs' j" "j \<noteq> 0" for j
  proof (cases "j = n")
    case True
    with j us D' n0 card_n fs_invD(6) [OF inv n0] cnt [OF j(1)] show ?thesis by auto
  next
    case False
    with j us have u: "used fs j" by blast
    have "(p, k) \<notin> refs fs d D j" using False n by (simp add: refs_def)
    then have "refs fs' d' D' j = refs fs d D j" by (simp add: refs)
    with False u cnt [OF j(1)] fs_invD(6) [OF inv u j(2)] D' show ?thesis by auto
  qed
  show "fs_inv E fs' d' D'"
    using geom nod tgt nd links fs_invD(2,4) [OF inv] D' us n0 by (auto simp: fs_inv_def fs_struct_def dir_ok_def)
  show "tree_of fs' d' D' = (tree_of fs d D)(p := (tree_of fs d D p)(c := None))" (is "_ = ?t")
  proof
    fix j
    consider "j = p" | "j \<noteq> p" "j = n" | "j \<noteq> p" "j \<noteq> n" by blast
    then show "tree_of fs' d' D' j = ?t j"
    proof cases
      case 1
      with dir_map_delete [OF dir_okD(2) [OF fs_invD(5) [OF inv p]] _ k(2)] k(1) p pD ent [of p]
      show ?thesis by (auto simp: tree_of_def)
    next
      case 2
      have "dir_map (entries fs d n) = Map.empty" if "n \<in> D"
        using empty [OF that] by (auto simp: dir_map_None live_def)
      with 2 D' show ?thesis by (auto simp: tree_of_def)
    next
      case 3
      with ent [of j] D' show ?thesis by (auto simp: tree_of_def)
    qed
  qed
qed

end
