(* ===== verification/Fs_Main.thy ===== *)
theory Fs_Main
  imports Fs_Ops
begin

text \<open>
  \<open>fslookup\<close> on a path, in each of its three uses (look up, create, remove), against the tree of
  directories; the file system that \<open>vfsinit\<close> formats as the concrete instance.
\<close>

section \<open>Running \<open>fsgetinode\<close> on a path\<close>

definition good_path :: "string list \<Rightarrow> string \<Rightarrow> bool" where
  "good_path cs c \<longleftrightarrow> (\<forall>x \<in> set (cs @ [c]). good_name x) \<and> length (path_of (cs @ [c])) \<le> 129"

lemma good_pathD:
  assumes "good_path cs c"
  shows "\<forall>x \<in> set cs. good_name x" and "good_name c" and "length (path_of (cs @ [c])) \<le> 129"
    and "length cs < length (path_of (cs @ [c])) + n + 1"
proof -
  have "length cs \<le> length (path_of cs)"
    by (induction cs) (simp_all add: path_of_Cons)
  then show "length cs < length (path_of (cs @ [c])) + n + 1" by (simp add: path_of_append)
qed (use assms in \<open>auto simp: good_path_def\<close>)

lemma root_node: "fs_struct E fs d D \<Longrightarrow> get_inode d (ino_addr fs 0) = node fs d 0"
  using node_get used_0 fs_structD(1) by blast

lemma fsgetinode_path:
  assumes inv: "fs_struct E fs d D" and path: "good_path cs c"
  shows "fsgetinode E fs d (node fs d 0) (path_of (cs @ [c])) flags =
    (case twalk (tree_of fs d D) 0 cs of
       None \<Rightarrow> Inr (NO_INO, fs, d)
     | Some m \<Rightarrow>
         (case find_idx (live c) (entries fs d m) of
            None \<Rightarrow> if has flags O_CREAT then create_inode E fs d (node fs d m) c (has flags O_DIR)
                    else Inr (NO_INO, fs, d)
          | Some k \<Rightarrow>
              if (e_ftype (entries fs d m ! k) = EXT2_FT_DIR) \<noteq> has flags O_DIR then Inr (NO_INO, fs, d)
              else if \<not> has flags O_RM then Inr (e_ino (entries fs d m ! k), fs, d)
              else if has flags O_DIR then remove_dir fs d (node fs d m) (get_ed d (blk_addr fs m)) k
              else remove_file fs d (node fs d m) (get_ed d (blk_addr fs m)) k))"
proof -
  let ?fuel = "length (path_of (cs @ [c])) + NFILEINFS + 1"
  have n0: "node_ok E fs d 0" using fs_structD(3) [OF inv] used_0 fs_structD(1) [OF inv] by blast
  have w: "walk ?fuel fs d (node fs d 0) (path_of (cs @ [c])) =
    Inr (case twalk (tree_of fs d D) 0 cs of None \<Rightarrow> Walk_none | Some m \<Rightarrow> Walk_last (node fs d m) c)"
    using walk_path [OF inv fs_structD(2) [OF inv] good_pathD(1,2,4) [OF path]] .
  show ?thesis
  proof (cases "twalk (tree_of fs d D) 0 cs")
    case None
    with w n0 good_pathD(3) [OF path] show ?thesis
      by (simp add: fsgetinode_def node_ok_def del: walk.simps)
  next
    case (Some m)
    then have m: "m \<in> D" using twalk_dir [OF inv fs_structD(2) [OF inv]] by blast
    note ok = dir_okD(1) [OF fs_structD(5) [OF inv m]]
    have b: "i_nblocks (node fs d m) = m" using node_nblocks [OF inv] fs_structD(4) [OF inv m] by blast
    have run: "fsgetinode E fs d (node fs d 0) (path_of (cs @ [c])) flags =
      (let r = get_ed d (blk_addr fs m); isdir = has flags O_DIR in
         case (if isdir then scan_dir c (entries fs d m) 0 else scan_file c (entries fs d m) 0) of
           Scan_overread \<Rightarrow> Inl Overrun
         | Scan_assert \<Rightarrow> Inl Assert_fail
         | Scan_clash \<Rightarrow> Inr (NO_INO, fs, d)
         | Scan_hit ind \<Rightarrow>
             if \<not> has flags O_RM then Inr (e_ino (entries fs d m ! ind), fs, d)
             else if isdir then remove_dir fs d (node fs d m) r ind
             else remove_file fs d (node fs d m) r ind
         | Scan_miss \<Rightarrow>
             if has flags O_CREAT then create_inode E fs d (node fs d m) c isdir
             else Inr (NO_INO, fs, d))"
      using w n0 good_pathD(3) [OF path] Some
      by (simp add: fsgetinode_def node_ok_def b entries_def Let_def del: walk.simps split: scan.split)
    show ?thesis
      unfolding run
      using Some scan_file_live [OF ok good_pathD(2) [OF path], of 0]
        scan_dir_live [OF ok good_pathD(2) [OF path], of 0]
      by (cases "find_idx (live c) (entries fs d m)") (simp_all add: Let_def)
  qed
qed

lemma fslookup_path:
  assumes inv: "fs_struct E fs d D"
  shows "fslookup E fs d path flags =
    rbind (fsgetinode E fs d (node fs d 0) path flags) (\<lambda>(inonum, fs1, d1).
     if inonum = NO_INO then Inr (None, fs1, d1)
     else rbind (require (inonum < NFILEINFS) Overrun) (\<lambda>_.
       let ret = get_inode d1 (ino_addr fs1 inonum) in
       if has flags O_RM
       then Inr (Some ret, fs1\<lparr>inooff := (inooff fs1)[inonum := - 1]\<rparr>,
                 put_inode d1 (ino_addr fs1 inonum) zero_inode)
       else Inr (Some ret, fs1, d1)))"
  using fs_structD(1) [OF inv] by (simp add: fslookup_def root_node [OF inv] fs_geom_def)

section \<open>Looking up\<close>

text \<open>The tree's answer to a lookup of a path for a file or a directory.\<close>

definition resolve :: "tree \<Rightarrow> string list \<Rightarrow> string \<Rightarrow> bool \<Rightarrow> nat option" where
  "resolve t cs c isdir = (case twalk t 0 cs of None \<Rightarrow> None
     | Some p \<Rightarrow> (case t p c of Some (b, n) \<Rightarrow> if b = isdir then Some n else None | None \<Rightarrow> None))"

lemma fs_lookup:
  assumes inv: "fs_struct E fs d D" and path: "good_path cs c"
    and fl: "\<not> has flags O_CREAT" "\<not> has flags O_RM"
  shows "fslookup E fs d (path_of (cs @ [c])) flags =
    Inr (map_option (node fs d) (resolve (tree_of fs d D) cs c (has flags O_DIR)), fs, d)"
proof (cases "twalk (tree_of fs d D) 0 cs")
  case None
  then show ?thesis
    by (simp add: fslookup_path [OF inv] fsgetinode_path [OF inv path] resolve_def)
next
  case (Some m)
  then have m: "m \<in> D" using twalk_dir [OF inv fs_structD(2) [OF inv]] by blast
  show ?thesis
  proof (cases "find_idx (live c) (entries fs d m)")
    case None
    with Some m fl show ?thesis
      by (simp add: fslookup_path [OF inv] fsgetinode_path [OF inv path] resolve_def tree_of_def
          dir_map_def)
  next
    case k: (Some k)
    let ?e = "entries fs d m ! k"
    have t: "tree_of fs d D m c = Some (e_ftype ?e = EXT2_FT_DIR, e_ino ?e)"
      using k m by (simp add: tree_of_def dir_map_def)
    note u = tree_target(1) [OF inv t]
    have "e_ino ?e \<noteq> NO_INO" using used_less [OF u] by (simp add: NO_INO_def)
    with Some k t fl u used_less [OF u] node_get [OF fs_structD(1) [OF inv] u] show ?thesis
      by (simp add: fslookup_path [OF inv] fsgetinode_path [OF inv path] resolve_def NFILEINFS_def)
  qed
qed


section \<open>Creating\<close>

definition stored_name :: "bool \<Rightarrow> string \<Rightarrow> string" where
  "stored_name isdir c = (if isdir then CHR ''/'' # c else c)"

definition new_entry :: "nat \<Rightarrow> bool \<Rightarrow> string \<Rightarrow> char list \<Rightarrow> edt" where
  "new_entry i isdir c old = \<lparr>e_ino = i, e_ftype = (if isdir then EXT2_FT_DIR else EXT2_FT_REG_FILE),
     e_valid = 1, e_name = stored_name isdir c @ NUL # drop (length (stored_name isdir c) + 1) old\<rparr>"

lemma length_stored_name: "good_name c \<Longrightarrow> length (stored_name isdir c) \<le> 31"
  by (auto simp: stored_name_def good_name_def)

lemma cstr_new_entry: "good_name c \<Longrightarrow> cstr (e_name (new_entry i isdir c old)) = stored_name isdir c"
  by (simp add: new_entry_def) (rule cstr_append_NUL, auto simp: stored_name_def good_name_def)

lemma new_entry_simps [simp]:
  "e_ino (new_entry i isdir c old) = i" "e_valid (new_entry i isdir c old) = 1"
  "e_ftype (new_entry i isdir c old) = EXT2_FT_DIR \<longleftrightarrow> isdir"
  by (simp_all add: new_entry_def)

lemma entry_name_new: "good_name c \<Longrightarrow> entry_name (new_entry i isdir c old) = c"
  using cstr_new_entry [of c i isdir old] by (cases isdir) (simp_all add: entry_name_def stored_name_def)

lemma entry_ok_new: "good_name c \<Longrightarrow> entry_ok (new_entry i isdir c old)"
  using cstr_new_entry [of c i isdir old] entry_name_new [of c i isdir old]
  by (simp add: entry_ok_def good_name_def) (auto simp: new_entry_def stored_name_def)

lemma wf_new_entry: "good_name c \<Longrightarrow> i < 2 ^ 32 \<Longrightarrow> length old = 32 \<Longrightarrow> wf_edt (new_entry i isdir c old)"
  using length_stored_name [of c isdir]
  by (simp add: wf_edt_def new_entry_def EXT2_FT_DIR_def EXT2_FT_REG_FILE_def)

lemma wf_entries: "k < 80 \<Longrightarrow> wf_edt (entries fs d p ! k)"
  using wf_get_ed [of d "blk_addr fs p"] by (simp add: wf_ed_def list_all_iff entries_def)

lemma wf_ed_update:
  "wf_ed r \<Longrightarrow> wf_edt e \<Longrightarrow> wf_ed (r\<lparr>etrs := (etrs r)[k := e]\<rparr>)"
  using set_update_subset_insert [of "etrs r" k e] by (auto simp: wf_ed_def list_all_iff)

lemma add_entry_free:
  assumes "find_idx (\<lambda>e. e_valid e = 0) (entries fs d p) = Some k" and "good_name c"
  shows "add_entry (get_ed d (blk_addr fs p)) i (if isdir then EXT2_FT_DIR else EXT2_FT_REG_FILE)
           (if isdir then CHR ''/'' # c else c) =
    Inr (k, (get_ed d (blk_addr fs p))\<lparr>etrs := (entries fs d p)[k :=
      new_entry i isdir c (e_name (entries fs d p ! k))]\<rparr>)"
  using assms(1) length_stored_name [OF assms(2), of isdir]
  by (auto simp: add_entry_def set_name_def entries_def new_entry_def stored_name_def)

lemma wf_new_inode: "fs_geom E fs \<Longrightarrow> i < 80 \<Longrightarrow> wf_inode (new_inode E fs i)"
  by (simp add: wf_inode_def new_inode_def fs_geom_def O_RDWR_def sizeof_inode_def)

lemma free_ino:
  assumes "fs_geom E fs" and "find_idx (\<lambda>x. x = - 1) (inooff fs) = Some i"
  shows "i < 80" and "\<not> used fs i" and "i \<noteq> 0"
  using find_idx_SomeD [OF assms(2)] assms(1) by (auto simp: used_def fs_geom_def NFILEINFS_def intro: gr0I)

text \<open>What \<open>create_inode\<close> does, in terms of the objects of the file system.\<close>

lemma create_inode_effect:
  assumes inv: "fs_inv E fs d D" and p: "p \<in> D" and c: "good_name c"
    and i: "find_idx (\<lambda>x. x = - 1) (inooff fs) = Some i"
    and k: "find_idx (\<lambda>e. e_valid e = 0) (entries fs d p) = Some k"
  obtains d' where
    "create_inode E fs d (node fs d p) c isdir =
       Inr (i, fs\<lparr>inooff := (inooff fs)[i := 4 + int (i * sizeof_inode)]\<rparr>, d')"
    and "\<And>j. j \<in> D \<Longrightarrow> entries fs d' j = (if j = p then (entries fs d p)[k :=
          new_entry i isdir c (e_name (entries fs d p ! k))] else entries fs d j)"
    and "isdir \<Longrightarrow> entries fs d' i = replicate 80 zero_edt"
    and "node fs d' i = new_inode E fs i"
    and "\<And>j. j < 80 \<Longrightarrow> j \<noteq> i \<Longrightarrow> j \<noteq> p \<Longrightarrow> node fs d' j = node fs d j"
    and "\<exists>s. node fs d' p = (node fs d p)\<lparr>i_size := s\<rparr>"
proof -
  let ?r = "get_ed d (blk_addr fs p)"
  let ?e = "new_entry i isdir c (e_name (entries fs d p ! k))"
  let ?fs = "fs\<lparr>inooff := (inooff fs)[i := 4 + int (i * sizeof_inode)]\<rparr>"
  define d1 where "d1 = put_inode d (iaddr fs i) (new_inode E fs i)"
  define d2 where "d2 = (if isdir then put_ed d1 (blk_addr fs i) zero_ed else zero_block d1 (blk_addr fs i))"
  define cur where "cur = (node fs d p)\<lparr>i_size := (i_size (node fs d p) + sizeof_edt) mod 2 ^ 32\<rparr>"
  define d3 where "d3 = (if k = maxuse ?r then put_inode d2 (iaddr fs p) cur else d2)"
  define r where "r = (if k = maxuse ?r then ?r\<lparr>etrs := (entries fs d p)[k := ?e], maxuse := maxuse ?r + 1\<rparr>
    else ?r\<lparr>etrs := (entries fs d p)[k := ?e]\<rparr>)"
  note g = fs_invD(1) [OF inv]
  note fi = free_ino [OF g i]
  have k80: "k < 80" using find_idx_SomeD(1) [OF k] by simp
  have up: "used fs p" and p80: "p < 80" using fs_invD(4) [OF inv p] used_less by auto
  have pi: "p \<noteq> i" using up fi by auto
  have np: "i_nblocks (node fs d p) = p" "i_offset (node fs d p) = 4 + 32 * int p"
    using fs_invD(3) [OF inv up] by (auto simp: node_ok_def)
  have "wf_edt ?e" using c fi wf_entries [OF k80, of fs d p] by (intro wf_new_entry) (auto simp: wf_edt_def)
  then have "wf_ed (?r\<lparr>etrs := (entries fs d p)[k := ?e]\<rparr>)"
    unfolding entries_def by (intro wf_ed_update) auto
  then have wfr: "wf_ed r" using k80 by (auto simp: r_def wf_ed_def)
  have wfc: "wf_inode cur"
    using wf_get_inode [of d "iaddr fs p"] by (simp add: cur_def wf_inode_def node_def)
  note wfi = wf_new_inode [OF g fi(1)]
  have ia: "ino_addr ?fs i = iaddr fs i"
    using g fi(1) by (simp add: ino_addr_def iaddr_def fs_geom_def NFILEINFS_def sizeof_inode_def)
  have ip: "fsoff fs + (4 + 32 * int p) = iaddr fs p"
    by (simp add: iaddr_def)
  have run: "create_inode E fs d (node fs d p) c isdir = Inr (i, ?fs, put_ed d3 (blk_addr fs p) r)"
    unfolding create_inode_def np Let_def i option.case ia d1_def [symmetric]
    by (simp add: add_entry_free [OF k c] r_def d2_def d3_def cur_def np(2) ip)
  have e1: "get_ed d3 (blk_addr fs j) = (if j = i then get_ed d2 (blk_addr fs i) else get_ed d (blk_addr fs j))" for j
    using g fi(1) p80 by (simp add: d3_def d2_def d1_def layout_simps)
  have n1: "get_inode d2 (iaddr fs j) = (if j = i then new_inode E fs i else get_inode d (iaddr fs j))" if "j < 80" for j
    using g that wfi by (simp add: d2_def d1_def layout_simps)
  show thesis
  proof (rule that [OF run])
    show "entries fs (put_ed d3 (blk_addr fs p) r) j = (if j = p then (entries fs d p)[k := ?e] else entries fs d j)"
      if "j \<in> D" for j
      using that fs_invD(4) [OF inv that] fi(2) e1 g wfr
      by (auto simp: entries_def layout_simps r_def)
    show "entries fs (put_ed d3 (blk_addr fs p) r) i = replicate 80 zero_edt" if isdir
      using that pi e1 g wfr by (simp add: entries_def layout_simps d2_def) (simp add: zero_ed_def)
    show "node fs (put_ed d3 (blk_addr fs p) r) i = new_inode E fs i"
      using pi g wfr wfc fi(1) n1 by (simp add: node_def d3_def layout_simps)
    show "node fs (put_ed d3 (blk_addr fs p) r) j = node fs d j" if "j < 80" "j \<noteq> i" "j \<noteq> p" for j
      using that g wfr wfc n1 by (simp add: node_def d3_def layout_simps)
    show "\<exists>s. node fs (put_ed d3 (blk_addr fs p) r) p = (node fs d p)\<lparr>i_size := s\<rparr>"
    proof (cases "k = maxuse ?r")
      case True
      with g wfr wfc p80 show ?thesis by (auto simp: node_def d3_def layout_simps cur_def)
    next
      case False
      then have "node fs (put_ed d3 (blk_addr fs p) r) p = node fs d p"
        using g wfr p80 pi n1 by (simp add: node_def d3_def layout_simps)
      then show ?thesis by (metis inode.surjective inode.update_convs(2))
    qed
  qed
qed


definition tree_add :: "tree \<Rightarrow> nat \<Rightarrow> string \<Rightarrow> bool \<Rightarrow> nat \<Rightarrow> tree" where
  "tree_add t p c b i = t(p := (t p)(c \<mapsto> (b, i)))"

definition tree_del :: "tree \<Rightarrow> nat \<Rightarrow> string \<Rightarrow> tree" where
  "tree_del t p c = t(p := (t p)(c := None))"

lemma fs_create:
  assumes inv: "fs_inv E fs d D" and path: "good_path cs c" and fl: "has flags O_CREAT" "\<not> has flags O_RM"
    and p: "twalk (tree_of fs d D) 0 cs = Some p" and new: "tree_of fs d D p c = None"
    and i: "find_idx (\<lambda>x. x = - 1) (inooff fs) = Some i"
    and k: "find_idx (\<lambda>e. e_valid e = 0) (entries fs d p) = Some k"
  defines "isdir \<equiv> has flags O_DIR"
  shows "\<exists>fs' d'. fslookup E fs d (path_of (cs @ [c])) flags = Inr (Some (new_inode E fs i), fs', d') \<and>
    fs_inv E fs' d' (if isdir then insert i D else D) \<and>
    tree_of fs' d' (if isdir then insert i D else D) = tree_add (tree_of fs d D) p c isdir i \<and>
    fs' = fs\<lparr>inooff := (inooff fs)[i := 4 + int (i * sizeof_inode)]\<rparr> \<and>
    (isdir \<longrightarrow> entries fs' d' i = replicate 80 zero_edt) \<and>
    (\<forall>j \<in> D. entries fs' d' j = (if j = p then (entries fs d p)[k :=
       new_entry i isdir c (e_name (entries fs d p ! k))] else entries fs d j))"
proof -
  note g = fs_invD(1) [OF inv]
  note fi = free_ino [OF g i]
  have pD: "p \<in> D" using twalk_dir [OF fs_inv_struct [OF inv] fs_invD(2) [OF inv] p] .
  have c: "good_name c" using good_pathD(2) [OF path] .
  let ?e = "new_entry i isdir c (e_name (entries fs d p ! k))"
  let ?fs = "fs\<lparr>inooff := (inooff fs)[i := 4 + int (i * sizeof_inode)]\<rparr>"
  let ?D = "if isdir then insert i D else D"
  obtain d' where run: "create_inode E fs d (node fs d p) c isdir = Inr (i, ?fs, d')"
    and ent: "\<And>j. j \<in> D \<Longrightarrow> entries fs d' j = (if j = p then (entries fs d p)[k := ?e] else entries fs d j)"
    and ei: "isdir \<Longrightarrow> entries fs d' i = replicate 80 zero_edt"
    and ni: "node fs d' i = new_inode E fs i"
    and no: "\<And>j. j < 80 \<Longrightarrow> j \<noteq> i \<Longrightarrow> j \<noteq> p \<Longrightarrow> node fs d' j = node fs d j"
    and np: "\<exists>s. node fs d' p = (node fs d p)\<lparr>i_size := s\<rparr>"
    using create_inode_effect [OF inv pD c i k, of isdir] by metis
  have dm: "dir_map (entries fs d p) c = None" using new pD by (simp add: tree_of_def)
  have k0: "k < 80" "e_valid (entries fs d p ! k) = 0" using find_idx_SomeD [OF k] by auto
  have g': "fs_geom E ?fs" using geom_set [OF g fi(3)] by blast
  have us: "used ?fs j \<longleftrightarrow> used fs j \<or> j = i" for j
    using used_set [OF g fi(1)] fi(2) by (auto simp: sizeof_inode_def)
  have iD: "i \<notin> D" using fi(2) fs_invD(4) [OF inv] by blast
  have same: "node fs d' j = node fs d j \<or> (\<exists>s. node fs d' j = (node fs d j)\<lparr>i_size := s\<rparr>)"
    if "used fs j" for j
    using that no [of j] np fi(2) used_less [OF that] by (cases "j = p") auto
  have nodes: "node_ok E ?fs d' j" if "used ?fs j" for j
  proof (cases "j = i")
    case True
    then show ?thesis by (simp add: node_ok_def ni) (simp add: new_inode_def sizeof_inode_def)
  next
    case False
    with that us have u: "used fs j" by blast
    from same [OF u] fs_invD(3) [OF inv u] show ?thesis by (auto simp: node_ok_def)
  qed
  have rc: "i_refcnt (node fs d' j) = i_refcnt (node fs d j)" if "used fs j" for j
    using same [OF that] by auto
  have ins: "fs_inv E ?fs d' ?D"
    "tree_of ?fs d' ?D = (tree_of fs d D)(p := (tree_of fs d D p)(entry_name ?e \<mapsto>
           (e_ftype ?e = EXT2_FT_DIR, e_ino ?e)))"
    by (rule fs_inv_insert [OF inv pD k0, of ?e];
        use dm c fi iD g' us nodes rc ent ei ni pD in
        \<open>auto simp: entry_name_new entry_ok_new new_inode_def split: if_splits\<close>)+
  have "fslookup E fs d (path_of (cs @ [c])) flags = Inr (Some (new_inode E fs i), ?fs, d')"
  proof -
    have "find_idx (live c) (entries fs d p) = None"
      using dm by (simp add: dir_map_def)
    moreover have "get_inode d' (ino_addr ?fs i) = new_inode E fs i"
      using node_get [OF g', of i d'] us ni by simp
    moreover have "i \<noteq> NO_INO" using fi(1) by (simp add: NO_INO_def)
    ultimately show ?thesis
      using p fl run fi(1)
      by (simp add: fslookup_path [OF fs_inv_struct [OF inv]] fsgetinode_path [OF fs_inv_struct [OF inv] path] isdir_def NFILEINFS_def
          del: of_nat_mult)
  qed
  with ins c ei ent show ?thesis
    by (intro exI [of _ ?fs] exI [of _ d']) (simp add: tree_add_def entry_name_new)
qed


section \<open>Removing\<close>

lemma clear_valid_entries:
  "wf_ed (clear_valid (get_ed d (blk_addr fs p)) k) \<and>
   etrs (clear_valid (get_ed d (blk_addr fs p)) k) =
     (entries fs d p)[k := (entries fs d p ! k)\<lparr>e_valid := 0\<rparr>]"
proof -
  have "wf_ed (clear_valid (get_ed d (blk_addr fs p)) k)"
  proof (cases "k < 80")
    case True
    then have "wf_edt ((entries fs d p ! k)\<lparr>e_valid := 0\<rparr>)"
      using wf_entries [of k fs d p] by (simp add: wf_edt_def)
    then show ?thesis
      unfolding clear_valid_def entries_def by (intro wf_ed_update) auto
  next
    case False
    then have "(entries fs d p)[k := x] = entries fs d p" for x by (simp add: list_update_beyond)
    then show ?thesis by (simp add: clear_valid_def entries_def)
  qed
  then show ?thesis by (simp add: clear_valid_def entries_def)
qed

text \<open>
  The common part of the two removals: block \<open>n\<close> is cleared (wholly, or its directory), the entry
  loses its validity, the inode is zeroed and its slot in \<open>inooff\<close> freed.
\<close>

lemma remove_inv:
  assumes inv: "fs_inv E fs d D" and p: "p \<in> D" and k: "k < 80" "live c (entries fs d p ! k)"
    and n: "n = e_ino (entries fs d p ! k)"
    and empty: "n \<in> D \<Longrightarrow> \<forall>x \<in> set (entries fs d n). e_valid x \<noteq> 1"
    and cnt0: "n \<notin> D \<Longrightarrow> i_refcnt (node fs d n) = 0"
    and d1: "d1 = (if n \<in> D then put_ed d (blk_addr fs n) zero_ed else zero_block d (blk_addr fs n))"
    and d2: "d2 = put_ed d1 (blk_addr fs p) (clear_valid (get_ed d (blk_addr fs p)) k)"
  shows "node fs d2 n = node fs d n"
    and "fs_inv E (fs\<lparr>inooff := (inooff fs)[n := - 1]\<rparr>) (put_inode d2 (iaddr fs n) zero_inode) (D - {n})"
    and "tree_of (fs\<lparr>inooff := (inooff fs)[n := - 1]\<rparr>) (put_inode d2 (iaddr fs n) zero_inode) (D - {n}) =
      tree_del (tree_of fs d D) p c"
proof -
  let ?fs = "fs\<lparr>inooff := (inooff fs)[n := - 1]\<rparr>" and ?d = "put_inode d2 (iaddr fs n) zero_inode"
  note g = fs_invD(1) [OF inv]
  have v: "e_valid (entries fs d p ! k) = 1" using k(2) by (simp add: live_def)
  have n0: "used fs n" "n \<noteq> 0" "n < 80"
    using entryD [OF inv p k(1)] v n used_less by (auto simp: entry_target_ok_def)
  have pn: "p \<noteq> n" using empty k(1) v p by (auto simp: all_set_conv_all_nth)
  note wf = conjunct1 [OF clear_valid_entries [of d fs p k]]
  have nod: "node fs d2 j = node fs d j" if "j < 80" for j
    using that g wf by (simp add: node_def d2 d1 layout_simps)
  have nod': "node fs ?d j = (if j = n then zero_inode else node fs d j)" if "j < 80" for j
    using nod [OF that] by (simp add: node_def layout_simps)
  show "node fs d2 n = node fs d n" using nod n0 by simp
  have ent: "entries fs ?d j = (if j = p then (entries fs d p)[k := (entries fs d p ! k)\<lparr>e_valid := 0\<rparr>]
      else entries fs d j)" if "j \<in> D - {n}" for j
    using that g wf pn n0 by (simp add: entries_def d2 d1 layout_simps)
      (simp add: clear_valid_def entries_def)
  have us: "used ?fs j \<longleftrightarrow> used fs j \<and> j \<noteq> n" for j
    using used_set [OF g n0(3), of "- 1" j] by auto
  have g': "fs_geom E ?fs" using geom_set [OF g n0(2)] by blast
  have nk: "node_ok E ?fs ?d j" if "used ?fs j" for j
    using that us fs_invD(3) [OF inv, of j] nod' used_less [of fs j] by (auto simp: node_ok_def)
  have us': "used ?fs j \<longleftrightarrow> used fs j \<and> (j \<noteq> n \<or> n \<notin> D \<and> i_refcnt (node fs d n) \<noteq> 0)" for j
    using us cnt0 by auto
  have cnt: "i_refcnt (node ?fs ?d j) = i_refcnt (node fs d j) - (if j = n then 1 else 0)"
    if "used ?fs j" for j
    using that us nod' used_less by auto
  show "fs_inv E ?fs ?d (D - {n})"
    using fs_inv_delete(1) [OF inv p k n refl empty g' us' _ nk] ent cnt by simp
  show "tree_of ?fs ?d (D - {n}) = tree_del (tree_of fs d D) p c"
    using fs_inv_delete(2) [OF inv p k n refl empty g' us' _ nk] ent cnt by (simp add: tree_del_def)
qed

lemma fs_remove:
  assumes inv: "fs_inv E fs d D" and path: "good_path cs c" and fl: "has flags O_RM"
    and p: "twalk (tree_of fs d D) 0 cs = Some p" and t: "tree_of fs d D p c = Some (has flags O_DIR, n)"
    and empty: "has flags O_DIR \<Longrightarrow> tree_of fs d D n = Map.empty"
    and cnt0: "\<not> has flags O_DIR \<Longrightarrow> i_refcnt (node fs d n) = 0"
  shows "\<exists>fs' d'. fslookup E fs d (path_of (cs @ [c])) flags = Inr (Some (node fs d n), fs', d') \<and>
    fs_inv E fs' d' (D - {n}) \<and> tree_of fs' d' (D - {n}) = tree_del (tree_of fs d D) p c"
proof -
  let ?isdir = "has flags O_DIR"
  note g = fs_invD(1) [OF inv]
  have pD: "p \<in> D" using twalk_dir [OF fs_inv_struct [OF inv] fs_invD(2) [OF inv] p] .
  have b: "i_nblocks (node fs d p) = p" using node_nblocks [OF fs_inv_struct [OF inv]] fs_invD(4) [OF inv pD] by blast
  have nD: "?isdir \<longleftrightarrow> n \<in> D" and un: "used fs n" using tree_target [OF fs_inv_struct [OF inv] t] by auto
  have n80: "n < 80" using used_less [OF un] .
  obtain k where k: "find_idx (live c) (entries fs d p) = Some k"
    and ft: "?isdir = (e_ftype (entries fs d p ! k) = EXT2_FT_DIR)" and n: "n = e_ino (entries fs d p ! k)"
    using t pD by (auto simp: tree_of_def elim: dir_map_SomeD)
  have k80: "k < 80" and lk: "live c (entries fs d p ! k)" using find_idx_SomeD [OF k] by auto
  have em: "\<forall>x \<in> set (entries fs d n). e_valid x \<noteq> 1" if "n \<in> D"
  proof
    fix x assume x: "x \<in> set (entries fs d n)"
    have "dir_map (entries fs d n) (entry_name x) = None"
      using empty nD that by (simp add: tree_of_def)
    with x show "e_valid x \<noteq> 1" by (auto simp: dir_map_None live_def)
  qed
  define d1 where "d1 = (if n \<in> D then put_ed d (blk_addr fs n) zero_ed else zero_block d (blk_addr fs n))"
  define d2 where "d2 = put_ed d1 (blk_addr fs p) (clear_valid (get_ed d (blk_addr fs p)) k)"
  let ?fs = "fs\<lparr>inooff := (inooff fs)[n := - 1]\<rparr>"
  have "fsgetinode E fs d (node fs d 0) (path_of (cs @ [c])) flags = Inr (n, fs, d2)"
  proof (cases ?isdir)
    case True
    then have "\<not> list_ex (\<lambda>e. e_valid e = 1) (etrs (get_ed d (blk_addr fs n)))"
      using em nD by (auto simp: list_ex_iff entries_def)
    with True p k ft fl n nD show ?thesis
      by (simp add: fsgetinode_path [OF fs_inv_struct [OF inv] path] remove_dir_def b Let_def d2_def d1_def entries_def)
  next
    case False
    with p k ft fl n nD show ?thesis
      by (simp add: fsgetinode_path [OF fs_inv_struct [OF inv] path] remove_file_def b Let_def d2_def d1_def entries_def)
  qed
  moreover have "n \<noteq> NO_INO" using n80 by (simp add: NO_INO_def)
  moreover note rm = remove_inv [OF inv pD k80 lk n em _ d1_def d2_def]
  ultimately have "fslookup E fs d (path_of (cs @ [c])) flags =
      Inr (Some (node fs d n), ?fs, put_inode d2 (iaddr fs n) zero_inode)"
    using fl n80 cnt0 nD node_get [OF g un] ino_addr_used [OF g un]
    by (simp add: fslookup_path [OF fs_inv_struct [OF inv]] NFILEINFS_def Let_def)
  moreover note rm(2,3)
  ultimately show ?thesis using cnt0 nD by blast
qed

lemma fs_rmdir_refused:
  assumes inv: "fs_inv E fs d D" and path: "good_path cs c" and fl: "has flags O_RM" "has flags O_DIR"
    and p: "twalk (tree_of fs d D) 0 cs = Some p" and t: "tree_of fs d D p c = Some (True, n)"
    and full: "tree_of fs d D n \<noteq> Map.empty"
  shows "fslookup E fs d (path_of (cs @ [c])) flags = Inr (None, fs, d)"
proof -
  have pD: "p \<in> D" using twalk_dir [OF fs_inv_struct [OF inv] fs_invD(2) [OF inv] p] .
  have b: "i_nblocks (node fs d p) = p" using node_nblocks [OF fs_inv_struct [OF inv]] fs_invD(4) [OF inv pD] by blast
  have nD: "n \<in> D" using tree_target [OF fs_inv_struct [OF inv] t] by auto
  obtain k where k: "find_idx (live c) (entries fs d p) = Some k"
    and ft: "e_ftype (entries fs d p ! k) = EXT2_FT_DIR" and n: "n = e_ino (entries fs d p ! k)"
    using t pD by (auto simp: tree_of_def elim: dir_map_SomeD)
  obtain x b' m where "dir_map (entries fs d n) x = Some (b', m)"
    using full nD by (auto simp: tree_of_def fun_eq_iff)
  then have "list_ex (\<lambda>e. e_valid e = 1) (etrs (get_ed d (blk_addr fs n)))"
    by (auto elim!: dir_map_SomeD simp: list_ex_iff entries_def live_def)
  with p k ft fl n show ?thesis
    by (simp add: fslookup_path [OF fs_inv_struct [OF inv]] fsgetinode_path [OF fs_inv_struct [OF inv] path] remove_dir_def b Let_def entries_def)
qed


section \<open>Every call returns, and stays inside its file system\<close>

definition same_outside :: "filesystem \<Rightarrow> disk \<Rightarrow> disk \<Rightarrow> bool" where
  "same_outside fs d d' \<longleftrightarrow> (\<forall>a. a < fsoff fs \<or> fsoff fs + RAMBLOCK \<le> a \<longrightarrow> d' a = d a)"

lemma same_outside_refl [simp]: "same_outside fs d d"
  by (simp add: same_outside_def)

lemma same_outside_trans: "same_outside fs d d1 \<Longrightarrow> same_outside fs d1 d2 \<Longrightarrow> same_outside fs d d2"
  by (simp add: same_outside_def)

lemma same_outside_set [simp]: "same_outside (fs\<lparr>inooff := x\<rparr>) = same_outside fs"
  by (simp add: same_outside_def fun_eq_iff)

lemma put_inode_inside: "i < 80 \<Longrightarrow> same_outside fs d (put_inode d (iaddr fs i) x)"
  by (auto simp: same_outside_def put_inode_def rd_write_def iaddr_def RAMBLOCK_def)

lemma put_ed_inside: "fs_geom E fs \<Longrightarrow> n < 80 \<Longrightarrow> wf_ed r \<Longrightarrow> same_outside fs d (put_ed d (blk_addr fs n) r)"
  by (auto simp: same_outside_def put_ed_def rd_write_def blk_addr_geom length_enc_ed RAMBLOCK_def)

lemma zero_block_inside: "fs_geom E fs \<Longrightarrow> n < 80 \<Longrightarrow> same_outside fs d (zero_block d (blk_addr fs n))"
  by (auto simp: same_outside_def zero_block_def rd_write_def blk_addr_geom FILEBLOCK_def RAMBLOCK_def)

lemmas inside_intros = put_inode_inside put_ed_inside zero_block_inside

lemma add_entry_result:
  assumes "good_name c"
  obtains j r' where "add_entry (get_ed d (blk_addr fs p)) i (if isdir then EXT2_FT_DIR else EXT2_FT_REG_FILE)
      (if isdir then CHR ''/'' # c else c) = Inr (j, r')"
    and "j \<le> 80" and "maxuse r' = maxuse (get_ed d (blk_addr fs p))" and "i < 80 \<Longrightarrow> wf_ed r'"
    and "j < 80 \<longleftrightarrow> find_idx (\<lambda>e. e_valid e = 0) (entries fs d p) \<noteq> None"
proof (cases "find_idx (\<lambda>e. e_valid e = 0) (entries fs d p)")
  case None
  then show ?thesis
    by (intro that [of NFILEINFS "get_ed d (blk_addr fs p)"])
      (simp_all add: add_entry_def entries_def NFILEINFS_def)
next
  case (Some k)
  have k: "k < 80" using find_idx_SomeD(1) [OF Some] by simp
  have "wf_edt (new_entry i isdir c (e_name (entries fs d p ! k)))" if "i < 80"
    using that assms wf_entries [OF k, of fs d p] by (intro wf_new_entry) (auto simp: wf_edt_def)
  then have "wf_ed ((get_ed d (blk_addr fs p))\<lparr>etrs := (entries fs d p)[k :=
      new_entry i isdir c (e_name (entries fs d p ! k))]\<rparr>)" if "i < 80"
    using that unfolding entries_def by (intro wf_ed_update) auto
  with add_entry_free [OF Some assms, of i isdir] k Some show ?thesis by (intro that) auto
qed

lemma create_total:
  assumes inv: "fs_inv E fs d D" and p: "p \<in> D" and c: "good_name c"
  shows "\<exists>r fs' d'. create_inode E fs d (node fs d p) c isdir = Inr (r, fs', d') \<and>
    (r = NO_INO \<or> r < 80) \<and> same_outside fs d d' \<and> (\<exists>x. fs' = fs\<lparr>inooff := x\<rparr>) \<and> fs_geom E fs' \<and>
    (r < 80 \<longrightarrow> used fs' r)"
proof (cases "find_idx (\<lambda>x. x = - 1) (inooff fs)")
  case None
  then show ?thesis
    using fs_invD(1) [OF inv] by (simp add: create_inode_def NO_INO_def) (metis filesystem.surjective filesystem.update_convs(3))
next
  case (Some i)
  note g = fs_invD(1) [OF inv]
  note fi = free_ino [OF g Some]
  have up: "used fs p" and p80: "p < 80" using fs_invD(4) [OF inv p] used_less by auto
  have np: "i_nblocks (node fs d p) = p" "i_offset (node fs d p) = 4 + 32 * int p"
    using fs_invD(3) [OF inv up] by (auto simp: node_ok_def)
  let ?fs = "fs\<lparr>inooff := (inooff fs)[i := 4 + int (i * sizeof_inode)]\<rparr>"
  have ia: "ino_addr ?fs i = iaddr fs i"
    using g fi(1) by (simp add: ino_addr_def iaddr_def fs_geom_def NFILEINFS_def sizeof_inode_def)
  have ip: "fsoff fs + (4 + 32 * int p) = iaddr fs p" by (simp add: iaddr_def)
  obtain j r' where ae: "add_entry (get_ed d (blk_addr fs p)) i (if isdir then EXT2_FT_DIR else EXT2_FT_REG_FILE)
      (if isdir then CHR ''/'' # c else c) = Inr (j, r')"
    and j: "j \<le> 80" "maxuse r' = maxuse (get_ed d (blk_addr fs p))" "wf_ed r'"
    using add_entry_result [OF c, of d fs p i isdir] fi(1) by metis
  then have wf: "wf_ed (if j = maxuse (get_ed d (blk_addr fs p))
      then r'\<lparr>maxuse := maxuse (get_ed d (blk_addr fs p)) + 1\<rparr> else r')"
    by (auto simp: wf_ed_def)
  have us: "used ?fs i" using used_set [OF g fi(1)] by (simp add: sizeof_inode_def)
  show ?thesis
    unfolding create_inode_def np Let_def Some option.case ia ae ip
    using fi(1) geom_set [OF g fi(3)] us wf p80
    by (auto simp: split del: if_split intro!: exI [of _ "(inooff fs)[i := 4 + int (i * sizeof_inode)]"])
      (auto intro!: put_ed_inside [OF g] same_outside_trans [OF _ put_ed_inside [OF g]]
        same_outside_trans [OF _ put_inode_inside] same_outside_trans [OF _ zero_block_inside [OF g]] put_inode_inside)
qed


lemma remove_total:
  assumes inv: "fs_inv E fs d D" and p: "p \<in> D" and k: "find_idx (live c) (entries fs d p) = Some k"
    and kind: "isdir \<longleftrightarrow> e_ftype (entries fs d p ! k) = EXT2_FT_DIR"
  shows "\<exists>r d'. (if isdir then remove_dir fs d (node fs d p) (get_ed d (blk_addr fs p)) k
      else remove_file fs d (node fs d p) (get_ed d (blk_addr fs p)) k) = Inr (r, fs, d') \<and>
    (r = NO_INO \<or> r < 80 \<and> used fs r) \<and> same_outside fs d d'"
proof -
  note g = fs_invD(1) [OF inv]
  have up: "used fs p" and p80: "p < 80" using fs_invD(4) [OF inv p] used_less by auto
  have b: "i_nblocks (node fs d p) = p" using node_nblocks [OF fs_inv_struct [OF inv] up] .
  have k80: "k < 80" and lk: "live c (entries fs d p ! k)" using find_idx_SomeD [OF k] by auto
  have u: "used fs (e_ino (entries fs d p ! k))"
    using entryD [OF inv p k80] lk by (auto simp: entry_target_ok_def live_def)
  show ?thesis
    using u used_less [OF u] conjunct1 [OF clear_valid_entries [of d fs p k]] p80
    by (auto simp: remove_dir_def remove_file_def b Let_def entries_def
        intro!: same_outside_trans [OF _ put_ed_inside [OF g]] put_ed_inside [OF g] zero_block_inside [OF g])
qed

lemma fsgetinode_total:
  assumes inv: "fs_inv E fs d D" and path: "good_path cs c"
  shows "\<exists>r fs' d'. fsgetinode E fs d (node fs d 0) (path_of (cs @ [c])) flags = Inr (r, fs', d') \<and>
    (r = NO_INO \<or> r < 80 \<and> used fs' r) \<and> same_outside fs d d' \<and> fs_geom E fs' \<and> (\<exists>x. fs' = fs\<lparr>inooff := x\<rparr>)"
proof -
  note g = fs_invD(1) [OF inv]
  have idle: "\<exists>x. fs = fs\<lparr>inooff := x\<rparr>" by (metis filesystem.surjective filesystem.update_convs(3))
  show ?thesis
  proof (cases "twalk (tree_of fs d D) 0 cs")
    case None
    with g idle show ?thesis by (simp add: fsgetinode_path [OF fs_inv_struct [OF inv] path])
  next
    case (Some p)
    then have p: "p \<in> D" using twalk_dir [OF fs_inv_struct [OF inv] fs_invD(2) [OF inv]] by blast
    show ?thesis
    proof (cases "find_idx (live c) (entries fs d p)")
      case None
      with Some g idle create_total [OF inv p good_pathD(2) [OF path], of "has flags O_DIR"] show ?thesis
        by (auto simp: fsgetinode_path [OF fs_inv_struct [OF inv] path] NO_INO_def)
    next
      case k: (Some k)
      have k80: "k < 80" and lk: "live c (entries fs d p ! k)" using find_idx_SomeD [OF k] by auto
      have u: "used fs (e_ino (entries fs d p ! k))"
        using entryD [OF inv p k80] lk by (auto simp: entry_target_ok_def live_def)
      show ?thesis
      proof (cases "(e_ftype (entries fs d p ! k) = EXT2_FT_DIR) \<noteq> has flags O_DIR \<or> \<not> has flags O_RM")
        case True
        with Some k g idle u used_less [OF u] show ?thesis
          by (auto simp: fsgetinode_path [OF fs_inv_struct [OF inv] path])
      next
        case False
        with remove_total [OF inv p k, of "has flags O_DIR"] Some k g idle show ?thesis
          by (auto simp: fsgetinode_path [OF fs_inv_struct [OF inv] path])
      qed
    qed
  qed
qed

lemma fslookup_contained:
  assumes inv: "fs_inv E fs d D" and path: "good_path cs c"
  shows "\<exists>r fs' d'. fslookup E fs d (path_of (cs @ [c])) flags = Inr (r, fs', d') \<and> same_outside fs d d'"
proof -
  obtain r fs' d' where run: "fsgetinode E fs d (node fs d 0) (path_of (cs @ [c])) flags = Inr (r, fs', d')"
    and r: "r = NO_INO \<or> r < 80 \<and> used fs' r" and same: "same_outside fs d d'" and g: "fs_geom E fs'"
    and x: "\<exists>x. fs' = fs\<lparr>inooff := x\<rparr>"
    using fsgetinode_total [OF inv path] by metis
  show ?thesis
  proof (cases "r = NO_INO")
    case True
    with run same show ?thesis by (simp add: fslookup_path [OF fs_inv_struct [OF inv]])
  next
    case False
    with r have u: "r < 80" "used fs' r" by auto
    then have "ino_addr fs' r = iaddr fs r" using ino_addr_used [OF g] x by auto
    then have "same_outside fs d (put_inode d' (ino_addr fs' r) zero_inode)"
      using same_outside_trans [OF same put_inode_inside] u by simp
    with False u run same show ?thesis
      by (simp add: fslookup_path [OF fs_inv_struct [OF inv]] NFILEINFS_def Let_def)
  qed
qed

section \<open>A formatted file system\<close>

definition demo_env :: fsenv where
  "demo_env = \<lparr>fs_at = 4096, inode_ops_at = 8192\<rparr>"

definition demo_fs :: filesystem where
  "demo_fs = \<lparr>fs_name = ''blkfs'', fsoff = 524288, inooff = 4 # replicate 79 (- 1),
     blooff = 2564, fs_dev = 64\<rparr>"

definition demo_disk :: disk where
  "demo_disk = put_inode (\<lambda>_. NUL) (iaddr demo_fs 0) (new_inode demo_env demo_fs 0)"

lemma demo_geom: "fs_geom demo_env demo_fs"
  by (simp add: fs_geom_def demo_fs_def demo_env_def size_defs RAMBLOCK_def RD_SIZE_def)
    (auto simp: less_Suc_eq_0_disj nth_Cons split: nat.split)

lemma demo_used: "used demo_fs i \<longleftrightarrow> i = 0"
  by (auto simp: used_def demo_fs_def NFILEINFS_def nth_Cons split: nat.splits)

lemma get_ed_zeros: "get_ed (\<lambda>_. NUL) a = zero_ed"
  by (simp add: get_ed_def dec_ed_zeros)

lemma demo_entries: "entries demo_fs demo_disk 0 = replicate 80 zero_edt"
  by (simp add: entries_def demo_disk_def dir_put_ino [OF demo_geom] get_ed_zeros) (simp add: zero_ed_def)

lemma demo_node: "node demo_fs demo_disk 0 = new_inode demo_env demo_fs 0"
  by (simp add: node_def demo_disk_def ino_put_ino wf_new_inode demo_geom)

lemma demo_inv: "fs_inv demo_env demo_fs demo_disk {0}"
  by (auto simp: fs_inv_def fs_struct_def demo_geom demo_used node_ok_def dir_ok_def demo_entries)
    (simp_all add: demo_node new_inode_def)

lemma demo_tree: "tree_of demo_fs demo_disk {0} = (\<lambda>_. Map.empty)"
  by (auto simp: tree_of_def demo_entries)

lemma replicate_numeral_Suc: "replicate 80 x = x # replicate 79 x" "replicate 79 x = x # replicate 78 x"
  "replicate 78 x = x # replicate 77 x"
  by (simp_all flip: replicate_Suc)

lemma demo_free_ino: "find_idx (\<lambda>x. x = - 1) (inooff demo_fs) = Some 1"
  by (simp add: demo_fs_def replicate_numeral_Suc)

lemma demo_free_slot: "find_idx (\<lambda>e. e_valid e = 0) (entries demo_fs demo_disk 0) = Some 0"
  by (simp add: demo_entries replicate_numeral_Suc) (simp add: zero_edt_def)

lemma has_flags [simp]:
  "\<not> has 0 b" "has O_CREAT O_CREAT" "\<not> has O_CREAT O_RM" "\<not> has O_CREAT O_DIR"
  "has (O_CREAT OR O_DIR) O_CREAT" "has (O_CREAT OR O_DIR) O_DIR" "\<not> has (O_CREAT OR O_DIR) O_RM"
  "has O_RM O_RM" "\<not> has O_RM O_CREAT" "\<not> has O_RM O_DIR" "has (O_RM OR O_DIR) O_RM" "has (O_RM OR O_DIR) O_DIR"
  "has O_DIR O_DIR" "\<not> has O_DIR O_CREAT" "\<not> has O_DIR O_RM" "\<not> has (O_RM OR O_DIR) O_CREAT"
  by (simp_all add: has_def flag_defs)

lemma good_path_simple: "good_name c \<Longrightarrow> good_path [] c"
  by (simp add: good_path_def path_of_Cons good_name_def)

lemma good_name_a [simp]: "good_name ''a''" "good_name ''b''"
  by (simp_all add: good_name_def)


lemma demo_create_a:
  assumes "has flags O_CREAT" and "\<not> has flags O_RM" and "D = (if has flags O_DIR then {1, 0} else {0})"
  obtains fs d where
    "fslookup demo_env demo_fs demo_disk ''/a'' flags = Inr (Some (new_inode demo_env demo_fs 1), fs, d)"
    and "fs_inv demo_env fs d D" and "tree_of fs d D = tree_add (\<lambda>_. Map.empty) 0 ''a'' (has flags O_DIR) 1"
    and "find_idx (\<lambda>x. x = - 1) (inooff fs) = Some 2"
    and "has flags O_DIR \<Longrightarrow> entries fs d 1 = replicate 80 zero_edt"
proof -
  have "find_idx (\<lambda>x. x = - 1) ((inooff demo_fs)[1 := 4 + int (1 * sizeof_inode)]) = Some 2"
    by (simp add: demo_fs_def replicate_numeral_Suc sizeof_inode_def)
  with fs_create [OF demo_inv good_path_simple [OF good_name_a(1)] assms(1,2) _ _ demo_free_ino, of 0 0] assms(3)
  show thesis by (auto simp: demo_tree demo_free_slot path_of_Cons intro!: that)
qed

section \<open>Properties\<close>

text \<open>
  C4. Looking a path up changes nothing and answers what the directory tree says: the inode that the
  path names if it is of the kind asked for, and otherwise none.  The path walk, the two directory
  scans and the reads of the disk never fault on a well-formed file system.
\<close>

theorem fslookup_finds:
  assumes "fs_inv E fs d D" and "good_path cs c"
    and "\<not> has flags O_CREAT" and "\<not> has flags O_RM"
  shows "fslookup E fs d (path_of (cs @ [c])) flags =
    Inr (map_option (node fs d) (resolve (tree_of fs d D) cs c (has flags O_DIR)), fs, d)"
  using fs_lookup [OF fs_inv_struct [OF assms(1)] assms(2-4)] .

lemma fslookup_finds_witness:
  "\<exists>fs d. fslookup demo_env fs d ''/a'' 0 = Inr (Some (node fs d 1), fs, d)"
proof -
  obtain fs d where "fs_inv demo_env fs d {0}" and "tree_of fs d {0} = tree_add (\<lambda>_. Map.empty) 0 ''a'' False 1"
    by (rule demo_create_a [of O_CREAT "{0}"]) simp_all
  with fslookup_finds [OF this(1) good_path_simple [OF good_name_a(1)], of 0] show ?thesis
    by (intro exI [of _ fs] exI [of _ d]) (simp add: resolve_def tree_add_def path_of_Cons)
qed

text \<open>
  C2. Creating a file or directory whose parent resolves and whose name is free gives it the first
  unused inode, adds exactly that name to the tree and keeps the file system invariant: entries,
  link counts, the inode table and the disjointness of all blocks.
\<close>

theorem fslookup_creates:
  assumes "fs_inv E fs d D" and "good_path cs c" and "has flags O_CREAT" and "\<not> has flags O_RM"
    and "twalk (tree_of fs d D) 0 cs = Some p" and "tree_of fs d D p c = None"
    and "find_idx (\<lambda>x. x = - 1) (inooff fs) = Some i"
    and "find_idx (\<lambda>e. e_valid e = 0) (entries fs d p) = Some k"
    and "D' = (if has flags O_DIR then insert i D else D)"
  shows "\<exists>fs' d'. fslookup E fs d (path_of (cs @ [c])) flags = Inr (Some (new_inode E fs i), fs', d') \<and>
    fs_inv E fs' d' D' \<and> tree_of fs' d' D' = tree_add (tree_of fs d D) p c (has flags O_DIR) i"
  using fs_create [OF assms(1-8)] unfolding assms(9) by blast

lemma fslookup_creates_witness:
  "\<exists>fs' d'. fslookup demo_env demo_fs demo_disk ''/b'' (O_CREAT OR O_DIR) =
      Inr (Some (new_inode demo_env demo_fs 1), fs', d') \<and>
    fs_inv demo_env fs' d' {1, 0} \<and> tree_of fs' d' {1, 0} = tree_add (\<lambda>_. Map.empty) 0 ''b'' True 1"
  using fslookup_creates [OF demo_inv good_path_simple [OF good_name_a(2)] _ _ _ _ demo_free_ino,
      of "O_CREAT OR O_DIR" 0 0 "{1, 0}"]
  by (simp add: demo_tree demo_free_slot path_of_Cons)

text \<open>
  C3. Removing a file without further links, or an empty directory, takes exactly that name out of the
  tree, frees the inode, and keeps the file system invariant.
\<close>

theorem fslookup_removes:
  assumes "fs_inv E fs d D" and "good_path cs c" and "has flags O_RM"
    and "twalk (tree_of fs d D) 0 cs = Some p" and "tree_of fs d D p c = Some (has flags O_DIR, n)"
    and "has flags O_DIR \<Longrightarrow> tree_of fs d D n = Map.empty"
    and "\<not> has flags O_DIR \<Longrightarrow> i_refcnt (node fs d n) = 0"
  shows "\<exists>fs' d'. fslookup E fs d (path_of (cs @ [c])) flags = Inr (Some (node fs d n), fs', d') \<and>
    fs_inv E fs' d' (D - {n}) \<and> tree_of fs' d' (D - {n}) = tree_del (tree_of fs d D) p c"
  using assms by (rule fs_remove)

lemma fslookup_removes_witness:
  "\<exists>fs d fs' d'. tree_of fs d {1, 0} = tree_add (\<lambda>_. Map.empty) 0 ''a'' True 1 \<and>
    fslookup demo_env fs d ''/a'' (O_RM OR O_DIR) = Inr (Some (node fs d 1), fs', d') \<and>
    fs_inv demo_env fs' d' ({1, 0} - {1}) \<and>
    tree_of fs' d' ({1, 0} - {1}) = tree_del (tree_of fs d {1, 0}) 0 ''a''"
proof -
  obtain fs d where i: "fs_inv demo_env fs d {1, 0}" and t: "tree_of fs d {1, 0} = tree_add (\<lambda>_. Map.empty) 0 ''a'' True 1"
    by (rule demo_create_a [of "O_CREAT OR O_DIR" "{1, 0}"]) simp_all
  have p: "twalk (tree_of fs d {1, 0}) 0 [] = Some 0" and n: "tree_of fs d {1, 0} 0 ''a'' = Some (has (O_RM OR O_DIR) O_DIR, 1)"
    and e: "tree_of fs d {1, 0} 1 = Map.empty" unfolding t by (simp_all add: tree_add_def)
  have "path_of ([] @ [''a'']) = ''/a''" by (simp add: path_of_Cons)
  with fslookup_removes [OF i good_path_simple [OF good_name_a(1)] _ p n] e
  have "\<exists>fs' d'. fslookup demo_env fs d ''/a'' (O_RM OR O_DIR) = Inr (Some (node fs d 1), fs', d') \<and>
    fs_inv demo_env fs' d' ({1, 0} - {1}) \<and>
    tree_of fs' d' ({1, 0} - {1}) = tree_del (tree_of fs d {1, 0}) 0 ''a''"
    by (simp only: has_flags not_True_eq_False simp_thms)
  with t show ?thesis by blast
qed

text \<open>C5. A directory that still holds a name is not removed, and nothing changes.\<close>

theorem fslookup_rmdir_nonempty:
  assumes "fs_inv E fs d D" and "good_path cs c" and "has flags O_RM" and "has flags O_DIR"
    and "twalk (tree_of fs d D) 0 cs = Some p" and "tree_of fs d D p c = Some (True, n)"
    and "tree_of fs d D n \<noteq> Map.empty"
  shows "fslookup E fs d (path_of (cs @ [c])) flags = Inr (None, fs, d)"
  using assms by (rule fs_rmdir_refused)

lemma fslookup_rmdir_nonempty_witness:
  "\<exists>fs d. fslookup demo_env fs d ''/a'' (O_RM OR O_DIR) = Inr (None, fs, d)"
proof -
  obtain fs d where i: "fs_inv demo_env fs d {1, 0}" and t: "tree_of fs d {1, 0} = tree_add (\<lambda>_. Map.empty) 0 ''a'' True 1"
    and f: "find_idx (\<lambda>x. x = - 1) (inooff fs) = Some 2" and z: "entries fs d 1 = replicate 80 zero_edt"
    by (rule demo_create_a [of "O_CREAT OR O_DIR" "{1, 0}"]) simp_all
  have gp: "good_path [''a''] ''b''" by (simp add: good_path_def path_of_Cons)
  have p: "twalk (tree_of fs d {1, 0}) 0 [''a''] = Some 1" and n: "tree_of fs d {1, 0} 1 ''b'' = None"
    unfolding t by (simp_all add: tree_add_def)
  have k: "find_idx (\<lambda>e. e_valid e = 0) (entries fs d 1) = Some 0"
    unfolding z by (simp add: replicate_numeral_Suc) (simp add: zero_edt_def)
  obtain fs' d' where
    i': "fs_inv demo_env fs' d' {1, 0}" and t': "tree_of fs' d' {1, 0} = tree_add (tree_of fs d {1, 0}) 1 ''b'' False 2"
    using fs_create [OF i gp has_flags(2,3) p n f k] by (simp only: has_flags(4) if_False) blast
  have "fslookup demo_env fs' d' (path_of ([] @ [''a''])) (O_RM OR O_DIR) = Inr (None, fs', d')"
    by (rule fslookup_rmdir_nonempty [OF i' good_path_simple [OF good_name_a(1)], of _ 0 1])
      (unfold t t', simp_all add: tree_add_def)
  then show ?thesis by (auto simp: path_of_Cons)
qed

text \<open>
  On a well-formed file system every call of \<open>fslookup\<close> with well-formed path returns, whatever
  its flags and however full the disk is, and changes no byte outside the 512 KB of its file system.
\<close>

theorem fslookup_returns_inside:
  assumes "fs_inv E fs d D" and "good_path cs c"
  shows "\<exists>r fs' d'. fslookup E fs d (path_of (cs @ [c])) flags = Inr (r, fs', d') \<and> same_outside fs d d'"
  using assms by (rule fslookup_contained)

lemma fslookup_returns_inside_witness:
  "\<exists>r fs' d'. fslookup demo_env demo_fs demo_disk ''/a'' O_RDWR = Inr (r, fs', d') \<and>
     same_outside demo_fs demo_disk d'"
  using fslookup_returns_inside [OF demo_inv good_path_simple [OF good_name_a(1)], of O_RDWR]
  by (simp add: path_of_Cons)

text \<open>
  The buffers bound the length of a name without a check: a component of 34 or more bytes runs past
  \<open>dirname\<close>, and a new file or directory whose stored name has more than 31 bytes runs past the
  32-byte name field of its directory entry.
\<close>

theorem fslookup_long_name_overruns:
  assumes "fs_inv E fs d D" and "CHR ''/'' \<notin> set c" and "34 \<le> length c" and "length c \<le> 128"
  shows "fslookup E fs d (path_of [c]) flags = Inl Overrun"
proof -
  have "node_ok E fs d 0" using fs_invD(3) [OF assms(1)] used_0 fs_invD(1) [OF assms(1)] by blast
  moreover have "length (path_of [c]) \<le> 129" using assms(4) by (simp add: path_of_Cons)
  moreover have "walk (Suc k) fs d (node fs d 0) (path_of [c]) = Inl Overrun" for k
    using first_comp_path_of [OF assms(2), of "[]"] assms(3) by (simp add: Let_def)
  ultimately show ?thesis
    by (simp add: fslookup_path [OF fs_inv_struct [OF assms(1)]] fsgetinode_def node_ok_def del: walk.simps)
qed

lemma fslookup_long_name_overruns_witness:
  "fslookup demo_env demo_fs demo_disk (path_of [replicate 40 CHR ''x'']) 0 = Inl Overrun"
  by (rule fslookup_long_name_overruns [OF demo_inv]) simp_all

end
