(* ===== verification/Queues.thy ===== *)
theory Queues
  imports Prelude
begin

text \<open>
  The interface of a bounded first-in first-out queue, as its clients in the kernel rely on it (the
  event queue of the input device, the waiting list of a semaphore): \<open>holds\<close> relates a queue to the
  list of its elements, \<open>item\<close> are the values that can be stored, \<open>cap\<close> is the capacity.
\<close>

locale fifo =
  fixes enq :: "'q \<Rightarrow> 'a \<Rightarrow> 'q res"
    and deq :: "'q \<Rightarrow> ('a \<times> 'q) res"
    and holds :: "'q \<Rightarrow> 'a list \<Rightarrow> bool"
    and item :: "'a \<Rightarrow> bool"
    and cap :: nat
  assumes enq_holds: "holds q xs \<Longrightarrow> length xs < cap \<Longrightarrow> item x \<Longrightarrow> \<exists>q'. enq q x = Inr q' \<and> holds q' (xs @ [x])"
    and deq_holds: "holds q (x # xs) \<Longrightarrow> \<exists>q'. deq q = Inr (x, q') \<and> holds q' xs"
begin

primrec enq_all :: "'q \<Rightarrow> 'a list \<Rightarrow> 'q res" where
  "enq_all q [] = Inr q"
| "enq_all q (x # xs) = rbind (enq q x) (\<lambda>q'. enq_all q' xs)"

primrec deq_all :: "nat \<Rightarrow> 'q \<Rightarrow> ('a list \<times> 'q) res" where
  "deq_all 0 q = Inr ([], q)"
| "deq_all (Suc n) q = rbind (deq q) (\<lambda>(x, q'). rbind (deq_all n q') (\<lambda>(xs, q2). Inr (x # xs, q2)))"

lemma enq_all_holds:
  "holds q ys \<Longrightarrow> length ys + length xs \<le> cap \<Longrightarrow> \<forall>x \<in> set xs. item x \<Longrightarrow>
     \<exists>q'. enq_all q xs = Inr q' \<and> holds q' (ys @ xs)"
proof (induction xs arbitrary: q ys)
  case Nil
  then show ?case by simp
next
  case (Cons x xs)
  then obtain q' where "enq q x = Inr q'" "holds q' (ys @ [x])"
    using enq_holds [of q ys x] by auto
  with Cons.IH [of q' "ys @ [x]"] Cons.prems show ?case by simp
qed

lemma deq_all_holds:
  "holds q (xs @ ys) \<Longrightarrow> \<exists>q'. deq_all (length xs) q = Inr (xs, q') \<and> holds q' ys"
proof (induction xs arbitrary: q)
  case Nil
  then show ?case by simp
next
  case (Cons x xs)
  then obtain q' where "deq q = Inr (x, q')" "holds q' (xs @ ys)"
    using deq_holds [of q x "xs @ ys"] by auto
  with Cons.IH [of q'] show ?case by auto
qed

end

end
