(* ===== verification/Video.thy ===== *)
theory Video
  imports Prelude
begin

text \<open>
  The frame buffer device (\<open>kernel/src/devices/video/video.c\<close>): textures, the font that is loaded
  into them, and the writes of display information, texture bytes and sprites.  Texture memory is
  a function from pixel indices (texture \<open>i\<close> occupies the pixels \<open>64 * i\<close> to \<open>64 * i + 63\<close>); a
  request to the video hardware (\<open>_io_write\<close> with \<open>_DEVREG_VIDEO_FBCTL\<close>) is an element of the
  trace \<open>fb_out\<close>.  The buffer of \<open>fb_write\<close> is given by its contents as the code reads it.
\<close>

unbundle bit_operations_syntax

section \<open>Textures\<close>

definition TEXTURE_W :: nat where "TEXTURE_W = 8"
definition TEXTURE_H :: nat where "TEXTURE_H = 8"
definition SPRITE_BRK :: nat where "SPRITE_BRK = 0x1000000"
definition NTEXTURE :: nat where "NTEXTURE = 16384"
definition NSPRITE :: nat where "NSPRITE = 16384"

type_synonym texmem = "nat \<Rightarrow> 32 word"

definition tex_base :: "nat \<Rightarrow> nat" where
  "tex_base i = i * (TEXTURE_W * TEXTURE_H)"

text \<open>One pixel of a glyph: bit \<open>7 - x\<close> of row \<open>y\<close> of the upper or lower half.\<close>

definition glyph_pixel :: "bool \<Rightarrow> 8 word list \<Rightarrow> 32 word \<Rightarrow> 32 word \<Rightarrow> nat \<Rightarrow> nat \<Rightarrow> 32 word" where
  "glyph_pixel half bits fg bg y x =
     (let bitmask = (if half then bits ! (y + TEXTURE_H) else bits ! y)
      in if drop_bit (7 - x) bitmask AND 1 = 1 then fg else bg)"

fun fill_pixels :: "texmem \<Rightarrow> nat \<Rightarrow> 32 word list \<Rightarrow> texmem" where
  "fill_pixels t p [] = t"
| "fill_pixels t p (c # cs) = fill_pixels (t(p := c)) (Suc p) cs"

definition texture_fill ::
  "texmem \<Rightarrow> nat \<Rightarrow> bool \<Rightarrow> 8 word list \<Rightarrow> 32 word \<Rightarrow> 32 word \<Rightarrow> texmem" where
  "texture_fill t i half bits fg bg =
     fill_pixels t (tex_base i)
       (concat (map (\<lambda>y. map (\<lambda>x. glyph_pixel half bits fg bg y x) [0..<TEXTURE_W]) [0..<TEXTURE_H]))"

definition load_char :: "8 word list \<Rightarrow> texmem \<Rightarrow> nat \<Rightarrow> texmem" where
  "load_char font t ch =
     (let t1 = texture_fill t (ch * 2 + 1) False (drop (16 * ch) font) 0xffffff 0x000000
      in texture_fill t1 (ch * 2 + 2) True (drop (16 * ch) font) 0xffffff 0x000000)"

definition font_load :: "texmem \<Rightarrow> 8 word list \<Rightarrow> texmem" where
  "font_load t font = foldl (load_char font) t [0..<256]"

section \<open>The device\<close>

record display_info =
  di_width :: nat
  di_height :: nat
  num_displays :: nat
  di_current :: nat
  num_textures :: nat
  num_sprites :: nat

record sprite =
  sp_texture :: nat
  sp_x :: nat
  sp_y :: nat
  sp_display :: nat
  sp_z :: nat

record fbctl =
  ctl_x :: nat
  ctl_y :: nat
  ctl_w :: nat
  ctl_h :: nat
  ctl_pixels :: "32 word list"

record fb =
  fb_info :: display_info
  fb_tex :: texmem
  fb_out :: "fbctl list"

definition fb_init :: "nat \<Rightarrow> nat \<Rightarrow> 8 word list \<Rightarrow> fb" where
  "fb_init width height font =
     \<lparr>fb_info = \<lparr>di_width = width, di_height = height, num_displays = 8, di_current = 0,
        num_textures = NTEXTURE, num_sprites = NSPRITE\<rparr>,
      fb_tex = font_load (\<lambda>_. 0) font, fb_out = []\<rparr>"

definition sizeof_display_info :: nat where "sizeof_display_info = 24"

text \<open>\<open>fb_read\<close> copies the display information out and returns 0 on every path.\<close>

definition fb_read :: "fb \<Rightarrow> nat \<Rightarrow> nat \<Rightarrow> nat \<times> display_info option" where
  "fb_read fb offset count =
     (if offset \<noteq> 0 then (0, None)
      else if count \<noteq> sizeof_display_info then (0, None)
      else (0, Some (fb_info fb)))"

datatype fb_data = Fb_info display_info | Fb_bytes "8 word list" | Fb_sprites "sprite list"

definition set_byte :: "32 word \<Rightarrow> nat \<Rightarrow> 8 word \<Rightarrow> 32 word" where
  "set_byte w k b = (w AND NOT (push_bit (8 * k) 0xff)) OR push_bit (8 * k) (ucast b)"

fun tex_bytes :: "texmem \<Rightarrow> nat \<Rightarrow> 8 word list \<Rightarrow> texmem" where
  "tex_bytes t off [] = t"
| "tex_bytes t off (b # bs) =
     tex_bytes (t(off div 4 := set_byte (t (off div 4)) (off mod 4) b)) (Suc off) bs"

definition tex_pixels :: "texmem \<Rightarrow> nat \<Rightarrow> 32 word list" where
  "tex_pixels t i = map (\<lambda>k. t (tex_base i + k)) [0..<TEXTURE_W * TEXTURE_H]"

definition draw_sprite :: "fb \<Rightarrow> sprite \<Rightarrow> fb" where
  "draw_sprite fb sp =
     (if sp_texture sp > 0 \<and> sp_display sp = di_current (fb_info fb)
      then fb\<lparr>fb_out := fb_out fb @ [\<lparr>ctl_x = sp_x sp, ctl_y = sp_y sp, ctl_w = TEXTURE_W,
        ctl_h = TEXTURE_H, ctl_pixels = tex_pixels (fb_tex fb) (sp_texture sp)\<rparr>]\<rparr>
      else fb)"

definition fb_write :: "fb \<Rightarrow> nat \<Rightarrow> fb_data \<Rightarrow> nat \<Rightarrow> nat \<times> fb" where
  "fb_write fb offset buf count =
     (count,
      case buf of
        Fb_info info \<Rightarrow>
          if offset = 0 \<and> di_current (fb_info fb) \<noteq> di_current info
          then fb\<lparr>fb_info := (fb_info fb)\<lparr>di_current := di_current info\<rparr>\<rparr> else fb
      | Fb_bytes bs \<Rightarrow>
          if 0 < offset \<and> offset < SPRITE_BRK then fb\<lparr>fb_tex := tex_bytes (fb_tex fb) offset bs\<rparr> else fb
      | Fb_sprites sps \<Rightarrow>
          if SPRITE_BRK \<le> offset then foldl draw_sprite fb sps else fb)"

section \<open>The font in texture memory\<close>

lemma fill_pixels_apply:
  "fill_pixels t p cs q = (if p \<le> q \<and> q < p + length cs then cs ! (q - p) else t q)"
proof (induction cs arbitrary: t p)
  case Nil
  then show ?case by auto
next
  case (Cons c cs)
  then show ?case by (cases "q = p") (auto simp: nth_Cons' not_le)
qed

lemma texture_fill_apply:
  "texture_fill t i half bits fg bg q =
    (if tex_base i \<le> q \<and> q < tex_base i + 64
     then glyph_pixel half bits fg bg ((q - tex_base i) div 8) ((q - tex_base i) mod 8) else t q)"
proof -
  let ?rows = "map (\<lambda>y. map (\<lambda>x. glyph_pixel half bits fg bg y x) [0..<8]) [0..<8]"
  have len: "length (concat ?rows) = 64"
    by (simp add: length_concat comp_def sum_list_triv)
  have nth: "concat ?rows ! k = glyph_pixel half bits fg bg (k div 8) (k mod 8)" if "k < 64" for k
  proof -
    let ?f = "\<lambda>y. map (\<lambda>x. glyph_pixel half bits fg bg y x) [0..<8]"
    have "take 8 (drop (8 * (k div 8)) (concat (map ?f [0..<8]) @ [])) = ?f ([0..<8] ! (k div 8))"
      using that by (intro take_drop_concat_chunks) auto
    then have "take 8 (drop (8 * (k div 8)) (concat ?rows)) ! (k mod 8) = ?f (k div 8) ! (k mod 8)"
      using that by simp
    then show ?thesis
      using that len by simp
  qed
  show ?thesis
    unfolding texture_fill_def TEXTURE_W_def TEXTURE_H_def fill_pixels_apply len
    using nth [of "q - tex_base i"] by auto
qed

lemma load_char_apply:
  "load_char font t ch q =
    (if 64 * (2 * ch + 1) \<le> q \<and> q < 64 * (2 * ch + 3)
     then glyph_pixel (64 * (2 * ch + 2) \<le> q) (drop (16 * ch) font) 0xffffff 0
       (q mod 64 div 8) (q mod 8) else t q)"
proof -
  have m: "(q - 64 * a) = q mod 64" if "64 * a \<le> q" "q < 64 * a + 64" for a
  proof -
    have "q = 64 * a + (q - 64 * a)" and lt: "q - 64 * a < 64" using that by linarith+
    then have "q mod 64 = (q - 64 * a) mod 64" by (metis mod_mult_self4)
    with lt show ?thesis by simp
  qed
  have "q mod 64 mod 8 = q mod 8" by (simp add: mod_mod_cancel)
  then show ?thesis
    using m [of "2 * ch + 1"] m [of "2 * ch + 2"]
    by (auto simp: load_char_def Let_def texture_fill_apply tex_base_def TEXTURE_W_def TEXTURE_H_def algebra_simps)
qed

lemma font_load_upto:
  assumes "ch < n"
  shows "foldl (load_char font) t [0..<n] q = (if 64 * (2 * ch + 1) \<le> q \<and> q < 64 * (2 * ch + 3)
     then load_char font t ch q else foldl (load_char font) t [0..<n] q)"
  using assms
proof (induction n)
  case 0
  then show ?case by simp
next
  case (Suc n)
  show ?case
  proof (cases "ch = n")
    case True
    then show ?thesis by (simp add: load_char_apply)
  next
    case False
    with Suc show ?thesis by (auto simp: load_char_apply)
  qed
qed

text \<open>
  After the font is loaded, the two 8x8 textures of a character hold its 8x16 glyph: the pixel in
  row \<open>y\<close>, column \<open>x\<close> of texture \<open>2 * ch + 1\<close> (upper half) or \<open>2 * ch + 2\<close> (lower half) is white
  exactly where bit \<open>7 - x\<close> of that row of the font is set.
\<close>

theorem font_load_glyph:
  assumes "ch < 256" and "y < 16" and "x < 8" and "length font = 4096"
  shows "tex_pixels (font_load t font) (ch * 2 + 1 + y div 8) ! (8 * (y mod 8) + x) =
    (if bit (font ! (16 * ch + y)) (7 - x) then 0xffffff else 0)"
proof -
  define q where "q = 64 * (2 * ch + 1) + (64 * (y div 8) + (8 * (y mod 8) + x))"
  have y: "y div 8 = 0 \<and> y mod 8 = y \<or> y div 8 = 1 \<and> y mod 8 + 8 = y \<and> 8 \<le> y"
    using assms(2) by (cases "y < 8") (auto simp: div_nat_eqI mod_nat_eqI le_mod_geq)
  have k: "8 * (y mod 8) + x < 64" using assms(3) mod_less_divisor [of 8 y] by linarith
  have r: "64 * (2 * ch + 1) \<le> q" "q < 64 * (2 * ch + 3)" using k y by (auto simp: q_def)
  have "q = 64 * (2 * ch + 1 + y div 8) + (8 * (y mod 8) + x)"
    by (simp add: q_def)
  then have "q mod 64 = 8 * (y mod 8) + x"
    using k by (simp only: mod_mult_self4 mod_less)
  moreover have "q mod 8 = q mod 64 mod 8" by (simp add: mod_mod_cancel)
  ultimately have m: "q mod 64 div 8 = y mod 8" "q mod 8 = x"
    using assms(3) by simp_all
  have low: "drop_bit n w AND 1 = 1 \<longleftrightarrow> bit w n" for n and w :: "8 word"
    by (simp add: bit_iff_odd_drop_bit odd_iff_mod_2_eq_one and_one_eq)
  have "tex_pixels (font_load t font) (ch * 2 + 1 + y div 8) ! (8 * (y mod 8) + x) = font_load t font q"
    using k by (simp add: tex_pixels_def tex_base_def TEXTURE_W_def TEXTURE_H_def q_def algebra_simps)
  also have "\<dots> = glyph_pixel (64 * (2 * ch + 2) \<le> q) (drop (16 * ch) font) 0xffffff 0 (y mod 8) x"
    using font_load_upto [OF assms(1), of font t q] r m by (simp add: font_load_def load_char_apply)
  also have "\<dots> = (if bit (font ! (16 * ch + y)) (7 - x) then 0xffffff else 0)"
    using y k assms by (auto simp: glyph_pixel_def TEXTURE_H_def low q_def Let_def add.assoc add.commute)
  finally show ?thesis .
qed

lemma font_load_glyph_witness:
  "tex_pixels (font_load (\<lambda>_. 0) (replicate 4096 0x81)) (65 * 2 + 1 + 3 div 8) ! (8 * (3 mod 8) + 0) = 0xffffff"
  using font_load_glyph [of 65 3 0 "replicate 4096 (0x81 :: 8 word)"] by (simp add: bit_numeral_simps)

end
