(* ===== verification/Tty.thy ===== *)
theory Tty
  imports Video
begin

text \<open>
  The terminal (\<open>kernel/src/devices/tty/tty.c\<close>): the cooked-line queue, the character grid with
  cursor and dirty marks, and the device operations.  Pointers into \<open>buf\<close>, \<open>dirty\<close> and the
  queue are indices; an access past the end of a buffer is the fault \<open>Overrun\<close>.  Each operation
  runs between \<open>sem_wait(&tty->lock)\<close> and \<open>sem_signal(&tty->lock)\<close>, so it is one step of the model;
  \<open>cooked\<close> is the value of the counting semaphore of finished lines, and a read that would wait on
  it is the fault \<open>Blocked\<close>.
\<close>

section \<open>The queue of typed characters\<close>

definition TTY_COOK_BUF_SZ :: nat where "TTY_COOK_BUF_SZ = 1024"

record tty_queue =
  tq_buf :: "char list"
  tq_front :: nat
  tq_rear :: nat

definition tty_enqueue :: "tty_queue \<Rightarrow> char \<Rightarrow> tty_queue res" where
  "tty_enqueue q ch =
     (let buf = (tq_buf q)[tq_rear q := ch];
          r = tq_rear q + 1;
          rear = (if r = length buf then 0 else r)
      in rbind (require (rear \<noteq> tq_front q) (Panic ''tty queue full'')) (\<lambda>_.
         Inr (q\<lparr>tq_buf := buf[rear := NUL], tq_rear := rear\<rparr>)))"

text \<open>
  \<open>q->front != q->end\<close> always holds, because \<open>front\<close> is wrapped to the start of the buffer.  The
  result is 0 when a character was taken back.
\<close>

definition tty_pop_back :: "tty_queue \<Rightarrow> nat \<times> tty_queue" where
  "tty_pop_back q =
     (if tq_front q \<noteq> length (tq_buf q) then
        let pos = (if tq_rear q = 0 then length (tq_buf q) else tq_rear q) in
        if tq_buf q ! (pos - 1) \<noteq> NUL
        then (0, q\<lparr>tq_buf := (tq_buf q)[pos - 1 := NUL], tq_rear := pos - 1\<rparr>)
        else (1, q)
      else (1, q))"

section \<open>The screen\<close>

record tty =
  tty_display :: nat
  tty_lines :: nat
  tty_columns :: nat
  tty_buf :: "char list"
  tty_dirty :: "bool list"
  tty_cursor :: nat
  tty_queue :: tty_queue
  tty_cooked :: nat

definition tty_size :: "tty \<Rightarrow> nat" where
  "tty_size t = tty_columns t * tty_lines t"

definition tty_defaultch :: char where
  "tty_defaultch = NUL"

text \<open>The two \<open>memmove\<close> calls and the clearing loop, which runs from the moved cursor.\<close>

definition tty_upd_scrollup :: "tty \<Rightarrow> tty res" where
  "tty_upd_scrollup t =
     (let cols = tty_columns t;
          move_sz = cols * (tty_lines t - 1);
          buf1 = take move_sz (drop cols (tty_buf t)) @ drop move_sz (tty_buf t);
          dirty1 = take move_sz (drop cols (tty_dirty t)) @ drop move_sz (tty_dirty t)
      in rbind (require (cols \<le> tty_cursor t \<and> tty_cursor t \<le> length buf1) Overrun) (\<lambda>_.
         let cur = tty_cursor t - cols;
             buf2 = take cur buf1 @ replicate cols tty_defaultch @ drop (cur + cols) buf1
         in Inr (t\<lparr>tty_buf := buf2, tty_dirty := dirty1, tty_cursor := cur\<rparr>)))"

definition tty_upd_cr :: "tty \<Rightarrow> tty" where
  "tty_upd_cr t = t\<lparr>tty_cursor := tty_cursor t - tty_cursor t mod tty_columns t\<rparr>"

definition tty_upd_lf :: "tty \<Rightarrow> tty" where
  "tty_upd_lf t = t\<lparr>tty_cursor := tty_cursor t + tty_columns t\<rparr>"

definition tty_upd_backsp :: "tty \<Rightarrow> tty" where
  "tty_upd_backsp t =
     (if tty_cursor t > 0
      then t\<lparr>tty_cursor := tty_cursor t - 1, tty_buf := (tty_buf t)[tty_cursor t - 1 := NUL]\<rparr>
      else t)"

definition tty_upd_putc :: "tty \<Rightarrow> char \<Rightarrow> tty res" where
  "tty_upd_putc t ch =
     rbind (require (tty_cursor t < length (tty_buf t)) Overrun) (\<lambda>_.
     Inr (t\<lparr>tty_buf := (tty_buf t)[tty_cursor t := ch], tty_cursor := tty_cursor t + 1\<rparr>))"

definition tty_mark :: "tty \<Rightarrow> nat \<Rightarrow> tty res" where
  "tty_mark t i =
     rbind (require (i < length (tty_dirty t)) Overrun) (\<lambda>_. Inr (t\<lparr>tty_dirty := (tty_dirty t)[i := True]\<rparr>))"

fun tty_mark_from :: "tty \<Rightarrow> nat \<Rightarrow> nat \<Rightarrow> tty res" where
  "tty_mark_from t i 0 = Inr t"
| "tty_mark_from t i (Suc n) = rbind (tty_mark t i) (\<lambda>t1. tty_mark_from t1 (Suc i) n)"

definition tty_mark_line :: "tty \<Rightarrow> nat \<Rightarrow> tty res" where
  "tty_mark_line t ch = tty_mark_from t (ch - ch mod tty_columns t) (tty_columns t)"

definition tty_mark_all :: "tty \<Rightarrow> tty res" where
  "tty_mark_all t = tty_mark_from t 0 (tty_size t)"

definition CR :: char where "CR = CHR 0x0D"
definition BS :: char where "BS = CHR 0x08"
definition LF :: char where "LF = CHR 0x0A"

definition tty_putc :: "tty \<Rightarrow> char \<Rightarrow> tty res" where
  "tty_putc t ch =
     (if ch = CR then
        let t1 = tty_upd_cr t in tty_mark_line t1 (tty_cursor t1)
      else if ch = BS then
        let t1 = tty_upd_backsp t in
        rbind (tty_mark t1 (tty_cursor t1)) (\<lambda>t2. tty_mark t2 (tty_cursor t2 + 1))
      else if ch = LF then
        let t1 = tty_upd_lf (tty_upd_cr t) in
        if tty_cursor t1 = tty_size t1 then rbind (tty_upd_scrollup t1) tty_mark_all
        else rbind (tty_mark_line t1 (tty_cursor t1 - tty_columns t1)) (\<lambda>t2. tty_mark_line t2 (tty_cursor t2))
      else
        rbind (tty_upd_putc t ch) (\<lambda>t1.
        if tty_cursor t1 = tty_size t1 then rbind (tty_upd_scrollup t1) tty_mark_all
        else rbind (tty_mark t1 (tty_cursor t1 - 1)) (\<lambda>t2. tty_mark t2 (tty_cursor t2))))"

fun tty_putcs :: "tty \<Rightarrow> char list \<Rightarrow> tty res" where
  "tty_putcs t [] = Inr t"
| "tty_putcs t (c # cs) = rbind (tty_putc t c) (\<lambda>t1. tty_putcs t1 cs)"

section \<open>Rendering\<close>

text \<open>
  Every dirty cell is drawn as two sprites, the cursor as character \<open>0xdb\<close>.  \<open>ch->ch\<close> is an
  \<open>unsigned char\<close>.  The marks are not cleared.
\<close>

definition render_cell :: "tty \<Rightarrow> nat \<Rightarrow> sprite list" where
  "render_cell t i =
     (let x = i mod tty_columns t; y = i div tty_columns t;
          draw = (if i = tty_cursor t then 0xdb else of_char (tty_buf t ! i))
      in [\<lparr>sp_texture = draw * 2 + 1, sp_x = x * 8, sp_y = y * 16, sp_display = tty_display t, sp_z = 0\<rparr>,
          \<lparr>sp_texture = draw * 2 + 2, sp_x = x * 8, sp_y = y * 16 + 8, sp_display = tty_display t, sp_z = 0\<rparr>])"

definition sizeof_sprite :: nat where "sizeof_sprite = 8"

definition tty_render :: "tty \<Rightarrow> fb \<Rightarrow> fb" where
  "tty_render t fb =
     foldl (\<lambda>fb i. if tty_dirty t ! i
         then snd (fb_write fb SPRITE_BRK (Fb_sprites (render_cell t i)) (2 * sizeof_sprite)) else fb)
       fb [0..<tty_size t]"

section \<open>Device operations\<close>

definition tty_init :: "nat \<Rightarrow> display_info \<Rightarrow> tty" where
  "tty_init dev_id info =
     (let l = di_height info div 16; c = di_width info div 8 in
      \<lparr>tty_display = dev_id - 1, tty_lines = l, tty_columns = c,
       tty_buf = replicate (c * l) tty_defaultch, tty_dirty = replicate (c * l) True, tty_cursor = 0,
       tty_queue = \<lparr>tq_buf = replicate TTY_COOK_BUF_SZ NUL, tq_front = 0, tq_rear = 0\<rparr>, tty_cooked = 0\<rparr>)"

definition tty_cook :: "tty \<Rightarrow> char \<Rightarrow> (nat \<times> tty) res" where
  "tty_cook t ch =
     (let q = tty_queue t in
      if ch = LF then
        rbind (tty_enqueue q ch) (\<lambda>q1. rbind (tty_enqueue q1 NUL) (\<lambda>q2.
        Inr (0, t\<lparr>tty_queue := q2, tty_cooked := tty_cooked t + 1\<rparr>)))
      else if ch = BS then
        let (ret, q1) = tty_pop_back q in Inr (ret, t\<lparr>tty_queue := q1\<rparr>)
      else rbind (tty_enqueue q ch) (\<lambda>q1. Inr (0, t\<lparr>tty_queue := q1\<rparr>)))"

text \<open>
  The \<open>while (1)\<close> loop of \<open>tty_read\<close>; the fuel is the size of the queue, after which the loop
  would see the same cells again.  \<open>got\<close> are the bytes stored into the caller's buffer.
\<close>

fun read_loop :: "nat \<Rightarrow> tty_queue \<Rightarrow> nat \<Rightarrow> nat \<Rightarrow> char list \<Rightarrow> (nat \<times> char list \<times> tty_queue) res" where
  "read_loop 0 q count nread got = Inl Diverge"
| "read_loop (Suc fuel) q count nread got =
     (let ch = tq_buf q ! tq_front q;
          got1 = (if nread < count \<and> ch \<noteq> NUL then got @ [ch] else got);
          f = tq_front q + 1;
          q1 = q\<lparr>tq_front := (if f = length (tq_buf q) then 0 else f)\<rparr>
      in if ch = NUL then Inr (nread, got1, q1) else read_loop fuel q1 count (nread + 1) got1)"

definition tty_read :: "tty \<Rightarrow> nat \<Rightarrow> (nat \<times> char list \<times> tty) res" where
  "tty_read t count =
     rbind (require (0 < tty_cooked t) Blocked) (\<lambda>_.
     rbind (read_loop (TTY_COOK_BUF_SZ + 1) (tty_queue t) count 0 []) (\<lambda>(nread, got, q).
     Inr (nread, got, t\<lparr>tty_queue := q, tty_cooked := tty_cooked t - 1\<rparr>)))"

definition tty_write :: "tty \<Rightarrow> fb \<Rightarrow> char list \<Rightarrow> (nat \<times> tty \<times> fb) res" where
  "tty_write t fb buf = rbind (tty_putcs t buf) (\<lambda>t1. Inr (length buf, t1, tty_render t1 fb))"

section \<open>The terminal task\<close>

record input_event =
  ev_ctrl :: bool
  ev_alt :: bool
  ev_data :: nat

text \<open>
  One round of the loop of \<open>tty_task\<close> for an event read from the input device: \<open>k\<close> is the index of
  the current terminal among the four.  Messages printed for Alt-7 and Ctrl-C are left out.
\<close>

definition tty_step :: "tty list \<Rightarrow> fb \<Rightarrow> nat \<Rightarrow> input_event \<Rightarrow> (tty list \<times> fb \<times> nat) res" where
  "tty_step ts fb k ev =
     (let next = (if ev_alt ev then
            (if ev_data ev = of_char CHR ''1'' then 0 else if ev_data ev = of_char CHR ''2'' then 1
             else if ev_data ev = of_char CHR ''3'' then 2 else if ev_data ev = of_char CHR ''4'' then 3 else k)
            else k)
      in rbind
        (if next \<noteq> k then
           rbind (tty_mark_all (ts ! next)) (\<lambda>t1.
           let fb1 = snd (fb_write fb 0 (Fb_info ((fb_info fb)\<lparr>di_current := tty_display t1\<rparr>)) sizeof_display_info) in
           rbind (tty_write t1 fb1 []) (\<lambda>(_, t2, fb2). Inr (ts[next := t2], fb2, next)))
         else Inr (ts, fb, k)) (\<lambda>(ts1, fb1, k1).
      if \<not> ev_ctrl ev \<and> \<not> ev_alt ev then
        let ch = char_of (ev_data ev) in
        rbind (tty_cook (ts1 ! k1) ch) (\<lambda>(ret, t1).
        if ret = 0 then rbind (tty_write t1 fb1 [ch]) (\<lambda>(_, t2, fb2). Inr (ts1[k1 := t2], fb2, k1))
        else Inr (ts1[k1 := t1], fb1, k1))
      else Inr (ts1, fb1, k1)))"


section \<open>The line discipline\<close>

text \<open>
  The abstract state of a terminal's input: the finished lines that nobody has read and the line that
  is being typed.  In the queue every finished line is followed by a newline and a NUL.
\<close>

definition queued :: "string list \<Rightarrow> string \<Rightarrow> char list" where
  "queued ls cur = concat (map (\<lambda>l. l @ [LF, NUL]) ls) @ cur"

fun line_step :: "string list \<times> string \<Rightarrow> char \<Rightarrow> nat \<times> string list \<times> string" where
  "line_step (ls, cur) ch =
     (if ch = LF then (0, ls @ [cur], [])
      else if ch = BS then (if cur = [] then (1, ls, cur) else (0, ls, butlast cur))
      else (0, ls, cur @ [ch]))"

definition queue_holds :: "tty_queue \<Rightarrow> char list \<Rightarrow> bool" where
  "queue_holds q cs \<longleftrightarrow>
     (let n = length (tq_buf q); k = length cs in
      n = TTY_COOK_BUF_SZ \<and> tq_front q < n \<and> k < n \<and> tq_rear q = (tq_front q + k) mod n \<and>
      ring_list (tq_buf q) (tq_front q) k = cs \<and> tq_buf q ! tq_rear q = NUL \<and>
      tq_buf q ! ((tq_front q + (n - 1)) mod n) = NUL)"

definition input_holds :: "tty \<Rightarrow> string list \<Rightarrow> string \<Rightarrow> bool" where
  "input_holds t ls cur \<longleftrightarrow> queue_holds (tty_queue t) (queued ls cur) \<and> tty_cooked t = length ls \<and>
     (\<forall>l \<in> set ls. NUL \<notin> set l) \<and> NUL \<notin> set cur"

lemma LF_neq_NUL [simp]: "LF \<noteq> NUL" "NUL \<noteq> LF" "LF \<noteq> BS" "BS \<noteq> LF" "LF \<noteq> CR" "CR \<noteq> LF" "BS \<noteq> CR" "CR \<noteq> BS"
  by (simp_all add: LF_def BS_def CR_def)

lemma queue_holdsD:
  assumes "queue_holds q cs"
  shows "length (tq_buf q) = 1024" and "tq_front q < 1024" and "length cs < 1024"
    and "tq_rear q = (tq_front q + length cs) mod 1024" and "ring_list (tq_buf q) (tq_front q) (length cs) = cs"
    and "tq_buf q ! tq_rear q = NUL" and "tq_buf q ! ((tq_front q + 1023) mod 1024) = NUL"
  using assms by (auto simp: queue_holds_def Let_def TTY_COOK_BUF_SZ_def)

lemma enqueue_holds:
  assumes q: "queue_holds q cs" and "length cs < 1023"
  obtains q' where "tty_enqueue q ch = Inr q'" and "queue_holds q' (cs @ [ch])"
proof -
  note Q = queue_holdsD [OF q]
  let ?n = "1024 :: nat" and ?k = "length cs"
  let ?b = "(tq_buf q)[tq_rear q := ch]" and ?r = "(tq_front q + Suc ?k) mod ?n"
  let ?q = "q\<lparr>tq_buf := ?b[?r := NUL], tq_rear := ?r\<rparr>"
  have nf: "?r \<noteq> tq_front q"
    using ring_index_neq [of "tq_front q" ?n 0 "Suc ?k"] Q(2) assms(2) by simp
  have rr: "(if tq_rear q + 1 = length (tq_buf q) then 0 else tq_rear q + 1) = ?r"
    using Q(1,4) by (simp add: mod_Suc)
  have run: "tty_enqueue q ch = Inr ?q"
    unfolding tty_enqueue_def Let_def length_list_update rr using nf by simp
  have "ring_list ?b (tq_front q) (Suc ?k) = cs @ [ch]"
    using ring_list_enq [of "tq_front q" "tq_buf q" ?k ch] Q by simp
  moreover have "ring_list (?b[?r := NUL]) (tq_front q) (Suc ?k) = ring_list ?b (tq_front q) (Suc ?k)"
    using ring_list_update_outside [of "tq_front q" ?b "Suc ?k" "Suc ?k" NUL] Q assms(2) by simp
  ultimately have ring: "ring_list (?b[?r := NUL]) (tq_front q) (Suc ?k) = cs @ [ch]"
    by simp
  have last: "?b[?r := NUL] ! ((tq_front q + 1023) mod ?n) = NUL"
  proof (cases "?r = (tq_front q + 1023) mod ?n")
    case True
    with Q(1) show ?thesis by simp
  next
    case False
    have "tq_rear q \<noteq> (tq_front q + 1023) mod ?n"
      using ring_index_neq [of "tq_front q" ?n ?k 1023] Q assms(2) by simp
    with False Q show ?thesis by simp
  qed
  have "queue_holds ?q (cs @ [ch])"
    using Q ring last assms(2) by (simp add: queue_holds_def TTY_COOK_BUF_SZ_def)
  with run show thesis by (rule that)
qed

lemma ring_list_snoc: "ring_list b l (Suc k) = ring_list b l k @ [b ! ((l + k) mod length b)]"
  by (simp add: ring_list_def)

lemma pop_back_holds:
  assumes q: "queue_holds q (cs @ [c])" and "c \<noteq> NUL"
  shows "\<exists>q'. tty_pop_back q = (0, q') \<and> queue_holds q' cs"
proof -
  note Q = queue_holdsD [OF q]
  let ?p = "(tq_front q + length cs) mod 1024"
  let ?q = "q\<lparr>tq_buf := (tq_buf q)[?p := NUL], tq_rear := ?p\<rparr>"
  have "ring_list (tq_buf q) (tq_front q) (length cs) @ [tq_buf q ! ?p] = cs @ [c]"
    using Q(5) Q(1) by (simp add: ring_list_snoc)
  then have c: "tq_buf q ! ?p = c" and cs: "ring_list (tq_buf q) (tq_front q) (length cs) = cs"
    by simp_all
  have pos: "(if tq_rear q = 0 then length (tq_buf q) else tq_rear q) - 1 = ?p"
    using Q(1,4) by (simp add: mod_Suc)
  have run: "tty_pop_back q = (0, ?q)"
    unfolding tty_pop_back_def Let_def pos using Q(1,2) c assms(2) by simp
  have "ring_list ((tq_buf q)[?p := NUL]) (tq_front q) (length cs) = cs"
    using ring_list_update_outside [of "tq_front q" "tq_buf q" "length cs" "length cs" NUL] Q cs by simp
  moreover have "(tq_buf q)[?p := NUL] ! ((tq_front q + 1023) mod 1024) = NUL"
    using Q by (simp add: nth_update)
  ultimately have "queue_holds ?q cs"
    using Q by (simp add: queue_holds_def TTY_COOK_BUF_SZ_def)
  with run show ?thesis by blast
qed

lemma queued_last:
  assumes "queue_holds q (queued ls [])"
  shows "tty_pop_back q = (1, q)"
proof -
  note Q = queue_holdsD [OF assms]
  let ?pos = "if tq_rear q = 0 then 1024 else tq_rear q"
  have "tq_buf q ! (?pos - 1) = NUL"
  proof (cases "queued ls []" rule: rev_cases)
    case Nil
    with Q have "tq_rear q = tq_front q" by simp
    then have "?pos - 1 = (tq_front q + 1023) mod 1024" using Q(2) by (cases "tq_front q") auto
    with Q show ?thesis by simp
  next
    case (snoc cs c)
    then have "c = NUL" by (cases ls rule: rev_cases) (auto simp: queued_def)
    moreover have "ring_list (tq_buf q) (tq_front q) (length cs) @ [tq_buf q ! ((tq_front q + length cs) mod 1024)] = cs @ [c]"
      using Q(1,5) snoc by (simp add: ring_list_snoc)
    moreover have "?pos - 1 = (tq_front q + length cs) mod 1024"
      using Q(4) snoc by (simp add: mod_Suc)
    ultimately show ?thesis by simp
  qed
  then show ?thesis using Q(1,2) by (simp add: tty_pop_back_def Let_def split: if_splits)
qed


lemma dequeue_holds:
  assumes "queue_holds q (c # cs)"
  shows "tq_buf q ! tq_front q = c"
    and "c = NUL \<Longrightarrow> queue_holds (q\<lparr>tq_front := Suc (tq_front q) mod 1024\<rparr>) cs"
proof -
  note Q = queue_holdsD [OF assms]
  have r: "tq_buf q ! tq_front q # ring_list (tq_buf q) (Suc (tq_front q) mod 1024) (length cs) = c # cs"
    using Q ring_list_Suc [of "tq_front q" "tq_buf q" "length cs"] by simp
  then show "tq_buf q ! tq_front q = c" by simp
  assume c: "c = NUL"
  have "(Suc (tq_front q) mod 1024 + 1023) mod 1024 = tq_front q"
    using Q(2) mod_add_left_eq [of "Suc (tq_front q)" 1024 1023] by simp
  moreover have "(Suc (tq_front q) mod 1024 + length cs) mod 1024 = tq_rear q"
    using Q(4) by (simp add: mod_add_left_eq)
  ultimately show "queue_holds (q\<lparr>tq_front := Suc (tq_front q) mod 1024\<rparr>) cs"
    using Q r c by (simp add: queue_holds_def TTY_COOK_BUF_SZ_def)
qed

text \<open>
  Inside a line the byte before \<open>front\<close> is not NUL, so the loop is followed on the contents alone.
\<close>

lemma read_loop_line:
  assumes "length (tq_buf q) = 1024" and "tq_front q < 1024"
    and "ring_list (tq_buf q) (tq_front q) (length l + 1) = l @ [NUL]" and "NUL \<notin> set l"
    and "length l < fuel"
  shows "read_loop fuel q count n got = Inr (n + length l, got @ take (count - n) l,
    q\<lparr>tq_front := (tq_front q + length l + 1) mod 1024\<rparr>)"
  using assms
proof (induction l arbitrary: q n got fuel)
  case Nil
  then obtain f where f: "fuel = Suc f" by (cases fuel) auto
  have "tq_buf q ! tq_front q = NUL"
    using Nil ring_list_Suc [of "tq_front q" "tq_buf q" 0] by simp
  with Nil f show ?case by (cases "Suc (tq_front q) = 1024") (simp_all add: Let_def)
next
  case (Cons c l)
  then obtain f where f: "fuel = Suc f" by (cases fuel) auto
  let ?q = "q\<lparr>tq_front := Suc (tq_front q) mod 1024\<rparr>"
  have r: "tq_buf q ! tq_front q # ring_list (tq_buf q) (Suc (tq_front q) mod 1024) (length l + 1) = c # l @ [NUL]"
    using Cons.prems ring_list_Suc [of "tq_front q" "tq_buf q" "length l + 1"] by simp
  have w: "(if tq_front q + 1 = length (tq_buf q) then 0 else tq_front q + 1) = Suc (tq_front q) mod 1024"
    using Cons.prems(1,2) by auto
  have IH: "read_loop f ?q count (n + 1) g = Inr (n + 1 + length l, g @ take (count - (n + 1)) l,
      ?q\<lparr>tq_front := (tq_front ?q + length l + 1) mod 1024\<rparr>)" for g
    using Cons.prems r f by (intro Cons.IH) auto
  have m: "(Suc (tq_front q) mod 1024 + length l + 1) mod 1024 = (tq_front q + length (c # l) + 1) mod 1024"
    using mod_add_left_eq [of "Suc (tq_front q)" 1024 "length l + 1"] by (simp add: add.assoc)
  have "c \<noteq> NUL" and "tq_buf q ! tq_front q = c" using Cons.prems(4) r by auto
  then have "read_loop fuel q count n got =
      read_loop f ?q count (n + 1) (if n < count then got @ [c] else got)"
    unfolding f read_loop.simps Let_def w by simp
  also have "\<dots> = Inr (n + length (c # l), got @ take (count - n) (c # l),
      q\<lparr>tq_front := (tq_front q + length (c # l) + 1) mod 1024\<rparr>)"
    unfolding IH using m by (auto simp: take_Cons')
  finally show ?case .
qed

lemma ring_list_append:
  "ring_list b l (j + k) = ring_list b l j @ ring_list b ((l + j) mod length b) k"
  by (rule nth_equalityI) (auto simp: ring_list_def nth_append add.assoc mod_add_left_eq)

lemma queued_Cons: "queued (l # ls) cur = (l @ [LF]) @ [NUL] @ queued ls cur"
  by (simp add: queued_def)

text \<open>
  C6. \<open>tty_cook\<close> implements the line discipline: while there is room in the queue, an ordinary
  character extends the line being typed, a newline finishes it, and a backspace takes back the last
  character of that line but never one of a finished line (it reports 1 then, and nothing changes).
\<close>

theorem tty_cook_refines:
  assumes "input_holds t ls cur" and "length (queued ls cur) + 2 < TTY_COOK_BUF_SZ" and "ch \<noteq> NUL"
  shows "\<exists>t'. tty_cook t ch = Inr (fst (line_step (ls, cur) ch), t') \<and>
    input_holds t' (fst (snd (line_step (ls, cur) ch))) (snd (snd (line_step (ls, cur) ch)))"
proof -
  have q: "queue_holds (tty_queue t) (queued ls cur)" and len: "length (queued ls cur) < 1022"
    using assms by (auto simp: input_holds_def TTY_COOK_BUF_SZ_def)
  consider "ch = LF" | "ch = BS" "cur = []" | cs c where "ch = BS" "cur = cs @ [c]" | "ch \<noteq> LF" "ch \<noteq> BS"
    by (cases cur rule: rev_cases) auto
  then show ?thesis
  proof cases
    case 1
    obtain q1 where q1: "tty_enqueue (tty_queue t) LF = Inr q1" "queue_holds q1 (queued ls cur @ [LF])"
      using enqueue_holds [OF q] len by (metis less_SucI eval_nat_numeral(3) less_trans numeral_less_iff)
    obtain q2 where q2: "tty_enqueue q1 NUL = Inr q2" "queue_holds q2 ((queued ls cur @ [LF]) @ [NUL])"
      using enqueue_holds [OF q1(2), of NUL] len by auto
    have "(queued ls cur @ [LF]) @ [NUL] = queued (ls @ [cur]) []" by (simp add: queued_def)
    with 1 q1 q2 assms(1) show ?thesis by (auto simp: tty_cook_def input_holds_def)
  next
    case 2
    with q queued_last [of "tty_queue t" ls] assms(1) show ?thesis
      by (simp add: tty_cook_def input_holds_def)
  next
    case 3
    have "queued ls cur = queued ls cs @ [c]" using 3 by (simp add: queued_def)
    moreover have "c \<noteq> NUL" using 3 assms(1) by (auto simp: input_holds_def)
    ultimately obtain q' where "tty_pop_back (tty_queue t) = (0, q')" "queue_holds q' (queued ls cs)"
      using pop_back_holds [of "tty_queue t" "queued ls cs" c] q by auto
    with 3 assms(1) show ?thesis by (auto simp: tty_cook_def input_holds_def)
  next
    case 4
    obtain q1 where q1: "tty_enqueue (tty_queue t) ch = Inr q1" "queue_holds q1 (queued ls cur @ [ch])"
      using enqueue_holds [OF q, of ch] len by auto
    have "queued ls cur @ [ch] = queued ls (cur @ [ch])" by (simp add: queued_def)
    with 4 q1 assms(1,3) show ?thesis by (auto simp: tty_cook_def input_holds_def)
  qed
qed

text \<open>
  \<open>tty_read\<close> returns the oldest finished line with its newline and removes exactly that line.
  The count it returns is the length of the line even when the caller's buffer is shorter and only
  a prefix was stored.
\<close>

theorem tty_read_line:
  assumes "input_holds t (l # ls) cur"
  shows "\<exists>t'. tty_read t count = Inr (length l + 1, take count (l @ [LF]), t') \<and> input_holds t' ls cur"
proof -
  let ?q = "tty_queue t"
  have q: "queue_holds ?q ((l @ [LF]) @ [NUL] @ queued ls cur)" and n: "NUL \<notin> set (l @ [LF])"
    using assms by (auto simp: input_holds_def queued_Cons)
  note Q = queue_holdsD [OF q]
  let ?k = "length (l @ [LF]) + 1" and ?r = "length (queued ls cur)"
  have "ring_list (tq_buf ?q) (tq_front ?q) (?k + ?r) = ((l @ [LF]) @ [NUL]) @ queued ls cur"
    using Q(5) by simp
  from trans [OF ring_list_append [symmetric] this]
  have "ring_list (tq_buf ?q) (tq_front ?q) ?k = (l @ [LF]) @ [NUL] \<and>
    ring_list (tq_buf ?q) ((tq_front ?q + ?k) mod length (tq_buf ?q)) ?r = queued ls cur"
    by (rule append_eq_append_conv [THEN iffD1, rotated]) simp
  then have r: "ring_list (tq_buf ?q) (tq_front ?q) ?k = (l @ [LF]) @ [NUL]"
    "ring_list (tq_buf ?q) ((tq_front ?q + ?k) mod 1024) ?r = queued ls cur"
    unfolding Q(1) by blast+
  let ?q' = "?q\<lparr>tq_front := (tq_front ?q + length (l @ [LF]) + 1) mod 1024\<rparr>"
  have "read_loop (TTY_COOK_BUF_SZ + 1) ?q count 0 [] = Inr (0 + length (l @ [LF]), [] @ take (count - 0) (l @ [LF]), ?q')"
    using Q r(1) n by (intro read_loop_line) (auto simp: TTY_COOK_BUF_SZ_def)
  then have run: "tty_read t count = Inr (length l + 1, take count (l @ [LF]),
      t\<lparr>tty_queue := ?q', tty_cooked := tty_cooked t - 1\<rparr>)"
    using assms by (simp add: tty_read_def input_holds_def)
  have "tq_buf ?q ! ((tq_front ?q + (length l + 1)) mod 1024) = NUL"
    using r(1) Q(1) by (simp add: ring_list_snoc add.assoc)
  moreover have ahead: "tq_front ?q + length (l @ [LF]) + 1 + 1023 = (tq_front ?q + (length l + 1)) + 1024"
    by simp
  have "((tq_front ?q + length (l @ [LF]) + 1) mod 1024 + 1023) mod 1024 = (tq_front ?q + (length l + 1)) mod 1024"
    by (simp only: mod_add_left_eq ahead mod_add_self2)
  ultimately have "queue_holds ?q' (queued ls cur)"
    using Q r(2) by (simp add: queue_holds_def TTY_COOK_BUF_SZ_def mod_add_left_eq add.assoc)
  with run assms show ?thesis by (auto simp: input_holds_def)
qed


section \<open>The screen stays well-formed\<close>

definition wf_screen :: "tty \<Rightarrow> bool" where
  "wf_screen t \<longleftrightarrow> 0 < tty_columns t \<and> 1 < tty_size t \<and> length (tty_buf t) = tty_size t \<and>
     length (tty_dirty t) = tty_size t \<and> tty_cursor t < tty_size t"

definition same_shape :: "tty \<Rightarrow> tty \<Rightarrow> bool" where
  "same_shape t t' \<longleftrightarrow> tty_columns t' = tty_columns t \<and> tty_lines t' = tty_lines t \<and>
     tty_display t' = tty_display t \<and> tty_queue t' = tty_queue t \<and> tty_cooked t' = tty_cooked t"

lemma tty_size_cong: "same_shape t t' \<Longrightarrow> tty_size t' = tty_size t"
  by (simp add: same_shape_def tty_size_def)

lemma same_shape_refl [simp]: "same_shape t t"
  by (simp add: same_shape_def)

lemma same_shape_trans: "same_shape t u \<Longrightarrow> same_shape u v \<Longrightarrow> same_shape t v"
  by (simp add: same_shape_def)

lemma tty_mark_ok:
  "i < length (tty_dirty t) \<Longrightarrow> tty_mark t i = Inr (t\<lparr>tty_dirty := (tty_dirty t)[i := True]\<rparr>)"
  by (simp add: tty_mark_def)

lemma tty_mark_from_ok:
  "i + n \<le> length (tty_dirty t) \<Longrightarrow>
   \<exists>d. length d = length (tty_dirty t) \<and> tty_mark_from t i n = Inr (t\<lparr>tty_dirty := d\<rparr>)"
proof (induction n arbitrary: t i)
  case 0
  then show ?case by (intro exI [of _ "tty_dirty t"]) simp
next
  case (Suc n)
  with Suc.IH [of "Suc i" "t\<lparr>tty_dirty := (tty_dirty t)[i := True]\<rparr>"] show ?case
    by (auto simp: tty_mark_ok)
qed

lemma line_end: "c < k * n \<Longrightarrow> 0 < k \<Longrightarrow> c - c mod k + k \<le> k * (n :: nat)"
proof -
  assume c: "c < k * n" and k: "0 < k"
  then have "c div k < n" by (simp add: div_less_iff_less_mult mult.commute)
  then have "Suc (c div k) * k \<le> n * k" by (intro mult_le_mono1) simp
  then show ?thesis by (simp add: minus_mod_eq_div_mult mult.commute)
qed

lemma tty_mark_line_ok:
  assumes "length (tty_dirty t) = tty_size t" and "0 < tty_columns t" and "ch < tty_size t"
  shows "\<exists>d. length d = tty_size t \<and> tty_mark_line t ch = Inr (t\<lparr>tty_dirty := d\<rparr>)"
  using tty_mark_from_ok [of "ch - ch mod tty_columns t" "tty_columns t" t] assms
    line_end [of ch "tty_columns t" "tty_lines t"]
  by (simp add: tty_mark_line_def tty_size_def)

lemma tty_mark_all_ok:
  assumes "length (tty_dirty t) = tty_size t"
  shows "\<exists>d. length d = tty_size t \<and> tty_mark_all t = Inr (t\<lparr>tty_dirty := d\<rparr>)"
  using tty_mark_from_ok [of 0 "tty_size t" t] assms by (simp add: tty_mark_all_def)

lemma move_len: "(cols :: nat) * (l - 1) + cols = cols * l" if "0 < l"
  using that by (cases l) auto

lemma tty_scroll_ok:
  assumes "0 < tty_columns t" and "length (tty_buf t) = tty_size t" and "length (tty_dirty t) = tty_size t"
    and "tty_cursor t = tty_size t" and "1 < tty_size t"
  shows "\<exists>t'. rbind (tty_upd_scrollup t) tty_mark_all = Inr t' \<and> wf_screen t' \<and> same_shape t t' \<and>
    tty_cursor t' = tty_size t - tty_columns t \<and>
    tty_buf t' = drop (tty_columns t) (tty_buf t) @ replicate (tty_columns t) tty_defaultch"
proof -
  let ?c = "tty_columns t" and ?n = "tty_size t"
  have l: "0 < tty_lines t" using assms(5) by (auto simp: tty_size_def intro: gr0I)
  have mv: "?c * (tty_lines t - 1) = ?n - ?c" and cn: "?c \<le> ?n"
    using move_len [OF l, of ?c] l by (simp_all add: tty_size_def Suc_le_eq)
  let ?buf = "drop ?c (tty_buf t) @ drop (?n - ?c) (tty_buf t)"
  let ?d = "take (?n - ?c) (drop ?c (tty_dirty t)) @ drop (?n - ?c) (tty_dirty t)"
  let ?t = "t\<lparr>tty_buf := take (?n - ?c) ?buf @ replicate ?c tty_defaultch @ drop (?n - ?c + ?c) ?buf,
      tty_dirty := ?d, tty_cursor := ?n - ?c\<rparr>"
  have run: "tty_upd_scrollup t = Inr ?t"
    unfolding tty_upd_scrollup_def Let_def mv using assms cn by simp
  have buf: "tty_buf ?t = drop ?c (tty_buf t) @ replicate ?c tty_defaultch"
    using assms cn by simp
  obtain d where d: "length d = ?n" "tty_mark_all ?t = Inr (?t\<lparr>tty_dirty := d\<rparr>)"
    using tty_mark_all_ok [of ?t] assms cn by (auto simp: tty_size_def)
  have "wf_screen (?t\<lparr>tty_dirty := d\<rparr>)"
    using assms cn d buf by (simp add: wf_screen_def tty_size_def)
  moreover have "same_shape t (?t\<lparr>tty_dirty := d\<rparr>)" by (simp add: same_shape_def)
  moreover have "rbind (tty_upd_scrollup t) tty_mark_all = Inr (?t\<lparr>tty_dirty := d\<rparr>)"
    using run d(2) by simp
  ultimately show ?thesis using buf by auto
qed

lemma cr_lf_cursor:
  assumes "wf_screen t"
  shows "tty_cursor (tty_upd_lf (tty_upd_cr t)) \<le> tty_size t"
  using assms line_end [of "tty_cursor t" "tty_columns t" "tty_lines t"]
  by (simp add: tty_upd_lf_def tty_upd_cr_def wf_screen_def tty_size_def)

lemma tty_putc_ok:
  assumes wf: "wf_screen t"
  shows "\<exists>t'. tty_putc t ch = Inr t' \<and> wf_screen t' \<and> same_shape t t'"
proof -
  have W: "0 < tty_columns t" "1 < tty_size t" "length (tty_buf t) = tty_size t"
    "length (tty_dirty t) = tty_size t" "tty_cursor t < tty_size t"
    using wf by (simp_all add: wf_screen_def)
  consider "ch = CR" | "ch = BS" | "ch = LF" | "ch \<noteq> CR" "ch \<noteq> BS" "ch \<noteq> LF" by blast
  then show ?thesis
  proof cases
    case 1
    let ?t = "tty_upd_cr t"
    have c: "tty_cursor ?t < tty_size t" using W(5) by (simp add: tty_upd_cr_def)
    obtain d where "length d = tty_size ?t" "tty_mark_line ?t (tty_cursor ?t) = Inr (?t\<lparr>tty_dirty := d\<rparr>)"
      using tty_mark_line_ok [of ?t "tty_cursor ?t"] W c by (auto simp: tty_upd_cr_def tty_size_def)
    with 1 W c show ?thesis
      by (simp add: tty_putc_def wf_screen_def same_shape_def tty_size_def tty_upd_cr_def)
  next
    case 2
    let ?t = "tty_upd_backsp t"
    have "tty_size ?t = tty_size t" "length (tty_dirty ?t) = tty_size t" "length (tty_buf ?t) = tty_size t"
      "tty_cursor ?t < tty_size t" "tty_cursor ?t + 1 < tty_size t" "tty_columns ?t = tty_columns t" "same_shape t ?t"
      using W by (auto simp: tty_upd_backsp_def tty_size_def same_shape_def)
    with 2 W show ?thesis
      by (simp add: tty_putc_def tty_mark_ok wf_screen_def Let_def) (simp add: tty_size_def same_shape_def)
  next
    case 3
    let ?t = "tty_upd_lf (tty_upd_cr t)"
    have T: "tty_size ?t = tty_size t" "tty_columns ?t = tty_columns t" "tty_buf ?t = tty_buf t"
      "tty_dirty ?t = tty_dirty t" "same_shape t ?t"
      by (simp_all add: tty_upd_lf_def tty_upd_cr_def tty_size_def same_shape_def)
    show ?thesis
    proof (cases "tty_cursor ?t = tty_size t")
      case True
      with tty_scroll_ok [of ?t] T W 3 show ?thesis
        by (auto simp: tty_putc_def intro: same_shape_trans)
    next
      case False
      then have c: "tty_cursor ?t < tty_size t" using cr_lf_cursor [OF wf] by simp
      obtain d1 where d1: "length d1 = tty_size t"
        "tty_mark_line ?t (tty_cursor ?t - tty_columns t) = Inr (?t\<lparr>tty_dirty := d1\<rparr>)"
        using tty_mark_line_ok [of ?t "tty_cursor ?t - tty_columns t"] T W less_imp_diff_less [OF c]
        by auto
      let ?u = "?t\<lparr>tty_dirty := d1\<rparr>"
      have U: "tty_size ?u = tty_size t" "tty_columns ?u = tty_columns t" "tty_cursor ?u = tty_cursor ?t"
        using T by (simp_all add: tty_size_def)
      obtain d2 where d2: "length d2 = tty_size t"
        "tty_mark_line ?u (tty_cursor ?t) = Inr (?u\<lparr>tty_dirty := d2\<rparr>)"
        using tty_mark_line_ok [of ?u "tty_cursor ?t"] T U W c d1 by auto
      have "tty_putc t ch = Inr (?u\<lparr>tty_dirty := d2\<rparr>)"
        using 3 False T U d1 d2 by (simp add: tty_putc_def Let_def)
      moreover have "wf_screen (?u\<lparr>tty_dirty := d2\<rparr>)"
        using T W c d2 by (simp add: wf_screen_def tty_size_def)
      moreover have "same_shape t (?u\<lparr>tty_dirty := d2\<rparr>)" using T by (simp add: same_shape_def)
      ultimately show ?thesis by blast
    qed
  next
    case 4
    let ?t = "t\<lparr>tty_buf := (tty_buf t)[tty_cursor t := ch], tty_cursor := tty_cursor t + 1\<rparr>"
    have put: "tty_upd_putc t ch = Inr ?t" using W by (simp add: tty_upd_putc_def)
    have T: "tty_size ?t = tty_size t" "same_shape t ?t" by (simp_all add: tty_size_def same_shape_def)
    show ?thesis
    proof (cases "tty_cursor t + 1 = tty_size t")
      case True
      with tty_scroll_ok [of ?t] T W 4 put show ?thesis
        by (auto simp: tty_putc_def intro: same_shape_trans)
    next
      case False
      with 4 put T W show ?thesis
        by (simp add: tty_putc_def tty_mark_ok) (simp add: wf_screen_def tty_size_def same_shape_def)
    qed
  qed
qed

text \<open>
  C7. Whatever bytes are written to a terminal, control characters included, no access leaves the
  character grid or the dirty marks, and the cursor stays on the screen.
\<close>

theorem tty_write_safe:
  assumes "wf_screen t"
  shows "\<exists>t'. tty_write t fb cs = Inr (length cs, t', tty_render t' fb) \<and> wf_screen t' \<and> same_shape t t'"
proof -
  have "\<exists>t'. tty_putcs t cs = Inr t' \<and> wf_screen t' \<and> same_shape t t'"
    using assms
  proof (induction cs arbitrary: t)
    case Nil
    then show ?case by simp
  next
    case (Cons c cs)
    then obtain t1 where "tty_putc t c = Inr t1" "wf_screen t1" "same_shape t t1"
      using tty_putc_ok by blast
    with Cons.IH [of t1] show ?case by (auto intro: same_shape_trans)
  qed
  then show ?thesis by (auto simp: tty_write_def)
qed

definition demo_info :: display_info where
  "demo_info = \<lparr>di_width = 640, di_height = 480, num_displays = 8, di_current = 0,
     num_textures = NTEXTURE, num_sprites = NSPRITE\<rparr>"

lemma tty_init_wf: "wf_screen (tty_init k demo_info)"
  by (simp add: wf_screen_def tty_init_def demo_info_def Let_def tty_size_def)

lemma tty_write_safe_witness:
  "\<exists>t'. tty_write (tty_init 1 demo_info) (fb_init 640 480 []) [BS, LF, CHR ''a'', CR] =
     Inr (length [BS, LF, CHR ''a'', CR], t', tty_render t' (fb_init 640 480 [])) \<and>
     wf_screen t' \<and> same_shape (tty_init 1 demo_info) t'"
  by (rule tty_write_safe [OF tty_init_wf])

lemma tty_init_input: "input_holds (tty_init k demo_info) [] []"
  by (simp add: input_holds_def tty_init_def queue_holds_def queued_def TTY_COOK_BUF_SZ_def Let_def)

lemma tty_cook_refines_witness:
  "\<exists>t'. tty_cook (tty_init 1 demo_info) CHR ''l'' = Inr (0, t') \<and> input_holds t' [] ''l''"
  using tty_cook_refines [OF tty_init_input, of "CHR ''l''" 1]
  by (simp add: queued_def TTY_COOK_BUF_SZ_def LF_def BS_def)

lemma tty_read_line_witness:
  "\<exists>t1 t2 t3. tty_cook (tty_init 1 demo_info) CHR ''l'' = Inr (0, t1) \<and> tty_cook t1 LF = Inr (0, t2) \<and>
     tty_read t2 1 = Inr (2, ''l'', t3) \<and> input_holds t3 [] []"
proof -
  have h: "queue_holds (tty_queue (tty_init 1 demo_info)) []"
    using tty_init_input [of 1] by (simp add: input_holds_def queued_def)
  obtain q0 where q0: "tty_enqueue (tty_queue (tty_init 1 demo_info)) CHR ''l'' = Inr q0" "queue_holds q0 ([] @ ''l'')"
    by (rule enqueue_holds [OF h]) simp_all
  let ?t1 = "(tty_init 1 demo_info)\<lparr>tty_queue := q0\<rparr>"
  have t1: "tty_cook (tty_init 1 demo_info) CHR ''l'' = Inr (0, ?t1)" "tty_cooked ?t1 = 0" "tty_queue ?t1 = q0"
    using q0 by (simp_all add: tty_cook_def LF_def BS_def tty_init_def Let_def)
  obtain q1 where q1: "tty_enqueue q0 LF = Inr q1" "queue_holds q1 (([] @ ''l'') @ [LF])"
    by (rule enqueue_holds [OF q0(2), of LF]) simp_all
  obtain q2 where q2: "tty_enqueue q1 NUL = Inr q2" "queue_holds q2 ((([] @ ''l'') @ [LF]) @ [NUL])"
    by (rule enqueue_holds [OF q1(2), of NUL]) simp_all
  let ?t2 = "?t1\<lparr>tty_queue := q2, tty_cooked := 1\<rparr>"
  have t2: "tty_cook ?t1 LF = Inr (0, ?t2)"
    unfolding tty_cook_def t1 Let_def using q1 q2 t1(2) by simp
  have "input_holds ?t2 [''l''] []" using q2 by (simp add: input_holds_def queued_def)
  from tty_read_line [OF this, of 1] obtain t3 where "tty_read ?t2 1 = Inr (2, ''l'', t3)" "input_holds t3 [] []"
    by (auto simp: numeral_2_eq_2)
  with t1(1) t2 show ?thesis by blast
qed

end
