(* ===== verification/Input.thy ===== *)
theory Input
  imports Queues Tty
begin

text \<open>
  The keyboard input device (\<open>kernel/src/devices/input/input.c\<close>, \<open>keymaps.c\<close>): the circular event
  queue between the interrupt side and the terminal task, the modifier state and the translation
  of key codes.  \<open>push_event\<close> and \<open>pop_event\<close> hold \<open>in->lock\<close>, so each is one step;
  \<open>in_sem\<close> is the value of \<open>event_sem\<close>, and a pop that would wait on it is \<open>Blocked\<close>.
\<close>

unbundle bit_operations_syntax

section \<open>The event queue\<close>

definition NEVENTS :: nat where "NEVENTS = 128"

record input =
  in_events :: "input_event list"
  in_front :: nat
  in_rear :: nat
  in_sem :: nat
  capslock :: bool
  shift_down :: "bool \<times> bool"
  ctrl_down :: "bool \<times> bool"
  alt_down :: "bool \<times> bool"

definition event :: "bool \<Rightarrow> bool \<Rightarrow> char \<Rightarrow> input_event" where
  "event ctrl alt c = \<lparr>ev_ctrl = ctrl, ev_alt = alt, ev_data = of_char c\<rparr>"

definition push_event :: "input \<Rightarrow> input_event \<Rightarrow> input res" where
  "push_event d ev =
     (let r = (in_rear d + 1) mod NEVENTS in
      rbind (require (r \<noteq> in_front d) (Panic ''input queue full'')) (\<lambda>_.
      Inr (d\<lparr>in_events := (in_events d)[in_rear d := ev], in_rear := r, in_sem := in_sem d + 1\<rparr>)))"

definition pop_event :: "input \<Rightarrow> (input_event \<times> input) res" where
  "pop_event d =
     rbind (require (0 < in_sem d) Blocked) (\<lambda>_.
     rbind (require (in_rear d \<noteq> in_front d) (Panic ''input queue empty'')) (\<lambda>_.
     Inr (in_events d ! in_front d,
          d\<lparr>in_front := (in_front d + 1) mod NEVENTS, in_sem := in_sem d - 1\<rparr>)))"

definition input_init :: input where
  "input_init = \<lparr>in_events = replicate NEVENTS \<lparr>ev_ctrl = False, ev_alt = False, ev_data = 0\<rparr>,
     in_front = 0, in_rear = 0, in_sem = 0, capslock = False, shift_down = (False, False),
     ctrl_down = (False, False), alt_down = (False, False)\<rparr>"

section \<open>Key codes\<close>

definition KEY_CAPSLOCK :: int where "KEY_CAPSLOCK = 42"
definition KEY_LSHIFT :: int where "KEY_LSHIFT = 55"
definition KEY_RSHIFT :: int where "KEY_RSHIFT = 66"
definition KEY_LCTRL :: int where "KEY_LCTRL = 67"
definition KEY_LALT :: int where "KEY_LALT = 69"
definition KEY_RALT :: int where "KEY_RALT = 71"
definition KEY_RCTRL :: int where "KEY_RCTRL = 72"
definition KEY_RETURN :: int where "KEY_RETURN = 54"

lemmas key_defs = KEY_CAPSLOCK_def KEY_LSHIFT_def KEY_RSHIFT_def KEY_LCTRL_def KEY_LALT_def
  KEY_RALT_def KEY_RCTRL_def KEY_RETURN_def

text \<open>The initialisers of the two tables; entries that are not named are NUL.\<close>

definition keymap_init :: "(nat \<times> char) list" where
  "keymap_init = [
     (24, CHR 0x30), (15, CHR 0x31), (16, CHR 0x32), (17, CHR 0x33), (18, CHR 0x34), (19, CHR 0x35),
     (20, CHR 0x36), (21, CHR 0x37), (22, CHR 0x38), (23, CHR 0x39), (14, CHR 0x60), (25, CHR 0x2D),
     (26, CHR 0x3D), (39, CHR 0x5B), (40, CHR 0x5D), (41, CHR 0x5C), (52, CHR 0x3B), (53, CHR 0x27),
     (54, CHR 0x0A), (63, CHR 0x2C), (64, CHR 0x2E), (65, CHR 0x2F), (70, CHR 0x20), (27, CHR 0x08),
     (43, CHR 0x61), (60, CHR 0x62), (58, CHR 0x63), (45, CHR 0x64), (31, CHR 0x65), (46, CHR 0x66),
     (47, CHR 0x67), (48, CHR 0x68), (36, CHR 0x69), (49, CHR 0x6A), (50, CHR 0x6B), (51, CHR 0x6C),
     (62, CHR 0x6D), (61, CHR 0x6E), (37, CHR 0x6F), (38, CHR 0x70), (29, CHR 0x71), (32, CHR 0x72),
     (44, CHR 0x73), (33, CHR 0x74), (35, CHR 0x75), (59, CHR 0x76), (30, CHR 0x77), (57, CHR 0x78),
     (34, CHR 0x79), (56, CHR 0x7A)]"

definition keymap_shift_init :: "(nat \<times> char) list" where
  "keymap_shift_init = [
     (24, CHR 0x29), (15, CHR 0x21), (16, CHR 0x40), (17, CHR 0x23), (18, CHR 0x24), (19, CHR 0x25),
     (20, CHR 0x5E), (21, CHR 0x26), (22, CHR 0x2A), (23, CHR 0x28), (14, CHR 0x7E), (25, CHR 0x5F),
     (26, CHR 0x2B), (39, CHR 0x7B), (40, CHR 0x7D), (41, CHR 0x7C), (52, CHR 0x3A), (53, CHR 0x22),
     (63, CHR 0x3C), (64, CHR 0x3E), (65, CHR 0x3F), (70, CHR 0x20), (27, CHR 0x08), (43, CHR 0x41),
     (60, CHR 0x42), (58, CHR 0x43), (45, CHR 0x44), (31, CHR 0x45), (46, CHR 0x46), (47, CHR 0x47),
     (48, CHR 0x48), (36, CHR 0x49), (49, CHR 0x4A), (50, CHR 0x4B), (51, CHR 0x4C), (62, CHR 0x4D),
     (61, CHR 0x4E), (37, CHR 0x4F), (38, CHR 0x50), (29, CHR 0x51), (32, CHR 0x52), (44, CHR 0x53),
     (33, CHR 0x54), (35, CHR 0x55), (59, CHR 0x56), (30, CHR 0x57), (57, CHR 0x58), (34, CHR 0x59),
     (56, CHR 0x5A)]"

definition keymap :: "nat \<Rightarrow> char" where
  "keymap k = (case map_of keymap_init k of Some c \<Rightarrow> c | None \<Rightarrow> NUL)"

definition keymap_shift :: "nat \<Rightarrow> char" where
  "keymap_shift k = (case map_of keymap_shift_init k of Some c \<Rightarrow> c | None \<Rightarrow> NUL)"

definition either :: "bool \<times> bool \<Rightarrow> bool" where
  "either p \<longleftrightarrow> fst p \<or> snd p"

text \<open>The \<open>default\<close> branch for a key that is pressed.\<close>

definition key_char :: "input \<Rightarrow> int \<Rightarrow> input res" where
  "key_char d key =
     rbind (require (0 \<le> key \<and> key < 256) Overrun) (\<lambda>_.
      let ch = keymap (nat key) in
      if ch \<noteq> NUL then
        let shift = either (shift_down d); ctrl = either (ctrl_down d); alt = either (alt_down d) in
        if ctrl \<or> alt then push_event d (event ctrl alt ch)
        else
          let shift1 = (if 97 \<le> schar ch \<and> schar ch \<le> 122 then shift \<noteq> capslock d else shift) in
          if shift1 then push_event d (event False False (keymap_shift (nat key)))
          else push_event d (event False False ch)
      else Inr d)"

definition input_keydown :: "input \<Rightarrow> int \<Rightarrow> input res" where
  "input_keydown d code =
     (let key = code AND NOT 0x8000 in
      if code AND 0x8000 \<noteq> 0 then
        if key = KEY_CAPSLOCK then Inr (d\<lparr>capslock := \<not> capslock d\<rparr>)
        else if key = KEY_LCTRL then Inr (d\<lparr>ctrl_down := (True, snd (ctrl_down d))\<rparr>)
        else if key = KEY_RCTRL then Inr (d\<lparr>ctrl_down := (fst (ctrl_down d), True)\<rparr>)
        else if key = KEY_LALT then Inr (d\<lparr>alt_down := (True, snd (alt_down d))\<rparr>)
        else if key = KEY_RALT then Inr (d\<lparr>alt_down := (fst (alt_down d), True)\<rparr>)
        else if key = KEY_LSHIFT then Inr (d\<lparr>shift_down := (True, snd (shift_down d))\<rparr>)
        else if key = KEY_RSHIFT then Inr (d\<lparr>shift_down := (fst (shift_down d), True)\<rparr>)
        else key_char d key
      else
        if code = KEY_LCTRL then Inr (d\<lparr>ctrl_down := (False, snd (ctrl_down d))\<rparr>)
        else if code = KEY_RCTRL then Inr (d\<lparr>ctrl_down := (fst (ctrl_down d), False)\<rparr>)
        else if code = KEY_LALT then Inr (d\<lparr>alt_down := (False, snd (alt_down d))\<rparr>)
        else if code = KEY_RALT then Inr (d\<lparr>alt_down := (fst (alt_down d), False)\<rparr>)
        else if code = KEY_LSHIFT then Inr (d\<lparr>shift_down := (False, snd (shift_down d))\<rparr>)
        else if code = KEY_RSHIFT then Inr (d\<lparr>shift_down := (fst (shift_down d), False)\<rparr>)
        else Inr d)"

text \<open>The inner loop of \<open>input_task\<close>, for the codes that \<open>read_key\<close> delivers before it returns 0.\<close>

fun input_drain :: "input \<Rightarrow> int list \<Rightarrow> input res" where
  "input_drain d [] = Inr d"
| "input_drain d (code # codes) =
     (if code = 0 then Inr d else rbind (input_keydown d code) (\<lambda>d1. input_drain d1 codes))"

definition sizeof_event :: nat where "sizeof_event = 4"

definition input_read :: "input \<Rightarrow> nat \<Rightarrow> (nat \<times> input_event option \<times> input) res" where
  "input_read d count = rbind (pop_event d) (\<lambda>(ev, d1).
     Inr (if sizeof_event \<le> count then (sizeof_event, Some ev, d1) else (0, None, d1)))"

definition input_write :: "input \<Rightarrow> nat \<times> input" where
  "input_write d = (0, d)"

section \<open>The queue is first-in first-out\<close>

definition events_hold :: "input \<Rightarrow> input_event list \<Rightarrow> bool" where
  "events_hold d evs \<longleftrightarrow> length (in_events d) = 128 \<and> in_front d < 128 \<and> length evs < 128 \<and>
     in_rear d = (in_front d + length evs) mod 128 \<and> in_sem d = length evs \<and>
     ring_list (in_events d) (in_front d) (length evs) = evs"

lemma push_event_holds:
  assumes "events_hold d evs" and "length evs < 127"
  shows "\<exists>d'. push_event d ev = Inr d' \<and> events_hold d' (evs @ [ev])"
proof -
  have r: "(in_rear d + 1) mod NEVENTS = (in_front d + Suc (length evs)) mod 128"
    using assms by (simp add: events_hold_def NEVENTS_def mod_simps)
  moreover have "(in_front d + Suc (length evs)) mod 128 \<noteq> in_front d"
    using ring_index_neq [of "in_front d" 128 0 "Suc (length evs)"] assms by (simp add: events_hold_def)
  ultimately show ?thesis
    using assms ring_list_enq [of "in_front d" "in_events d" "length evs" ev]
    by (simp add: push_event_def Let_def events_hold_def)
qed

lemma pop_event_holds:
  assumes "events_hold d (ev # evs)"
  shows "\<exists>d'. pop_event d = Inr (ev, d') \<and> events_hold d' evs"
proof -
  have r: "in_events d ! in_front d # ring_list (in_events d) (Suc (in_front d) mod 128) (length evs) = ev # evs"
    using assms ring_list_Suc [of "in_front d" "in_events d" "length evs"] by (simp add: events_hold_def)
  have "in_rear d \<noteq> in_front d"
    using assms ring_index_neq [of "in_front d" 128 0 "Suc (length evs)"] by (simp add: events_hold_def)
  with r assms show ?thesis
    by (simp add: pop_event_def events_hold_def NEVENTS_def mod_simps)
qed

interpretation event_queue: fifo push_event pop_event events_hold "\<lambda>_. True" 127
  by unfold_locales (auto intro: push_event_holds pop_event_holds)

lemma input_init_holds: "events_hold input_init []"
  by (simp add: events_hold_def input_init_def NEVENTS_def)

text \<open>
  Up to 127 events pushed into the empty queue come out in order, none lost, and the queue is
  empty again; wherever in the circular buffer it starts.
\<close>

theorem events_in_order:
  assumes "events_hold d []" and "length evs \<le> 127"
  shows "\<exists>d1 d2. event_queue.enq_all d evs = Inr d1 \<and>
    event_queue.deq_all (length evs) d1 = Inr (evs, d2) \<and> events_hold d2 []"
  using event_queue.enq_all_holds [OF assms(1), of evs] event_queue.deq_all_holds [of _ evs "[]"] assms(2)
  by fastforce

lemma events_in_order_witness:
  "\<exists>d1 d2. event_queue.enq_all input_init [event False False CHR ''a'', event True False CHR ''c''] = Inr d1 \<and>
    event_queue.deq_all (length [event False False CHR ''a'', event True False CHR ''c'']) d1 =
      Inr ([event False False CHR ''a'', event True False CHR ''c''], d2) \<and> events_hold d2 []"
  by (rule events_in_order [OF input_init_holds]) simp

section \<open>Translation of keys\<close>

definition letter_codes :: "(nat \<times> char) list" where
  "letter_codes = filter (\<lambda>(k, c). 97 \<le> schar c \<and> schar c \<le> 122) keymap_init"

lemma letters:
  "list_all (\<lambda>(k, c). map_of keymap_init k = Some c \<and>
     map_of keymap_shift_init k = Some (char_of (of_char c - 32 :: nat)) \<and> k < 256 \<and>
     k \<notin> {42, 55, 66, 67, 69, 71, 72}) letter_codes"
  unfolding letter_codes_def keymap_init_def keymap_shift_init_def by code_simp

lemma code_bits:
  assumes "k < 256"
  shows "(int k OR 0x8000) AND NOT 0x8000 = int k" and "(int k OR 0x8000) AND 0x8000 = 0x8000"
proof -
  have k: "\<not> bit (int k) 15"
  proof -
    have "int k div 2 ^ 15 = 0" using assms by simp
    then have "even (int k div 2 ^ 15)" by (metis even_zero)
    then show ?thesis by (metis bit_iff_odd)
  qed
  then have k2: "\<not> bit k 15" by (simp add: bit_of_nat_iff)
  have "(0x8000 :: int) = 2 ^ 15" by simp
  then have eq: "bit (0x8000 :: int) n \<longleftrightarrow> n = 15" for n
    by (simp only: bit_exp_iff) auto
  show "(int k OR 0x8000) AND NOT 0x8000 = int k"
    by (rule bit_eqI) (auto simp: bit_simps eq k2)
  show "(int k OR 0x8000) AND 0x8000 = 0x8000"
    by (rule bit_eqI) (auto simp: bit_simps eq)
qed

text \<open>
  A letter key pressed without Ctrl and Alt enqueues exactly one event: the upper-case letter if
  exactly one of Shift and Caps Lock is on, and the lower-case letter otherwise.
\<close>

theorem letter_key_event:
  assumes "(k, c) \<in> set letter_codes" and "\<not> either (ctrl_down d)" and "\<not> either (alt_down d)"
  shows "input_keydown d (int k OR 0x8000) =
    push_event d (event False False
      (if either (shift_down d) \<noteq> capslock d then char_of (of_char c - 32 :: nat) else c))"
proof -
  have k: "map_of keymap_init k = Some c" "map_of keymap_shift_init k = Some (char_of (of_char c - 32 :: nat))"
    "k < 256" "k \<notin> {42, 55, 66, 67, 69, 71, 72}"
    using letters assms(1) by (auto simp: list_all_iff)
  have c: "97 \<le> schar c \<and> schar c \<le> 122" using assms(1) by (simp add: letter_codes_def)
  then have "c \<noteq> NUL" by (auto simp: schar_def)
  with k c assms(2,3) code_bits [OF k(3)] show ?thesis
    by (simp add: input_keydown_def key_char_def keymap_def keymap_shift_def key_defs Let_def)
qed

lemma letter_key_event_witness:
  "input_keydown (input_init\<lparr>capslock := True\<rparr>) (int 43 OR 0x8000) =
     push_event (input_init\<lparr>capslock := True\<rparr>) (event False False CHR ''A'')"
proof -
  have "(43, CHR ''a'') \<in> set letter_codes"
    unfolding letter_codes_def keymap_init_def by code_simp
  moreover have "char_of (of_char CHR ''a'' - 32 :: nat) = CHR ''A''" by code_simp
  ultimately show ?thesis
    using letter_key_event [of 43 "CHR ''a''" "input_init\<lparr>capslock := True\<rparr>"]
    by (simp add: input_init_def either_def)
qed

text \<open>
  Shift with Return sends the character NUL to the terminal, because \<open>keymap_shift\<close> has no entry
  for Return: no newline is delivered, and the NUL is stored in the cooked queue as if it ended a line.
\<close>

theorem shift_return_sends_NUL:
  assumes "either (shift_down d)" and "\<not> either (ctrl_down d)" and "\<not> either (alt_down d)"
  shows "input_keydown d (KEY_RETURN OR 0x8000) = push_event d (event False False NUL)"
proof -
  have "keymap 54 = LF" "keymap_shift 54 = NUL"
    by (simp_all add: keymap_def keymap_init_def keymap_shift_def keymap_shift_init_def LF_def)
  moreover have "\<not> 97 \<le> schar LF" by (simp add: schar_def LF_def)
  ultimately show ?thesis
    using assms code_bits [of 54]
    by (simp add: input_keydown_def key_char_def key_defs Let_def)
qed

lemma shift_return_sends_NUL_witness:
  "input_keydown (input_init\<lparr>shift_down := (True, False)\<rparr>) (KEY_RETURN OR 0x8000) =
     push_event (input_init\<lparr>shift_down := (True, False)\<rparr>) (event False False NUL)"
  by (rule shift_return_sends_NUL) (simp_all add: either_def input_init_def)

end
