(* ===== verification/Dev.thy ===== *)
theory Dev
  imports Input Ramdisk
begin

text \<open>
  The device table (\<open>kernel/src/devices/dev.c\<close>): creation and initialisation of the eight devices,
  lookup by name, and the reads and writes that a device pointer's \<open>ops\<close> table dispatches to.  A
  \<open>device_t *\<close> is a number, the index in \<open>devices\<close> plus one, so that 0 is the null pointer.
\<close>

datatype devops = Rd_ops nat | Input_ops | Fb_ops | Tty_ops nat

record device =
  dev_name :: string
  dev_no :: nat
  dev_ops :: devops

definition devices :: "device list" where
  "devices = [
     \<lparr>dev_name = ''ramdisk0'', dev_no = 1, dev_ops = Rd_ops 0\<rparr>,
     \<lparr>dev_name = ''ramdisk1'', dev_no = 2, dev_ops = Rd_ops 1\<rparr>,
     \<lparr>dev_name = ''input'', dev_no = 1, dev_ops = Input_ops\<rparr>,
     \<lparr>dev_name = ''fb'', dev_no = 1, dev_ops = Fb_ops\<rparr>,
     \<lparr>dev_name = ''tty1'', dev_no = 1, dev_ops = Tty_ops 0\<rparr>,
     \<lparr>dev_name = ''tty2'', dev_no = 2, dev_ops = Tty_ops 1\<rparr>,
     \<lparr>dev_name = ''tty3'', dev_no = 3, dev_ops = Tty_ops 2\<rparr>,
     \<lparr>dev_name = ''tty4'', dev_no = 4, dev_ops = Tty_ops 3\<rparr>]"

text \<open>\<open>dev_lookup\<close> never returns \<open>NULL\<close>: a name that no device has stops the machine.\<close>

definition dev_lookup :: "string \<Rightarrow> nat res" where
  "dev_lookup name =
     (case find_idx (\<lambda>d. dev_name d = name) devices of
        Some i \<Rightarrow> Inr (Suc i)
      | None \<Rightarrow> Inl (Panic ''lookup device failed.''))"

record devs =
  rd0 :: disk
  rd1 :: disk
  inp :: input
  fbd :: fb
  ttys :: "tty list"

text \<open>\<open>dev_init\<close>: the \<open>init\<close> functions run in table order, with \<open>fb\<close> before the terminals.\<close>

definition dev_init :: "disk \<Rightarrow> nat \<Rightarrow> nat \<Rightarrow> 8 word list \<Rightarrow> devs" where
  "dev_init img width height font =
     (let fb = fb_init width height font in
      \<lparr>rd0 = rd_init (dev_no (devices ! 0)) img, rd1 = rd_init (dev_no (devices ! 1)) img,
       inp = input_init, fbd = fb,
       ttys = map (\<lambda>k. tty_init (dev_no (devices ! (4 + k))) (fb_info fb)) [0..<4]\<rparr>)"

text \<open>
  Reads and writes of bytes through \<open>dev->ops\<close>, for the devices that files can refer to: the RAM
  disks and the terminals.
\<close>

definition dev_read :: "devs \<Rightarrow> nat \<Rightarrow> nat \<Rightarrow> nat \<Rightarrow> (nat \<times> char list \<times> devs) res" where
  "dev_read D dev off n =
     (case dev_ops (devices ! (dev - 1)) of
        Rd_ops k \<Rightarrow> Inr (n, rd_read (if k = 0 then rd0 D else rd1 D) (int off) n, D)
      | Tty_ops k \<Rightarrow> rbind (tty_read (ttys D ! k) n) (\<lambda>(r, bs, t). Inr (r, bs, D\<lparr>ttys := (ttys D)[k := t]\<rparr>))
      | _ \<Rightarrow> Inl Wild_ptr)"

definition dev_write :: "devs \<Rightarrow> nat \<Rightarrow> nat \<Rightarrow> char list \<Rightarrow> (nat \<times> devs) res" where
  "dev_write D dev off bs =
     (case dev_ops (devices ! (dev - 1)) of
        Rd_ops k \<Rightarrow> Inr (length bs,
          if k = 0 then D\<lparr>rd0 := rd_write (rd0 D) (int off) bs\<rparr> else D\<lparr>rd1 := rd_write (rd1 D) (int off) bs\<rparr>)
      | Tty_ops k \<Rightarrow> rbind (tty_write (ttys D ! k) (fbd D) bs) (\<lambda>(r, t, fb).
          Inr (r, D\<lparr>ttys := (ttys D)[k := t], fbd := fb\<rparr>))
      | _ \<Rightarrow> Inl Wild_ptr)"

lemma dev_lookup_ramdisk1 [simp]: "dev_lookup ''ramdisk1'' = Inr 2"
  by (simp add: dev_lookup_def devices_def)

lemma dev_lookup_unknown:
  assumes "s \<notin> set (map dev_name devices)"
  shows "dev_lookup s = Inl (Panic ''lookup device failed.'')"
proof -
  have "find_idx (\<lambda>d. dev_name d = s) devices = None"
    using assms by (auto simp: find_idx_None)
  then show ?thesis by (simp add: dev_lookup_def)
qed

end
