(* ===== verification/Vfs.thy ===== *)
theory Vfs
  imports Fs Dev
begin

text \<open>
  The virtual file system (\<open>kernel/src/vfs.c\<close>): the mount table, \<open>procfs\<close>, the file descriptors of
  the current task and the operations of the module \<open>vfs\<close>.  Pointers to \<open>filesystem_t\<close> are numbers
  (0 is \<open>NULL\<close>) into the store \<open>v_fs\<close>.  The inode of an open file is \<open>NULL\<close> (a device), a private
  copy read from the disk, or one of the inodes of \<open>hgproc\<close>.  The three function pointers of
  \<open>fs->ops\<close> are the same for every file system (the code never allocates \<open>ops\<close> and stores them at
  address 0), so the model calls \<open>fsinit\<close> and \<open>fslookup\<close> directly.  \<open>SHELL\<close> is defined, so there is
  no \<open>vfslock\<close>; messages are left out.  \<open>pmm->free\<close> does nothing in the allocator the kernel is
  configured with (\<open>CORRECTNESS_FIRST\<close>).
\<close>

section \<open>State\<close>

definition MNTNUM :: nat where "MNTNUM = 5"
definition NFILE :: nat where "NFILE = 16"
definition LSEEK_CUR :: int where "LSEEK_CUR = 0x1"
definition LSEEK_SET :: int where "LSEEK_SET = 0x10"
definition LSEEK_END :: int where "LSEEK_END = 0x100"
definition F_OK :: int where "F_OK = 0x1"
definition DIR_OK :: int where "DIR_OK = 0x10"

record mpt =
  mp_name :: string
  mp_fs :: nat

datatype iref = Ino_null | Ino_own inode | Ino_proc nat

record file_t =
  f_inode :: iref
  f_offset :: nat
  f_name :: string

record vfs =
  v_devs :: devs
  v_fs :: "nat \<Rightarrow> filesystem"
  blkfs :: nat
  devfs :: nat
  procfs :: nat
  mntpoint :: "mpt list"
  pr_ino :: "inode option list"
  pr_block :: "char list list"
  fildes :: "file_t option list"
  iops_at :: nat

definition rd1_of :: "vfs \<Rightarrow> disk" where
  "rd1_of v = rd1 (v_devs v)"

definition set_rd1 :: "vfs \<Rightarrow> disk \<Rightarrow> vfs" where
  "set_rd1 v d = v\<lparr>v_devs := (v_devs v)\<lparr>rd1 := d\<rparr>\<rparr>"

text \<open>\<open>fs->ops->lookup(fs, path, flags)\<close>\<close>

definition vlookup :: "vfs \<Rightarrow> nat \<Rightarrow> string \<Rightarrow> int \<Rightarrow> (inode option \<times> vfs) res" where
  "vlookup v p path flags =
     rbind (require (p \<noteq> 0) Null_deref) (\<lambda>_.
     rbind (fslookup \<lparr>fs_at = p, inode_ops_at = iops_at v\<rparr> (v_fs v p) (rd1_of v) path flags)
       (\<lambda>(r, fs, d). Inr (r, (set_rd1 v d)\<lparr>v_fs := (v_fs v)(p := fs)\<rparr>)))"

text \<open>\<open>strcmp(a, b) == 0\<close>, which over-reads when both strings are empty.\<close>

definition streq :: "string \<Rightarrow> string \<Rightarrow> bool res" where
  "streq a b = rbind (require (a \<noteq> [] \<or> b \<noteq> []) Overrun) (\<lambda>_. Inr (a = b))"

section \<open>Mount points\<close>

definition vfsmount :: "vfs \<Rightarrow> string \<Rightarrow> nat \<Rightarrow> (int \<times> vfs) res" where
  "vfsmount v path fs =
     (if list_ex (\<lambda>m. mp_fs m = fs) (mntpoint v) then Inr (- 1, v)
      else case find_idx (\<lambda>m. mp_fs m = 0) (mntpoint v) of
        None \<Rightarrow> Inr (- 1, v)
      | Some i \<Rightarrow>
          rbind (require (length path \<le> 49) Overrun) (\<lambda>_.
          let v1 = v\<lparr>mntpoint := (mntpoint v)[i := \<lparr>mp_name = path, mp_fs = fs\<rparr>]\<rparr> in
          if fs = devfs v then
            rbind (vlookup v1 (blkfs v1) ''/dev'' (O_DIR OR O_CREAT OR O_RDWR)) (\<lambda>(_, v2). Inr (0, v2))
          else if fs = procfs v then
            rbind (vlookup v1 (blkfs v1) ''/proc'' (O_DIR OR O_CREAT OR O_RDWR)) (\<lambda>(_, v2). Inr (0, v2))
          else Inr (0, v1)))"

fun find_mpt :: "string \<Rightarrow> mpt list \<Rightarrow> nat \<Rightarrow> nat option res" where
  "find_mpt path [] i = Inr None"
| "find_mpt path (m # ms) i =
     rbind (streq path (mp_name m)) (\<lambda>eq. if eq then Inr (Some i) else find_mpt path ms (Suc i))"

definition vfsunmount :: "vfs \<Rightarrow> string \<Rightarrow> (int \<times> vfs) res" where
  "vfsunmount v path =
     rbind (find_mpt path (mntpoint v) 0) (\<lambda>r. case r of
       None \<Rightarrow> Inr (- 1, v)
     | Some i \<Rightarrow>
         rbind
           (if mp_fs (mntpoint v ! i) = devfs v then vlookup v (blkfs v) ''/dev'' (O_DIR OR O_RM)
            else if mp_fs (mntpoint v ! i) = procfs v then vlookup v (blkfs v) ''/proc'' (O_DIR OR O_RM)
            else Inr (None, v))
           (\<lambda>(_, v1). Inr (0, v1\<lparr>mntpoint := (mntpoint v1)[i := \<lparr>mp_name = [], mp_fs = 0\<rparr>]\<rparr>)))"

section \<open>Splitting a path\<close>

text \<open>
  Every operation starts by copying the first component of the path, with a slash in front, into
  \<open>mntname[35]\<close>; the rest of the path starts at index \<open>i\<close>.
\<close>

definition split_path :: "string \<Rightarrow> (string \<times> string) res" where
  "split_path path =
     (let c = first_comp path in
      rbind (require (length c \<le> 33) Overrun) (\<lambda>_. Inr (CHR ''/'' # c, drop (Suc (length c)) path)))"

definition last_idx :: "('a \<Rightarrow> bool) \<Rightarrow> 'a list \<Rightarrow> nat option" where
  "last_idx P xs = foldl (\<lambda>r i. if P (xs ! i) then Some i else r) None [0..<length xs]"

text \<open>
  The mount point of a path: the last entry of that name, else the last entry for the root, which
  takes the component back into the path.  The result is the index, \<open>mntname\<close> and \<open>dirname[130]\<close>.
\<close>

definition mount_target :: "vfs \<Rightarrow> string \<Rightarrow> string \<Rightarrow> (nat \<times> string \<times> string) option res" where
  "mount_target v mntname rest =
     (case last_idx (\<lambda>m. mp_name m = mntname) (mntpoint v) of
        Some ind \<Rightarrow>
          rbind (require (length rest \<le> 129) Overrun) (\<lambda>_. Inr (Some (ind, mntname, rest)))
      | None \<Rightarrow>
          case last_idx (\<lambda>m. mp_name m = ''/'') (mntpoint v) of
            None \<Rightarrow> Inr None
          | Some root \<Rightarrow>
              rbind (require (length (mntname @ rest) \<le> 129) Overrun) (\<lambda>_.
              Inr (Some (root, ''/'', mntname @ rest))))"

definition virtual_name :: "string \<Rightarrow> bool" where
  "virtual_name mntname \<longleftrightarrow> mntname = ''/dev'' \<or> mntname = ''/proc''"

definition mounted :: "vfs \<Rightarrow> string \<Rightarrow> bool" where
  "mounted v mntname \<longleftrightarrow> list_ex (\<lambda>m. mp_name m = mntname) (mntpoint v)"

section \<open>\<open>procfs\<close>\<close>

definition proc_dir :: "vfs \<Rightarrow> ed" where
  "proc_dir v = dec_ed (take 3524 (pr_block v ! 0))"

definition put_proc_dir :: "vfs \<Rightarrow> ed \<Rightarrow> vfs" where
  "put_proc_dir v r = v\<lparr>pr_block := (pr_block v)[0 := enc_ed r @ drop 3524 (pr_block v ! 0)]\<rparr>"

fun proc_find :: "string \<Rightarrow> edt list \<Rightarrow> edt option res" where
  "proc_find nm [] = Inr None"
| "proc_find nm (e # es) =
     (if e_valid e = 1 then
        case name_eq e nm of
          None \<Rightarrow> Inl Overrun
        | Some True \<Rightarrow> Inr (Some e)
        | Some False \<Rightarrow> proc_find nm es
      else proc_find nm es)"

section \<open>\<open>access\<close>, \<open>mkdir\<close>, \<open>rmdir\<close>\<close>

definition access_dev :: "vfs \<Rightarrow> string \<Rightarrow> int \<Rightarrow> (int \<times> vfs) res" where
  "access_dev v dirname mode =
     (if dirname = [] \<and> has mode DIR_OK then Inr (0, v)
      else if has mode DIR_OK then Inr (- 1, v)
      else rbind (dev_lookup (drop 1 dirname)) (\<lambda>_. Inr (0, v)))"

definition access_proc :: "vfs \<Rightarrow> string \<Rightarrow> int \<Rightarrow> (int \<times> vfs) res" where
  "access_proc v dirname mode =
     (if dirname = [] \<and> has mode DIR_OK then Inr (0, v)
      else if has mode DIR_OK then Inr (- 1, v)
      else rbind (proc_find (drop 1 dirname) (etrs (proc_dir v))) (\<lambda>r.
        Inr (if r = None then - 1 else 0, v)))"

definition access_flags :: "int \<Rightarrow> int" where
  "access_flags mode =
     (if has mode F_OK then O_CHECK else if has mode DIR_OK then O_DIR OR O_CHECK else - 1)"

definition vfsaccess :: "vfs \<Rightarrow> string \<Rightarrow> int \<Rightarrow> (int \<times> vfs) res" where
  "vfsaccess v path mode =
     (if path = ''/'' then Inr (if has mode DIR_OK then 0 else - 1, v)
      else rbind (split_path path) (\<lambda>(mntname, rest).
        if \<not> mounted v mntname \<and> virtual_name mntname then Inr (- 1, v)
        else rbind (mount_target v mntname rest) (\<lambda>t. case t of
          None \<Rightarrow> Inr (- 1, v)
        | Some (ind, mnt, dirname) \<Rightarrow>
            if mnt = ''/dev'' then access_dev v dirname mode
            else if mnt = ''/proc'' then access_proc v dirname mode
            else rbind (vlookup v (mp_fs (mntpoint v ! ind)) dirname (access_flags mode)) (\<lambda>(r, v1).
              Inr (if r = None then - 1 else 0, v1)))))"

definition vfsmkdir :: "vfs \<Rightarrow> string \<Rightarrow> (int \<times> vfs) res" where
  "vfsmkdir v path =
     (if path = ''/'' then Inr (- 1, v)
      else rbind (split_path path) (\<lambda>(mntname, rest).
        if virtual_name mntname then Inr (- 1, v)
        else rbind (mount_target v mntname rest) (\<lambda>t. case t of
          None \<Rightarrow> Inr (- 1, v)
        | Some (ind, mnt, dirname) \<Rightarrow>
            rbind (vlookup v (mp_fs (mntpoint v ! ind)) dirname (O_DIR OR O_CHECK)) (\<lambda>(r, v1).
            if r \<noteq> None then Inr (- 1, v1)
            else rbind (vlookup v1 (mp_fs (mntpoint v1 ! ind)) dirname (O_DIR OR O_CREAT)) (\<lambda>(r2, v2).
              Inr (if r2 = None then - 1 else 0, v2))))))"

definition vfsrmdir :: "vfs \<Rightarrow> string \<Rightarrow> (int \<times> vfs) res" where
  "vfsrmdir v path =
     (if path = ''/'' then Inr (- 1, v)
      else rbind (split_path path) (\<lambda>(mntname, rest).
        if virtual_name mntname then Inr (- 1, v)
        else rbind (mount_target v mntname rest) (\<lambda>t. case t of
          None \<Rightarrow> Inr (- 1, v)
        | Some (ind, mnt, dirname) \<Rightarrow>
            rbind (vlookup v (mp_fs (mntpoint v ! ind)) dirname (O_DIR OR O_RM)) (\<lambda>(r, v1).
            Inr (if r = None then - 1 else 0, v1)))))"

section \<open>\<open>link\<close> and \<open>unlink\<close>\<close>

text \<open>
  Splitting \<open>dirname\<close> at its last slash into the directory and \<open>filename[35]\<close>.  Without a slash the
  index is \<open>-1\<close> and the store \<open>dirname[index] = 0\<close> is outside the buffer.
\<close>

definition split_last :: "string \<Rightarrow> (string \<times> string) res" where
  "split_last dirname =
     (case last_idx (\<lambda>c. c = CHR ''/'') dirname of
        None \<Rightarrow> Inl Overrun
      | Some i \<Rightarrow>
          rbind (require (length (drop (Suc i) dirname) \<le> 34) Overrun) (\<lambda>_.
          Inr (take i dirname, drop (Suc i) dirname)))"

text \<open>The first half: find the inode of \<open>oldpath\<close>.\<close>

definition link_old :: "vfs \<Rightarrow> string \<Rightarrow> (inode option \<times> vfs) res" where
  "link_old v oldpath =
     rbind (split_path oldpath) (\<lambda>(mntname, rest).
       if virtual_name mntname then Inr (None, v)
       else rbind (mount_target v mntname rest) (\<lambda>t. case t of
         None \<Rightarrow> Inr (None, v)
       | Some (ind, mnt, dirname) \<Rightarrow> vlookup v (mp_fs (mntpoint v ! ind)) dirname O_CHECK))"

text \<open>The second half: \<open>newpath\<close> must have a mount point and must not name a file.\<close>

definition link_new :: "vfs \<Rightarrow> string \<Rightarrow> ((nat \<times> string) option \<times> vfs) res" where
  "link_new v newpath =
     rbind (split_path newpath) (\<lambda>(mntname, rest).
       if virtual_name mntname then Inr (None, v)
       else rbind (mount_target v mntname rest) (\<lambda>t. case t of
         None \<Rightarrow> Inr (None, v)
       | Some (ind, mnt, dirname) \<Rightarrow>
           rbind (vlookup v (mp_fs (mntpoint v ! ind)) dirname O_CHECK) (\<lambda>(r, v1).
           Inr (if r \<noteq> None then None else Some (ind, dirname), v1))))"

text \<open>Entering the name into its directory, with the writes of both inodes and the directory.\<close>

definition link_entry :: "vfs \<Rightarrow> inode \<Rightarrow> inode \<Rightarrow> string \<Rightarrow> (int \<times> vfs) res" where
  "link_entry v oldnode newnode filename =
     (let fs = v_fs v (i_fs newnode);
          blk = blk_addr fs (i_nblocks newnode);
          r = get_ed (rd1_of v) blk
      in case find_idx (\<lambda>e. e_valid e = 0) (etrs r) of
        None \<Rightarrow> Inr (- 1, v)
      | Some pp \<Rightarrow>
          rbind (set_name (e_name (etrs r ! pp)) filename) (\<lambda>name.
          let e = \<lparr>e_ino = i_nblocks oldnode, e_ftype = EXT2_FT_REG_FILE, e_valid = 1, e_name = name\<rparr>;
              grow = (pp = maxuse r);
              r1 = r\<lparr>etrs := (etrs r)[pp := e], maxuse := if grow then maxuse r + 1 else maxuse r\<rparr>;
              new1 = (if grow then newnode\<lparr>i_size := (i_size newnode + sizeof_edt) mod 2 ^ 32\<rparr> else newnode);
              old1 = oldnode\<lparr>i_refcnt := i_refcnt oldnode + 1\<rparr>;
              d1 = put_inode (rd1_of v) (fsoff fs + i_offset oldnode) old1;
              d2 = put_ed d1 blk r1;
              d3 = put_inode d2 (fsoff fs + i_offset newnode) new1
          in Inr (0, set_rd1 v d3)))"

definition vfslink :: "vfs \<Rightarrow> string \<Rightarrow> string \<Rightarrow> (int \<times> vfs) res" where
  "vfslink v oldpath newpath =
     rbind (link_old v oldpath) (\<lambda>(o1, v1). case o1 of
       None \<Rightarrow> Inr (- 1, v1)
     | Some oldnode \<Rightarrow>
         rbind (link_new v1 newpath) (\<lambda>(t, v2). case t of
           None \<Rightarrow> Inr (- 1, v2)
         | Some (ind, dirname) \<Rightarrow>
             rbind (split_last dirname) (\<lambda>(dir, filename).
             rbind (vlookup v2 (mp_fs (mntpoint v2 ! ind)) dir (O_DIR OR O_CHECK)) (\<lambda>(n1, v3). case n1 of
               None \<Rightarrow> Inr (- 1, v3)
             | Some newnode \<Rightarrow> link_entry v3 oldnode newnode filename))))"

fun scan_name :: "string \<Rightarrow> edt list \<Rightarrow> nat \<Rightarrow> nat option res" where
  "scan_name nm [] i = Inr None"
| "scan_name nm (e # es) i =
     (case name_eq e nm of
        None \<Rightarrow> Inl Overrun
      | Some True \<Rightarrow> Inr (Some i)
      | Some False \<Rightarrow> scan_name nm es (Suc i))"

text \<open>A file that has further links: count one less, and clear the entry of this name.\<close>

definition unlink_ref :: "vfs \<Rightarrow> nat \<Rightarrow> string \<Rightarrow> inode \<Rightarrow> (int \<times> vfs) res" where
  "unlink_ref v ind dirname filenode =
     (let node1 = filenode\<lparr>i_refcnt := i_refcnt filenode - 1\<rparr>;
          ffs = v_fs v (i_fs filenode);
          v1 = set_rd1 v (put_inode (rd1_of v) (fsoff ffs + i_offset filenode) node1)
      in rbind (split_last dirname) (\<lambda>(dir, filename).
         rbind (vlookup v1 (mp_fs (mntpoint v1 ! ind)) dir (O_DIR OR O_CHECK)) (\<lambda>(rn, v2). case rn of
           None \<Rightarrow> Inl Assert_fail
         | Some recnode \<Rightarrow>
             let fs = v_fs v2 (i_fs recnode);
                 blk = blk_addr fs (i_nblocks recnode);
                 r = get_ed (rd1_of v2) blk
             in rbind (scan_name filename (etrs r) 0) (\<lambda>k. case k of
               None \<Rightarrow> Inr (- 1, v2)
             | Some pp \<Rightarrow> Inr (0, set_rd1 v2 (put_ed (rd1_of v2) blk (clear_valid r pp)))))))"

definition vfsunlink :: "vfs \<Rightarrow> string \<Rightarrow> (int \<times> vfs) res" where
  "vfsunlink v path =
     rbind (split_path path) (\<lambda>(mntname, rest).
       if virtual_name mntname then Inr (- 1, v)
       else rbind (mount_target v mntname rest) (\<lambda>t. case t of
         None \<Rightarrow> Inr (- 1, v)
       | Some (ind, mnt, dirname) \<Rightarrow>
           rbind (vlookup v (mp_fs (mntpoint v ! ind)) dirname O_CHECK) (\<lambda>(f, v1). case f of
             None \<Rightarrow> Inr (- 1, v1)
           | Some filenode \<Rightarrow>
               if i_refcnt filenode = 0 then
                 rbind (vlookup v1 (mp_fs (mntpoint v1 ! ind)) dirname O_RM) (\<lambda>(r, v2).
                 Inr (if r = None then - 1 else 0, v2))
               else unlink_ref v1 ind dirname filenode)))"

section \<open>\<open>open\<close> and \<open>close\<close>\<close>

text \<open>The smallest free descriptor; -1 when all are in use.\<close>

definition alloc_fd :: "vfs \<Rightarrow> iref \<Rightarrow> string \<Rightarrow> (int \<times> vfs) res" where
  "alloc_fd v node path =
     (case find_idx (\<lambda>f. f = None) (fildes v) of
        None \<Rightarrow> Inr (- 1, v)
      | Some i \<Rightarrow>
          rbind (require (length path \<le> 127) Overrun) (\<lambda>_.
          Inr (int i, v\<lparr>fildes := (fildes v)[i := Some \<lparr>f_inode = node, f_offset = 0, f_name = path\<rparr>]\<rparr>)))"

definition openable_dev :: "string \<Rightarrow> bool" where
  "openable_dev dirname \<longleftrightarrow> dirname = ''/ramdisk0'' \<or> dirname = ''/ramdisk1'' \<or> dirname = ''/tty1'' \<or>
     dirname = ''/tty2'' \<or> dirname = ''/tty3'' \<or> dirname = ''/tty4''"

definition proc_node :: "vfs \<Rightarrow> nat \<Rightarrow> inode" where
  "proc_node v pp = \<lparr>i_mod = nat O_RDONLY, i_size = 0, i_nblocks = pp, i_offset = int pp, i_refcnt = 0,
     i_ptr = 0, i_fs = procfs v, i_ops = iops_at v\<rparr>"

text \<open>
  Creating a file of \<open>procfs\<close>: the first \<open>NULL\<close> slot of \<open>hgproc.ino\<close>, and an entry in the directory
  if one is free.  The size of the directory grows when the entry's index is \<open>maxuse\<close>, which is
  never increased.
\<close>

definition proc_create :: "vfs \<Rightarrow> string \<Rightarrow> (nat option \<times> vfs) res" where
  "proc_create v nm =
     (case find_idx (\<lambda>x. x = None) (pr_ino v) of
        None \<Rightarrow> Inr (None, v)
      | Some pp \<Rightarrow>
          let v1 = v\<lparr>pr_ino := (pr_ino v)[pp := Some (proc_node v pp)],
                     pr_block := (pr_block v)[pp := replicate FILEBLOCK NUL]\<rparr>;
              r = proc_dir v1
          in case find_idx (\<lambda>e. e_valid e = 0) (etrs r) of
            None \<Rightarrow> Inr (Some pp, v1)
          | Some qq \<Rightarrow>
              rbind (set_name (e_name (etrs r ! qq)) nm) (\<lambda>name.
              let e = \<lparr>e_ino = pp, e_ftype = EXT2_FT_REG_FILE, e_valid = 1, e_name = name\<rparr>;
                  v2 = put_proc_dir v1 (r\<lparr>etrs := (etrs r)[qq := e]\<rparr>)
              in Inr (Some pp,
                   if qq = maxuse r
                   then v2\<lparr>pr_ino := (pr_ino v2)[0 := map_option
                          (\<lambda>n. n\<lparr>i_size := (i_size n + sizeof_edt) mod 2 ^ 32\<rparr>) (pr_ino v2 ! 0)]\<rparr>
                   else v2)))"

definition open_proc :: "vfs \<Rightarrow> string \<Rightarrow> int \<Rightarrow> (nat option \<times> vfs) res" where
  "open_proc v dirname flags =
     (if dirname = [] \<and> has flags O_DIR then Inr (Some 0, v)
      else
        let nm = drop 1 dirname in
        rbind (proc_find nm (etrs (proc_dir v))) (\<lambda>r.
        case r of
          Some e \<Rightarrow>
            rbind (require (e_ino e < NFILEINFS) Overrun) (\<lambda>_.
            if pr_ino v ! e_ino e = None
            then (if has flags O_CREAT then proc_create v nm else Inr (None, v))
            else Inr (Some (e_ino e), v))
        | None \<Rightarrow> if has flags O_CREAT then proc_create v nm else Inr (None, v)))"

definition vfsopen :: "vfs \<Rightarrow> string \<Rightarrow> int \<Rightarrow> (int \<times> vfs) res" where
  "vfsopen v path flags =
     (if path = ''/'' then
        let fs = v_fs v (blkfs v) in alloc_fd v (Ino_own (get_inode (rd1_of v) (ino_addr fs 0))) path
      else rbind (split_path path) (\<lambda>(mntname, rest).
        if \<not> mounted v mntname \<and> virtual_name mntname then Inr (- 1, v)
        else rbind (mount_target v mntname rest) (\<lambda>t. case t of
          None \<Rightarrow> Inr (- 1, v)
        | Some (ind, mnt, dirname) \<Rightarrow>
            if mnt \<noteq> ''/dev'' \<and> mnt \<noteq> ''/proc'' then
              rbind (vlookup v (mp_fs (mntpoint v ! ind)) dirname flags) (\<lambda>(r, v1). case r of
                None \<Rightarrow> Inr (- 1, v1)
              | Some n \<Rightarrow> alloc_fd v1 (Ino_own n) path)
            else if mnt = ''/dev'' then
              (if dirname = [] \<and> has flags O_DIR \<or> openable_dev dirname then alloc_fd v Ino_null path
               else Inr (- 1, v))
            else
              rbind (open_proc v dirname flags) (\<lambda>(r, v1). case r of
                None \<Rightarrow> Inr (- 1, v1)
              | Some k \<Rightarrow> alloc_fd v1 (Ino_proc k) path))))"

definition vfsclose :: "vfs \<Rightarrow> int \<Rightarrow> (int \<times> vfs) res" where
  "vfsclose v fd =
     (if fd < 0 then Inr (- 1, v)
      else rbind (require (nat fd < NFILE) Overrun) (\<lambda>_.
        case fildes v ! nat fd of
          None \<Rightarrow> Inr (- 1, v)
        | Some f \<Rightarrow> Inr (0, v\<lparr>fildes := (fildes v)[nat fd := None]\<rparr>)))"

section \<open>\<open>read\<close>, \<open>write\<close>, \<open>lseek\<close>\<close>

definition node_of :: "vfs \<Rightarrow> iref \<Rightarrow> inode option" where
  "node_of v r = (case r of Ino_null \<Rightarrow> None | Ino_own n \<Rightarrow> Some n | Ino_proc k \<Rightarrow> pr_ino v ! k)"

definition get_file :: "vfs \<Rightarrow> int \<Rightarrow> file_t res" where
  "get_file v fd =
     rbind (require (nat fd < NFILE) Overrun) (\<lambda>_.
     case fildes v ! nat fd of None \<Rightarrow> Inl Null_deref | Some f \<Rightarrow> Inr f)"

definition set_file :: "vfs \<Rightarrow> int \<Rightarrow> file_t \<Rightarrow> vfs" where
  "set_file v fd f = v\<lparr>fildes := (fildes v)[nat fd := Some f]\<rparr>"

text \<open>The device that a file without inode is open on: the name behind \<open>/dev/\<close>.\<close>

definition file_dev :: "file_t \<Rightarrow> nat res" where
  "file_dev f =
     rbind (split_path (f_name f)) (\<lambda>(mntname, rest).
     rbind (require (mntname = ''/dev'') Assert_fail) (\<lambda>_.
     let devname = drop 1 rest in
     rbind (require (length devname \<le> 31) Overrun) (\<lambda>_. dev_lookup devname)))"

text \<open>
  The number of bytes of a read: up to the end of the file; of a write: up to the end of the block.
  The subtraction of a write can be negative, and \<open>memcpy\<close> then gets a huge count.
\<close>

definition read_len :: "inode \<Rightarrow> nat \<Rightarrow> nat \<Rightarrow> nat" where
  "read_len n off nbyte = (if nbyte + off > i_size n then i_size n - off else nbyte)"

definition write_len :: "nat \<Rightarrow> nat \<Rightarrow> int" where
  "write_len off nbyte = (if nbyte + off > FILEBLOCK then int FILEBLOCK - int off else int nbyte)"

definition vfsread :: "vfs \<Rightarrow> int \<Rightarrow> nat \<Rightarrow> (int \<times> char list \<times> vfs) res" where
  "vfsread v fd nbyte =
     (if fd < 0 then Inr (- 1, [], v)
      else rbind (get_file v fd) (\<lambda>f.
        let off = f_offset f in
        case node_of v (f_inode f) of
          None \<Rightarrow>
            rbind (file_dev f) (\<lambda>dev.
            rbind (dev_read (v_devs v) dev off nbyte) (\<lambda>(r, bs, D).
            Inr (int r, bs, set_file (v\<lparr>v_devs := D\<rparr>) fd (f\<lparr>f_offset := off + r\<rparr>))))
        | Some n \<Rightarrow>
            if off > i_size n then Inr (0, [], v)
            else
              let r = read_len n off nbyte; fs = v_fs v (i_fs n) in
              if fs_dev fs = 0 then
                rbind (require (off + r \<le> FILEBLOCK) Overrun) (\<lambda>_.
                Inr (int r, take r (drop off (pr_block v ! i_nblocks n)), set_file v fd (f\<lparr>f_offset := off + r\<rparr>)))
              else
                Inr (int r, rd_read (rd1_of v) (blk_addr fs (i_nblocks n) + int off) r,
                     set_file v fd (f\<lparr>f_offset := off + r\<rparr>))))"

definition write_proc :: "vfs \<Rightarrow> nat \<Rightarrow> nat \<Rightarrow> char list \<Rightarrow> vfs" where
  "write_proc v num off bs =
     (let b = pr_block v ! num;
          b1 = take off b @ bs @ drop (off + length bs) b;
          grow = (\<lambda>n. if i_size n < off + length bs then n\<lparr>i_size := off + length bs\<rparr> else n)
      in v\<lparr>pr_block := (pr_block v)[num := b1],
           pr_ino := (pr_ino v)[num := map_option grow (pr_ino v ! num)]\<rparr>)"

definition write_blk :: "vfs \<Rightarrow> inode \<Rightarrow> nat \<Rightarrow> char list \<Rightarrow> inode \<times> vfs" where
  "write_blk v n off bs =
     (let fs = v_fs v (i_fs n);
          d1 = rd_write (rd1_of v) (blk_addr fs (i_nblocks n) + int off) bs
      in if i_size n < off + length bs
         then let n1 = n\<lparr>i_size := off + length bs\<rparr> in
           (n1, set_rd1 v (put_inode d1 (fsoff fs + i_offset n) n1))
         else (n, set_rd1 v d1))"

definition vfswrite :: "vfs \<Rightarrow> int \<Rightarrow> char list \<Rightarrow> (int \<times> vfs) res" where
  "vfswrite v fd buf =
     (if fd < 0 then Inr (- 1, v)
      else rbind (get_file v fd) (\<lambda>f.
        let off = f_offset f in
        case node_of v (f_inode f) of
          None \<Rightarrow>
            rbind (file_dev f) (\<lambda>dev.
            rbind (dev_write (v_devs v) dev off buf) (\<lambda>(r, D).
            Inr (int r, set_file (v\<lparr>v_devs := D\<rparr>) fd (f\<lparr>f_offset := off + r\<rparr>))))
        | Some n \<Rightarrow>
            let r = write_len off (length buf) in
            rbind (require (0 \<le> r) Overrun) (\<lambda>_.
            let bs = take (nat r) buf in
            if fs_dev (v_fs v (i_fs n)) = 0 then
              rbind (require (0 \<le> i_offset n \<and> i_offset n < int NFILEINFS \<and> pr_ino v ! nat (i_offset n) \<noteq> None) Null_deref) (\<lambda>_.
              Inr (r, set_file (write_proc v (nat (i_offset n)) off bs) fd (f\<lparr>f_offset := off + length bs\<rparr>)))
            else
              let (n1, v1) = write_blk v n off bs;
                  f1 = f\<lparr>f_offset := off + length bs,
                         f_inode := (case f_inode f of Ino_own _ \<Rightarrow> Ino_own n1 | i \<Rightarrow> i)\<rparr>
              in Inr (r, set_file v1 fd f1))))"

definition seek_off :: "nat \<Rightarrow> nat \<Rightarrow> int \<Rightarrow> int \<Rightarrow> nat" where
  "seek_off cur sz offset whenc =
     nat ((if whenc = LSEEK_CUR then int cur + offset
           else if whenc = LSEEK_SET then offset
           else if whenc = LSEEK_END then int sz + offset
           else - 1) mod 2 ^ 32)"

text \<open>
  \<open>newoff\<close> is unsigned, so an offset before the start of the file is a large one and is refused by
  the first test.  The result is the argument \<open>offset\<close>, not the new position.
\<close>

definition vfslseek :: "vfs \<Rightarrow> int \<Rightarrow> int \<Rightarrow> int \<Rightarrow> (int \<times> vfs) res" where
  "vfslseek v fd offset whenc =
     (if fd < 0 then Inr (- 1, v)
      else rbind (require (nat fd < NFILE) Overrun) (\<lambda>_.
      case fildes v ! nat fd of
        None \<Rightarrow> Inr (- 1, v)
      | Some f \<Rightarrow>
          case node_of v (f_inode f) of
            None \<Rightarrow>
              rbind (split_path (f_name f)) (\<lambda>(mntname, rest).
              rbind (require (mntname = ''/dev'') Assert_fail) (\<lambda>_. Inr (0, v)))
          | Some n \<Rightarrow>
              let newoff = seek_off (f_offset f) (i_size n) offset whenc in
              if newoff \<ge> FILEBLOCK then Inr (- 1, v)
              else Inr (offset, set_file v fd (f\<lparr>f_offset := newoff\<rparr>))))"

section \<open>\<open>vfsinit\<close>\<close>

text \<open>
  The search for a free file system slot on the RAM disk: slots are 512 KB, the first word of a used
  one is not 0.
\<close>

fun find_slot :: "nat \<Rightarrow> disk \<Rightarrow> nat \<Rightarrow> nat res" where
  "find_slot 0 d cnt = Inl Assert_fail"
| "find_slot (Suc k) d cnt =
     (let w = dec_le (rd_read d (int cnt * RAMBLOCK) 4) in
      rbind (require (w \<noteq> 2 ^ 32 - 1) Assert_fail) (\<lambda>_.
      if w = 0 then Inr cnt else find_slot k d (cnt + 1)))"

definition zero_fs :: filesystem where
  "zero_fs = \<lparr>fs_name = [], fsoff = 0, inooff = replicate NFILEINFS 0, blooff = 0, fs_dev = 0\<rparr>"

definition init_root :: "vfs \<Rightarrow> nat \<Rightarrow> nat \<Rightarrow> nat \<Rightarrow> vfs" where
  "init_root v p dev cnt =
     (let fs = (v_fs v p)\<lparr>fsoff := int cnt * RAMBLOCK, inooff := (inooff (v_fs v p))[0 := 4], blooff := 4 + INOSIZE\<rparr>;
          root = \<lparr>i_mod = nat O_RDWR, i_size = 0, i_nblocks = 0, i_offset = 4, i_refcnt = 0, i_ptr = dev,
                  i_fs = p, i_ops = iops_at v\<rparr>;
          d1 = rd_write (rd1_of v) (fsoff fs) (enc_u32 1);
          d2 = put_inode d1 (fsoff fs + 4) root;
          d3 = put_ed d2 (fsoff fs + blooff fs) zero_ed
      in (set_rd1 v d3)\<lparr>v_fs := (v_fs v)(p := fs)\<rparr>)"

text \<open>The first part: create \<open>blkfs\<close> at address \<open>p\<close> on \<open>ramdisk1\<close> and mount it at the root.\<close>

definition init_blkfs :: "vfs \<Rightarrow> nat \<Rightarrow> vfs res" where
  "init_blkfs v p =
     (let v0 = v\<lparr>mntpoint := replicate MNTNUM \<lparr>mp_name = [], mp_fs = 0\<rparr>, blkfs := p\<rparr> in
      rbind (dev_lookup ''ramdisk1'') (\<lambda>dev.
      let v1 = v0\<lparr>v_fs := (v_fs v0)(p := fsinit zero_fs ''blkfs'' dev)\<rparr> in
      rbind (find_slot MAXFS (rd1_of v1) 0) (\<lambda>cnt.
      rbind (vfsmount (init_root v1 p dev cnt) ''/'' p) (\<lambda>(r, v2).
      rbind (require (r \<noteq> - 1) Assert_fail) (\<lambda>_. Inr v2)))))"

definition vcreate :: "vfs \<Rightarrow> string \<Rightarrow> int \<Rightarrow> (nat \<times> vfs) res" where
  "vcreate v path flags =
     rbind (vlookup v (blkfs v) path flags) (\<lambda>(r, v1). case r of
       None \<Rightarrow> Inl Null_deref | Some n \<Rightarrow> Inr (i_nblocks n, v1))"

definition put_text :: "vfs \<Rightarrow> nat \<Rightarrow> string \<Rightarrow> vfs" where
  "put_text v n s = set_rd1 v (rd_write (rd1_of v) (blk_addr (v_fs v (blkfs v)) n) (s @ [NUL]))"

definition test_c :: string where
  "test_c = ''int main(){'' @ [LF] @ ''    printf('' @ [CHR 0x22] @ ''Hello,world'' @ [CHR 0x22] @ '');'' @ [LF] @
     ''    return 0;'' @ [LF] @ ''}''"

text \<open>The second part: the files that every boot finds.\<close>

definition init_files :: "vfs \<Rightarrow> vfs res" where
  "init_files v =
     rbind (vlookup v (blkfs v) ''/jarvis'' (O_DIR OR O_CREAT OR O_RDWR)) (\<lambda>(_, v1).
     rbind (vcreate v1 ''/jarvis/test.c'' (O_CREAT OR O_RDWR)) (\<lambda>(t1, v2).
     rbind (vlookup v2 (blkfs v2) ''/jarvis/lyrics'' (O_DIR OR O_CREAT OR O_RDWR)) (\<lambda>(_, v3).
     rbind (vcreate v3 ''/jarvis/lyrics/Try'' (O_CREAT OR O_RDWR)) (\<lambda>(t2, v4).
     rbind (vcreate v4 ''/jarvis/lyrics/Lucky'' (O_CREAT OR O_RDWR)) (\<lambda>(t3, v5).
     let v6 = put_text v5 t1 test_c;
         v7 = put_text v6 t2 ''If I walk would you run, If I stop would you come''
     in Inr (put_text v7 t3 (''Do you hear me? I'' @ [CHR 0x27] @ ''m talking to you'')))))))"

text \<open>The third part: \<open>devfs\<close> at address \<open>p\<close> and \<open>procfs\<close> at address \<open>q\<close>, without a device.\<close>

definition init_virtual :: "vfs \<Rightarrow> nat \<Rightarrow> nat \<Rightarrow> vfs res" where
  "init_virtual v p q =
     (let v1 = v\<lparr>devfs := p, v_fs := (v_fs v)(p := fsinit zero_fs ''devfs'' 0)\<rparr> in
      rbind (vfsmount v1 ''/dev'' p) (\<lambda>(_, v2).
      let v3 = v2\<lparr>procfs := q, v_fs := (v_fs v2)(q := fsinit zero_fs ''procfs'' 0)\<rparr> in
      rbind (vfsmount v3 ''/proc'' q) (\<lambda>(_, v4). Inr v4)))"

definition proc_inode :: "vfs \<Rightarrow> nat \<Rightarrow> nat \<Rightarrow> inode" where
  "proc_inode v k sz = \<lparr>i_mod = nat O_RDONLY, i_size = sz, i_nblocks = k, i_offset = int k, i_refcnt = 0,
     i_ptr = 0, i_fs = procfs v, i_ops = iops_at v\<rparr>"

definition proc_entry :: "nat \<Rightarrow> string \<Rightarrow> edt" where
  "proc_entry k nm = \<lparr>e_ino = k, e_ftype = EXT2_FT_REG_FILE, e_valid = 1,
     e_name = nm @ replicate (32 - length nm) NUL\<rparr>"

definition meminfo_text :: string where
  "meminfo_text = ''MemTotal:   8031096 KB'' @ [LF] @ ''MemFree:   5068480 KB''"

text \<open>The fourth part: the inodes and blocks of \<open>hgproc\<close>, for \<open>ncpu\<close> processors.\<close>

definition init_proc :: "vfs \<Rightarrow> int \<Rightarrow> vfs" where
  "init_proc v ncpu =
     (let dir = zero_ed\<lparr>etrs := (etrs zero_ed)[0 := proc_entry 1 ''cpuinfo'', 1 := proc_entry 2 ''meminfo'']\<rparr>;
          pad = (\<lambda>s. s @ replicate (FILEBLOCK - length s) NUL)
      in v\<lparr>pr_ino := [Some (proc_inode v 0 (2 * sizeof_edt)), Some (proc_inode v 1 4),
                      Some (proc_inode v 2 (length meminfo_text))] @ replicate (NFILEINFS - 3) None,
           pr_block := [pad (enc_ed dir), pad (enc_s32 (ncpu + 48)), pad meminfo_text] @ replicate (NFILEINFS - 3) []\<rparr>)"

definition vfsinit :: "vfs \<Rightarrow> nat \<Rightarrow> nat \<Rightarrow> nat \<Rightarrow> int \<Rightarrow> vfs res" where
  "vfsinit v p q r ncpu =
     rbind (init_blkfs v p) (\<lambda>v1. rbind (init_files v1) (\<lambda>v2. rbind (init_virtual v2 q r) (\<lambda>v3.
     Inr (init_proc v3 ncpu))))"

end
