(* ===== verification/Vfs_Props.thy ===== *)
theory Vfs_Props
  imports Vfs Fs_Main
begin

text \<open>
  The operations of the virtual file system on the directory tree of \<open>blkfs\<close>, with the mount table
  that \<open>vfsinit\<close> sets up.  Every operation is first reduced to calls of \<open>fslookup\<close> on the whole path,
  then the lemmas of the on-disk file system apply.
\<close>

section \<open>The mounted system\<close>

definition env_of :: "vfs \<Rightarrow> fsenv" where
  "env_of v = \<lparr>fs_at = blkfs v, inode_ops_at = iops_at v\<rparr>"

definition bfs :: "vfs \<Rightarrow> filesystem" where
  "bfs v = v_fs v (blkfs v)"

definition std_mounts :: "vfs \<Rightarrow> bool" where
  "std_mounts v \<longleftrightarrow> blkfs v \<noteq> 0 \<and>
     mntpoint v = [\<lparr>mp_name = ''/'', mp_fs = blkfs v\<rparr>, \<lparr>mp_name = ''/dev'', mp_fs = devfs v\<rparr>,
       \<lparr>mp_name = ''/proc'', mp_fs = procfs v\<rparr>, \<lparr>mp_name = [], mp_fs = 0\<rparr>, \<lparr>mp_name = [], mp_fs = 0\<rparr>]"

definition vfs_ok :: "vfs \<Rightarrow> nat set \<Rightarrow> bool" where
  "vfs_ok v D \<longleftrightarrow> std_mounts v \<and> fs_inv (env_of v) (bfs v) (rd1_of v) D"

definition vtree :: "vfs \<Rightarrow> nat set \<Rightarrow> tree" where
  "vtree v D = tree_of (bfs v) (rd1_of v) D"

definition vnode :: "vfs \<Rightarrow> nat \<Rightarrow> inode" where
  "vnode v i = node (bfs v) (rd1_of v) i"

definition vset :: "vfs \<Rightarrow> filesystem \<Rightarrow> disk \<Rightarrow> vfs" where
  "vset v fs d = (set_rd1 v d)\<lparr>v_fs := (v_fs v)(blkfs v := fs)\<rparr>"

lemma vset_simps [simp]:
  "blkfs (vset v fs d) = blkfs v" "devfs (vset v fs d) = devfs v" "procfs (vset v fs d) = procfs v"
  "mntpoint (vset v fs d) = mntpoint v" "bfs (vset v fs d) = fs" "rd1_of (vset v fs d) = d"
  "env_of (vset v fs d) = env_of v" "std_mounts (vset v fs d) = std_mounts v"
  "fildes (vset v fs d) = fildes v" "pr_ino (vset v fs d) = pr_ino v" "pr_block (vset v fs d) = pr_block v"
  "iops_at (vset v fs d) = iops_at v" "v_fs (vset v fs d) (blkfs v) = fs"
  by (simp_all add: vset_def set_rd1_def bfs_def rd1_of_def env_of_def std_mounts_def)

lemma set_rd1_simps [simp]:
  "blkfs (set_rd1 v d) = blkfs v" "mntpoint (set_rd1 v d) = mntpoint v" "bfs (set_rd1 v d) = bfs v"
  "rd1_of (set_rd1 v d) = d" "env_of (set_rd1 v d) = env_of v" "v_fs (set_rd1 v d) = v_fs v"
  "std_mounts (set_rd1 v d) = std_mounts v" "fildes (set_rd1 v d) = fildes v"
  by (simp_all add: set_rd1_def bfs_def rd1_of_def env_of_def std_mounts_def)

lemma fildes_simps [simp]:
  "blkfs (v\<lparr>fildes := x\<rparr>) = blkfs v" "bfs (v\<lparr>fildes := x\<rparr>) = bfs v" "rd1_of (v\<lparr>fildes := x\<rparr>) = rd1_of v"
  "env_of (v\<lparr>fildes := x\<rparr>) = env_of v" "std_mounts (v\<lparr>fildes := x\<rparr>) = std_mounts v"
  by (simp_all add: bfs_def rd1_of_def env_of_def std_mounts_def)

lemma vset_same [simp]: "vset v (bfs v) (rd1_of v) = v"
  by (simp add: vset_def set_rd1_def bfs_def rd1_of_def)

lemma vset_vset [simp]: "vset (vset v fs d) fs' d' = vset v fs' d'"
  by (simp add: vset_def set_rd1_def fun_upd_twist)

lemma vfs_ok_vset: "vfs_ok v D \<Longrightarrow> vfs_ok (vset v fs d) D' \<longleftrightarrow> fs_inv (env_of v) fs d D'"
  by (simp add: vfs_ok_def)

lemma vtree_vset [simp]: "vtree (vset v fs d) D = tree_of fs d D"
  by (simp add: vtree_def)

lemma vlookup_blkfs:
  "vfs_ok v D \<Longrightarrow> vlookup v (blkfs v) path flags =
     rbind (fslookup (env_of v) (bfs v) (rd1_of v) path flags) (\<lambda>(r, fs, d). Inr (r, vset v fs d))"
  by (simp add: vlookup_def env_of_def bfs_def vfs_ok_def std_mounts_def vset_def)

section \<open>Paths of \<open>blkfs\<close>\<close>

definition blk_path :: "string list \<Rightarrow> string \<Rightarrow> bool" where
  "blk_path cs c \<longleftrightarrow> good_path cs c \<and> hd (cs @ [c]) \<noteq> ''dev'' \<and> hd (cs @ [c]) \<noteq> ''proc''"

lemma path_of_hd_tl: "cs \<noteq> [] \<Longrightarrow> path_of cs = CHR ''/'' # hd cs @ path_of (tl cs)"
  by (cases cs) (simp_all add: path_of_Cons)

lemma blk_path_hd:
  assumes "blk_path cs c"
  shows "good_name (hd (cs @ [c]))"
  using assms good_pathD(1,2) [of cs c] by (cases cs) (auto simp: blk_path_def)

lemma split_path_blk:
  assumes "blk_path cs c"
  shows "split_path (path_of (cs @ [c])) = Inr (CHR ''/'' # hd (cs @ [c]), path_of (tl (cs @ [c])))"
proof -
  let ?h = "hd (cs @ [c])" and ?t = "tl (cs @ [c])"
  have eq: "cs @ [c] = ?h # ?t" by (cases cs) auto
  have g: "good_name ?h" using blk_path_hd [OF assms] .
  then have "first_comp (path_of (?h # ?t)) = ?h"
    by (intro first_comp_path_of) (simp add: good_name_def)
  moreover have "drop (Suc (length ?h)) (path_of (?h # ?t)) = path_of ?t" by (rule rest_path_of)
  ultimately have "split_path (path_of (?h # ?t)) = Inr (CHR ''/'' # ?h, path_of ?t)"
    using g by (simp add: split_path_def good_name_def Let_def)
  then show ?thesis using eq by simp
qed

lemma last_idx_5:
  "last_idx P [a, b, c, d, e] =
    (if P e then Some 4 else if P d then Some 3 else if P c then Some 2 else if P b then Some 1
     else if P a then Some 0 else None)"
  by (simp add: last_idx_def numeral_eq_Suc upt_rec)

lemma mount_target_blk:
  assumes "vfs_ok v D" and "blk_path cs c"
  shows "mount_target v (CHR ''/'' # hd (cs @ [c])) (path_of (tl (cs @ [c]))) =
    Inr (Some (0, ''/'', path_of (cs @ [c])))"
proof -
  have eq: "cs @ [c] = hd (cs @ [c]) # tl (cs @ [c])" by (cases cs) auto
  then have p: "path_of (cs @ [c]) = (CHR ''/'' # hd (cs @ [c])) @ path_of (tl (cs @ [c]))"
    by (metis path_of_Cons append_Cons)
  have l: "length (path_of (cs @ [c])) \<le> 129"
    using assms(2) good_pathD(3) by (auto simp: blk_path_def)
  have h: "hd (cs @ [c]) \<noteq> []" using blk_path_hd [OF assms(2)] by (simp add: good_name_def)
  show ?thesis
    using assms l h not_sym [of "hd (cs @ [c])" "''dev''"] not_sym [of "hd (cs @ [c])" "''proc''"]
    unfolding mount_target_def p
    by (simp add: vfs_ok_def std_mounts_def last_idx_5 blk_path_def)
qed

lemma not_virtual_blk: "blk_path cs c \<Longrightarrow> \<not> virtual_name (CHR ''/'' # hd (cs @ [c]))"
  by (simp add: blk_path_def virtual_name_def)

lemma path_not_root: "blk_path cs c \<Longrightarrow> path_of (cs @ [c]) \<noteq> ''/''"
proof -
  assume "blk_path cs c"
  then have "hd (cs @ [c]) \<noteq> []" using blk_path_hd by (simp add: good_name_def)
  then show ?thesis by (cases cs) (auto simp: path_of_Cons)
qed

lemmas blk_simps = split_path_blk mount_target_blk not_virtual_blk path_not_root

lemma mnt0: "vfs_ok v D \<Longrightarrow> mp_fs (mntpoint v ! 0) = blkfs v"
  by (simp add: vfs_ok_def std_mounts_def)

lemma blk_good: "blk_path cs c \<Longrightarrow> good_path cs c"
  by (simp add: blk_path_def)

definition vfs_struct :: "vfs \<Rightarrow> nat set \<Rightarrow> bool" where
  "vfs_struct v D \<longleftrightarrow> std_mounts v \<and> fs_struct (env_of v) (bfs v) (rd1_of v) D"

lemma vfs_ok_struct: "vfs_ok v D \<Longrightarrow> vfs_struct v D"
  by (simp add: vfs_ok_def vfs_struct_def fs_inv_struct)

lemma vlookup_std:
  "blkfs v \<noteq> 0 \<Longrightarrow> vlookup v (blkfs v) path flags =
     rbind (fslookup (env_of v) (bfs v) (rd1_of v) path flags) (\<lambda>(r, fs, d). Inr (r, vset v fs d))"
  by (simp add: vlookup_def env_of_def bfs_def vset_def)

lemma std_blkfs: "std_mounts v \<Longrightarrow> blkfs v \<noteq> 0"
  by (simp add: std_mounts_def)

lemma vlookup_find_struct:
  assumes "vfs_struct v D" and "good_path cs c" and "\<not> has flags O_CREAT" and "\<not> has flags O_RM"
  shows "vlookup v (blkfs v) (path_of (cs @ [c])) flags =
    Inr (map_option (vnode v) (resolve (vtree v D) cs c (has flags O_DIR)), v)"
proof -
  have "fslookup (env_of v) (bfs v) (rd1_of v) (path_of (cs @ [c])) flags =
    Inr (map_option (vnode v) (resolve (vtree v D) cs c (has flags O_DIR)), bfs v, rd1_of v)"
    using fs_lookup [of "env_of v" "bfs v" "rd1_of v" D cs c flags] assms
    by (simp add: vfs_struct_def vtree_def vnode_def [abs_def])
  then show ?thesis using assms(1) by (simp add: vlookup_std vfs_struct_def std_blkfs)
qed

lemmas vlookup_find = vlookup_find_struct [OF vfs_ok_struct]

lemma has_vfs_flags [simp]:
  "has (O_DIR OR O_CHECK) O_DIR" "\<not> has (O_DIR OR O_CHECK) O_CREAT" "\<not> has (O_DIR OR O_CHECK) O_RM"
  "\<not> has O_CHECK O_DIR" "\<not> has O_CHECK O_CREAT" "\<not> has O_CHECK O_RM"
  "has (O_DIR OR O_CREAT) O_DIR" "has (O_DIR OR O_CREAT) O_CREAT" "\<not> has (O_DIR OR O_CREAT) O_RM"
  "has (O_DIR OR O_RM) O_DIR" "has (O_DIR OR O_RM) O_RM" "\<not> has (O_DIR OR O_RM) O_CREAT"
  "has (O_DIR OR O_CREAT OR O_RDWR) O_DIR" "has (O_DIR OR O_CREAT OR O_RDWR) O_CREAT"
  "\<not> has (O_DIR OR O_CREAT OR O_RDWR) O_RM" "\<not> has (O_CREAT OR O_RDWR) O_DIR"
  "has (O_CREAT OR O_RDWR) O_CREAT" "\<not> has (O_CREAT OR O_RDWR) O_RM"
  "has F_OK F_OK" "\<not> has F_OK DIR_OK" "has DIR_OK DIR_OK" "\<not> has DIR_OK F_OK"
  "has (- 1) O_RM" "has (- 1) O_DIR"
  by (simp_all add: has_def flag_defs F_OK_def DIR_OK_def)

text \<open>Creation and removal through a mount point, by the lemmas of \<open>fslookup\<close>.\<close>

definition blk_ok :: "vfs \<Rightarrow> nat set \<Rightarrow> bool" where
  "blk_ok v D \<longleftrightarrow> blkfs v \<noteq> 0 \<and> fs_inv (env_of v) (bfs v) (rd1_of v) D"

lemma vfs_ok_blk: "vfs_ok v D \<longleftrightarrow> std_mounts v \<and> blk_ok v D"
  by (auto simp: vfs_ok_def blk_ok_def std_mounts_def)

lemma vlookup_create_blk:
  assumes "blk_ok v D" and "good_path cs c" and "has flags O_CREAT" and "\<not> has flags O_RM"
    and "twalk (vtree v D) 0 cs = Some p" and "vtree v D p c = None"
    and "find_idx (\<lambda>x. x = - 1) (inooff (bfs v)) = Some i"
    and "find_idx (\<lambda>e. e_valid e = 0) (entries (bfs v) (rd1_of v) p) = Some k"
    and D': "D' = (if has flags O_DIR then insert i D else D)"
  obtains fs d where "vlookup v (blkfs v) (path_of (cs @ [c])) flags =
      Inr (Some (new_inode (env_of v) (bfs v) i), vset v fs d)"
    and "blk_ok (vset v fs d) D'"
    and "vtree (vset v fs d) D' = tree_add (vtree v D) p c (has flags O_DIR) i"
    and "fs = (bfs v)\<lparr>inooff := (inooff (bfs v))[i := 4 + int (i * sizeof_inode)]\<rparr>"
    and "has flags O_DIR \<Longrightarrow> entries fs d i = replicate 80 zero_edt"
    and "\<And>j. j \<in> D \<Longrightarrow> entries fs d j = (if j = p then (entries (bfs v) (rd1_of v) p)[k :=
       new_entry i (has flags O_DIR) c (e_name (entries (bfs v) (rd1_of v) p ! k))] else entries (bfs v) (rd1_of v) j)"
proof -
  obtain fs d where "fslookup (env_of v) (bfs v) (rd1_of v) (path_of (cs @ [c])) flags =
      Inr (Some (new_inode (env_of v) (bfs v) i), fs, d)"
    and "fs_inv (env_of v) fs d D'" and "tree_of fs d D' = tree_add (vtree v D) p c (has flags O_DIR) i"
    and "fs = (bfs v)\<lparr>inooff := (inooff (bfs v))[i := 4 + int (i * sizeof_inode)]\<rparr>"
    and "has flags O_DIR \<longrightarrow> entries fs d i = replicate 80 zero_edt"
    and "\<forall>j \<in> D. entries fs d j = (if j = p then (entries (bfs v) (rd1_of v) p)[k :=
       new_entry i (has flags O_DIR) c (e_name (entries (bfs v) (rd1_of v) p ! k))] else entries (bfs v) (rd1_of v) j)"
    using fs_create [of "env_of v" "bfs v" "rd1_of v" D cs c flags p i k] assms
    by (auto simp: blk_ok_def vtree_def)
  moreover have "blkfs v \<noteq> 0" using assms(1) by (simp add: blk_ok_def)
  ultimately show thesis
    by (intro that [of fs d]) (simp_all add: vlookup_std blk_ok_def)
qed

lemma vlookup_create:
  assumes ok: "vfs_ok v D" and "good_path cs c" and "has flags O_CREAT" and "\<not> has flags O_RM"
    and "twalk (vtree v D) 0 cs = Some p" and "vtree v D p c = None"
    and "find_idx (\<lambda>x. x = - 1) (inooff (bfs v)) = Some i"
    and "find_idx (\<lambda>e. e_valid e = 0) (entries (bfs v) (rd1_of v) p) = Some k"
    and "D' = (if has flags O_DIR then insert i D else D)"
  obtains fs d where "vlookup v (blkfs v) (path_of (cs @ [c])) flags =
      Inr (Some (new_inode (env_of v) (bfs v) i), vset v fs d)"
    and "vfs_ok (vset v fs d) D'"
    and "vtree (vset v fs d) D' = tree_add (vtree v D) p c (has flags O_DIR) i"
proof -
  have "blk_ok v D" using ok by (simp add: vfs_ok_blk)
  then show thesis
  proof (rule vlookup_create_blk [OF _ assms(2-9)])
    fix fs d
    assume "vlookup v (blkfs v) (path_of (cs @ [c])) flags = Inr (Some (new_inode (env_of v) (bfs v) i), vset v fs d)"
      and "blk_ok (vset v fs d) D'"
      and "vtree (vset v fs d) D' = tree_add (vtree v D) p c (has flags O_DIR) i"
    with ok show thesis by (intro that [of fs d]) (simp_all add: vfs_ok_blk)
  qed
qed

lemma vlookup_remove:
  assumes "vfs_ok v D" and "good_path cs c" and "has flags O_RM"
    and "twalk (vtree v D) 0 cs = Some p" and "vtree v D p c = Some (has flags O_DIR, n)"
    and "has flags O_DIR \<Longrightarrow> vtree v D n = Map.empty"
    and "\<not> has flags O_DIR \<Longrightarrow> i_refcnt (vnode v n) = 0"
  obtains fs d where "vlookup v (blkfs v) (path_of (cs @ [c])) flags = Inr (Some (vnode v n), vset v fs d)"
    and "vfs_ok (vset v fs d) (D - {n})"
    and "vtree (vset v fs d) (D - {n}) = tree_del (vtree v D) p c"
proof -
  obtain fs d where "fslookup (env_of v) (bfs v) (rd1_of v) (path_of (cs @ [c])) flags =
      Inr (Some (vnode v n), fs, d)"
    and "fs_inv (env_of v) fs d (D - {n})" and "tree_of fs d (D - {n}) = tree_del (vtree v D) p c"
    using fs_remove [of "env_of v" "bfs v" "rd1_of v" D cs c flags p n] assms
    by (auto simp: vfs_ok_def vtree_def vnode_def)
  with that [of fs d] show thesis
    by (simp add: vlookup_blkfs [OF assms(1)] vfs_ok_vset [OF assms(1)])
qed

lemma resolve_None: "t p c = None \<Longrightarrow> twalk t 0 cs = Some p \<Longrightarrow> resolve t cs c b = None"
  by (simp add: resolve_def)

lemma resolve_Some: "t p c = Some (b, n) \<Longrightarrow> twalk t 0 cs = Some p \<Longrightarrow> resolve t cs c b = Some n"
  by (simp add: resolve_def)

section \<open>\<open>mkdir\<close>, \<open>rmdir\<close>, \<open>access\<close>\<close>

lemma vfsmkdir_run:
  assumes "vfs_ok v D" and "blk_path cs c"
    and "twalk (vtree v D) 0 cs = Some p" and "vtree v D p c = None"
    and "find_idx (\<lambda>x. x = - 1) (inooff (bfs v)) = Some i"
    and "find_idx (\<lambda>e. e_valid e = 0) (entries (bfs v) (rd1_of v) p) = Some k"
  shows "\<exists>v'. vfsmkdir v (path_of (cs @ [c])) = Inr (0, v') \<and> vfs_ok v' (insert i D) \<and>
    vtree v' (insert i D) = tree_add (vtree v D) p c True i"
proof -
  note g = blk_good [OF assms(2)]
  have find: "vlookup v (blkfs v) (path_of (cs @ [c])) (O_DIR OR O_CHECK) = Inr (None, v)"
    using vlookup_find [OF assms(1) g, of "O_DIR OR O_CHECK"] resolve_None [OF assms(4,3)] by simp
  obtain fs d where c: "vlookup v (blkfs v) (path_of (cs @ [c])) (O_DIR OR O_CREAT) =
      Inr (Some (new_inode (env_of v) (bfs v) i), vset v fs d)"
    and "vfs_ok (vset v fs d) (insert i D)"
    and "vtree (vset v fs d) (insert i D) = tree_add (vtree v D) p c True i"
    by (rule vlookup_create [OF assms(1) g, of "O_DIR OR O_CREAT", OF _ _ assms(3-6) refl]) simp_all
  with find show ?thesis
    using assms(1,2) by (intro exI [of _ "vset v fs d"]) (simp add: vfsmkdir_def blk_simps mnt0)
qed

text \<open>
  \<open>vfsmkdir\<close> of a free name in an existing directory returns 0, adds exactly that directory to the
  tree and leaves a well-formed file system.
\<close>

theorem vfsmkdir_creates:
  assumes "vfs_ok v D" and "blk_path cs c"
    and "twalk (vtree v D) 0 cs = Some p" and "vtree v D p c = None"
    and "find_idx (\<lambda>x. x = - 1) (inooff (bfs v)) = Some i"
    and "find_idx (\<lambda>e. e_valid e = 0) (entries (bfs v) (rd1_of v) p) = Some k"
  shows "\<exists>v'. vfsmkdir v (path_of (cs @ [c])) = Inr (0, v') \<and> vfs_ok v' (insert i D) \<and>
    vtree v' (insert i D) = tree_add (vtree v D) p c True i"
  by (rule vfsmkdir_run [OF assms])

text \<open>\<open>vfsrmdir\<close> of an empty directory returns 0 and takes exactly that directory out of the tree.\<close>

theorem vfsrmdir_removes:
  assumes "vfs_ok v D" and "blk_path cs c"
    and "twalk (vtree v D) 0 cs = Some p" and "vtree v D p c = Some (True, n)" and "vtree v D n = Map.empty"
  shows "\<exists>v'. vfsrmdir v (path_of (cs @ [c])) = Inr (0, v') \<and> vfs_ok v' (D - {n}) \<and>
    vtree v' (D - {n}) = tree_del (vtree v D) p c"
proof -
  obtain fs d where "vlookup v (blkfs v) (path_of (cs @ [c])) (O_DIR OR O_RM) = Inr (Some (vnode v n), vset v fs d)"
    and "vfs_ok (vset v fs d) (D - {n})" and "vtree (vset v fs d) (D - {n}) = tree_del (vtree v D) p c"
    by (rule vlookup_remove [OF assms(1) blk_good [OF assms(2)], of "O_DIR OR O_RM" p n])
      (use assms in simp_all)
  then show ?thesis
    using assms(1,2) by (intro exI [of _ "vset v fs d"]) (simp add: vfsrmdir_def blk_simps mnt0)
qed

lemma vfsaccess_run:
  assumes "vfs_ok v D" and "blk_path cs c" and "mode = F_OK \<or> mode = DIR_OK"
  shows "vfsaccess v (path_of (cs @ [c])) mode =
    Inr (if resolve (vtree v D) cs c (mode = DIR_OK) = None then - 1 else 0, v)"
proof -
  have "F_OK \<noteq> DIR_OK" by (simp add: F_OK_def DIR_OK_def)
  then have fl: "\<not> has (access_flags mode) O_CREAT" "\<not> has (access_flags mode) O_RM"
    "has (access_flags mode) O_DIR \<longleftrightarrow> mode = DIR_OK"
    using assms(3) by (auto simp: access_flags_def)
  have "vlookup v (blkfs v) (path_of (cs @ [c])) (access_flags mode) =
      Inr (map_option (vnode v) (resolve (vtree v D) cs c (mode = DIR_OK)), v)"
    using vlookup_find [OF assms(1) blk_good [OF assms(2)] fl(1,2)] fl(3) by simp
  then show ?thesis
    using assms(1,2) by (simp add: vfsaccess_def blk_simps mnt0)
qed

text \<open>
  \<open>vfsaccess\<close> with \<open>F_OK\<close> or \<open>DIR_OK\<close> answers whether the path names a file or a directory, and
  changes nothing.
\<close>

theorem vfsaccess_answers:
  assumes "vfs_ok v D" and "blk_path cs c" and "mode = F_OK \<or> mode = DIR_OK"
  shows "vfsaccess v (path_of (cs @ [c])) mode =
    Inr (if resolve (vtree v D) cs c (mode = DIR_OK) = None then - 1 else 0, v)"
  by (rule vfsaccess_run [OF assms])

text \<open>A mode with neither bit looks the path up with all flags set, and so removes an empty directory.\<close>

lemma vfsaccess_mode_0_removes:
  assumes "vfs_ok v D" and "blk_path cs c"
    and "twalk (vtree v D) 0 cs = Some p" and "vtree v D p c = Some (True, n)" and "vtree v D n = Map.empty"
  shows "\<exists>v'. vfsaccess v (path_of (cs @ [c])) 0 = Inr (0, v') \<and> vtree v' (D - {n}) = tree_del (vtree v D) p c"
proof -
  obtain fs d where "vlookup v (blkfs v) (path_of (cs @ [c])) (- 1) = Inr (Some (vnode v n), vset v fs d)"
    and "vtree (vset v fs d) (D - {n}) = tree_del (vtree v D) p c"
    by (rule vlookup_remove [OF assms(1) blk_good [OF assms(2)], of "- 1" p n]) (use assms in simp_all)
  then show ?thesis
    using assms(1,2) by (intro exI [of _ "vset v fs d"]) (simp add: vfsaccess_def blk_simps mnt0 access_flags_def)
qed

text \<open>A name under \<open>/dev\<close> that no device has does not give -1: \<open>dev_lookup\<close> stops the machine.\<close>

lemma vfsaccess_unknown_dev_halts:
  assumes "vfs_ok v D" and "good_name s" and "s \<notin> set (map dev_name devices)"
  shows "vfsaccess v (''/dev/'' @ s) F_OK = Inl (Panic ''lookup device failed.'')"
proof -
  have sp: "split_path (''/dev/'' @ s) = Inr (''/dev'', CHR ''/'' # s)"
    by (simp add: split_path_def first_comp_def Let_def)
  have "mount_target v ''/dev'' (CHR ''/'' # s) = Inr (Some (1, ''/dev'', CHR ''/'' # s))"
    using assms(1,2) by (simp add: mount_target_def vfs_ok_def std_mounts_def last_idx_5 good_name_def)
  moreover have "mounted v ''/dev''" using assms(1) by (simp add: mounted_def vfs_ok_def std_mounts_def)
  ultimately show ?thesis
    using sp dev_lookup_unknown [OF assms(3)] by (simp add: vfsaccess_def access_dev_def)
qed

section \<open>\<open>link\<close>\<close>

lemma last_idx_Nil [simp]: "last_idx P [] = None"
  by (simp add: last_idx_def)

lemma last_idx_snoc: "last_idx P (xs @ [x]) = (if P x then Some (length xs) else last_idx P xs)"
proof -
  have "foldl (\<lambda>r i. if P ((xs @ [x]) ! i) then Some i else r) None [0..<length xs] =
    foldl (\<lambda>r i. if P (xs ! i) then Some i else r) None [0..<length xs]"
    by (rule foldl_cong) (auto simp: nth_append)
  then show ?thesis by (simp add: last_idx_def)
qed

lemma last_idx_append:
  "\<forall>y \<in> set ys. \<not> P y \<Longrightarrow> P x \<Longrightarrow> last_idx P (xs @ x # ys) = Some (length xs)"
proof (induction ys rule: rev_induct)
  case Nil
  then show ?case using last_idx_snoc [of P xs x] by simp
next
  case (snoc y ys)
  then show ?case using last_idx_snoc [of P "xs @ x # ys" y] by simp
qed

lemma split_last_path:
  assumes "good_name c"
  shows "split_last (path_of (cs @ [c])) = Inr (path_of cs, c)"
proof -
  have "path_of (cs @ [c]) = path_of cs @ CHR ''/'' # c"
    by (simp add: path_of_append path_of_Cons)
  moreover have "last_idx (\<lambda>x. x = CHR ''/'') (path_of cs @ CHR ''/'' # c) = Some (length (path_of cs))"
    using assms by (intro last_idx_append) (auto simp: good_name_def)
  ultimately show ?thesis
    using assms by (simp add: split_last_def good_name_def)
qed

lemma good_path_parent: "good_path (cs @ [b]) c \<Longrightarrow> good_path cs b"
  by (auto simp: good_path_def path_of_append path_of_Cons)

lemma twalk_snoc: "twalk t n (cs @ [b]) = Some p \<longleftrightarrow> (\<exists>m. twalk t n cs = Some m \<and> t m b = Some (True, p))"
proof (induction cs arbitrary: n)
  case Nil
  then show ?case by (auto split: option.splits prod.splits bool.splits)
next
  case (Cons c cs)
  then show ?case by (auto split: option.splits prod.splits bool.splits)
qed

lemma parent_resolve: "twalk t 0 (cs @ [b]) = Some p \<Longrightarrow> resolve t cs b True = Some p"
  by (auto simp: twalk_snoc resolve_def)

lemma card_refs_le:
  assumes "fs_inv E fs d D"
  shows "card (refs fs d D i) \<le> 6400"
proof -
  have D: "D \<subseteq> {..<80}" using fs_invD(4) [OF assms] used_less by blast
  have "refs fs d D i \<subseteq> {..<80} \<times> {..<80}" using D by (auto simp: refs_def)
  then have "card (refs fs d D i) \<le> card ({..<80 :: nat} \<times> {..<80 :: nat})"
    by (intro card_mono) auto
  then show ?thesis by simp
qed

lemma refcnt_bounds:
  assumes "fs_inv E fs d D" and "used fs n" and "n \<noteq> 0" and "n \<notin> D"
  shows "- 1 \<le> i_refcnt (node fs d n)" and "i_refcnt (node fs d n) < 6400"
  using fs_invD(6) [OF assms(1-3)] assms(4) card_refs_le [OF assms(1), of n] by auto

text \<open>The three writes of \<open>link_entry\<close> keep the invariant and add one name.\<close>

lemma link_entry_adds:
  assumes ok: "vfs_ok v D" and p: "p \<in> D" and n: "used (bfs v) n" "n \<noteq> 0" "n \<notin> D"
    and c: "good_name c" and new: "vtree v D p c = None"
    and k: "find_idx (\<lambda>e. e_valid e = 0) (entries (bfs v) (rd1_of v) p) = Some k"
  shows "\<exists>d. link_entry v (vnode v n) (vnode v p) c = Inr (0, set_rd1 v d) \<and> vfs_ok (set_rd1 v d) D \<and>
    vtree (set_rd1 v d) D = tree_add (vtree v D) p c False n"
proof -
  let ?fs = "bfs v" and ?d = "rd1_of v" and ?E = "env_of v"
  let ?e = "new_entry n False c (e_name (entries ?fs ?d p ! k))"
  let ?r = "get_ed ?d (blk_addr ?fs p)"
  have inv: "fs_inv ?E ?fs ?d D" using ok by (simp add: vfs_ok_def)
  note g = fs_invD(1) [OF inv]
  have up: "used ?fs p" and p80: "p < 80" and n80: "n < 80"
    using fs_invD(4) [OF inv p] n used_less by auto
  have np: "node_ok ?E ?fs ?d p" "node_ok ?E ?fs ?d n" using fs_invD(3) [OF inv] up n by auto
  have pn: "p \<noteq> n" using p n by auto
  have k80: "k < 80" "e_valid (entries ?fs ?d p ! k) = 0" using find_idx_SomeD [OF k] by auto
  have dm: "dir_map (entries ?fs ?d p) c = None" using new p by (simp add: vtree_def tree_of_def)
  define r1 where "r1 = ?r\<lparr>etrs := (entries ?fs ?d p)[k := ?e],
    maxuse := if k = maxuse ?r then maxuse ?r + 1 else maxuse ?r\<rparr>"
  define new1 where "new1 = (if k = maxuse ?r then
    (vnode v p)\<lparr>i_size := (i_size (vnode v p) + sizeof_edt) mod 2 ^ 32\<rparr> else vnode v p)"
  define old1 where "old1 = (vnode v n)\<lparr>i_refcnt := i_refcnt (vnode v n) + 1\<rparr>"
  define d3 where "d3 = put_inode (put_ed (put_inode ?d (iaddr ?fs n) old1) (blk_addr ?fs p) r1) (iaddr ?fs p) new1"
  have "wf_edt ?e" using c n80 wf_entries [OF k80(1), of ?fs ?d p] by (intro wf_new_entry) (auto simp: wf_edt_def)
  then have "wf_ed (?r\<lparr>etrs := (entries ?fs ?d p)[k := ?e]\<rparr>)"
    unfolding entries_def by (intro wf_ed_update) auto
  then have wr: "wf_ed r1" using k80 wf_get_ed [of ?d "blk_addr ?fs p"] by (auto simp: r1_def wf_ed_def)
  have wn: "wf_inode new1"
    using wf_get_inode [of ?d "iaddr ?fs p"] by (auto simp: new1_def wf_inode_def vnode_def node_def)
  have wo: "wf_inode old1"
    using wf_get_inode [of ?d "iaddr ?fs n"] refcnt_bounds [OF inv n]
    by (auto simp: old1_def wf_inode_def vnode_def node_def)
  have addrs: "fsoff ?fs + i_offset (vnode v n) = iaddr ?fs n" "fsoff ?fs + i_offset (vnode v p) = iaddr ?fs p"
    "v_fs v (i_fs (vnode v p)) = ?fs" "i_nblocks (vnode v p) = p" "i_nblocks (vnode v n) = n"
    using np by (auto simp: node_ok_def vnode_def iaddr_def env_of_def bfs_def)
  have name: "set_name (e_name (entries ?fs ?d p ! k)) c = Inr (e_name ?e)"
    using c by (auto simp: set_name_def new_entry_def stored_name_def good_name_def)
  have e: "\<lparr>e_ino = n, e_ftype = EXT2_FT_REG_FILE, e_valid = 1, e_name = e_name ?e\<rparr> = ?e"
    by (simp add: new_entry_def)
  have run: "link_entry v (vnode v n) (vnode v p) c = Inr (0, set_rd1 v d3)"
    using k name e unfolding link_entry_def addrs Let_def entries_def [symmetric]
    by (simp add: d3_def r1_def new1_def old1_def addrs)
  have ent: "entries ?fs d3 j = (if j = p then (entries ?fs ?d p)[k := ?e]
      else if j \<in> D then entries ?fs ?d j else replicate 80 zero_edt)" if "j \<in> D" for j
    using that g p80 n80 wr by (simp add: entries_def d3_def layout_simps) (simp add: r1_def entries_def)
  have nod: "node ?fs d3 j = (if j = p then new1 else if j = n then old1 else node ?fs ?d j)" if "j < 80" for j
    using that g wr wn wo by (simp add: node_def d3_def layout_simps)
  have nk: "node_ok ?E ?fs d3 j" if "used ?fs j" for j
    using nod [OF used_less [OF that]] np fs_invD(3) [OF inv that]
    by (auto simp: node_ok_def new1_def old1_def vnode_def)
  have cnt: "i_refcnt (node ?fs d3 j) = i_refcnt (node ?fs ?d j)"
    if "used ?fs j" "j \<notin> D" "j \<noteq> n" for j
    using that nod [OF used_less [OF that(1)]] p by auto
  have cnt1: "i_refcnt (node ?fs d3 n) = i_refcnt (node ?fs ?d n) + 1"
    using nod [OF n80] pn by (simp add: old1_def vnode_def)
  have us: "used ?fs j \<longleftrightarrow> used ?fs j \<or> j = e_ino ?e" for j using n by auto
  have "fs_inv ?E ?fs d3 D" "tree_of ?fs d3 D = (tree_of ?fs ?d D)(p := (tree_of ?fs ?d D p)(entry_name ?e \<mapsto>
           (e_ftype ?e = EXT2_FT_DIR, e_ino ?e)))"
    by (rule fs_inv_insert [OF inv p k80, of ?e];
        use dm c n g us ent nk cnt cnt1 in \<open>simp add: entry_name_new entry_ok_new\<close>)+
  with ok run c show ?thesis
    by (intro exI [of _ d3]) (simp add: vfs_ok_def vtree_def tree_add_def entry_name_new)
qed

text \<open>
  \<open>vfslink\<close> of an existing file to a free name in an existing directory other than the root adds
  exactly that name, for the same inode, to the tree, and leaves a well-formed file system in which
  the link count of the inode is one more.
\<close>

theorem vfslink_adds:
  assumes "vfs_ok v D" and "blk_path os oc" and "resolve (vtree v D) os oc False = Some n"
    and "blk_path cs c" and "cs \<noteq> []"
    and "twalk (vtree v D) 0 cs = Some p" and "vtree v D p c = None"
    and "find_idx (\<lambda>e. e_valid e = 0) (entries (bfs v) (rd1_of v) p) = Some k"
  shows "\<exists>v'. vfslink v (path_of (os @ [oc])) (path_of (cs @ [c])) = Inr (0, v') \<and> vfs_ok v' D \<and>
    vtree v' D = tree_add (vtree v D) p c False n"
proof -
  have inv: "fs_inv (env_of v) (bfs v) (rd1_of v) D" using assms(1) by (simp add: vfs_ok_def)
  note st = fs_inv_struct [OF inv]
  obtain m where m: "vtree v D m oc = Some (False, n)"
    using assms(3) by (auto simp: resolve_def split: option.splits prod.splits if_splits)
  have n: "used (bfs v) n" "n \<noteq> 0" "n \<notin> D"
    using tree_target [OF st] m by (auto simp: vtree_def)
  have pD: "p \<in> D" using twalk_dir [OF st fs_structD(2) [OF st]] assms(6) by (auto simp: vtree_def)
  obtain ds b where ds: "cs = ds @ [b]" using assms(5) by (cases cs rule: rev_cases) auto
  have old: "vlookup v (blkfs v) (path_of (os @ [oc])) O_CHECK = Inr (Some (vnode v n), v)"
    using vlookup_find [OF assms(1) blk_good [OF assms(2)], of O_CHECK] assms(3) by simp
  have new: "vlookup v (blkfs v) (path_of (cs @ [c])) O_CHECK = Inr (None, v)"
    using vlookup_find [OF assms(1) blk_good [OF assms(4)], of O_CHECK] resolve_None [OF assms(7,6)] by simp
  have gp: "good_path ds b" using blk_good [OF assms(4)] good_path_parent ds by blast
  have "resolve (vtree v D) ds b True = Some p" using parent_resolve assms(6) ds by blast
  then have par: "vlookup v (blkfs v) (path_of cs) (O_DIR OR O_CHECK) = Inr (Some (vnode v p), v)"
    using vlookup_find [OF assms(1) gp, of "O_DIR OR O_CHECK"] ds by simp
  have c: "good_name c" using blk_good [OF assms(4)] good_pathD(2) by blast
  obtain d where d: "link_entry v (vnode v n) (vnode v p) c = Inr (0, set_rd1 v d)" "vfs_ok (set_rd1 v d) D"
    "vtree (set_rd1 v d) D = tree_add (vtree v D) p c False n"
    using link_entry_adds [OF assms(1) pD n c assms(7,8)] by blast
  have "vfslink v (path_of (os @ [oc])) (path_of (cs @ [c])) = Inr (0, set_rd1 v d)"
    using old new par d(1) assms(1,2,4) split_last_path [OF c]
    by (simp add: vfslink_def link_old_def link_new_def blk_simps mnt0)
  with d show ?thesis by blast
qed

text \<open>
  A path of one component has the empty path as its parent, and the lookup of the empty path finds
  nothing: no file can be linked into the root directory.
\<close>

lemma find_dir_empty: "\<forall>e \<in> set es. entry_ok e \<Longrightarrow> find_dir [] es = Inr None"
proof (induction es)
  case Nil
  then show ?case by simp
next
  case (Cons e es)
  then have ok: "entry_ok e" by simp
  show ?case
  proof (cases "e_valid e = 1 \<and> e_ftype e = EXT2_FT_DIR")
    case True
    then have "cstr (e_name e) = CHR ''/'' # entry_name e" and "entry_name e \<noteq> []" and "NUL \<in> set (e_name e)"
      using ok entry_cstr_dir [OF ok] by (auto simp: entry_ok_def)
    with True Cons show ?thesis by (simp add: name_eq_def)
  next
    case False
    with Cons show ?thesis by auto
  qed
qed

lemma fslookup_empty:
  assumes st: "fs_struct E fs d D"
  shows "fslookup E fs d [] flags = Inr (None, fs, d)"
proof -
  have n0: "node_ok E fs d 0" using fs_structD(3) [OF st] used_0 fs_structD(1) [OF st] by blast
  have "find_dir [] (entries fs d 0) = Inr None"
    using dir_okD(1) [OF fs_structD(5) [OF st fs_structD(2) [OF st]]] by (rule find_dir_empty)
  then have "walk (Suc k) fs d (node fs d 0) [] = Inr Walk_none" for k
    using n0 by (simp add: first_comp_def node_ok_def entries_def)
  then have "fsgetinode E fs d (node fs d 0) [] flags = Inr (NO_INO, fs, d)"
    using n0 by (simp add: fsgetinode_def node_ok_def del: walk.simps)
  then show ?thesis using fslookup_path [OF st, of "[]" flags] by simp
qed

lemma vfslink_into_root_fails:
  assumes "vfs_ok v D" and "blk_path os oc" and "blk_path [] c" and "vtree v D 0 c = None"
  shows "vfslink v (path_of (os @ [oc])) (path_of [c]) = Inr (- 1, v)"
proof -
  have st: "fs_struct (env_of v) (bfs v) (rd1_of v) D" using assms(1) by (simp add: vfs_ok_def fs_inv_struct)
  have "vlookup v (blkfs v) (path_of []) (O_DIR OR O_CHECK) = Inr (None, v)"
    using fslookup_empty [OF st] by (simp add: vlookup_blkfs [OF assms(1)])
  moreover have "vlookup v (blkfs v) (path_of ([] @ [c])) O_CHECK = Inr (None, v)"
    using vlookup_find [OF assms(1) blk_good [OF assms(3)], of O_CHECK] assms(4) by (simp add: resolve_def)
  moreover have c: "good_name c" using blk_good [OF assms(3)] good_pathD(2) by blast
  ultimately show ?thesis
    using vlookup_find [OF assms(1) blk_good [OF assms(2)], of O_CHECK] assms(1,2)
      split_path_blk [OF assms(3)] mount_target_blk [OF assms(1,3)] not_virtual_blk [OF assms(3)]
      split_last_path [OF c, of "[]"]
    by (simp add: vfslink_def link_old_def link_new_def blk_simps mnt0 split: option.split)
qed

section \<open>\<open>unlink\<close>\<close>

definition uncount :: "vfs \<Rightarrow> nat \<Rightarrow> vfs" where
  "uncount v n = set_rd1 v (put_inode (rd1_of v) (iaddr (bfs v) n)
     ((vnode v n)\<lparr>i_refcnt := i_refcnt (vnode v n) - 1\<rparr>))"

text \<open>Writing an inode with another link count leaves the structure and the tree as they are.\<close>

lemma uncount_struct:
  assumes ok: "vfs_ok v D" and n: "used (bfs v) n" "n \<noteq> 0" "n \<notin> D"
  shows "vfs_struct (uncount v n) D" and "vtree (uncount v n) D = vtree v D"
    and "\<And>j. j < 80 \<Longrightarrow> vnode (uncount v n) j =
      (if j = n then (vnode v n)\<lparr>i_refcnt := i_refcnt (vnode v n) - 1\<rparr> else vnode v j)"
    and "entries (bfs v) (rd1_of (uncount v n)) j = entries (bfs v) (rd1_of v) j"
proof -
  let ?fs = "bfs v" and ?d = "rd1_of v"
  have inv: "fs_inv (env_of v) ?fs ?d D" using ok by (simp add: vfs_ok_def)
  note g = fs_invD(1) [OF inv] and n80 = used_less [OF n(1)]
  let ?x = "(vnode v n)\<lparr>i_refcnt := i_refcnt (vnode v n) - 1\<rparr>"
  have wf: "wf_inode ?x"
    using wf_get_inode [of ?d "iaddr ?fs n"] refcnt_bounds [OF inv n]
    by (auto simp: wf_inode_def vnode_def node_def)
  have ent: "entries ?fs (rd1_of (uncount v n)) j = entries ?fs ?d j" for j
    using g n80 by (simp add: entries_def uncount_def layout_simps)
  then show "entries ?fs (rd1_of (uncount v n)) j = entries ?fs ?d j" .
  have nod: "vnode (uncount v n) j = (if j = n then ?x else vnode v j)" if "j < 80" for j
    using wf by (simp add: vnode_def uncount_def node_def layout_simps)
  then show "vnode (uncount v n) j = (if j = n then ?x else vnode v j)" if "j < 80" for j
    using that .
  have b: "bfs (uncount v n) = ?fs" "env_of (uncount v n) = env_of v" "std_mounts (uncount v n) = std_mounts v"
    by (simp_all add: uncount_def)
  show "vtree (uncount v n) D = vtree v D" by (simp add: vtree_def tree_of_def b ent cong: if_cong)
  have "node_ok (env_of v) ?fs (rd1_of (uncount v n)) i" if "used ?fs i" for i
    using nod [OF used_less [OF that]] fs_invD(3) [OF inv that] fs_invD(3) [OF inv n(1)]
    by (auto simp: node_ok_def vnode_def b split: if_splits)
  then show "vfs_struct (uncount v n) D"
    using ok fs_inv_struct [OF inv] by (auto simp: vfs_struct_def fs_struct_def b vfs_ok_def dir_ok_def ent)
qed

lemma unlink_ref_deletes:
  assumes ok: "vfs_ok v D" and n: "used (bfs v) n" "n \<noteq> 0" "n \<notin> D" and rc: "i_refcnt (vnode v n) \<noteq> 0"
    and path: "good_path cs c" and ne: "cs \<noteq> []" and p: "twalk (vtree v D) 0 cs = Some p"
    and t: "vtree v D p c = Some (False, n)"
    and sc: "scan_name c (entries (bfs v) (rd1_of v) p) 0 = Inr (find_idx (live c) (entries (bfs v) (rd1_of v) p))"
  shows "\<exists>v'. unlink_ref v 0 (path_of (cs @ [c])) (vnode v n) = Inr (0, v') \<and> vfs_ok v' D \<and>
    vtree v' D = tree_del (vtree v D) p c"
proof -
  let ?fs = "bfs v" and ?d = "rd1_of v" and ?E = "env_of v" and ?v = "uncount v n"
  have inv: "fs_inv ?E ?fs ?d D" using ok by (simp add: vfs_ok_def)
  note g = fs_invD(1) [OF inv] and U = uncount_struct [OF ok n]
  have pD: "p \<in> D" using twalk_dir [OF fs_inv_struct [OF inv] fs_invD(2) [OF inv]] p by (auto simp: vtree_def)
  have up: "used ?fs p" and p80: "p < 80" using fs_invD(4) [OF inv pD] used_less by auto
  have np: "node_ok ?E ?fs ?d p" "node_ok ?E ?fs ?d n" using fs_invD(3) [OF inv] up n by auto
  have pn: "p \<noteq> n" using pD n by auto
  obtain k where k: "find_idx (live c) (entries ?fs ?d p) = Some k" and nk: "n = e_ino (entries ?fs ?d p ! k)"
    using t pD by (auto simp: vtree_def tree_of_def elim: dir_map_SomeD)
  have k80: "k < 80" and lk: "live c (entries ?fs ?d p ! k)" using find_idx_SomeD [OF k] by auto
  obtain ds b where ds: "cs = ds @ [b]" using ne by (cases cs rule: rev_cases) auto
  have par: "vlookup ?v (blkfs v) (path_of cs) (O_DIR OR O_CHECK) = Inr (Some (vnode v p), ?v)"
    unfolding ds using vlookup_find_struct [OF U(1) good_path_parent [OF path [unfolded ds]], of "O_DIR OR O_CHECK"]
      parent_resolve [OF p [unfolded ds]] U(3) [OF p80] pn by (simp add: U(2)) (simp add: uncount_def)
  define d2 where "d2 = put_ed (rd1_of ?v) (blk_addr ?fs p) (clear_valid (get_ed ?d (blk_addr ?fs p)) k)"
  have addrs: "fsoff ?fs + i_offset (vnode v n) = iaddr ?fs n" "v_fs v (i_fs (vnode v n)) = ?fs"
    "v_fs v (i_fs (vnode v p)) = ?fs" "i_nblocks (vnode v p) = p"
    using np by (auto simp: node_ok_def vnode_def iaddr_def env_of_def bfs_def)
  have vu: "v_fs ?v = v_fs v" "mntpoint ?v = mntpoint v"
    "set_rd1 v (put_inode ?d (iaddr ?fs n) ((vnode v n)\<lparr>i_refcnt := i_refcnt (vnode v n) - 1\<rparr>)) = ?v"
    by (simp_all add: uncount_def)
  have ged: "get_ed (rd1_of ?v) (blk_addr ?fs p) = get_ed ?d (blk_addr ?fs p)"
    using g used_less [OF n(1)] by (simp add: uncount_def layout_simps)
  have c: "good_name c" using good_pathD(2) [OF path] .
  have run: "unlink_ref v 0 (path_of (cs @ [c])) (vnode v n) = Inr (0, set_rd1 ?v d2)"
    using split_last_path [OF c, of cs] par sc k mnt0 [OF ok]
    unfolding unlink_ref_def Let_def addrs vu
    by (simp add: vu addrs ged d2_def entries_def)
  note cv = clear_valid_entries [of ?d ?fs p k]
  have ent: "entries ?fs d2 j =
      (if j = p then (entries ?fs ?d p)[k := (entries ?fs ?d p ! k)\<lparr>e_valid := 0\<rparr>] else entries ?fs ?d j)" for j
    using g cv U(4) by (simp add: d2_def entries_def layout_simps)
  have nod: "node ?fs d2 j = vnode ?v j" if "j < 80" for j
    using that g cv by (simp add: d2_def node_def vnode_def layout_simps) (simp add: uncount_def)
  have nkk: "node_ok ?E ?fs d2 j" if "used ?fs j" for j
    using nod [OF used_less [OF that]] U(3) [OF used_less [OF that]] fs_invD(3) [OF inv that] np
    by (auto simp: node_ok_def vnode_def)
  have cnt: "i_refcnt (node ?fs d2 j) = i_refcnt (node ?fs ?d j) - (if j = n then 1 else 0)"
    if "used ?fs j" "j \<notin> D" for j
    using nod [OF used_less [OF that(1)]] U(3) [OF used_less [OF that(1)]] by (simp add: vnode_def)
  have D: "D = D - {n}" using n by auto
  have us: "used ?fs j \<longleftrightarrow> used ?fs j \<and> (j \<noteq> n \<or> n \<notin> D \<and> i_refcnt (node ?fs ?d n) \<noteq> 0)" for j
    using n rc by (auto simp: vnode_def)
  have "fs_inv ?E ?fs d2 D" "tree_of ?fs d2 D = (tree_of ?fs ?d D)(p := (tree_of ?fs ?d D p)(c := None))"
    by (rule fs_inv_delete [OF inv pD k80 lk nk D _ g us ent nkk cnt]; use n in blast)+
  with run ok show ?thesis
    by (intro exI [of _ "set_rd1 ?v d2"]) (simp add: vfs_ok_def vtree_def tree_del_def uncount_def)
qed


text \<open>In the root directory a file with further links cannot be unlinked: the kernel stops.\<close>

lemma vfsunlink_root_link_halts:
  assumes "vfs_ok v D" and "blk_path [] c" and "vtree v D 0 c = Some (False, n)"
    and "i_refcnt (vnode v n) \<noteq> 0"
  shows "vfsunlink v (path_of [c]) = Inl Assert_fail"
proof -
  note gp = blk_good [OF assms(2)]
  have inv: "fs_inv (env_of v) (bfs v) (rd1_of v) D" using assms(1) by (simp add: vfs_ok_def)
  have n: "used (bfs v) n" "n \<noteq> 0" "n \<notin> D"
    using tree_target [OF fs_inv_struct [OF inv]] assms(3) by (auto simp: vtree_def)
  have f: "vlookup v (blkfs v) (path_of ([] @ [c])) O_CHECK = Inr (Some (vnode v n), v)"
    using vlookup_find [OF assms(1) gp, of O_CHECK] assms(3) by (simp add: resolve_def)
  let ?v = "uncount v n"
  have np: "node_ok (env_of v) (bfs v) (rd1_of v) n" using fs_invD(3) [OF inv n(1)] .
  then have addrs: "fsoff (bfs v) + i_offset (vnode v n) = iaddr (bfs v) n" "v_fs v (i_fs (vnode v n)) = bfs v"
    by (auto simp: node_ok_def vnode_def iaddr_def env_of_def bfs_def)
  have vu: "set_rd1 v (put_inode (rd1_of v) (iaddr (bfs v) n) ((vnode v n)\<lparr>i_refcnt := i_refcnt (vnode v n) - 1\<rparr>)) = ?v"
    by (simp add: uncount_def)
  have st: "vfs_struct ?v D" using uncount_struct(1) [OF assms(1) n] .
  then have "vlookup ?v (blkfs ?v) [] (O_DIR OR O_CHECK) = Inr (None, ?v)"
    using fslookup_empty [of "env_of ?v" "bfs ?v" "rd1_of ?v" D] by (simp add: vlookup_std vfs_struct_def std_blkfs)
  moreover have "blkfs ?v = blkfs v" "mntpoint ?v = mntpoint v" by (simp_all add: uncount_def)
  ultimately have "unlink_ref v 0 (path_of ([] @ [c])) (vnode v n) = Inl Assert_fail"
    using split_last_path [OF good_pathD(2) [OF gp], of "[]"] mnt0 [OF assms(1)]
    unfolding unlink_ref_def Let_def addrs vu by simp
  with f assms(1,2,4) show ?thesis
    using split_path_blk [OF assms(2)] mount_target_blk [OF assms(1,2)] not_virtual_blk [OF assms(2)]
    by (simp add: vfsunlink_def mnt0)
qed

section \<open>Open files\<close>

text \<open>Descriptor \<open>fd\<close> is open on the private copy \<open>n\<close> of inode \<open>i\<close> of \<open>blkfs\<close>, at offset \<open>off\<close>.\<close>

definition open_on :: "vfs \<Rightarrow> int \<Rightarrow> file_t \<Rightarrow> inode \<Rightarrow> nat \<Rightarrow> bool" where
  "open_on v fd f n i \<longleftrightarrow> 0 \<le> fd \<and> fd < int NFILE \<and> length (fildes v) = NFILE \<and>
     fildes v ! nat fd = Some f \<and> f_inode f = Ino_own n \<and> i < 80 \<and>
     i_fs n = blkfs v \<and> i_nblocks n = i \<and> i_offset n = 4 + 32 * int i"

lemma open_onD:
  assumes "open_on v fd f n i"
  shows "0 \<le> fd" and "nat fd < 16" and "length (fildes v) = 16" and "fildes v ! nat fd = Some f"
    and "f_inode f = Ino_own n" and "i < 80" and "v_fs v (i_fs n) = bfs v" and "i_nblocks n = i"
    and "fsoff (bfs v) + i_offset n = iaddr (bfs v) i"
  using assms by (auto simp: open_on_def NFILE_def bfs_def iaddr_def)

lemma vfsopen_run:
  assumes "vfs_ok v D" and "blk_path cs c" and "\<not> has flags O_CREAT" and "\<not> has flags O_RM"
    and "resolve (vtree v D) cs c (has flags O_DIR) = Some n"
    and "fd < length (fildes v)" and "fildes v ! fd = None" and "\<forall>j < fd. fildes v ! j \<noteq> None"
    and "length (path_of (cs @ [c])) \<le> 127"
  shows "vfsopen v (path_of (cs @ [c])) flags = Inr (int fd, v\<lparr>fildes := (fildes v)[fd :=
    Some \<lparr>f_inode = Ino_own (vnode v n), f_offset = 0, f_name = path_of (cs @ [c])\<rparr>]\<rparr>)"
proof -
  have "find_idx (\<lambda>f. f = None) (fildes v) = Some fd" using assms(6-8) by (simp add: find_idx_Some)
  moreover have "vlookup v (blkfs v) (path_of (cs @ [c])) flags = Inr (Some (vnode v n), v)"
    using vlookup_find [OF assms(1) blk_good [OF assms(2)] assms(3,4)] assms(5) by simp
  ultimately show ?thesis
    using assms(1,2,9) by (simp add: vfsopen_def blk_simps mnt0 alloc_fd_def)
qed

text \<open>
  Opening an existing file of \<open>blkfs\<close> takes the smallest free descriptor, which starts at offset 0
  on a copy of the inode, and changes nothing else.
\<close>

theorem vfsopen_smallest_fd:
  assumes "vfs_ok v D" and "blk_path cs c" and "\<not> has flags O_CREAT" and "\<not> has flags O_RM"
    and "resolve (vtree v D) cs c (has flags O_DIR) = Some n"
    and "fd < length (fildes v)" and "fildes v ! fd = None" and "\<forall>j < fd. fildes v ! j \<noteq> None"
    and "length (path_of (cs @ [c])) \<le> 127"
  shows "vfsopen v (path_of (cs @ [c])) flags = Inr (int fd, v\<lparr>fildes := (fildes v)[fd :=
    Some \<lparr>f_inode = Ino_own (vnode v n), f_offset = 0, f_name = path_of (cs @ [c])\<rparr>]\<rparr>)"
  by (rule vfsopen_run [OF assms])

lemma vfs_dev: "vfs_ok v D \<Longrightarrow> fs_dev (bfs v) \<noteq> 0"
  using fs_invD(1) by (auto simp: vfs_ok_def fs_geom_def)

lemma write_runs:
  assumes ok: "vfs_ok v D" and o: "open_on v fd f n i" and l: "f_offset f + length bs \<le> 4096"
  defines "n1 \<equiv> n\<lparr>i_size := max (i_size n) (f_offset f + length bs)\<rparr>"
  defines "d1 \<equiv> rd_write (rd1_of v) (blk_addr (bfs v) i + int (f_offset f)) bs"
  defines "d2 \<equiv> if i_size n < f_offset f + length bs then put_inode d1 (iaddr (bfs v) i) n1 else d1"
  defines "f1 \<equiv> f\<lparr>f_offset := f_offset f + length bs, f_inode := Ino_own n1\<rparr>"
  shows "vfswrite v fd bs = Inr (int (length bs), (set_rd1 v d2)\<lparr>fildes := (fildes v)[nat fd := Some f1]\<rparr>)"
proof -
  note O = open_onD [OF o]
  have r: "write_len (f_offset f) (length bs) = int (length bs)"
    using l by (simp add: write_len_def FILEBLOCK_def)
  have "n1 = (if i_size n < f_offset f + length bs then n\<lparr>i_size := f_offset f + length bs\<rparr> else n)"
    by (cases n) (simp add: n1_def max_def)
  then have w: "write_blk v n (f_offset f) bs = (n1, set_rd1 v d2)"
    using O by (simp add: write_blk_def d2_def d1_def Let_def)
  have "vfswrite v fd bs = (let (n1, v1) = write_blk v n (f_offset f) bs;
      f1 = f\<lparr>f_offset := f_offset f + length bs, f_inode := Ino_own n1\<rparr>
    in Inr (int (length bs), set_file v1 fd f1))"
    using O vfs_dev [OF ok] r
    by (simp add: vfswrite_def get_file_def node_of_def NFILE_def Let_def)
  then show ?thesis unfolding w by (simp add: set_file_def f1_def)
qed

lemma rd_read_write_at:
  "rd_read (rd_write d off bs) off (length bs) = bs"
  by simp

text \<open>
  C11. Bytes written to an open file inside its block are read back: after seeking to where they were
  written, a read of that length returns exactly those bytes.
\<close>

theorem vfs_write_then_read:
  assumes "vfs_ok v D" and "open_on v fd f n i" and "f_offset f + length bs \<le> 4096" and "f_offset f < 4096"
  shows "\<exists>v1 v2 v3. vfswrite v fd bs = Inr (int (length bs), v1) \<and>
    vfslseek v1 fd (int (f_offset f)) LSEEK_SET = Inr (int (f_offset f), v2) \<and>
    vfsread v2 fd (length bs) = Inr (int (length bs), bs, v3)"
proof -
  note O = open_onD [OF assms(2)]
  let ?off = "f_offset f" and ?l = "length bs"
  define n1 where "n1 = n\<lparr>i_size := max (i_size n) (?off + ?l)\<rparr>"
  define d1 where "d1 = rd_write (rd1_of v) (blk_addr (bfs v) i + int ?off) bs"
  define d2 where "d2 = (if i_size n < ?off + ?l then put_inode d1 (iaddr (bfs v) i) n1 else d1)"
  define f1 where "f1 = f\<lparr>f_offset := ?off + ?l, f_inode := Ino_own n1\<rparr>"
  define v1 where "v1 = (set_rd1 v d2)\<lparr>fildes := (fildes v)[nat fd := Some f1]\<rparr>"
  define v2 where "v2 = v1\<lparr>fildes := (fildes v)[nat fd := Some (f1\<lparr>f_offset := ?off\<rparr>)]\<rparr>"
  have w: "vfswrite v fd bs = Inr (int ?l, v1)"
    using write_runs [OF assms(1,2,3)] by (simp add: v1_def f1_def d2_def d1_def n1_def)
  have sk: "seek_off (f_offset f1) (i_size n1) (int ?off) LSEEK_SET = ?off"
    using assms(4) by (simp add: seek_off_def LSEEK_SET_def LSEEK_CUR_def)
  have s: "vfslseek v1 fd (int ?off) LSEEK_SET = Inr (int ?off, v2)"
    using O assms(4) sk
    by (simp add: vfslseek_def NFILE_def v1_def v2_def node_of_def FILEBLOCK_def f1_def set_file_def Let_def)
  have g: "fs_geom (env_of v) (bfs v)" using assms(1) fs_invD(1) by (auto simp: vfs_ok_def)
  have bytes: "rd_read d2 (blk_addr (bfs v) i + int ?off) ?l = bs"
    using O(6) by (simp add: d2_def read_put_inode_other blk_addr_geom [OF g] iaddr_def d1_def)
  have fs2: "v_fs v2 (i_fs n1) = bfs v" "rd1_of v2 = d2" "i_nblocks n1 = i"
    using O by (simp_all add: v2_def v1_def n1_def set_rd1_def rd1_of_def)
  have len: "read_len n1 ?off ?l = ?l" by (simp add: read_len_def n1_def)
  have gf: "get_file v2 fd = Inr (f1\<lparr>f_offset := ?off\<rparr>)"
    using O by (simp add: get_file_def NFILE_def v2_def)
  have "vfsread v2 fd ?l = Inr (int ?l, bs, set_file v2 fd (f1\<lparr>f_offset := ?off + ?l\<rparr>))"
    using O(1) gf fs2 len bytes vfs_dev [OF assms(1)]
    by (simp add: vfsread_def node_of_def f1_def Let_def) (simp add: n1_def)
  with w s show ?thesis by blast
qed


text \<open>
  The copy can be stale: a write that extends the file stores the link count the inode had when the
  file was opened, whatever \<open>link\<close> and \<open>unlink\<close> have done since.
\<close>

lemma vfswrite_restores_old_refcnt:
  assumes "vfs_ok v D" and "open_on v fd f n i" and "f_offset f + length bs \<le> 4096"
    and "i_size n < f_offset f + length bs" and "wf_inode n"
  shows "\<exists>v1. vfswrite v fd bs = Inr (int (length bs), v1) \<and> i_refcnt (vnode v1 i) = i_refcnt n"
proof -
  note O = open_onD [OF assms(2)]
  let ?n1 = "n\<lparr>i_size := max (i_size n) (f_offset f + length bs)\<rparr>"
  have "wf_inode ?n1" using assms(3,5) by (auto simp: wf_inode_def max_def)
  then show ?thesis
    using write_runs [OF assms(1,2,3)] assms(4)
    by (simp add: vnode_def node_def bfs_def rd1_of_def set_rd1_def ino_put_ino)
qed

text \<open>
  \<open>vfslseek\<close> on a file moves to the position that \<open>whence\<close> and \<open>offset\<close> describe when it lies in the
  4 KB block, and otherwise returns -1 and leaves the offset alone.  On success it returns the
  argument \<open>offset\<close>, not the resulting position.
\<close>

theorem vfslseek_moves:
  assumes "open_on v fd f n i" and "- (2 ^ 31) \<le> offset" and "offset < 2 ^ 31"
    and "f_offset f \<le> 4096" and "i_size n \<le> 4096"
    and "pos = (if whenc = LSEEK_CUR then int (f_offset f) + offset else if whenc = LSEEK_SET then offset
      else int (i_size n) + offset)"
    and "whenc = LSEEK_CUR \<or> whenc = LSEEK_SET \<or> whenc = LSEEK_END"
  shows "vfslseek v fd offset whenc =
    (if 0 \<le> pos \<and> pos < 4096 then Inr (offset, set_file v fd (f\<lparr>f_offset := nat pos\<rparr>)) else Inr (- 1, v))"
proof -
  note O = open_onD [OF assms(1)]
  have ne: "LSEEK_END \<noteq> LSEEK_CUR" "LSEEK_END \<noteq> LSEEK_SET"
    by (simp_all add: LSEEK_END_def LSEEK_CUR_def LSEEK_SET_def)
  have so: "seek_off (f_offset f) (i_size n) offset whenc = nat (pos mod 2 ^ 32)"
    using assms(6,7) ne by (auto simp: seek_off_def)
  have b: "- (2 ^ 31) \<le> pos" "pos < 2 ^ 32" using assms(2-6) by (auto split: if_splits)
  have m: "pos mod 2 ^ 32 = (if 0 \<le> pos then pos else pos + 2 ^ 32)"
  proof (cases "0 \<le> pos")
    case True
    with b(2) show ?thesis by (simp only: mod_pos_pos_trivial if_True)
  next
    case False
    have "pos mod 2 ^ 32 = (pos + 2 ^ 32) mod 2 ^ 32" by (simp only: mod_add_self2)
    also have "\<dots> = pos + 2 ^ 32" using False b(1) by (intro mod_pos_pos_trivial) auto
    finally show ?thesis using False by simp
  qed
  then have "nat (pos mod 2 ^ 32) \<ge> FILEBLOCK \<longleftrightarrow> \<not> (0 \<le> pos \<and> pos < 4096)"
    using b by (auto simp: FILEBLOCK_def)
  moreover have "0 \<le> pos \<Longrightarrow> nat (pos mod 2 ^ 32) = nat pos" using m by simp
  ultimately show ?thesis
    using O so by (simp add: vfslseek_def NFILE_def node_of_def Let_def)
qed

end
