(* ===== verification/Vfs_Boot.thy ===== *)
theory Vfs_Boot
  imports Vfs_Props
begin

text \<open>
  \<open>vfsinit\<close> on an empty RAM disk establishes the invariant of the virtual file system and the
  directory tree that every boot starts from; the booted system is then the concrete instance for
  the theorems on the operations.
\<close>

section \<open>One step of the set-up\<close>

text \<open>
  While only files are added, inodes are used in order and the entries of every directory are packed
  at its start: \<open>m j\<close> is the number of entries of directory \<open>j\<close>.
\<close>

definition packed :: "vfs \<Rightarrow> nat set \<Rightarrow> nat \<Rightarrow> (nat \<Rightarrow> nat) \<Rightarrow> bool" where
  "packed v D n m \<longleftrightarrow> blk_ok v D \<and>
     inooff (bfs v) = map (\<lambda>i. if i < n then 4 + int (i * sizeof_inode) else - 1) [0..<80] \<and>
     (\<forall>j \<in> D. m j \<le> 80 \<and> map e_valid (entries (bfs v) (rd1_of v) j) = replicate (m j) 1 @ replicate (80 - m j) 0)"

lemma find_idx_map: "find_idx (\<lambda>x. P (f x)) xs = find_idx P (map f xs)"
  by (induction xs) auto

lemma find_idx_replicate:
  "\<not> P x \<Longrightarrow> P y \<Longrightarrow> find_idx P (replicate k x @ replicate (Suc n) y) = Some k"
  by (induction k) auto

lemma packed_slot:
  assumes "packed v D n m" and "p \<in> D" and "m p < 80"
  shows "find_idx (\<lambda>e. e_valid e = 0) (entries (bfs v) (rd1_of v) p) = Some (m p)"
proof -
  obtain r where r: "80 - m p = Suc r" using assms(3) by (metis Suc_diff_Suc)
  have "map e_valid (entries (bfs v) (rd1_of v) p) = replicate (m p) 1 @ replicate (Suc r) 0"
    using assms(1,2) r by (auto simp: packed_def)
  then show ?thesis
    unfolding find_idx_map [of "\<lambda>x. x = 0" e_valid] using find_idx_replicate [of "\<lambda>x :: nat. x = 0" 1 0 "m p" r] by simp
qed

lemma packed_ino:
  assumes "packed v D n m" and "n < 80"
  shows "find_idx (\<lambda>x. x = - 1) (inooff (bfs v)) = Some n"
  using assms by (auto simp: packed_def find_idx_Some sizeof_inode_def)

lemma update_packed:
  assumes "k < 80" and "map f es = replicate k 1 @ replicate (80 - k) (0 :: nat)" and "f e = 1"
  shows "map f (es[k := e]) = replicate (Suc k) 1 @ replicate (80 - Suc k) 0"
proof -
  obtain r where r: "80 - k = Suc r" "80 - Suc k = r" using assms(1) by (metis Suc_diff_Suc diff_Suc_Suc Suc_diff_diff diff_Suc_1)
  have "map f (es[k := e]) = (map f es)[k := 1]" using assms(3) by (simp add: map_update)
  also have "\<dots> = (replicate k 1 @ 0 # replicate r 0)[k := 1]" using assms(2) r by simp
  also have "\<dots> = replicate k 1 @ 1 # replicate r 0" by (simp add: list_update_append)
  finally show ?thesis unfolding r by (simp add: replicate_app_Cons_same)
qed

lemma packed_create:
  assumes pk: "packed v D n m" and path: "good_path cs c" and fl: "has flags O_CREAT" "\<not> has flags O_RM"
    and p: "twalk (vtree v D) 0 cs = Some p" and new: "vtree v D p c = None"
    and bounds: "n < 80" "p \<in> D" "m p < 80" and nD: "n \<notin> D"
  defines "isdir \<equiv> has flags O_DIR"
  defines "D' \<equiv> if isdir then insert n D else D"
  defines "m' \<equiv> if isdir then m(p := Suc (m p), n := 0) else m(p := Suc (m p))"
  shows "\<exists>fs d. vlookup v (blkfs v) (path_of (cs @ [c])) flags =
      Inr (Some (new_inode (env_of v) (bfs v) n), vset v fs d) \<and>
    packed (vset v fs d) D' (Suc n) m' \<and> vtree (vset v fs d) D' = tree_add (vtree v D) p c isdir n"
proof -
  have ok: "blk_ok v D" using pk by (simp add: packed_def)
  obtain fs d where run: "vlookup v (blkfs v) (path_of (cs @ [c])) flags =
      Inr (Some (new_inode (env_of v) (bfs v) n), vset v fs d)"
    and ok': "blk_ok (vset v fs d) D'"
    and t: "vtree (vset v fs d) D' = tree_add (vtree v D) p c isdir n"
    and fs: "fs = (bfs v)\<lparr>inooff := (inooff (bfs v))[n := 4 + int (n * sizeof_inode)]\<rparr>"
    and z: "isdir \<Longrightarrow> entries fs d n = replicate 80 zero_edt"
    and e: "\<And>j. j \<in> D \<Longrightarrow> entries fs d j = (if j = p then (entries (bfs v) (rd1_of v) p)[m p :=
       new_entry n isdir c (e_name (entries (bfs v) (rd1_of v) p ! m p))] else entries (bfs v) (rd1_of v) j)"
    unfolding D'_def isdir_def
    using vlookup_create_blk [OF ok path fl p new packed_ino [OF pk bounds(1)] packed_slot [OF pk bounds(2,3)] refl]
    by metis
  have "inooff fs = map (\<lambda>i. if i < Suc n then 4 + int (i * sizeof_inode) else - 1) [0..<80]"
    using pk bounds(1) by (auto simp: fs packed_def list_eq_iff_nth_eq nth_list_update)
  moreover have "m' j \<le> 80 \<and> map e_valid (entries fs d j) = replicate (m' j) 1 @ replicate (80 - m' j) 0"
    if j: "j \<in> D'" for j
  proof -
    consider "isdir" "j = n" | "j \<in> D" "j = p" | "j \<in> D" "j \<noteq> p"
      using j by (auto simp: D'_def split: if_splits)
    then show ?thesis
    proof cases
      case 1
      with z show ?thesis by (simp add: m'_def zero_edt_def)
    next
      case 2
      then have "map e_valid (entries (bfs v) (rd1_of v) p) = replicate (m p) 1 @ replicate (80 - m p) 0"
        using pk by (auto simp: packed_def)
      from update_packed [OF bounds(3) this, of "new_entry n isdir c (e_name (entries (bfs v) (rd1_of v) p ! m p))"]
      show ?thesis using 2 e [of p] bounds nD by (auto simp: m'_def)
    next
      case 3
      with e [of j] pk nD show ?thesis by (auto simp: m'_def packed_def)
    qed
  qed
  ultimately have "packed (vset v fs d) D' (Suc n) m'"
    using ok' by (simp add: packed_def)
  with run t show ?thesis by blast
qed

text \<open>Writing the contents of a file changes no directory and no inode.\<close>

lemma file_bytes:
  assumes inv: "fs_inv E fs d D" and i: "i < 80" "i \<notin> D" and l: "off + length bs \<le> 4096"
  defines "d1 \<equiv> rd_write d (blk_addr fs i + int off) bs"
  shows "fs_inv E fs d1 D" and "j \<in> D \<Longrightarrow> entries fs d1 j = entries fs d j"
    and "tree_of fs d1 D = tree_of fs d D"
proof -
  note g = fs_invD(1) [OF inv]
  have ent: "entries fs d1 j = entries fs d j" if "j \<in> D" for j
  proof -
    have "j \<noteq> i" using that i by auto
    then have "j + 1 \<le> i \<or> i + 1 \<le> j" by linarith
    then show ?thesis
      unfolding d1_def entries_def using l by (subst get_ed_write_other) (auto simp: blk_addr_geom [OF g])
  qed
  then show "j \<in> D \<Longrightarrow> entries fs d1 j = entries fs d j" .
  have nod: "node fs d1 j = node fs d j" if "used fs j" for j
    unfolding d1_def node_def using used_less [OF that]
    by (subst get_inode_write_other) (auto simp: blk_addr_geom [OF g] iaddr_def)
  have refs: "refs fs d1 D = refs fs d D" using ent by (auto simp: refs_def fun_eq_iff)
  show "fs_inv E fs d1 D"
    using inv nod refs ent by (auto simp: fs_inv_def fs_struct_def dir_ok_def node_ok_def)
  show "tree_of fs d1 D = tree_of fs d D" using ent by (auto simp: tree_of_def fun_eq_iff)
qed

lemma packed_put_text:
  assumes "packed v D n m" and "i < 80" and "i \<notin> D" and "length s < 4096"
  shows "packed (put_text v i s) D n m" and "vtree (put_text v i s) D = vtree v D"
    and "blkfs (put_text v i s) = blkfs v" and "env_of (put_text v i s) = env_of v"
    and "mntpoint (put_text v i s) = mntpoint v" and "v_fs (put_text v i s) = v_fs v"
proof -
  have inv: "fs_inv (env_of v) (bfs v) (rd1_of v) D" using assms(1) by (simp add: packed_def blk_ok_def)
  have l: "0 + length (s @ [NUL]) \<le> 4096" using assms(4) by simp
  note F = file_bytes [OF inv assms(2,3) l]
  have eq: "rd1_of (put_text v i s) = rd_write (rd1_of v) (blk_addr (bfs v) i + int 0) (s @ [NUL])"
    by (simp add: put_text_def bfs_def)
  have b: "bfs (put_text v i s) = bfs v" by (simp add: put_text_def)
  show "env_of (put_text v i s) = env_of v" "blkfs (put_text v i s) = blkfs v"
    "mntpoint (put_text v i s) = mntpoint v" "v_fs (put_text v i s) = v_fs v"
    by (simp_all add: put_text_def)
  then show "packed (put_text v i s) D n m" "vtree (put_text v i s) D = vtree v D"
    using assms(1) F by (simp_all add: packed_def blk_ok_def vtree_def b eq)
qed


section \<open>The boot\<close>

text \<open>Before \<open>vfsinit\<close>: no file system pointers and a RAM disk of zeros.\<close>

definition pre_boot :: "vfs \<Rightarrow> bool" where
  "pre_boot v \<longleftrightarrow> devfs v = 0 \<and> procfs v = 0 \<and> rd1_of v = (\<lambda>_. NUL) \<and> iops_at v < 2 ^ 32"

definition boot_m :: "nat \<Rightarrow> nat \<Rightarrow> nat \<Rightarrow> nat \<Rightarrow> nat" where
  "boot_m a b c = (\<lambda>j. if j = 0 then a else if j = 1 then b else if j = 3 then c else 0)"

definition root_mount :: "vfs \<Rightarrow> bool" where
  "root_mount v \<longleftrightarrow> mntpoint v = \<lparr>mp_name = ''/'', mp_fs = blkfs v\<rparr> # replicate 4 \<lparr>mp_name = [], mp_fs = 0\<rparr>"

lemma init_blkfs_ok:
  assumes pre: "pre_boot v" and p: "p \<noteq> 0" "p < 2 ^ 32"
  shows "\<exists>v1. init_blkfs v p = Inr v1 \<and> packed v1 {0} 1 (boot_m 0 0 0) \<and> vtree v1 {0} = (\<lambda>_. Map.empty) \<and>
    root_mount v1 \<and> blkfs v1 = p \<and> devfs v1 = 0 \<and> procfs v1 = 0"
proof -
  define fs where "fs = \<lparr>fs_name = ''blkfs'', fsoff = 0, inooff = 4 # replicate 79 (- 1), blooff = 2564, fs_dev = 2\<rparr>"
  define E where "E = \<lparr>fs_at = p, inode_ops_at = iops_at v\<rparr>"
  define d where "d = put_ed (put_inode (rd_write (\<lambda>_. NUL) 0 (enc_u32 1)) (iaddr fs 0) (new_inode E fs 0)) (blk_addr fs 0) zero_ed"
  define v0 where "v0 = v\<lparr>mntpoint := replicate MNTNUM \<lparr>mp_name = [], mp_fs = 0\<rparr>, blkfs := p\<rparr>"
  define v1 where "v1 = (vset v0 fs d)\<lparr>mntpoint := \<lparr>mp_name = ''/'', mp_fs = p\<rparr> # replicate 4 \<lparr>mp_name = [], mp_fs = 0\<rparr>\<rparr>"
  have io: "inooff fs = map (\<lambda>i. if i < 1 then 4 + int (i * sizeof_inode) else - 1) [0..<80]"
    by (auto simp: fs_def list_eq_iff_nth_eq nth_Cons split: nat.splits)
  have g: "fs_geom E fs"
    using p pre by (simp add: fs_def E_def fs_geom_def pre_boot_def size_defs RAMBLOCK_def RD_SIZE_def)
      (auto simp: less_Suc_eq_0_disj nth_Cons split: nat.split)
  have us: "used fs i \<longleftrightarrow> i = 0" for i
    by (auto simp: fs_def used_def NFILEINFS_def nth_Cons split: nat.splits)
  have ent: "entries fs d 0 = replicate 80 zero_edt"
    using g by (simp add: d_def entries_def layout_simps) (simp add: zero_ed_def)
  have nod: "node fs d 0 = new_inode E fs 0"
    using g wf_new_inode [OF g, of 0] by (simp add: d_def node_def layout_simps)
  have inv: "fs_inv E fs d {0}"
    by (auto simp: fs_inv_def fs_struct_def g us node_ok_def dir_ok_def ent)
      (simp_all add: nod new_inode_def)
  have v1: "bfs v1 = fs" "rd1_of v1 = d" "env_of v1 = E" "blkfs v1 = p"
    by (simp_all add: v1_def v0_def E_def bfs_def rd1_of_def env_of_def vset_def set_rd1_def)
  have "packed v1 {0} 1 (boot_m 0 0 0)"
    using inv p(1) io by (simp add: packed_def blk_ok_def v1 ent boot_m_def) (simp add: zero_edt_def)
  moreover have "vtree v1 {0} = (\<lambda>_. Map.empty)"
    by (auto simp: vtree_def v1 tree_of_def ent)
  moreover have "init_blkfs v p = Inr v1"
  proof -
    define w where "w = v0\<lparr>v_fs := (v_fs v0)(p := fsinit zero_fs ''blkfs'' 2)\<rparr>"
    have z: "rd1_of w = (\<lambda>_. NUL)" using pre by (simp add: w_def v0_def pre_boot_def rd1_of_def)
    have "find_slot (Suc 6) (\<lambda>_. NUL) 0 = Inr 0"
      by (simp only: find_slot.simps) (simp add: rd_read_def)
    then have slot: "find_slot MAXFS (\<lambda>_. NUL) 0 = Inr 0" by (simp add: MAXFS_def)
    have w: "v_fs w p = fsinit zero_fs ''blkfs'' 2" "iops_at w = iops_at v" by (simp_all add: w_def v0_def)
    have fsw: "(v_fs w p)\<lparr>fsoff := int 0 * RAMBLOCK, inooff := (inooff (v_fs w p))[0 := 4], blooff := 4 + INOSIZE\<rparr> = fs"
      unfolding w fsinit_def zero_fs_def fs_def by (simp add: size_defs replicate_numeral_Suc)
    have rt: "\<lparr>i_mod = nat O_RDWR, i_size = 0, i_nblocks = 0, i_offset = 4, i_refcnt = 0, i_ptr = 2,
        i_fs = p, i_ops = iops_at w\<rparr> = new_inode E fs 0"
      unfolding w by (simp add: new_inode_def E_def fs_def)
    have ad: "fsoff fs = 0" "fsoff fs + 4 = iaddr fs 0" "fsoff fs + blooff fs = blk_addr fs 0"
      by (simp_all add: iaddr_def blk_addr_def fs_def)
    have "init_root w p 2 0 = (set_rd1 w d)\<lparr>v_fs := (v_fs w)(p := fs)\<rparr>"
      unfolding init_root_def Let_def fsw rt ad(2,3) z d_def unfolding ad(1) ..
    also have "\<dots> = vset v0 fs d" by (simp add: w_def v0_def vset_def set_rd1_def)
    finally have root: "init_root w p 2 0 = vset v0 fs d" .
    have "mntpoint v0 = replicate 5 \<lparr>mp_name = [], mp_fs = 0\<rparr>" "devfs v0 = 0" "procfs v0 = 0"
      using pre by (simp_all add: v0_def MNTNUM_def pre_boot_def)
    then have m: "vfsmount (vset v0 fs d) ''/'' p = Inr (0, v1)"
      using p(1) by (simp add: vfsmount_def numeral_eq_Suc v1_def)
    show ?thesis
      unfolding init_blkfs_def Let_def dev_lookup_ramdisk1 rbind_Inr v0_def [symmetric] w_def [symmetric] z slot root m
      by simp
  qed
  moreover have "root_mount v1" by (simp add: root_mount_def v1) (simp add: v1_def)
  moreover have "devfs v1 = 0" "procfs v1 = 0" using pre by (simp_all add: v1_def v0_def pre_boot_def)
  ultimately show ?thesis using v1(4) by blast
qed

text \<open>One creation of the boot sequence: the inode number and the tree come out explicitly.\<close>

definition keeps :: "vfs \<Rightarrow> vfs \<Rightarrow> bool" where
  "keeps v v' \<longleftrightarrow> mntpoint v' = mntpoint v \<and> blkfs v' = blkfs v \<and> devfs v' = devfs v \<and> procfs v' = procfs v"

definition boot_has :: "vfs \<Rightarrow> nat set \<Rightarrow> nat \<Rightarrow> (nat \<Rightarrow> nat) \<Rightarrow> tree \<Rightarrow> bool" where
  "boot_has v D n m t \<longleftrightarrow> packed v D n m \<and> vtree v D = t"

lemma boot_create:
  assumes "boot_has v D n m t" and "good_path cs c" and "has flags O_CREAT" "\<not> has flags O_RM"
    and "twalk t 0 cs = Some p" and "t p c = None" and "n < 80" "p \<in> D" "m p < 80" "n \<notin> D"
    and "path = path_of (cs @ [c])" and "b = has flags O_DIR"
  shows "\<exists>x v'. vlookup v (blkfs v) path flags = Inr (Some x, v') \<and> i_nblocks x = n \<and> keeps v v' \<and>
    boot_has v' (if b then insert n D else D) (Suc n) (if b then m(p := Suc (m p), n := 0) else m(p := Suc (m p)))
      (tree_add t p c b n)"
  using packed_create [of v D n m cs c flags p] assms
  by (fastforce simp: boot_has_def keeps_def new_inode_def)

lemma boot_text:
  assumes "boot_has v D n m t" and "i < 80" and "i \<notin> D" and "length s < 4096"
  shows "boot_has (put_text v i s) D n m t" and "keeps v (put_text v i s)"
  using packed_put_text [of v D n m i s] assms
  by (simp_all add: boot_has_def keeps_def) (simp_all add: put_text_def set_rd1_def)

lemma keeps_trans: "keeps u v \<Longrightarrow> keeps v w \<Longrightarrow> keeps u w"
  by (simp add: keeps_def)

lemma good_boot_paths:
  "good_path [] ''jarvis''" "good_path [''jarvis''] ''test.c''" "good_path [''jarvis''] ''lyrics''"
  "good_path [''jarvis'', ''lyrics''] ''Try''" "good_path [''jarvis'', ''lyrics''] ''Lucky''"
  "good_path [] ''dev''" "good_path [] ''proc''"
  by (simp_all add: good_path_def good_name_def path_of_Cons)

definition tree_files :: tree where
  "tree_files = (\<lambda>_. Map.empty)
     (0 := [''jarvis'' \<mapsto> (True, 1)],
      1 := [''test.c'' \<mapsto> (False, 2), ''lyrics'' \<mapsto> (True, 3)],
      3 := [''Try'' \<mapsto> (False, 4), ''Lucky'' \<mapsto> (False, 5)])"

lemma init_files_ok:
  assumes "boot_has v {0} 1 (boot_m 0 0 0) (\<lambda>_. Map.empty)"
  shows "\<exists>v'. init_files v = Inr v' \<and> keeps v v' \<and> boot_has v' {3, 1, 0} 6 (boot_m 1 2 2) tree_files"
proof -
  define t1 where "t1 = tree_add (\<lambda>_. Map.empty) 0 ''jarvis'' True 1"
  define t2 where "t2 = tree_add t1 1 ''test.c'' False 2"
  define t3 where "t3 = tree_add t2 1 ''lyrics'' True 3"
  define t4 where "t4 = tree_add t3 3 ''Try'' False 4"
  define t5 where "t5 = tree_add t4 3 ''Lucky'' False 5"
  note t = t1_def t2_def t3_def t4_def t5_def tree_add_def
  have m1: "(boot_m 0 0 0)(0 := Suc (boot_m 0 0 0 0), 1 := 0) = boot_m 1 0 0"
    and m2: "(boot_m 1 0 0)(1 := Suc (boot_m 1 0 0 1)) = boot_m 1 1 0"
    and m3: "(boot_m 1 1 0)(1 := Suc (boot_m 1 1 0 1), 3 := 0) = boot_m 1 2 0"
    and m4: "(boot_m 1 2 0)(3 := Suc (boot_m 1 2 0 3)) = boot_m 1 2 1"
    and m5: "(boot_m 1 2 1)(3 := Suc (boot_m 1 2 1 3)) = boot_m 1 2 2"
    by (auto simp: boot_m_def)
  obtain x1 v1 where s1: "vlookup v (blkfs v) ''/jarvis'' (O_DIR OR O_CREAT OR O_RDWR) = Inr (Some x1, v1)"
    "keeps v v1" "boot_has v1 {1, 0} 2 (boot_m 1 0 0) t1"
    using boot_create [OF assms good_boot_paths(1), of "O_DIR OR O_CREAT OR O_RDWR" 0 "''/jarvis''" True] m1
    by (auto simp: boot_m_def path_of_Cons t1_def numeral_2_eq_2)
  obtain x2 v2 where s2: "vlookup v1 (blkfs v1) ''/jarvis/test.c'' (O_CREAT OR O_RDWR) = Inr (Some x2, v2)"
    "i_nblocks x2 = 2" "keeps v1 v2" "boot_has v2 {1, 0} 3 (boot_m 1 1 0) t2"
    using boot_create [OF s1(3) good_boot_paths(2), of "O_CREAT OR O_RDWR" 1 "''/jarvis/test.c''" False] m2
    by (auto simp: boot_m_def path_of_Cons t)
  obtain x3 v3 where s3: "vlookup v2 (blkfs v2) ''/jarvis/lyrics'' (O_DIR OR O_CREAT OR O_RDWR) = Inr (Some x3, v3)"
    "keeps v2 v3" "boot_has v3 {3, 1, 0} 4 (boot_m 1 2 0) t3"
    using boot_create [OF s2(4) good_boot_paths(3), of "O_DIR OR O_CREAT OR O_RDWR" 1 "''/jarvis/lyrics''" True] m3
    by (auto simp: boot_m_def path_of_Cons t)
  obtain x4 v4 where s4: "vlookup v3 (blkfs v3) ''/jarvis/lyrics/Try'' (O_CREAT OR O_RDWR) = Inr (Some x4, v4)"
    "i_nblocks x4 = 4" "keeps v3 v4" "boot_has v4 {3, 1, 0} 5 (boot_m 1 2 1) t4"
    using boot_create [OF s3(3) good_boot_paths(4), of "O_CREAT OR O_RDWR" 3 "''/jarvis/lyrics/Try''" False] m4
    by (auto simp: boot_m_def path_of_Cons t)
  obtain x5 v5 where s5: "vlookup v4 (blkfs v4) ''/jarvis/lyrics/Lucky'' (O_CREAT OR O_RDWR) = Inr (Some x5, v5)"
    "i_nblocks x5 = 5" "keeps v4 v5" "boot_has v5 {3, 1, 0} 6 (boot_m 1 2 2) t5"
    using boot_create [OF s4(4) good_boot_paths(5), of "O_CREAT OR O_RDWR" 3 "''/jarvis/lyrics/Lucky''" False] m5
    by (auto simp: boot_m_def path_of_Cons t)
  note b6 = boot_text [OF s5(4), of 2 test_c]
  have l: "length test_c < 4096" by (simp add: test_c_def)
  have r6: "boot_has (put_text v5 2 test_c) {3, 1, 0} 6 (boot_m 1 2 2) t5" "keeps v5 (put_text v5 2 test_c)"
    using b6 l by simp_all
  define w where "w = put_text (put_text (put_text v5 2 test_c) 4 ''If I walk would you run, If I stop would you come'')
     5 (''Do you hear me? I'' @ [CHR 0x27] @ ''m talking to you'')"
  define u where "u = put_text (put_text v5 2 test_c) 4 ''If I walk would you run, If I stop would you come''"
  have ru: "boot_has u {3, 1, 0} 6 (boot_m 1 2 2) t5" "keeps (put_text v5 2 test_c) u"
    unfolding u_def by (rule boot_text [OF r6(1)]; simp)+
  have "boot_has w {3, 1, 0} 6 (boot_m 1 2 2) t5" "keeps u w"
    unfolding w_def u_def [symmetric] by (rule boot_text [OF ru(1)]; simp)+
  then have "boot_has w {3, 1, 0} 6 (boot_m 1 2 2) t5 \<and> keeps (put_text v5 2 test_c) w"
    using ru(2) keeps_trans by blast
  moreover have "t5 = tree_files" by (auto simp: t tree_files_def)
  moreover have "init_files v = Inr w"
    by (simp add: init_files_def vcreate_def s1(1) s2(1,2) s3(1) s4(1,2) s5(1,2) w_def)
  ultimately show ?thesis
    using s1(2) s2(3) s3(2) s4(3) s5(3) r6(2) by (auto simp: keeps_def)
qed

text \<open>The two virtual file systems, which appear as directories of the root.\<close>

definition tree_boot :: tree where
  "tree_boot = tree_add (tree_add tree_files 0 ''dev'' True 6) 0 ''proc'' True 7"

lemma boot_has_cong:
  assumes "boot_has v D n m t" and "blkfs v' = blkfs v" and "bfs v' = bfs v" and "iops_at v' = iops_at v"
    and "rd1_of v' = rd1_of v"
  shows "boot_has v' D n m t"
  using assms by (simp add: boot_has_def packed_def blk_ok_def vtree_def env_of_def)

definition empty_mpt :: mpt where
  "empty_mpt = \<lparr>mp_name = [], mp_fs = 0\<rparr>"

lemma mount_virtual:
  assumes b: "boot_has v D n m t" and nm: "nm = ''dev'' \<and> devfs v = p \<or> nm = ''proc'' \<and> procfs v = p \<and> devfs v \<noteq> p"
    and mp: "mntpoint v = ms @ empty_mpt # rs" "\<forall>x \<in> set ms. mp_fs x \<noteq> 0 \<and> mp_fs x \<noteq> p" "\<forall>x \<in> set rs. mp_fs x = 0"
    and p: "p \<noteq> 0" and fresh: "t 0 nm = None" "n < 80" "0 \<in> D" "m 0 < 80" "n \<notin> D"
  shows "\<exists>v'. vfsmount v (CHR ''/'' # nm) p = Inr (0, v') \<and>
    boot_has v' (insert n D) (Suc n) (m(0 := Suc (m 0), n := 0)) (tree_add t 0 nm True n) \<and>
    mntpoint v' = ms @ \<lparr>mp_name = CHR ''/'' # nm, mp_fs = p\<rparr> # rs \<and>
    blkfs v' = blkfs v \<and> devfs v' = devfs v \<and> procfs v' = procfs v"
proof -
  have l: "\<not> list_ex (\<lambda>x. mp_fs x = p) (mntpoint v)"
    using mp p by (auto simp: list_ex_iff empty_mpt_def)
  have "find_idx (\<lambda>x. mp_fs x = 0) (ms @ empty_mpt # rs) = Some (length ms)"
    using mp(2) by (auto simp: find_idx_Some nth_append empty_mpt_def)
  then have i: "find_idx (\<lambda>x. mp_fs x = 0) (mntpoint v) = Some (length ms)" using mp(1) by simp
  define v1 where "v1 = v\<lparr>mntpoint := ms @ \<lparr>mp_name = CHR ''/'' # nm, mp_fs = p\<rparr> # rs\<rparr>"
  have b1: "boot_has v1 D n m t"
    by (rule boot_has_cong [OF b]) (simp_all add: v1_def bfs_def rd1_of_def)
  have gp: "good_path [] nm" using nm good_boot_paths(6,7) by blast
  obtain x v2 where "vlookup v1 (blkfs v1) (CHR ''/'' # nm) (O_DIR OR O_CREAT OR O_RDWR) = Inr (Some x, v2)"
    and "keeps v1 v2"
    and "boot_has v2 (insert n D) (Suc n) (m(0 := Suc (m 0), n := 0)) (tree_add t 0 nm True n)"
    using boot_create [OF b1 gp, of "O_DIR OR O_CREAT OR O_RDWR" 0 "CHR ''/'' # nm" True] fresh
    by (auto simp: path_of_Cons)
  moreover have "(mntpoint v)[length ms := \<lparr>mp_name = CHR ''/'' # nm, mp_fs = p\<rparr>] =
      ms @ \<lparr>mp_name = CHR ''/'' # nm, mp_fs = p\<rparr> # rs"
    using mp(1) by (simp add: list_update_append)
  then have "v\<lparr>mntpoint := (mntpoint v)[length ms := \<lparr>mp_name = CHR ''/'' # nm, mp_fs = p\<rparr>]\<rparr> = v1"
    by (simp add: v1_def)
  ultimately show ?thesis
    using l i nm by (auto simp: vfsmount_def keeps_def v1_def)
qed

lemma init_virtual_ok:
  assumes b: "boot_has v {3, 1, 0} 6 (boot_m 1 2 2) tree_files" and mp: "root_mount v"
    and pq: "p \<noteq> 0" "q \<noteq> 0" "p \<noteq> q" "p \<noteq> blkfs v" "q \<noteq> blkfs v"
  shows "\<exists>v'. init_virtual v p q = Inr v' \<and> std_mounts v' \<and>
    boot_has v' {7, 6, 3, 1, 0} 8 (boot_m 3 2 2) tree_boot"
proof -
  let ?r = "\<lparr>mp_name = ''/'', mp_fs = blkfs v\<rparr>"
  let ?d = "\<lparr>mp_name = ''/dev'', mp_fs = p\<rparr>"
  have m6: "(boot_m 1 2 2)(0 := Suc (boot_m 1 2 2 0), 6 := 0) = boot_m 2 2 2"
    and m7: "(boot_m 2 2 2)(0 := Suc (boot_m 2 2 2 0), 7 := 0) = boot_m 3 2 2"
    by (auto simp: boot_m_def)
  define v1 where "v1 = v\<lparr>devfs := p, v_fs := (v_fs v)(p := fsinit zero_fs ''devfs'' 0)\<rparr>"
  have b1: "boot_has v1 {3, 1, 0} 6 (boot_m 1 2 2) tree_files"
    by (rule boot_has_cong [OF b]) (use pq in \<open>simp_all add: v1_def bfs_def rd1_of_def\<close>)
  have mp1: "mntpoint v1 = [?r] @ empty_mpt # replicate 3 empty_mpt"
    using mp by (simp add: root_mount_def v1_def empty_mpt_def numeral_eq_Suc)
  have bz: "blkfs v \<noteq> 0" using b by (simp add: boot_has_def packed_def blk_ok_def)
  obtain v2 where s2: "vfsmount v1 ''/dev'' p = Inr (0, v2)"
    "boot_has v2 {6, 3, 1, 0} 7 (boot_m 2 2 2) (tree_add tree_files 0 ''dev'' True 6)"
    "mntpoint v2 = [?r] @ ?d # replicate 3 empty_mpt" "blkfs v2 = blkfs v" "devfs v2 = p"
    using mount_virtual [OF b1 _ mp1, of "''dev''" p] pq bz m6
    by (auto simp: v1_def tree_files_def boot_m_def empty_mpt_def)
  define v3 where "v3 = v2\<lparr>procfs := q, v_fs := (v_fs v2)(q := fsinit zero_fs ''procfs'' 0)\<rparr>"
  have b3: "boot_has v3 {6, 3, 1, 0} 7 (boot_m 2 2 2) (tree_add tree_files 0 ''dev'' True 6)"
    by (rule boot_has_cong [OF s2(2)]) (use pq s2(4) in \<open>simp_all add: v3_def bfs_def rd1_of_def\<close>)
  have mp3: "mntpoint v3 = [?r, ?d] @ empty_mpt # replicate 2 empty_mpt"
    using s2(3) by (simp add: v3_def numeral_eq_Suc)
  obtain v4 where "vfsmount v3 ''/proc'' q = Inr (0, v4)"
    and "boot_has v4 {7, 6, 3, 1, 0} 8 (boot_m 3 2 2) tree_boot"
    and "mntpoint v4 = [?r, ?d] @ \<lparr>mp_name = ''/proc'', mp_fs = q\<rparr> # replicate 2 empty_mpt"
    and "blkfs v4 = blkfs v" "devfs v4 = p" "procfs v4 = q"
    using mount_virtual [OF b3 _ mp3, of "''proc''" q] pq bz m7 s2(4,5)
    by (auto simp: v3_def tree_boot_def tree_files_def tree_add_def boot_m_def empty_mpt_def)
  then show ?thesis
    using s2(1) bz unfolding init_virtual_def Let_def v1_def [symmetric]
    by (simp add: v3_def [symmetric] std_mounts_def numeral_eq_Suc empty_mpt_def)
qed

lemma vfsinit_run:
  assumes "pre_boot v" and "p \<noteq> 0" "q \<noteq> 0" "r \<noteq> 0" and "distinct [p, q, r]" and "p < 2 ^ 32"
  shows "\<exists>v'. vfsinit v p q r ncpu = Inr v' \<and> std_mounts v' \<and>
    boot_has v' {0, 1, 3, 6, 7} 8 (boot_m 3 2 2) tree_boot"
proof -
  obtain v1 where v1: "init_blkfs v p = Inr v1" "packed v1 {0} 1 (boot_m 0 0 0)" "vtree v1 {0} = (\<lambda>_. Map.empty)"
      "root_mount v1" "blkfs v1 = p"
    using init_blkfs_ok [OF assms(1,2,6)] by blast
  obtain v2 where v2: "init_files v1 = Inr v2" "keeps v1 v2" "boot_has v2 {3, 1, 0} 6 (boot_m 1 2 2) tree_files"
    using init_files_ok [of v1] v1 by (auto simp: boot_has_def)
  have "root_mount v2" "blkfs v2 = p" using v1 v2(2) by (simp_all add: root_mount_def keeps_def)
  then obtain v3 where v3: "init_virtual v2 q r = Inr v3" "std_mounts v3"
      "boot_has v3 {7, 6, 3, 1, 0} 8 (boot_m 3 2 2) tree_boot"
    using init_virtual_ok [OF v2(3), of q r] assms(3-5) by auto
  have D: "{7, 6, 3, 1, 0} = {0, 1, 3, 6, 7 :: nat}" by auto
  let ?v = "init_proc v3 ncpu"
  have "boot_has ?v {0, 1, 3, 6, 7} 8 (boot_m 3 2 2) tree_boot"
    by (rule boot_has_cong [of v3])
      (use v3(3) D in \<open>simp_all add: init_proc_def Let_def bfs_def rd1_of_def\<close>)
  moreover have "std_mounts ?v"
    using v3(2) by (simp add: init_proc_def Let_def std_mounts_def)
  ultimately show ?thesis
    using v1(1) v2(1) v3(1) by (simp add: vfsinit_def)
qed

text \<open>
  C8. \<open>vfsinit\<close> on an empty RAM disk succeeds and establishes the invariant of the file system and the
  mount table, with the tree of directories and files that every boot starts from.
\<close>

theorem vfsinit_boots:
  assumes "pre_boot v" and "p \<noteq> 0" "q \<noteq> 0" "r \<noteq> 0" and "distinct [p, q, r]" and "p < 2 ^ 32"
  shows "\<exists>v'. vfsinit v p q r ncpu = Inr v' \<and> vfs_ok v' {0, 1, 3, 6, 7} \<and> vtree v' {0, 1, 3, 6, 7} = tree_boot"
  using vfsinit_run [OF assms, of ncpu] by (auto simp: boot_has_def packed_def vfs_ok_blk)

text \<open>A machine before the boot.\<close>

definition demo_pre :: vfs where
  "demo_pre = \<lparr>v_devs = dev_init (\<lambda>_. NUL) 640 480 [],
     v_fs = \<lambda>_. zero_fs, blkfs = 0, devfs = 0, procfs = 0, mntpoint = [], pr_ino = [], pr_block = [],
     fildes = replicate 16 None, iops_at = 65536\<rparr>"

lemma pre_boot_demo: "pre_boot demo_pre"
  by (simp add: pre_boot_def demo_pre_def rd1_of_def dev_init_def devices_def rd_init_def Let_def)

lemma vfsinit_boots_witness:
  "\<exists>v'. vfsinit demo_pre 4096 8192 12288 1 = Inr v' \<and> vfs_ok v' {0, 1, 3, 6, 7} \<and>
     vtree v' {0, 1, 3, 6, 7} = tree_boot"
  by (rule vfsinit_boots [OF pre_boot_demo]) simp_all

section \<open>The operations on the booted system\<close>

lemma booted:
  obtains v where "vfsinit demo_pre 4096 8192 12288 1 = Inr v" and "vfs_ok v {0, 1, 3, 6, 7}"
    and "packed v {0, 1, 3, 6, 7} 8 (boot_m 3 2 2)" and "vtree v {0, 1, 3, 6, 7} = tree_boot"
  using vfsinit_run [OF pre_boot_demo, of 4096 8192 12288 1] by (auto simp: boot_has_def packed_def vfs_ok_blk)

lemma tree_boot_simps [simp]:
  "tree_boot 0 = [''jarvis'' \<mapsto> (True, 1), ''dev'' \<mapsto> (True, 6), ''proc'' \<mapsto> (True, 7)]"
  "tree_boot (Suc 0) = [''test.c'' \<mapsto> (False, 2), ''lyrics'' \<mapsto> (True, 3)]"
  "tree_boot 3 = [''Try'' \<mapsto> (False, 4), ''Lucky'' \<mapsto> (False, 5)]"
  by (simp_all add: tree_boot_def tree_files_def tree_add_def)

lemma blk_demo:
  "blk_path [''jarvis''] ''a''" "blk_path [] ''jarvis''" "blk_path [''jarvis''] ''test.c''"
  "blk_path [''jarvis'', ''lyrics''] ''Try''" "blk_path [''jarvis''] ''Try''" "blk_path [] ''a''"
  by (simp_all add: blk_path_def good_path_def good_name_def path_of_Cons)

lemma vfsmkdir_creates_witness:
  "\<exists>v v'. vfsinit demo_pre 4096 8192 12288 1 = Inr v \<and> vfsmkdir v ''/jarvis/a'' = Inr (0, v') \<and>
     vtree v' (insert 8 {0, 1, 3, 6, 7}) = tree_add tree_boot 1 ''a'' True 8"
proof -
  obtain v where v: "vfsinit demo_pre 4096 8192 12288 1 = Inr v" "vfs_ok v {0, 1, 3, 6, 7}"
      "packed v {0, 1, 3, 6, 7} 8 (boot_m 3 2 2)" "vtree v {0, 1, 3, 6, 7} = tree_boot"
    by (rule booted)
  have "find_idx (\<lambda>e. e_valid e = 0) (entries (bfs v) (rd1_of v) 1) = Some 2"
    using packed_slot [OF v(3), of 1] by (simp add: boot_m_def)
  from vfsmkdir_creates [OF v(2) blk_demo(1) _ _ packed_ino [OF v(3)] this]
  show ?thesis using v(1,4) by (auto simp: path_of_Cons)
qed

lemma vfsaccess_answers_witness:
  "\<exists>v. vfsinit demo_pre 4096 8192 12288 1 = Inr v \<and> vfsaccess v ''/jarvis/test.c'' F_OK = Inr (0, v)"
proof -
  obtain v where v: "vfsinit demo_pre 4096 8192 12288 1 = Inr v" "vfs_ok v {0, 1, 3, 6, 7}"
      "packed v {0, 1, 3, 6, 7} 8 (boot_m 3 2 2)" "vtree v {0, 1, 3, 6, 7} = tree_boot"
    by (rule booted)
  have "F_OK \<noteq> DIR_OK" by (simp add: F_OK_def DIR_OK_def)
  with vfsaccess_answers [OF v(2) blk_demo(3), of F_OK] v(1,4)
  show ?thesis by (simp add: path_of_Cons resolve_def)
qed

lemma vfslink_adds_witness:
  "\<exists>v v'. vfsinit demo_pre 4096 8192 12288 1 = Inr v \<and>
     vfslink v ''/jarvis/lyrics/Try'' ''/jarvis/Try'' = Inr (0, v') \<and>
     vtree v' {0, 1, 3, 6, 7} = tree_add tree_boot 1 ''Try'' False 4"
proof -
  obtain v where v: "vfsinit demo_pre 4096 8192 12288 1 = Inr v" "vfs_ok v {0, 1, 3, 6, 7}"
      "packed v {0, 1, 3, 6, 7} 8 (boot_m 3 2 2)" "vtree v {0, 1, 3, 6, 7} = tree_boot"
    by (rule booted)
  have "find_idx (\<lambda>e. e_valid e = 0) (entries (bfs v) (rd1_of v) 1) = Some 2"
    using packed_slot [OF v(3), of 1] by (simp add: boot_m_def)
  from vfslink_adds [OF v(2) blk_demo(4) _ blk_demo(5) _ _ _ this]
  show ?thesis using v(1,4) by (auto simp: path_of_Cons resolve_def)
qed

lemma vfsrmdir_removes_witness:
  "\<exists>v v'. vfs_ok v {8, 0, 1, 3, 6, 7} \<and> vtree v {8, 0, 1, 3, 6, 7} 1 ''a'' = Some (True, 8) \<and>
     vfsrmdir v ''/jarvis/a'' = Inr (0, v') \<and>
     vtree v' ({8, 0, 1, 3, 6, 7} - {8}) = tree_del (tree_add tree_boot 1 ''a'' True 8) 1 ''a''"
proof -
  obtain v0 where v0: "vfsinit demo_pre 4096 8192 12288 1 = Inr v0" "vfs_ok v0 {0, 1, 3, 6, 7}"
      "packed v0 {0, 1, 3, 6, 7} 8 (boot_m 3 2 2)" "vtree v0 {0, 1, 3, 6, 7} = tree_boot"
    by (rule booted)
  have slot: "find_idx (\<lambda>e. e_valid e = 0) (entries (bfs v0) (rd1_of v0) 1) = Some 2"
    using packed_slot [OF v0(3), of 1] by (simp add: boot_m_def)
  have ino: "find_idx (\<lambda>x. x = - 1) (inooff (bfs v0)) = Some 8" using packed_ino [OF v0(3)] by simp
  obtain fs d where v: "vfs_ok (vset v0 fs d) {8, 0, 1, 3, 6, 7}"
      "vtree (vset v0 fs d) {8, 0, 1, 3, 6, 7} = tree_add tree_boot 1 ''a'' True 8"
    by (rule vlookup_create [OF v0(2) blk_good [OF blk_demo(1)], of "O_DIR OR O_CREAT" 1 8 2 "{8, 0, 1, 3, 6, 7}"])
      (use v0 slot ino in simp_all)
  define w where "w = vset v0 fs d"
  note v = v [folded w_def]
  have t8: "tree_boot 8 = Map.empty" by (simp add: tree_boot_def tree_files_def tree_add_def)
  have "twalk (vtree w {8, 0, 1, 3, 6, 7}) 0 [''jarvis''] = Some 1" unfolding v(2) by (simp add: tree_add_def)
  from vfsrmdir_removes [OF v(1) blk_demo(1) this, of 8]
  show ?thesis using v t8 by (auto simp: tree_add_def path_of_Cons)
qed

lemma scan_name_packed:
  assumes "\<forall>e \<in> set es. entry_ok e" and "find_idx (live c) es = Some k" and "\<forall>j < k. e_valid (es ! j) = 1"
    and "c \<noteq> []" and "CHR ''/'' \<notin> set c" and "e_ftype (es ! k) = EXT2_FT_REG_FILE"
  shows "scan_name c es i = Inr (Some (i + k))"
  using assms
proof (induction es arbitrary: i k)
  case Nil
  then show ?case by simp
next
  case (Cons e es)
  show ?case
  proof (cases k)
    case 0
    with Cons.prems have l: "live c e" by (auto split: if_splits)
    then have "name_eq e c = Some True"
      using Cons.prems 0 by (auto simp: live_def name_eq_def entry_ok_def entry_name_def)
    with 0 show ?thesis by simp
  next
    case (Suc j)
    with Cons.prems(2) have nl: "\<not> live c e" "find_idx (live c) es = Some j" by (auto split: if_splits)
    have v: "e_valid e = 1" and vs: "\<forall>i < j. e_valid (es ! i) = 1"
      using Cons.prems(3) Suc by (auto dest: spec [of _ 0])
    have ne: "name_eq e c = Some False"
    proof (cases "e_ftype e = EXT2_FT_DIR")
      case True
      have "cstr (e_name e) = CHR ''/'' # entry_name e"
        using entry_cstr_dir [of e] Cons.prems(1) v True by simp
      then show ?thesis using Cons.prems(1,5) v by (auto simp: name_eq_def entry_ok_def)
    next
      case False
      then show ?thesis
        using nl(1) v Cons.prems(1) by (auto simp: name_eq_def entry_ok_def entry_name_def live_def)
    qed
    show ?thesis
      using Cons.IH [of j "Suc i"] Cons.prems nl vs ne Suc by simp
  qed
qed


text \<open>The booted system with \<open>/jarvis/test.c\<close> open on descriptor 3.\<close>

definition demo_file :: "vfs \<Rightarrow> file_t" where
  "demo_file v = \<lparr>f_inode = Ino_own (vnode v 2), f_offset = 0, f_name = ''/jarvis/test.c''\<rparr>"

definition with_open :: "vfs \<Rightarrow> vfs" where
  "with_open v = v\<lparr>fildes := (replicate 16 None)[3 := Some (demo_file v)]\<rparr>"

lemma opened:
  obtains v where "vfs_ok v {0, 1, 3, 6, 7}" and "vtree v {0, 1, 3, 6, 7} = tree_boot"
    and "open_on v 3 (demo_file v) (vnode v 2) 2" and "used (bfs v) 2" and "i_ptr (vnode v 2) = fs_dev (bfs v)"
    and "fildes v ! 0 = None" and "length (fildes v) = 16"
proof -
  obtain v where v: "vfsinit demo_pre 4096 8192 12288 1 = Inr v" "vfs_ok v {0, 1, 3, 6, 7}"
      "packed v {0, 1, 3, 6, 7} 8 (boot_m 3 2 2)" "vtree v {0, 1, 3, 6, 7} = tree_boot"
    by (rule booted)
  let ?v = "with_open v"
  have inv: "fs_inv (env_of v) (bfs v) (rd1_of v) {0, 1, 3, 6, 7}" using v(2) by (simp add: vfs_ok_def)
  have u: "used (bfs v) 2"
    using tree_target [OF fs_inv_struct [OF inv], of 1 "''test.c''"] v(4) by (auto simp: vtree_def)
  have n: "node_ok (env_of v) (bfs v) (rd1_of v) 2" using fs_invD(3) [OF inv u] .
  have same: "vnode ?v = vnode v" "bfs ?v = bfs v" by (auto simp: with_open_def vnode_def bfs_def rd1_of_def)
  show thesis
  proof (rule that)
    show "vfs_ok ?v {0, 1, 3, 6, 7}" using v(2) by (simp add: with_open_def vfs_ok_def)
    show "vtree ?v {0, 1, 3, 6, 7} = tree_boot" using v(4) by (simp add: with_open_def vtree_def)
    show "used (bfs ?v) 2" using u same by simp
    show "i_ptr (vnode ?v 2) = fs_dev (bfs ?v)" unfolding same using n by (simp add: node_ok_def vnode_def)
    show "open_on ?v 3 (demo_file ?v) (vnode ?v 2) 2"
      unfolding same using n
      by (simp add: open_on_def with_open_def demo_file_def NFILE_def vnode_def node_ok_def env_of_def bfs_def rd1_of_def)
  qed (simp_all add: with_open_def)
qed

lemma vfsopen_smallest_fd_witness:
  "\<exists>v. vfs_ok v {0, 1, 3, 6, 7} \<and> (\<exists>v'. vfsopen v ''/jarvis/test.c'' O_RDWR = Inr (int 0, v'))"
proof -
  obtain v where v: "vfs_ok v {0, 1, 3, 6, 7}" "vtree v {0, 1, 3, 6, 7} = tree_boot"
      "fildes v ! 0 = None" "length (fildes v) = 16"
    by (rule opened)
  have "\<not> has O_RDWR O_CREAT" "\<not> has O_RDWR O_RM" "\<not> has O_RDWR O_DIR" by (simp_all add: has_def flag_defs)
  with vfsopen_smallest_fd [OF v(1) blk_demo(3), of O_RDWR 2 0] v
  show ?thesis by (auto simp: path_of_Cons resolve_def)
qed

lemma vfs_write_then_read_witness:
  "\<exists>v v1 v2 v3. vfs_ok v {0, 1, 3, 6, 7} \<and> vfswrite v 3 ''hello'' = Inr (int (length ''hello''), v1) \<and>
    vfslseek v1 3 (int 0) LSEEK_SET = Inr (int 0, v2) \<and>
    vfsread v2 3 (length ''hello'') = Inr (int (length ''hello''), ''hello'', v3)"
proof -
  obtain v where v: "vfs_ok v {0, 1, 3, 6, 7}" "open_on v 3 (demo_file v) (vnode v 2) 2"
    by (rule opened)
  have o: "f_offset (demo_file v) = 0" by (simp add: demo_file_def)
  from vfs_write_then_read [OF v, of "''hello''"] v(1) show ?thesis unfolding o by auto
qed


lemma vfslseek_moves_witness:
  fixes v :: vfs and f :: file_t and n :: inode
  defines "n \<equiv> new_inode \<lparr>fs_at = 0, inode_ops_at = 0\<rparr> zero_fs 2"
  defines "f \<equiv> \<lparr>f_inode = Ino_own n, f_offset = 5, f_name = ''/jarvis/test.c''\<rparr>"
  defines "v \<equiv> demo_pre\<lparr>fildes := (replicate 16 None)[3 := Some f]\<rparr>"
  shows "vfslseek v 3 7 LSEEK_CUR = Inr (7, set_file v 3 (f\<lparr>f_offset := nat 12\<rparr>))"
proof -
  have "open_on v 3 f n 2"
    by (simp add: open_on_def v_def f_def n_def NFILE_def demo_pre_def new_inode_def sizeof_inode_def)
  moreover have "f_offset f = 5" "i_size n = 0" by (simp_all add: f_def n_def new_inode_def)
  ultimately show ?thesis using vfslseek_moves [of v 3 f n 2 7 12 LSEEK_CUR] by simp
qed

end
