(* ===== verification/Spinlock.thy ===== *)
theory Spinlock
  imports Prelude
begin

text \<open>
  The spin locks of \<open>kernel/src/spinlock.c\<close>: the nesting count of disabled interrupts of each CPU,
  the operations as functions of the whole state, and the same operations cut into the single memory
  accesses at which several CPUs can interleave, with mutual exclusion for every interleaving.
  CPUs and locks are numbers; \<open>lk->cpu\<close> is \<open>None\<close> for \<open>NULL\<close>.
\<close>

section \<open>State and operations\<close>

record mycpu =
  c_ncli :: int
  c_intena :: bool
  c_if :: bool  \<comment> \<open>the interrupt flag of the CPU, which \<open>get_efl\<close> reads and \<open>_intr_write\<close> sets\<close>

record spinlock =
  lk_locked :: bool
  lk_cpu :: "nat option"

record spins =
  cpu_info :: "nat \<Rightarrow> mycpu"
  locks :: "nat \<Rightarrow> spinlock"

definition cpu_init :: mycpu where
  "cpu_init = \<lparr>c_ncli = 0, c_intena = True, c_if = True\<rparr>"

definition my_spinlock_init :: spinlock where
  "my_spinlock_init = \<lparr>lk_locked = False, lk_cpu = None\<rparr>"

definition push_cpu :: "mycpu \<Rightarrow> mycpu" where
  "push_cpu p = p\<lparr>c_if := False, c_intena := (if c_ncli p = 0 then c_if p else c_intena p),
     c_ncli := c_ncli p + 1\<rparr>"

definition pop_cpu :: "mycpu \<Rightarrow> mycpu res" where
  "pop_cpu p =
     (if c_if p then Inl (Panic ''popcli-intr'')
      else let n = c_ncli p - 1 in
        if n < 0 then Inl (Panic ''popcli'')
        else Inr (p\<lparr>c_ncli := n, c_if := (n = 0 \<and> c_intena p)\<rparr>))"

definition pushcli :: "nat \<Rightarrow> spins \<Rightarrow> spins" where
  "pushcli c s = s\<lparr>cpu_info := (cpu_info s)(c := push_cpu (cpu_info s c))\<rparr>"

definition popcli :: "nat \<Rightarrow> spins \<Rightarrow> spins res" where
  "popcli c s = rbind (pop_cpu (cpu_info s c)) (\<lambda>p. Inr (s\<lparr>cpu_info := (cpu_info s)(c := p)\<rparr>))"

definition holds_lock :: "nat \<Rightarrow> spinlock \<Rightarrow> bool" where
  "holds_lock c k \<longleftrightarrow> lk_locked k \<and> lk_cpu k = Some c"

definition holding :: "nat \<Rightarrow> nat \<Rightarrow> spins \<Rightarrow> (bool \<times> spins) res" where
  "holding c l s =
     (let s1 = pushcli c s; r = holds_lock c (locks s1 l)
      in rbind (popcli c s1) (\<lambda>s2. Inr (r, s2)))"

text \<open>A lock that another CPU holds keeps the CPU spinning: the result \<open>Blocked\<close>.\<close>

definition my_spinlock :: "nat \<Rightarrow> nat \<Rightarrow> spins \<Rightarrow> spins res" where
  "my_spinlock c l s =
     rbind (holding c l (pushcli c s)) (\<lambda>(h, s1).
     if h then Inl Assert_fail
     else if lk_locked (locks s1 l) then Inl Blocked
     else Inr (s1\<lparr>locks := (locks s1)(l := \<lparr>lk_locked = True, lk_cpu = Some c\<rparr>)\<rparr>))"

definition my_spinunlock :: "nat \<Rightarrow> nat \<Rightarrow> spins \<Rightarrow> spins res" where
  "my_spinunlock c l s =
     rbind (holding c l s) (\<lambda>(h, s1).
     if \<not> h then Inl Assert_fail
     else popcli c (s1\<lparr>locks := (locks s1)(l := \<lparr>lk_locked = False, lk_cpu = None\<rparr>)\<rparr>))"

section \<open>Nesting\<close>

text \<open>A CPU that is not inside \<open>pushcli\<close> and \<open>popcli\<close>, or is, with interrupts off.\<close>

definition cpu_ok :: "mycpu \<Rightarrow> bool" where
  "cpu_ok p \<longleftrightarrow> 0 \<le> c_ncli p \<and> (0 < c_ncli p \<longrightarrow> \<not> c_if p)"

lemma push_cpu_ok: "cpu_ok p \<Longrightarrow> cpu_ok (push_cpu p) \<and> 0 < c_ncli (push_cpu p)"
  by (simp add: cpu_ok_def push_cpu_def)

lemma pop_cpu_ok: "cpu_ok p \<Longrightarrow> 0 < c_ncli p \<Longrightarrow> \<exists>q. pop_cpu p = Inr q \<and> cpu_ok q"
  by (auto simp: cpu_ok_def pop_cpu_def Let_def)

lemma pop_push_cpu:
  "cpu_ok p \<Longrightarrow> \<exists>q. pop_cpu (push_cpu p) = Inr q \<and> c_ncli q = c_ncli p \<and> c_if q = c_if p \<and>
     (0 < c_ncli p \<longrightarrow> q = p)"
  by (cases p) (auto simp: cpu_ok_def pop_cpu_def push_cpu_def Let_def)

lemma pop_push_pushed: "cpu_ok p \<Longrightarrow> 0 < c_ncli p \<Longrightarrow> pop_cpu (push_cpu p) = Inr p"
  using pop_push_cpu [of p] by auto

lemma holding_pushed:
  assumes "cpu_ok (cpu_info s c)" and "0 < c_ncli (cpu_info s c)"
  shows "holding c l s = Inr (holds_lock c (locks s l), s)"
  using assms by (simp add: holding_def pushcli_def popcli_def pop_push_pushed)

text \<open>
  Taking a free lock and releasing it again gives back the interrupt state of the CPU, at any
  nesting depth: interrupts come back on exactly when they were on before.
\<close>

theorem lock_unlock_restores:
  assumes "cpu_ok (cpu_info s c)" and "\<not> lk_locked (locks s l)"
  shows "\<exists>s1 s2. my_spinlock c l s = Inr s1 \<and> \<not> c_if (cpu_info s1 c) \<and> my_spinunlock c l s1 = Inr s2 \<and>
    c_ncli (cpu_info s2 c) = c_ncli (cpu_info s c) \<and> c_if (cpu_info s2 c) = c_if (cpu_info s c) \<and>
    \<not> lk_locked (locks s2 l)"
proof -
  let ?p = "pushcli c s"
  define s1 where "s1 = ?p\<lparr>locks := (locks ?p)(l := \<lparr>lk_locked = True, lk_cpu = Some c\<rparr>)\<rparr>"
  have p: "cpu_info ?p c = push_cpu (cpu_info s c)" "locks ?p = locks s" by (simp_all add: pushcli_def)
  have ok: "cpu_ok (cpu_info ?p c)" "0 < c_ncli (cpu_info ?p c)"
    using push_cpu_ok [OF assms(1)] by (simp_all add: p)
  have lock: "my_spinlock c l s = Inr s1"
    using assms(2) by (simp add: my_spinlock_def holding_pushed [OF ok] holds_lock_def p s1_def)
  have ok1: "cpu_ok (cpu_info s1 c)" "0 < c_ncli (cpu_info s1 c)"
    using ok by (simp_all add: s1_def)
  obtain q where q: "pop_cpu (push_cpu (cpu_info s c)) = Inr q" "c_ncli q = c_ncli (cpu_info s c)"
      "c_if q = c_if (cpu_info s c)"
    using pop_push_cpu [OF assms(1)] by blast
  define s2 where "s2 = s1\<lparr>locks := (locks s1)(l := \<lparr>lk_locked = False, lk_cpu = None\<rparr>),
    cpu_info := (cpu_info s1)(c := q)\<rparr>"
  have "my_spinunlock c l s1 = Inr s2"
    using q(1) by (simp add: my_spinunlock_def holding_pushed [OF ok1] popcli_def s2_def)
      (simp add: s1_def p holds_lock_def)
  moreover have "\<not> c_if (cpu_info s1 c)" by (simp add: s1_def p push_cpu_def)
  ultimately show ?thesis using lock q(2,3) by (simp add: s2_def)
qed

lemma lock_unlock_restores_witness:
  "\<exists>s1 s2. my_spinlock 0 5 \<lparr>cpu_info = \<lambda>_. cpu_init, locks = \<lambda>_. my_spinlock_init\<rparr> = Inr s1 \<and>
    \<not> c_if (cpu_info s1 0) \<and> my_spinunlock 0 5 s1 = Inr s2 \<and> c_ncli (cpu_info s2 0) = 0 \<and>
    c_if (cpu_info s2 0) \<and> \<not> lk_locked (locks s2 5)"
  using lock_unlock_restores [of "\<lparr>cpu_info = \<lambda>_. cpu_init, locks = \<lambda>_. my_spinlock_init\<rparr>" 0 5]
  by (simp add: cpu_init_def my_spinlock_init_def cpu_ok_def)

text \<open>Locking again on the CPU that holds the lock stops the machine instead of spinning for ever.\<close>

lemma relock_halts:
  assumes "cpu_ok (cpu_info s c)" and "holds_lock c (locks s l)"
  shows "my_spinlock c l s = Inl Assert_fail"
proof -
  have "cpu_ok (cpu_info (pushcli c s) c)" "0 < c_ncli (cpu_info (pushcli c s) c)"
    using push_cpu_ok [OF assms(1)] by (simp_all add: pushcli_def)
  from holding_pushed [OF this] assms(2) show ?thesis
    by (simp add: my_spinlock_def pushcli_def)
qed

section \<open>Interleavings on one lock\<close>

text \<open>
  Where a CPU is inside \<open>my_spinlock\<close> and \<open>my_spinunlock\<close>.  The two reads of \<open>holding\<close>, the exchange,
  and the two writes of \<open>lk->cpu\<close> are separate steps; \<open>Halt\<close> is \<open>assert(0)\<close>.
\<close>

datatype pc =
    Out          \<comment> \<open>outside\<close>
  | L_locked     \<comment> \<open>lock: about to read \<open>lk->locked\<close>\<close>
  | L_cpu        \<comment> \<open>lock: about to read \<open>lk->cpu\<close>\<close>
  | Spin         \<comment> \<open>the exchange loop\<close>
  | Own          \<comment> \<open>got 0 from the exchange, about to write \<open>lk->cpu\<close>\<close>
  | Crit         \<comment> \<open>returned from \<open>my_spinlock\<close>\<close>
  | U_locked     \<comment> \<open>unlock: about to read \<open>lk->locked\<close>\<close>
  | U_cpu        \<comment> \<open>unlock: about to read \<open>lk->cpu\<close>\<close>
  | Clear        \<comment> \<open>about to write \<open>lk->cpu = NULL\<close>\<close>
  | Rel          \<comment> \<open>about to exchange 0 in\<close>
  | Pop          \<comment> \<open>about to run the last \<open>popcli\<close>\<close>
  | Halt

record sl =
  pcs :: "nat \<Rightarrow> pc"
  scpu :: "nat \<Rightarrow> mycpu"
  slock :: spinlock

definition sl_init :: sl where
  "sl_init = \<lparr>pcs = \<lambda>_. Out, scpu = \<lambda>_. cpu_init, slock = my_spinlock_init\<rparr>"

definition goto :: "nat \<Rightarrow> pc \<Rightarrow> sl \<Rightarrow> sl" where
  "goto c x s = s\<lparr>pcs := (pcs s)(c := x)\<rparr>"

inductive spin_step :: "sl \<Rightarrow> sl \<Rightarrow> bool" where
  enter: "pcs s c = Out \<Longrightarrow> spin_step s (goto c L_locked (s\<lparr>scpu := (scpu s)(c := push_cpu (scpu s c))\<rparr>))"
| free: "pcs s c = L_locked \<Longrightarrow> \<not> lk_locked (slock s) \<Longrightarrow> spin_step s (goto c Spin s)"
| taken: "pcs s c = L_locked \<Longrightarrow> lk_locked (slock s) \<Longrightarrow> spin_step s (goto c L_cpu s)"
| other: "pcs s c = L_cpu \<Longrightarrow> lk_cpu (slock s) \<noteq> Some c \<Longrightarrow> spin_step s (goto c Spin s)"
| relock: "pcs s c = L_cpu \<Longrightarrow> lk_cpu (slock s) = Some c \<Longrightarrow> spin_step s (goto c Halt s)"
| spin: "pcs s c = Spin \<Longrightarrow> lk_locked (slock s) \<Longrightarrow> spin_step s s"
| acquire: "pcs s c = Spin \<Longrightarrow> \<not> lk_locked (slock s) \<Longrightarrow>
     spin_step s (goto c Own (s\<lparr>slock := (slock s)\<lparr>lk_locked := True\<rparr>\<rparr>))"
| own: "pcs s c = Own \<Longrightarrow> spin_step s (goto c Crit (s\<lparr>slock := (slock s)\<lparr>lk_cpu := Some c\<rparr>\<rparr>))"
| leave: "pcs s c = Crit \<Longrightarrow> spin_step s (goto c U_locked s)"
| held: "pcs s c = U_locked \<Longrightarrow> lk_locked (slock s) \<Longrightarrow> spin_step s (goto c U_cpu s)"
| not_held: "pcs s c = U_locked \<Longrightarrow> \<not> lk_locked (slock s) \<Longrightarrow> spin_step s (goto c Halt s)"
| mine: "pcs s c = U_cpu \<Longrightarrow> lk_cpu (slock s) = Some c \<Longrightarrow> spin_step s (goto c Clear s)"
| not_mine: "pcs s c = U_cpu \<Longrightarrow> lk_cpu (slock s) \<noteq> Some c \<Longrightarrow> spin_step s (goto c Halt s)"
| clear: "pcs s c = Clear \<Longrightarrow> spin_step s (goto c Rel (s\<lparr>slock := (slock s)\<lparr>lk_cpu := None\<rparr>\<rparr>))"
| release: "pcs s c = Rel \<Longrightarrow> spin_step s (goto c Pop (s\<lparr>slock := (slock s)\<lparr>lk_locked := False\<rparr>\<rparr>))"
| pop: "pcs s c = Pop \<Longrightarrow> pop_cpu (scpu s c) = Inr p \<Longrightarrow> spin_step s (goto c Out (s\<lparr>scpu := (scpu s)(c := p)\<rparr>))"

inductive_cases spin_stepE: "spin_step s t"

inductive spin_reach :: "sl \<Rightarrow> bool" where
  start: "spin_reach sl_init"
| step: "spin_reach s \<Longrightarrow> spin_step s t \<Longrightarrow> spin_reach t"

text \<open>The CPUs that hold the lock word, and those whose mark is in \<open>lk->cpu\<close>.\<close>

definition owning :: "pc set" where "owning = {Own, Crit, U_locked, U_cpu, Clear, Rel}"
definition marked :: "pc set" where "marked = {Crit, U_locked, U_cpu, Clear}"

definition spin_inv :: "sl \<Rightarrow> bool" where
  "spin_inv s \<longleftrightarrow>
     (\<forall>c d. pcs s c \<in> owning \<longrightarrow> pcs s d \<in> owning \<longrightarrow> c = d) \<and>
     (lk_locked (slock s) \<longleftrightarrow> (\<exists>c. pcs s c \<in> owning)) \<and>
     (\<forall>c. lk_cpu (slock s) = Some c \<longleftrightarrow> pcs s c \<in> marked) \<and>
     (\<forall>c. pcs s c \<noteq> Halt) \<and>
     (\<forall>c. cpu_ok (scpu s c) \<and> (pcs s c \<noteq> Out \<longrightarrow> 0 < c_ncli (scpu s c)))"

lemma spin_inv_init: "spin_inv sl_init"
  by (simp add: spin_inv_def sl_init_def my_spinlock_init_def owning_def marked_def cpu_init_def cpu_ok_def)

lemma spin_invD:
  assumes "spin_inv s"
  shows "pcs s c \<in> owning \<Longrightarrow> pcs s d \<in> owning \<Longrightarrow> c = d"
    and "lk_locked (slock s) \<longleftrightarrow> (\<exists>c. pcs s c \<in> owning)"
    and "lk_cpu (slock s) = Some c \<longleftrightarrow> pcs s c \<in> marked"
    and "pcs s c \<noteq> Halt" and "cpu_ok (scpu s c)" and "pcs s c \<noteq> Out \<Longrightarrow> 0 < c_ncli (scpu s c)"
  using assms by (auto simp: spin_inv_def)

lemma pc_sets [simp]:
  "x \<in> owning \<longleftrightarrow> x = Own \<or> x = Crit \<or> x = U_locked \<or> x = U_cpu \<or> x = Clear \<or> x = Rel"
  "x \<in> marked \<longleftrightarrow> x = Crit \<or> x = U_locked \<or> x = U_cpu \<or> x = Clear"
  by (auto simp: owning_def marked_def)

text \<open>A step that moves one CPU and keeps its side of the lock.\<close>

lemma goto_inv:
  assumes inv: "spin_inv s" and "pcs s c = y" and own: "x \<in> owning \<longleftrightarrow> y \<in> owning"
    and mark: "x \<in> marked \<longleftrightarrow> y \<in> marked" and "x \<noteq> Halt" and "cpu_ok p" and "x \<noteq> Out \<Longrightarrow> 0 < c_ncli p"
  shows "spin_inv (goto c x (s\<lparr>scpu := (scpu s)(c := p)\<rparr>))"
proof -
  let ?t = "goto c x (s\<lparr>scpu := (scpu s)(c := p)\<rparr>)"
  have o: "pcs ?t d \<in> owning \<longleftrightarrow> pcs s d \<in> owning" and m: "pcs ?t d \<in> marked \<longleftrightarrow> pcs s d \<in> marked" for d
    using assms(2) own mark by (auto simp: goto_def)
  have "slock ?t = slock s" by (simp add: goto_def)
  moreover have "\<forall>d. pcs ?t d \<noteq> Halt" using inv assms(5) by (auto simp: spin_inv_def goto_def)
  moreover have "\<forall>d. cpu_ok (scpu ?t d) \<and> (pcs ?t d \<noteq> Out \<longrightarrow> 0 < c_ncli (scpu ?t d))"
    using inv assms(6,7) by (auto simp: spin_inv_def goto_def)
  ultimately show ?thesis using inv unfolding spin_inv_def o m by simp
qed

lemma goto_inv_same:
  assumes "spin_inv s" and "pcs s c = y" and "x \<in> owning \<longleftrightarrow> y \<in> owning"
    and "x \<in> marked \<longleftrightarrow> y \<in> marked" and "x \<noteq> Halt" and "y \<noteq> Out"
  shows "spin_inv (goto c x s)"
  using goto_inv [of s c y x "scpu s c"] assms spin_invD(5,6) [OF assms(1), of c] by simp

text \<open>A step of the owner, or of the CPU that becomes it, which writes the lock.\<close>

lemma goto_inv_lock:
  assumes inv: "spin_inv s" and y: "pcs s c = y" "y \<noteq> Out" "x \<noteq> Halt"
    and free: "\<And>d. d \<noteq> c \<Longrightarrow> pcs s d \<notin> owning"
    and k: "lk_locked k \<longleftrightarrow> x \<in> owning" "lk_cpu k = (if x \<in> marked then Some c else None)"
  shows "spin_inv (goto c x (s\<lparr>slock := k\<rparr>))"
proof -
  let ?t = "goto c x (s\<lparr>slock := k\<rparr>)"
  have o: "pcs ?t d \<in> owning \<longleftrightarrow> d = c \<and> x \<in> owning" for d using free [of d] by (auto simp: goto_def)
  have m: "pcs ?t d \<in> marked \<longleftrightarrow> d = c \<and> x \<in> marked" for d using free [of d] by (auto simp: goto_def)
  have "\<forall>d. pcs ?t d \<noteq> Halt" using inv y by (auto simp: spin_inv_def goto_def)
  moreover have "\<forall>d. cpu_ok (scpu ?t d) \<and> (pcs ?t d \<noteq> Out \<longrightarrow> 0 < c_ncli (scpu ?t d))"
    using inv y by (auto simp: spin_inv_def goto_def)
  moreover have "slock ?t = k" by (simp add: goto_def)
  ultimately show ?thesis unfolding spin_inv_def o m using k by auto
qed

lemma spin_step_inv: "spin_step s t \<Longrightarrow> spin_inv s \<Longrightarrow> spin_inv t"
proof (induction rule: spin_step.induct)
  case (enter s c)
  then show ?case
    using push_cpu_ok [of "scpu s c"] spin_invD(5) [OF enter(2)] by (intro goto_inv) auto
next
  case (relock s c)
  then show ?case using spin_invD(3) [OF relock(3), of c] by simp
next
  case (not_held s c)
  then show ?case using spin_invD(2) [OF not_held(3)] by auto
next
  case (not_mine s c)
  then show ?case using spin_invD(3) [OF not_mine(3), of c] by simp
next
  case (acquire s c)
  then have none: "\<And>d. pcs s d \<notin> owning" using spin_invD(2) [OF acquire(3)] by blast
  then have "lk_cpu (slock s) = None"
    using spin_invD(3) [OF acquire(3)] by (cases "lk_cpu (slock s)") auto
  with acquire none show ?case by (intro goto_inv_lock [where y = Spin]) auto
next
  case (own s c)
  then have "\<And>d. d \<noteq> c \<Longrightarrow> pcs s d \<notin> owning" and "lk_locked (slock s)"
    using spin_invD(1) [OF own(2), of c] spin_invD(2) [OF own(2)] by auto
  with own show ?case by (intro goto_inv_lock [where y = Own]) auto
next
  case (clear s c)
  then have "\<And>d. d \<noteq> c \<Longrightarrow> pcs s d \<notin> owning" and "lk_locked (slock s)"
    using spin_invD(1) [OF clear(2), of c] spin_invD(2) [OF clear(2)] by auto
  with clear show ?case by (intro goto_inv_lock [where y = Clear]) auto
next
  case (release s c)
  then have f: "\<And>d. d \<noteq> c \<Longrightarrow> pcs s d \<notin> owning" using spin_invD(1) [OF release(2), of c] by auto
  have "lk_cpu (slock s) = None"
    using spin_invD(3) [OF release(2)] f release(1) by (cases "lk_cpu (slock s)") force+
  with release f show ?case by (intro goto_inv_lock [where y = Rel]) auto
next
  case (pop s c p)
  then have "cpu_ok p" using pop_cpu_ok [of "scpu s c"] spin_invD(5,6) [OF pop(3), of c] by auto
  with pop show ?case by (intro goto_inv) auto
qed (auto intro!: goto_inv_same)

lemma spin_reach_inv: "spin_reach s \<Longrightarrow> spin_inv s"
  by (induction rule: spin_reach.induct) (auto intro: spin_inv_init spin_step_inv)

text \<open>
  C12. Mutual exclusion for every interleaving of any number of CPUs: at most one is between the
  return of \<open>my_spinlock\<close> and the release, its interrupts are off, and the checks by \<open>holding\<close>
  never stop the machine although they read the lock without holding it.
\<close>

theorem spinlock_mutual_exclusion:
  assumes "spin_reach s"
  shows "pcs s c \<noteq> Halt \<and> (pcs s c = Crit \<longrightarrow> \<not> c_if (scpu s c) \<and> lk_cpu (slock s) = Some c) \<and>
    (pcs s c = Crit \<longrightarrow> pcs s d = Crit \<longrightarrow> c = d)"
proof -
  have I: "spin_inv s" using spin_reach_inv [OF assms] .
  then have "pcs s c = Crit \<Longrightarrow> \<not> c_if (scpu s c)"
    using spin_invD(5,6) [OF I, of c] by (simp add: cpu_ok_def)
  then show ?thesis using spin_invD(1) [OF I, of c d] spin_invD(3,4) [OF I, of c] by auto
qed

text \<open>A run of CPU 1 into its critical section.\<close>

lemma spin_reach_Crit: "\<exists>s. spin_reach s \<and> pcs s 1 = Crit"
proof -
  define s1 where "s1 = goto 1 L_locked (sl_init\<lparr>scpu := (scpu sl_init)(1 := push_cpu (scpu sl_init 1))\<rparr>)"
  define s2 where "s2 = goto 1 Spin s1"
  define s3 where "s3 = goto 1 Own (s2\<lparr>slock := (slock s2)\<lparr>lk_locked := True\<rparr>\<rparr>)"
  define s4 where "s4 = goto 1 Crit (s3\<lparr>slock := (slock s3)\<lparr>lk_cpu := Some 1\<rparr>\<rparr>)"
  have "spin_reach s1" unfolding s1_def by (rule spin_reach.step [OF spin_reach.start enter]) (simp add: sl_init_def)
  then have "spin_reach s2" unfolding s2_def
    by (rule spin_reach.step [OF _ free]) (simp_all add: s1_def goto_def sl_init_def my_spinlock_init_def)
  then have "spin_reach s3" unfolding s3_def
    by (rule spin_reach.step [OF _ acquire]) (simp_all add: s2_def s1_def goto_def sl_init_def my_spinlock_init_def)
  then have "spin_reach s4" unfolding s4_def
    by (rule spin_reach.step [OF _ own]) (simp add: s3_def goto_def)
  then show ?thesis by (intro exI [of _ s4]) (simp add: s4_def goto_def)
qed

lemma spinlock_mutual_exclusion_witness:
  "\<exists>s. spin_reach s \<and> pcs s 1 = Crit \<and> \<not> c_if (scpu s 1) \<and> pcs s 2 \<noteq> Crit"
proof -
  obtain s where s: "spin_reach s" "pcs s 1 = Crit" using spin_reach_Crit by blast
  from spinlock_mutual_exclusion [OF s(1), of 1 2] s show ?thesis by auto
qed

text \<open>An uninterrupted run of the steps is the operation \<open>my_spinlock\<close>.\<close>

lemma my_spinlock_steps:
  assumes inv: "spin_inv s" and out: "pcs s c = Out"
    and run: "my_spinlock c l \<lparr>cpu_info = scpu s, locks = \<lambda>_. slock s\<rparr> = Inr u"
  shows "\<exists>t. spin_step\<^sup>*\<^sup>* s t \<and> pcs t c = Crit \<and> scpu t = cpu_info u \<and> slock t = locks u l"
proof -
  let ?s = "\<lparr>cpu_info = scpu s, locks = \<lambda>_. slock s\<rparr>"
  have "cpu_ok (cpu_info (pushcli c ?s) c)" "0 < c_ncli (cpu_info (pushcli c ?s) c)"
    using push_cpu_ok spin_invD(5) [OF inv] by (auto simp: pushcli_def)
  note h = holding_pushed [OF this, of l]
  have nl: "\<not> lk_locked (slock s)" and u: "cpu_info u = (scpu s)(c := push_cpu (scpu s c))"
    "locks u l = \<lparr>lk_locked = True, lk_cpu = Some c\<rparr>"
    using run by (auto simp: my_spinlock_def h split: if_splits) (auto simp: pushcli_def)
  define s1 where "s1 = goto c L_locked (s\<lparr>scpu := (scpu s)(c := push_cpu (scpu s c))\<rparr>)"
  define s2 where "s2 = goto c Spin s1"
  define s3 where "s3 = goto c Own (s2\<lparr>slock := (slock s2)\<lparr>lk_locked := True\<rparr>\<rparr>)"
  define s4 where "s4 = goto c Crit (s3\<lparr>slock := (slock s3)\<lparr>lk_cpu := Some c\<rparr>\<rparr>)"
  have "spin_step s s1" unfolding s1_def by (rule enter [OF out])
  moreover have "spin_step s1 s2" unfolding s2_def by (rule free) (simp_all add: s1_def goto_def nl)
  moreover have "spin_step s2 s3" unfolding s3_def by (rule acquire) (simp_all add: s2_def s1_def goto_def nl)
  moreover have "spin_step s3 s4" unfolding s4_def by (rule own) (simp add: s3_def goto_def)
  ultimately have "spin_step\<^sup>*\<^sup>* s s4" by (meson converse_rtranclp_into_rtranclp rtranclp.rtrancl_refl)
  moreover have "pcs s4 c = Crit \<and> scpu s4 = cpu_info u \<and> slock s4 = locks u l"
    by (simp add: s4_def s3_def s2_def s1_def goto_def u)
  ultimately show ?thesis by blast
qed

end
