(* ===== verification/Kmt.thy ===== *)
theory Kmt
  imports Prelude
begin

text \<open>
  Tasks and the scheduler (\<open>kernel/src/kmthread.c\<close>).  A task is known by its address; address 0 is the
  \<open>NULL\<close> pointer that every entry of \<open>current_tasks\<close> starts with, and which \<open>kmt_init\<close> writes through.
  Every operation runs under \<open>tasklock\<close> with interrupts off, so each is one step.
\<close>

section \<open>State\<close>

text \<open>\<open>Junk\<close> is any other value, which only the memory at address 0 can hold.\<close>

datatype status = Ready | Running | Suspend | Junk

record task =
  t_id :: int
  t_context :: nat
  t_cpu :: "nat option"
  t_status :: status

record kmt =
  k_task :: "nat \<Rightarrow> task"
  current_tasks :: "nat \<Rightarrow> nat"
  k_tl :: "nat \<Rightarrow> nat list"
  k_tidcnt :: nat

definition NTHREAD :: nat where "NTHREAD = 40"
definition MAXCPU :: nat where "MAXCPU = 8"

definition cur :: "kmt \<Rightarrow> nat \<Rightarrow> task" where
  "cur k c = k_task k (current_tasks k c)"

definition set_task :: "kmt \<Rightarrow> nat \<Rightarrow> task \<Rightarrow> kmt" where
  "set_task k t x = k\<lparr>k_task := (k_task k)(t := x)\<rparr>"

definition set_status :: "kmt \<Rightarrow> nat \<Rightarrow> status \<Rightarrow> kmt" where
  "set_status k t st = set_task k t ((k_task k t)\<lparr>t_status := st\<rparr>)"

lemma set_simps [simp]:
  "current_tasks (set_task k t x) = current_tasks k" "k_tl (set_task k t x) = k_tl k"
  "k_tidcnt (set_task k t x) = k_tidcnt k" "k_task (set_task k t x) u = (if u = t then x else k_task k u)"
  "current_tasks (set_status k t st) = current_tasks k" "k_tl (set_status k t st) = k_tl k"
  "k_tidcnt (set_status k t st) = k_tidcnt k"
  "k_task (set_status k t st) u = (if u = t then (k_task k u)\<lparr>t_status := st\<rparr> else k_task k u)"
  by (simp_all add: set_task_def set_status_def)

section \<open>Operations\<close>

definition kmt_init :: "kmt \<Rightarrow> kmt" where
  "kmt_init k =
     foldl (\<lambda>k i. set_task k (current_tasks k i) ((cur k i)\<lparr>t_id := - 1\<rparr>))
       (k\<lparr>k_tl := \<lambda>_. [], k_tidcnt := 0\<rparr>) [0..<MAXCPU]"

text \<open>\<open>ctx\<close> is the context that \<open>_kcontext\<close> returns for the stack, the entry and its argument.\<close>

definition kmt_create :: "nat \<Rightarrow> kmt \<Rightarrow> nat \<Rightarrow> nat \<Rightarrow> kmt res" where
  "kmt_create ncpu k t ctx =
     (let l = k_tl k (k_tidcnt k)
      in rbind (require (length l < NTHREAD) Overrun) (\<lambda>_.
         Inr ((set_task k t \<lparr>t_id = int (length l), t_context = ctx, t_cpu = None, t_status = Ready\<rparr>)
           \<lparr>k_tl := (k_tl k)(k_tidcnt k := l @ [t]), k_tidcnt := (k_tidcnt k + 1) mod ncpu\<rparr>)))"

definition kmt_context_save :: "kmt \<Rightarrow> nat \<Rightarrow> nat \<Rightarrow> kmt" where
  "kmt_context_save k c ctx =
     (if t_id (cur k c) \<noteq> - 1 then set_task k (current_tasks k c) ((cur k c)\<lparr>t_context := ctx\<rparr>) else k)"

text \<open>The tasks of the CPU in the order of the polling loop, which looks at each of them once.\<close>

definition polled :: "kmt \<Rightarrow> nat \<Rightarrow> nat list" where
  "polled k c =
     (let l = k_tl k c in ring_list l (nat ((t_id (cur k c) + 1) mod int (length l))) (length l))"

definition pick :: "kmt \<Rightarrow> nat \<Rightarrow> nat \<Rightarrow> kmt" where
  "pick k c t =
     (let k1 = (if t_id (cur k c) \<noteq> - 1 \<and> t_status (cur k c) = Running
                then set_status k (current_tasks k c) Ready else k);
          k2 = k1\<lparr>current_tasks := (current_tasks k1)(c := t)\<rparr>
      in set_task k2 t ((k_task k2 t)\<lparr>t_cpu := Some c, t_status := Running\<rparr>))"

definition kmt_context_switch :: "kmt \<Rightarrow> nat \<Rightarrow> (nat \<times> kmt) res" where
  "kmt_context_switch k c =
     (if t_status (cur k c) = Ready then Inr (t_context (cur k c), set_status k (current_tasks k c) Running)
      else rbind (require (k_tl k c \<noteq> []) Assert_fail) (\<lambda>_.
        let k1 = (case find (\<lambda>t. t_status (k_task k t) = Ready) (polled k c) of
                    None \<Rightarrow> k | Some t \<Rightarrow> pick k c t)
        in rbind (require (current_tasks k1 c \<noteq> 0) Assert_fail) (\<lambda>_.
           rbind (require (t_cpu (cur k1 c) \<noteq> None) Assert_fail) (\<lambda>_.
           rbind (require (t_status (cur k1 c) \<noteq> Ready) Assert_fail) (\<lambda>_.
           Inr (t_context (cur k1 c), k1))))))"

definition kmt_teardown :: "kmt \<Rightarrow> nat \<Rightarrow> kmt res" where
  "kmt_teardown k t = Inl (Panic ''TODO!'')"

section \<open>Invariant\<close>

definition tasks_of :: "kmt \<Rightarrow> nat \<Rightarrow> nat set" where
  "tasks_of k c = set (k_tl k c)"

definition kmt_inv :: "kmt \<Rightarrow> bool" where
  "kmt_inv k \<longleftrightarrow>
     (\<forall>c. distinct (k_tl k c) \<and> length (k_tl k c) \<le> NTHREAD \<and> 0 \<notin> tasks_of k c) \<and>
     (\<forall>c d. c \<noteq> d \<longrightarrow> tasks_of k c \<inter> tasks_of k d = {}) \<and>
     (\<forall>c. \<forall>i < length (k_tl k c). t_id (k_task k (k_tl k c ! i)) = int i) \<and>
     (\<forall>c. current_tasks k c \<noteq> 0 \<longrightarrow> current_tasks k c \<in> tasks_of k c \<and> t_cpu (cur k c) \<noteq> None) \<and>
     (\<forall>c. \<forall>t \<in> tasks_of k c. t_status (k_task k t) \<noteq> Junk \<and>
        (t_status (k_task k t) = Running \<longrightarrow> current_tasks k c = t)) \<and>
     t_id (k_task k 0) = - 1 \<and> t_status (k_task k 0) = Junk"

lemma kmt_invD:
  assumes "kmt_inv k"
  shows "distinct (k_tl k c)" and "length (k_tl k c) \<le> 40" and "0 \<notin> tasks_of k c"
    and "c \<noteq> d \<Longrightarrow> t \<in> tasks_of k c \<Longrightarrow> t \<notin> tasks_of k d"
    and "i < length (k_tl k c) \<Longrightarrow> t_id (k_task k (k_tl k c ! i)) = int i"
    and "current_tasks k c \<noteq> 0 \<Longrightarrow> current_tasks k c \<in> tasks_of k c"
    and "current_tasks k c \<noteq> 0 \<Longrightarrow> t_cpu (cur k c) \<noteq> None"
    and "t \<in> tasks_of k c \<Longrightarrow> t_status (k_task k t) \<noteq> Junk"
    and "t \<in> tasks_of k c \<Longrightarrow> t_status (k_task k t) = Running \<Longrightarrow> current_tasks k c = t"
    and "t_id (k_task k 0) = - 1" and "t_status (k_task k 0) = Junk"
  using assms by (auto simp: kmt_inv_def NTHREAD_def)

lemma polled_rotate: "polled k c = rotate (nat ((t_id (cur k c) + 1) mod int (length (k_tl k c)))) (k_tl k c)"
  by (simp add: polled_def ring_list_rotate Let_def)

lemma set_polled [simp]: "set (polled k c) = tasks_of k c"
  by (simp add: polled_rotate tasks_of_def)

lemma length_polled [simp]: "length (polled k c) = length (k_tl k c)"
  by (simp add: polled_rotate)

text \<open>Changes of the status alone.\<close>

lemma set_status_inv:
  assumes "kmt_inv k" and "t \<noteq> 0" and "st \<noteq> Junk"
    and "\<And>c. st = Running \<Longrightarrow> t \<in> tasks_of k c \<Longrightarrow> current_tasks k c = t"
  shows "kmt_inv (set_status k t st)"
  using assms unfolding kmt_inv_def by (auto simp: tasks_of_def cur_def)

lemma kmt_inv_cong:
  assumes "kmt_inv k" and "current_tasks k' = current_tasks k" and "k_tl k' = k_tl k"
    and "\<And>t. t_id (k_task k' t) = t_id (k_task k t)" and "\<And>t. t_status (k_task k' t) = t_status (k_task k t)"
    and "\<And>t. t_cpu (k_task k' t) = t_cpu (k_task k t)"
  shows "kmt_inv k'"
  using assms(1) unfolding kmt_inv_def tasks_of_def cur_def assms(2-6) .

lemma context_save_inv: "kmt_inv k \<Longrightarrow> kmt_inv (kmt_context_save k c ctx)"
  by (rule kmt_inv_cong [of k]) (auto simp: kmt_context_save_def cur_def)

lemma kmt_create_inv:
  assumes inv: "kmt_inv k" and t: "t \<noteq> 0" "\<And>c. t \<notin> tasks_of k c" and l: "length (k_tl k (k_tidcnt k)) < NTHREAD"
  shows "\<exists>k'. kmt_create n k t ctx = Inr k' \<and> kmt_inv k' \<and>
    (\<forall>c. tasks_of k' c = (if c = k_tidcnt k then insert t (tasks_of k c) else tasks_of k c))"
proof -
  define k' where "k' = (set_task k t \<lparr>t_id = int (length (k_tl k (k_tidcnt k))), t_context = ctx, t_cpu = None, t_status = Ready\<rparr>)
    \<lparr>k_tl := (k_tl k)(k_tidcnt k := k_tl k (k_tidcnt k) @ [t]), k_tidcnt := (k_tidcnt k + 1) mod n\<rparr>"
  have ts: "tasks_of k' c = (if c = k_tidcnt k then insert t (tasks_of k c) else tasks_of k c)" for c
    by (simp add: k'_def tasks_of_def)
  have cu: "current_tasks k' = current_tasks k" by (simp add: k'_def)
  have tk: "k_task k' u = (if u = t then \<lparr>t_id = int (length (k_tl k (k_tidcnt k))), t_context = ctx, t_cpu = None, t_status = Ready\<rparr> else k_task k u)" for u
    by (simp add: k'_def)
  have ct: "current_tasks k c \<noteq> t" for c
    using kmt_invD(6) [OF inv, of c] t by auto
  have ids: "t_id (k_task k' (k_tl k' c ! i)) = int i" if "i < length (k_tl k' c)" for c i
  proof (cases "c = k_tidcnt k \<and> i = length (k_tl k c)")
    case True
    then show ?thesis by (simp add: k'_def)
  next
    case False
    then have i: "i < length (k_tl k c)" and e: "k_tl k' c ! i = k_tl k c ! i"
      using that by (auto simp: k'_def nth_append split: if_splits)
    then have "k_tl k c ! i \<in> tasks_of k c" by (simp add: tasks_of_def)
    then have "k_tl k c ! i \<noteq> t" using t(2) [of c] by metis
    then show ?thesis using e kmt_invD(5) [OF inv i] by (simp add: tk)
  qed
  have "kmt_inv k'"
    unfolding kmt_inv_def
  proof (intro conjI)
    show "\<forall>c. distinct (k_tl k' c) \<and> length (k_tl k' c) \<le> NTHREAD \<and> 0 \<notin> tasks_of k' c"
      using kmt_invD(1-3) [OF inv] t l by (auto simp: k'_def tasks_of_def NTHREAD_def)
    show "\<forall>c d. c \<noteq> d \<longrightarrow> tasks_of k' c \<inter> tasks_of k' d = {}"
      using kmt_invD(4) [OF inv] t(2) unfolding ts by auto
    show "\<forall>c. \<forall>i < length (k_tl k' c). t_id (k_task k' (k_tl k' c ! i)) = int i" using ids by blast
    show "\<forall>c. current_tasks k' c \<noteq> 0 \<longrightarrow> current_tasks k' c \<in> tasks_of k' c \<and> t_cpu (cur k' c) \<noteq> None"
      using kmt_invD(6,7) [OF inv] ct by (auto simp: cu ts cur_def tk)
    show "\<forall>c. \<forall>u \<in> tasks_of k' c. t_status (k_task k' u) \<noteq> Junk \<and>
        (t_status (k_task k' u) = Running \<longrightarrow> current_tasks k' c = u)"
      using kmt_invD(8,9) [OF inv] by (auto simp: cu ts tk split: if_splits)
    show "t_id (k_task k' 0) = - 1" "t_status (k_task k' 0) = Junk"
      using kmt_invD(10,11) [OF inv] t(1) by (simp_all add: tk)
  qed
  moreover have "kmt_create n k t ctx = Inr k'" using l by (simp add: kmt_create_def k'_def Let_def)
  ultimately show ?thesis using ts by blast
qed

lemma pick_simps [simp]:
  "current_tasks (pick k c t) = (current_tasks k)(c := t)" "k_tl (pick k c t) = k_tl k"
  "tasks_of (pick k c t) d = tasks_of k d" "cur (pick k c t) c = k_task (pick k c t) t"
  by (simp_all add: pick_def Let_def tasks_of_def cur_def)

lemma pick_task:
  "k_task (pick k c t) u = (if u = t then (k_task k u)\<lparr>t_cpu := Some c, t_status := Running\<rparr>
     else if u = current_tasks k c \<and> t_id (k_task k u) \<noteq> - 1 \<and> t_status (k_task k u) = Running
     then (k_task k u)\<lparr>t_status := Ready\<rparr> else k_task k u)"
  by (cases "u = current_tasks k c") (auto simp: pick_def Let_def cur_def)

lemma pick_id [simp]: "t_id (k_task (pick k c t) u) = t_id (k_task k u)"
  by (auto simp: pick_task)

lemma listed_id:
  "kmt_inv k \<Longrightarrow> t \<in> tasks_of k c \<Longrightarrow> t_id (k_task k t) \<noteq> - 1"
  using kmt_invD(5) [of k _ c] by (fastforce simp: tasks_of_def in_set_conv_nth)

lemma pick_inv:
  assumes inv: "kmt_inv k" and t: "t \<in> tasks_of k c" "t_status (k_task k t) = Ready"
  shows "kmt_inv (pick k c t)"
  unfolding kmt_inv_def
proof (intro conjI allI ballI impI)
  note I = kmt_invD [OF inv]
  have t0: "t \<noteq> 0" using I(3) [of c] t by metis
  fix d
  show "distinct (k_tl (pick k c t) d)" "length (k_tl (pick k c t) d) \<le> NTHREAD" "0 \<notin> tasks_of (pick k c t) d"
    using I(1-3) by (simp_all add: NTHREAD_def)
  show "tasks_of (pick k c t) e \<inter> tasks_of (pick k c t) d = {}" if "e \<noteq> d" for e
    using I(4) [OF that] by auto
  show "t_id (k_task (pick k c t) (k_tl (pick k c t) d ! i)) = int i" if "i < length (k_tl (pick k c t) d)" for i
    using I(5) [of i d] that by simp
  show "current_tasks (pick k c t) d \<in> tasks_of (pick k c t) d" if "current_tasks (pick k c t) d \<noteq> 0"
    using I(6) [of d] t(1) that by (simp split: if_splits)
  show "t_cpu (cur (pick k c t) d) \<noteq> None" if "current_tasks (pick k c t) d \<noteq> 0"
  proof (cases "d = c")
    case True
    then show ?thesis by (simp add: pick_task)
  next
    case False
    then have "t_cpu (k_task k (current_tasks k d)) \<noteq> None" using I(7) [of d] that by (simp add: cur_def)
    then show ?thesis
      using False by (cases "current_tasks k d = current_tasks k c") (auto simp: cur_def pick_task)
  qed
  show "t_status (k_task (pick k c t) u) \<noteq> Junk" if "u \<in> tasks_of (pick k c t) d" for u
    using I(8) [of u d] that by (simp add: pick_task)
  show "current_tasks (pick k c t) d = u"
    if "u \<in> tasks_of (pick k c t) d" "t_status (k_task (pick k c t) u) = Running" for u
  proof (cases "u = t")
    case True
    then have "d = c" using I(4) [of d c u] t(1) that(1) by auto
    then show ?thesis using True by simp
  next
    case False
    then have r: "t_status (k_task k u) = Running" and n: "\<not> (u = current_tasks k c \<and> t_id (k_task k u) \<noteq> - 1)"
      using that(2) by (auto simp: pick_task split: if_splits)
    then have "current_tasks k d = u" using I(9) that(1) by simp
    moreover have "t_id (k_task k u) \<noteq> - 1" using listed_id [OF inv] that(1) by simp
    ultimately show ?thesis using n by auto
  qed
  show "t_id (k_task (pick k c t) 0) = - 1" "t_status (k_task (pick k c t) 0) = Junk"
    using I(10,11) t0 by (simp_all add: pick_task)
qed

section \<open>The scheduler\<close>

lemma find_polled:
  "find P (polled k c) = Some t \<Longrightarrow> t \<in> tasks_of k c \<and> P t"
  by (metis find_Some_iff nth_mem set_polled)

lemma switch_inv:
  assumes inv: "kmt_inv k" and run: "kmt_context_switch k c = Inr (ctx, k')"
  shows "kmt_inv k'" and "tasks_of k' = tasks_of k"
proof -
  note I = kmt_invD [OF inv]
  have "kmt_inv k' \<and> tasks_of k' = tasks_of k"
  proof (cases "t_status (cur k c) = Ready")
    case True
    then have k': "k' = set_status k (current_tasks k c) Running" using run by (simp add: kmt_context_switch_def)
    have nz: "current_tasks k c \<noteq> 0" using True I(11) by (metis cur_def status.distinct(5))
    have "kmt_inv k'"
      unfolding k' using inv nz
    proof (rule set_status_inv)
      show "current_tasks k d = current_tasks k c" if "current_tasks k c \<in> tasks_of k d" for d
        using that I(4) [of d c] I(6) [of c] nz by (cases "d = c") auto
    qed simp
    then show ?thesis by (simp add: k' tasks_of_def [abs_def])
  next
    case False
    then have "k' = (case find (\<lambda>t. t_status (k_task k t) = Ready) (polled k c) of None \<Rightarrow> k | Some t \<Rightarrow> pick k c t)"
      using run by (auto simp: kmt_context_switch_def res_simps Let_def)
    then show ?thesis
      using inv pick_inv [OF inv, of _ c] find_polled [of _ k c] by (auto simp: fun_eq_iff split: option.splits)
  qed
  then show "kmt_inv k'" "tasks_of k' = tasks_of k" by simp_all
qed

lemma find_exists: "t \<in> set xs \<Longrightarrow> P t \<Longrightarrow> \<exists>u. find P xs = Some u"
  by (metis find_None_iff option.exhaust)

lemma switch_to:
  assumes inv: "kmt_inv k" and nr: "t_status (cur k c) \<noteq> Ready"
    and f: "find (\<lambda>t. t_status (k_task k t) = Ready) (polled k c) = Some t"
  shows "kmt_context_switch k c = Inr (t_context (k_task k t), pick k c t)"
proof -
  have t: "t \<in> tasks_of k c" using find_polled [OF f] by simp
  then have "t \<noteq> 0" using kmt_invD(3) [OF inv, of c] by metis
  moreover have "k_tl k c \<noteq> []" using t by (auto simp: tasks_of_def)
  ultimately show ?thesis using nr f by (simp add: kmt_context_switch_def pick_task)
qed

lemma switch_runs_unsuspended_lemma:
  assumes inv: "kmt_inv k" and z: "z \<in> tasks_of k c" "t_status (k_task k z) \<noteq> Suspend"
  shows "\<exists>ctx k'. kmt_context_switch k c = Inr (ctx, k') \<and> kmt_inv k' \<and> current_tasks k' c \<in> tasks_of k c \<and>
    t_status (cur k' c) = Running \<and> ctx = t_context (cur k' c)"
proof -
  note I = kmt_invD [OF inv]
  have tl: "k_tl k c \<noteq> []" using z(1) by (auto simp: tasks_of_def)
  have "\<exists>ctx k'. kmt_context_switch k c = Inr (ctx, k') \<and> current_tasks k' c \<in> tasks_of k c \<and>
    t_status (cur k' c) = Running \<and> ctx = t_context (cur k' c)"
  proof (cases "t_status (cur k c) = Ready")
    case True
    then have "current_tasks k c \<noteq> 0" using I(11) by (metis cur_def status.distinct(5))
    then show ?thesis using True I(6) by (simp add: kmt_context_switch_def cur_def)
  next
    case False
    note nr = False
    show ?thesis
    proof (cases "find (\<lambda>t. t_status (k_task k t) = Ready) (polled k c)")
      case None
      then have "t_status (k_task k z) \<noteq> Ready" using z(1) by (auto simp: find_None_iff)
      with z I(8) [OF z(1)] have r: "t_status (k_task k z) = Running" by (cases "t_status (k_task k z)") auto
      then have "current_tasks k c = z" using I(9) z(1) by simp
      moreover have "z \<noteq> 0" using I(3) [of c] z(1) by metis
      ultimately show ?thesis
        using None nr tl r z(1) I(7) [of c] by (simp add: kmt_context_switch_def cur_def)
    next
      case (Some t)
      then show ?thesis
        using switch_to [OF inv nr Some] find_polled [OF Some] by (simp add: pick_task)
    qed
  qed
  then show ?thesis using switch_inv(1) [OF inv] by blast
qed

lemma switch_effect:
  assumes "kmt_context_switch k c = Inr (ctx, k')"
  shows "t_status (cur k c) = Ready \<and> k' = set_status k (current_tasks k c) Running \<or> k' = k \<or>
    (\<exists>t. t_status (k_task k t) = Ready \<and> k' = pick k c t)"
  using assms find_polled [of "\<lambda>t. t_status (k_task k t) = Ready" k c]
  by (auto simp: kmt_context_switch_def res_simps Let_def split: if_splits option.splits)

lemma switch_suspend:
  assumes "kmt_inv k" and "kmt_context_switch k c = Inr (ctx, k')"
  shows "t_status (k_task k' t) = Suspend \<longleftrightarrow> t_status (k_task k t) = Suspend"
  using switch_effect [OF assms(2)] by (auto simp: cur_def pick_task split: if_splits)

lemma switch_current:
  assumes "kmt_context_switch k c = Inr (ctx, k')" and "d \<noteq> c"
  shows "current_tasks k' d = current_tasks k d"
  using switch_effect [OF assms(1)] assms(2) by auto

text \<open>
  C13. When some task of the CPU is not suspended, the scheduler returns the context of a task of that
  CPU which is now its current task and \<open>_RUNNING\<close>, none of its assertions fails, and the invariant
  is kept: no suspended task continues.
\<close>

theorem switch_runs_unsuspended:
  assumes inv: "kmt_inv k" and z: "z \<in> tasks_of k c" "t_status (k_task k z) \<noteq> Suspend"
  shows "\<exists>ctx k'. kmt_context_switch k c = Inr (ctx, k') \<and> kmt_inv k' \<and> current_tasks k' c \<in> tasks_of k c \<and>
    t_status (cur k' c) = Running \<and> ctx = t_context (cur k' c)"
  by (rule switch_runs_unsuspended_lemma [OF assms])

text \<open>
  With all tasks of the CPU suspended the scheduler goes back to the current one, although it is
  waiting: the polling loop gives up silently.
\<close>

lemma all_suspended_resumes:
  assumes inv: "kmt_inv k" and "current_tasks k c \<noteq> 0" and "\<forall>t \<in> tasks_of k c. t_status (k_task k t) = Suspend"
  shows "kmt_context_switch k c = Inr (t_context (cur k c), k)"
proof -
  have c: "current_tasks k c \<in> tasks_of k c" "t_cpu (cur k c) \<noteq> None" using kmt_invD(6,7) [OF inv] assms(2) by auto
  then have "k_tl k c \<noteq> []" "t_status (cur k c) = Suspend"
    using assms(3) by (auto simp: tasks_of_def cur_def)
  moreover have "find (\<lambda>t. t_status (k_task k t) = Ready) (polled k c) = None"
    using assms(3) by (simp add: find_None_iff)
  ultimately show ?thesis using assms(2) c by (simp add: kmt_context_switch_def)
qed

section \<open>Every ready task runs\<close>

text \<open>
  The events that change a status: a switch on a CPU, a running task that suspends itself in
  \<open>semwait\<close>, and a suspended task that some CPU wakes in \<open>semsignal\<close>.
\<close>

datatype kmt_event = Switch nat | Sleep nat | Wake nat

fun kmt_event_step :: "kmt \<Rightarrow> kmt_event \<Rightarrow> kmt res" where
  "kmt_event_step k (Switch c) = rbind (kmt_context_switch k c) (\<lambda>(_, k'). Inr k')"
| "kmt_event_step k (Sleep c) =
     Inr (if t_status (cur k c) = Running then set_status k (current_tasks k c) Suspend else k)"
| "kmt_event_step k (Wake t) = Inr (if t_status (k_task k t) = Suspend then set_status k t Ready else k)"

fun kmt_run :: "kmt \<Rightarrow> kmt_event list \<Rightarrow> kmt res" where
  "kmt_run k [] = Inr k"
| "kmt_run k (e # es) = rbind (kmt_event_step k e) (\<lambda>k'. kmt_run k' es)"

text \<open>
  The switches of a CPU that reach the polling loop.  The others happen when the current task was
  woken between its suspension and its \<open>_yield\<close>: they return to it at once.
\<close>

fun polls :: "kmt \<Rightarrow> kmt_event list \<Rightarrow> nat \<Rightarrow> nat" where
  "polls k [] c = 0"
| "polls k (e # es) c =
     (case kmt_event_step k e of Inl _ \<Rightarrow> 0
      | Inr k' \<Rightarrow> (if e = Switch c \<and> t_status (cur k c) \<noteq> Ready then 1 else 0) + polls k' es c)"

lemma nonzero_status: "kmt_inv k \<Longrightarrow> t_status (k_task k t) \<noteq> Junk \<Longrightarrow> t \<noteq> 0"
  by (metis kmt_invD(11))

lemma event_inv:
  assumes inv: "kmt_inv k" and run: "kmt_event_step k e = Inr k'"
  shows "kmt_inv k'" and "tasks_of k' = tasks_of k"
proof -
  have "kmt_inv k' \<and> tasks_of k' = tasks_of k"
  proof (cases e)
    case (Switch c)
    then show ?thesis using run switch_inv [OF inv] by (auto simp: res_simps)
  next
    case (Sleep c)
    then show ?thesis
      using run inv nonzero_status [OF inv, of "current_tasks k c"]
      by (auto simp: cur_def tasks_of_def fun_eq_iff intro!: set_status_inv split: if_splits)
  next
    case (Wake t)
    then show ?thesis
      using run inv nonzero_status [OF inv, of t]
      by (auto simp: tasks_of_def fun_eq_iff intro!: set_status_inv split: if_splits)
  qed
  then show "kmt_inv k'" "tasks_of k' = tasks_of k" by simp_all
qed

lemma polled_cong:
  "k_tl k' c = k_tl k c \<Longrightarrow> t_id (cur k' c) = t_id (cur k c) \<Longrightarrow> polled k' c = polled k c"
  by (simp add: polled_rotate)

lemma nat_succ_mod: "nat ((int j + 1) mod int n) = (j + 1) mod n"
proof -
  have "(int j + 1) mod int n = int ((j + 1) mod n)" by (simp add: zmod_int add.commute)
  then show ?thesis by simp
qed

text \<open>A polling switch takes the first ready task of the ring, and every other one moves forward.\<close>

lemma polled_pick:
  assumes inv: "kmt_inv k" and q: "q < p" "p < length (k_tl k c)"
  shows "polled (pick k c (polled k c ! q)) c ! (p - q - 1) = polled k c ! p"
proof -
  let ?l = "k_tl k c" and ?n = "length (k_tl k c)"
  let ?s = "nat ((t_id (cur k c) + 1) mod int ?n)"
  have n: "0 < ?n" using q by linarith
  let ?j = "(?s + q) mod ?n"
  have e: "polled k c ! q = ?l ! ?j" using q by (simp add: polled_rotate nth_rotate)
  have "t_id (k_task k (polled k c ! q)) = int ?j" unfolding e by (rule kmt_invD(5) [OF inv]) (use n in simp)
  then have "t_id (cur (pick k c (polled k c ! q)) c) = int ?j" by simp
  then have "nat ((t_id (cur (pick k c (polled k c ! q)) c) + 1) mod int ?n) = (?j + 1) mod ?n"
    by (simp only: nat_succ_mod)
  then have "polled (pick k c (polled k c ! q)) c = rotate ((?j + 1) mod ?n) ?l"
    by (simp add: polled_rotate del: rotate_Suc)
  also have "\<dots> ! (p - q - 1) = ?l ! (((?j + 1) mod ?n + (p - q - 1)) mod ?n)"
    using q n by (subst nth_rotate) linarith+
  also have "((?j + 1) mod ?n + (p - q - 1)) mod ?n = (?s + q + 1 + (p - q - 1)) mod ?n"
    by (simp add: mod_simps)
  also have "?s + q + 1 + (p - q - 1) = ?s + p" using q by simp
  also have "?l ! ((?s + p) mod ?n) = polled k c ! p" using q by (simp add: polled_rotate nth_rotate)
  finally show ?thesis .
qed

lemma switch_progress:
  assumes inv: "kmt_inv k" and nr: "t_status (cur k c) \<noteq> Ready" and p: "p < length (k_tl k c)" "polled k c ! p = t"
    and r: "t_status (k_task k t) = Ready" and run: "kmt_context_switch k c = Inr (ctx, k')"
  shows "current_tasks k' c = t \<or> t_status (k_task k' t) = Ready \<and> (\<exists>q < p. polled k' c ! q = t)"
proof -
  let ?P = "\<lambda>t. t_status (k_task k t) = Ready"
  have "t \<in> set (polled k c)" using p by (metis length_polled nth_mem)
  then obtain u where u: "find ?P (polled k c) = Some u" using find_exists [of t _ ?P] r by blast
  then obtain q where q: "q < length (k_tl k c)" "u = polled k c ! q" "\<forall>j < q. \<not> ?P (polled k c ! j)"
    by (auto simp: find_Some_iff)
  have k': "k' = pick k c u" using switch_to [OF inv nr u] run by simp
  have "q \<le> p" using q(3) p(2) r by (metis not_le)
  show ?thesis
  proof (cases "t = u")
    case True
    then show ?thesis by (simp add: k')
  next
    case False
    then have qp: "q < p" using \<open>q \<le> p\<close> q(2) p(2) by (metis le_neq_implies_less)
    have "polled k' c ! (p - q - 1) = t" using polled_pick [OF inv qp p(1)] p(2) q(2) by (simp add: k')
    moreover have "t_status (k_task k' t) = Ready" using False r by (simp add: k' pick_task)
    ultimately show ?thesis using qp by (intro disjI2 conjI exI [of _ "p - q - 1"]) auto
  qed
qed

lemma event_keeps_ready:
  assumes inv: "kmt_inv k" and t: "t \<in> tasks_of k c" "t_status (k_task k t) = Ready" "current_tasks k c \<noteq> t"
    and run: "kmt_event_step k e = Inr k'" and np: "e \<noteq> Switch c \<or> t_status (cur k c) = Ready"
  shows "t_status (k_task k' t) = Ready" and "polled k' c = polled k c"
proof -
  have "t_status (k_task k' t) = Ready \<and> polled k' c = polled k c"
  proof (cases e)
    case (Switch d)
    note e = Switch
    have cd: "current_tasks k d \<noteq> t"
      using t kmt_invD(4) [OF inv, of c d t] kmt_invD(3) [OF inv, of c] kmt_invD(6) [OF inv, of d] by metis
    show ?thesis
    proof (cases "t_status (cur k d) = Ready")
      case True
      then have k': "k' = set_status k (current_tasks k d) Running" using run e by (simp add: kmt_context_switch_def)
      then show ?thesis using cd t(2) by (auto intro: polled_cong simp: cur_def)
    next
      case False
      then have dc: "d \<noteq> c" using np e by auto
      have k': "k' = (case find (\<lambda>t. t_status (k_task k t) = Ready) (polled k d) of None \<Rightarrow> k | Some u \<Rightarrow> pick k d u)"
        using run e False by (auto simp: kmt_context_switch_def res_simps Let_def)
      show ?thesis
      proof (cases "find (\<lambda>t. t_status (k_task k t) = Ready) (polled k d)")
        case None
        then show ?thesis using k' t(2) by simp
      next
        case (Some u)
        then have "u \<noteq> t" using find_polled [OF Some] kmt_invD(4) [OF inv dc] t(1) by auto
        moreover have "polled (pick k d u) c = polled k c" using dc by (intro polled_cong) (simp_all add: cur_def)
        ultimately show ?thesis using k' Some t(2) cd by (simp add: pick_task)
      qed
    qed
  next
    case (Sleep d)
    then show ?thesis using run t(2) by (auto simp: cur_def intro!: polled_cong split: if_splits)
  next
    case (Wake u)
    then show ?thesis using run t(2) by (auto simp: cur_def intro!: polled_cong split: if_splits)
  qed
  then show "t_status (k_task k' t) = Ready" "polled k' c = polled k c" by simp_all
qed

lemma ready_task_runs_aux:
  assumes "kmt_inv k" and "t \<in> tasks_of k c" and "t_status (k_task k t) = Ready"
    and "p < length (k_tl k c)" and "polled k c ! p = t" and "p < polls k es c"
  shows "\<exists>es1 es2 k1. es = es1 @ es2 \<and> kmt_run k es1 = Inr k1 \<and> current_tasks k1 c = t"
  using assms
proof (induction es arbitrary: k p)
  case Nil
  then show ?case by simp
next
  case (Cons e es)
  note inv = Cons.prems(1)
  show ?case
  proof (cases "current_tasks k c = t")
    case True
    then have "e # es = [] @ e # es \<and> kmt_run k [] = Inr k \<and> current_tasks k c = t" by simp
    then show ?thesis by blast
  next
    case nt: False
    obtain k' where run: "kmt_event_step k e = Inr k'"
      using Cons.prems(6) by (cases "kmt_event_step k e") auto
    note E = event_inv [OF inv run]
    have step: "\<exists>es1 es2 k1. e # es = es1 @ es2 \<and> kmt_run k es1 = Inr k1 \<and> current_tasks k1 c = t" if "\<exists>es1 es2 k1. es = es1 @ es2 \<and> kmt_run k' es1 = Inr k1 \<and> current_tasks k1 c = t"
      using that run by (metis append_Cons kmt_run.simps(2) rbind_Inr)
    have len: "length (k_tl k' c) = length (k_tl k c)"
      using E(2) kmt_invD(1) [OF inv, of c] kmt_invD(1) [OF E(1), of c] by (metis distinct_card tasks_of_def)
    show ?thesis
    proof (cases "e = Switch c \<and> t_status (cur k c) \<noteq> Ready")
      case True
      then obtain ctx where sw: "kmt_context_switch k c = Inr (ctx, k')"
        using run by (auto simp: res_simps)
      have po: "p < 1 + polls k' es c" using Cons.prems(6) run True by simp
      from switch_progress [OF inv _ Cons.prems(4,5,3) sw] True
      consider "current_tasks k' c = t" | q where "t_status (k_task k' t) = Ready" "q < p" "polled k' c ! q = t"
        by blast
      then show ?thesis
      proof cases
        case 1
        then show ?thesis using run by (intro exI [of _ "[e]"] exI [of _ es] exI [of _ k']) simp
      next
        case 2
        then show ?thesis
          using Cons.IH [of k' q] E Cons.prems(2,4) len po by (intro step) auto
      qed
    next
      case other: False
      then have "polls k' es c = polls k (e # es) c" using run by simp
      then show ?thesis
        using event_keeps_ready [OF inv Cons.prems(2,3) nt run] other Cons.IH [of k' p] E Cons.prems len
        by (intro step) auto
    qed
  qed
qed

text \<open>
  C14. No ready task starves: whatever the tasks and the other CPUs do, once a CPU has polled as often as
  it has tasks, every task that was ready at the start has been its current task.
\<close>

theorem ready_task_runs:
  assumes "kmt_inv k" and "t \<in> tasks_of k c" and "t_status (k_task k t) = Ready"
    and "length (k_tl k c) \<le> polls k es c"
  shows "\<exists>es1 es2 k1. es = es1 @ es2 \<and> kmt_run k es1 = Inr k1 \<and> current_tasks k1 c = t"
proof -
  obtain p where "p < length (k_tl k c)" "polled k c ! p = t"
    using assms(2) by (metis in_set_conv_nth length_polled set_polled)
  with assms show ?thesis by (intro ready_task_runs_aux) auto
qed

section \<open>Boot and instances\<close>

text \<open>Before \<open>kmt_init\<close> all current tasks are \<open>NULL\<close>; \<open>kmt_init\<close> writes -1 to the memory behind it.\<close>

definition kmt_blank :: kmt where
  "kmt_blank = \<lparr>k_task = \<lambda>_. \<lparr>t_id = 0, t_context = 0, t_cpu = None, t_status = Junk\<rparr>,
     current_tasks = \<lambda>_. 0, k_tl = \<lambda>_. [], k_tidcnt = 0\<rparr>"

lemma kmt_init_eq:
  assumes "\<And>c. current_tasks k c = 0"
  shows "kmt_init k = (set_task k 0 ((k_task k 0)\<lparr>t_id := - 1\<rparr>))\<lparr>k_tl := \<lambda>_. [], k_tidcnt := 0\<rparr>"
  using assms by (simp add: kmt_init_def MAXCPU_def upt_rec cur_def set_task_def fun_upd_idem)

lemma kmt_init_inv:
  assumes "\<And>c. current_tasks k c = 0" and "t_status (k_task k 0) = Junk"
  shows "kmt_inv (kmt_init k)"
  unfolding kmt_init_eq [of k, OF assms(1)] using assms by (simp add: kmt_inv_def tasks_of_def NTHREAD_def)

text \<open>Two tasks on CPU 0 and one on CPU 1, as \<open>kmt_create\<close> distributes them over two CPUs.\<close>

definition demo_task :: "int \<Rightarrow> nat \<Rightarrow> task" where
  "demo_task i ctx = \<lparr>t_id = i, t_context = ctx, t_cpu = None, t_status = Ready\<rparr>"

definition demo_kmt :: kmt where
  "demo_kmt = \<lparr>k_task = (\<lambda>_. \<lparr>t_id = 0, t_context = 0, t_cpu = None, t_status = Junk\<rparr>)
       (0 := \<lparr>t_id = - 1, t_context = 0, t_cpu = None, t_status = Junk\<rparr>,
        100 := demo_task 0 7, 200 := demo_task 0 8, 300 := demo_task 1 9),
     current_tasks = \<lambda>_. 0, k_tl = (\<lambda>_. [])(0 := [100, 300], 1 := [200]), k_tidcnt = 1\<rparr>"

lemma demo_kmt_created:
  "rbind (kmt_create 2 (kmt_init kmt_blank) 100 7) (\<lambda>k1. rbind (kmt_create 2 k1 200 8) (\<lambda>k2. kmt_create 2 k2 300 9)) =
     Inr demo_kmt"
  by (simp add: kmt_init_eq kmt_blank_def kmt_create_def NTHREAD_def set_task_def demo_kmt_def demo_task_def
      fun_upd_twist fun_eq_iff)

lemma demo_kmt_inv: "kmt_inv demo_kmt"
  by (auto simp: kmt_inv_def demo_kmt_def tasks_of_def NTHREAD_def demo_task_def less_Suc_eq nth_Cons split: if_splits nat.splits)

lemma switch_runs_unsuspended_witness:
  "\<exists>ctx k'. kmt_context_switch demo_kmt 0 = Inr (ctx, k') \<and> t_status (cur k' 0) = Running \<and> ctx = t_context (cur k' 0)"
  using switch_runs_unsuspended [OF demo_kmt_inv, of 100 0] by (auto simp: demo_kmt_def tasks_of_def demo_task_def)

lemma ready_task_runs_witness:
  "\<exists>es1 es2 k1. [Switch 0, Sleep 0, Switch 0] = es1 @ es2 \<and> kmt_run demo_kmt es1 = Inr k1 \<and> current_tasks k1 0 = 300"
proof (rule ready_task_runs [OF demo_kmt_inv])
  show "300 \<in> tasks_of demo_kmt 0" "t_status (k_task demo_kmt 300) = Ready"
    by (simp_all add: demo_kmt_def tasks_of_def demo_task_def)
  show "length (k_tl demo_kmt 0) \<le> polls demo_kmt [Switch 0, Sleep 0, Switch 0] 0"
    by (simp add: demo_kmt_def kmt_context_switch_def polled_def ring_list_def cur_def demo_task_def pick_def
        set_task_def set_status_def Let_def upt_rec)
qed

end
