(* ===== verification/Sem.thy ===== *)
theory Sem
  imports Queues Kmt
begin

text \<open>
  Counting semaphores (\<open>kernel/src/sem.c\<close>).  \<open>semwait\<close> is a loop of critical sections under
  \<open>sem->lock\<close>; one round is \<open>semwait_pass\<close>, between two rounds the task yields.  The second half puts
  any number of semaphores together with the scheduler and lets the CPUs interleave: a task can be
  woken, or interrupted by the timer, between the release of the lock and its \<open>_yield\<close>.
\<close>

section \<open>State and operations\<close>

record sem =
  s_value :: int
  s_active :: int
  s_wl :: "nat list"
  s_left :: nat
  s_right :: nat

definition seminit :: "int \<Rightarrow> sem" where
  "seminit value = \<lparr>s_value = value, s_active = 1, s_wl = replicate NTHREAD 0, s_left = 0, s_right = 0\<rparr>"

definition sem_enq :: "sem \<Rightarrow> nat \<Rightarrow> sem res" where
  "sem_enq s t =
     rbind (require (s_wl s ! s_right s = 0) (Panic ''The waiting queue is full!'')) (\<lambda>_.
     Inr (s\<lparr>s_wl := (s_wl s)[s_right s := t], s_right := (s_right s + 1) mod NTHREAD\<rparr>))"

definition sem_deq :: "sem \<Rightarrow> (nat \<times> sem) res" where
  "sem_deq s =
     rbind (require (s_wl s ! s_left s \<noteq> 0) Blocked) (\<lambda>_.
     Inr (s_wl s ! s_left s, s\<lparr>s_wl := (s_wl s)[s_left s := 0], s_left := (s_left s + 1) mod NTHREAD\<rparr>))"

text \<open>
  One round of the loop of \<open>semwait\<close> for the current task of CPU \<open>c\<close>: \<open>True\<close> when it leaves the loop
  with the count decremented, \<open>False\<close> when it has entered the waiting list and is to yield.
\<close>

definition semwait_pass :: "nat \<Rightarrow> kmt \<Rightarrow> sem \<Rightarrow> (bool \<times> kmt \<times> sem) res" where
  "semwait_pass c k s =
     rbind (require (s_active s = 1) Assert_fail) (\<lambda>_.
     if s_value s \<le> 0 then
       rbind (sem_enq s (current_tasks k c)) (\<lambda>s1. Inr (False, set_status k (current_tasks k c) Suspend, s1))
     else Inr (True, k, s\<lparr>s_value := s_value s - 1\<rparr>))"

definition semsignal :: "kmt \<Rightarrow> sem \<Rightarrow> (kmt \<times> sem) res" where
  "semsignal k s =
     rbind (require (s_active s = 1) Assert_fail) (\<lambda>_.
     let s1 = s\<lparr>s_value := s_value s + 1\<rparr> in
     if s_wl s1 ! s_left s1 \<noteq> 0 then
       rbind (sem_deq s1) (\<lambda>(t, s2). Inr (set_status k t Ready, s2))
     else
       rbind (require (s_left s1 = s_right s1) (Panic ''The waiting list should be empty but not'')) (\<lambda>_.
       Inr (k, s1)))"

section \<open>The waiting list is a queue\<close>

definition sem_holds :: "sem \<Rightarrow> nat list \<Rightarrow> bool" where
  "sem_holds s xs \<longleftrightarrow> length (s_wl s) = 40 \<and> s_left s < 40 \<and> length xs \<le> 40 \<and> 0 \<notin> set xs \<and>
     s_right s = (s_left s + length xs) mod 40 \<and> ring_list (s_wl s) (s_left s) (length xs) = xs \<and>
     (\<forall>i < 40. length xs \<le> i \<longrightarrow> s_wl s ! ((s_left s + i) mod 40) = 0)"

lemma sem_enq_holds:
  assumes h: "sem_holds s xs" and l: "length xs < 40" and t: "t \<noteq> 0"
  shows "\<exists>s'. sem_enq s t = Inr s' \<and> sem_holds s' (xs @ [t])"
proof -
  let ?r = "(s_left s + length xs) mod 40"
  have z: "s_wl s ! ?r = 0" and r: "s_right s = ?r" using h l by (auto simp: sem_holds_def)
  define s' where "s' = s\<lparr>s_wl := (s_wl s)[?r := t], s_right := (?r + 1) mod 40\<rparr>"
  have "s_wl s' ! ((s_left s + i) mod 40) = 0" if "i < 40" "Suc (length xs) \<le> i" for i
    using h that ring_index_neq [of "s_left s" 40 "length xs" i] by (auto simp: s'_def sem_holds_def)
  moreover have "ring_list (s_wl s') (s_left s) (Suc (length xs)) = xs @ [t]"
    using ring_list_enq [of "s_left s" "s_wl s" "length xs" t] h l by (simp add: s'_def sem_holds_def)
  ultimately have "sem_holds s' (xs @ [t])"
    using h l t by (simp add: sem_holds_def s'_def mod_simps)
  then show ?thesis using z r by (simp add: sem_enq_def NTHREAD_def s'_def)
qed

lemma sem_deq_holds:
  assumes h: "sem_holds s (x # xs)"
  shows "\<exists>s'. sem_deq s = Inr (x, s') \<and> sem_holds s' xs \<and> s_value s' = s_value s \<and> s_active s' = s_active s"
proof -
  let ?l = "s_left s" and ?n = "length xs"
  have R: "s_wl s ! ?l # ring_list (s_wl s) (Suc ?l mod 40) ?n = x # xs"
    using h ring_list_Suc [of ?l "s_wl s" ?n] by (simp add: sem_holds_def)
  define s' where "s' = s\<lparr>s_wl := (s_wl s)[?l := 0], s_left := Suc ?l mod 40\<rparr>"
  have ne: "(Suc ?l mod 40 + i) mod 40 \<noteq> ?l" if "i < 39" for i
    using ring_index_neq [of ?l 40 0 "Suc i"] h that by (auto simp: sem_holds_def mod_simps)
  have le: "?n < 40" using h by (simp add: sem_holds_def)
  have "s_wl s' ! ((Suc ?l mod 40 + i) mod 40) = 0" if "i < 40" "?n \<le> i" for i
  proof (cases "i = 39")
    case True
    have "(Suc ?l mod 40 + 39) mod 40 = ?l" using h by (simp add: sem_holds_def mod_simps)
    then show ?thesis using True h by (simp add: s'_def sem_holds_def)
  next
    case False
    have "s_wl s ! ((?l + Suc i) mod 40) = 0"
      using h that False by (simp add: sem_holds_def del: add_Suc_right)
    moreover have "(?l + Suc i) mod 40 = (Suc ?l mod 40 + i) mod 40" by (simp add: mod_simps)
    ultimately show ?thesis using ne [of i] that False by (simp add: s'_def)
  qed
  moreover have "ring_list (s_wl s') (Suc ?l mod 40) ?n = ring_list (s_wl s) (Suc ?l mod 40) ?n"
  proof -
    have "s_wl s' ! ((Suc ?l mod 40 + i) mod 40) = s_wl s ! ((Suc ?l mod 40 + i) mod 40)" if "i < ?n" for i
      using ne [of i] that le by (simp add: s'_def)
    moreover have "length (s_wl s') = 40" "length (s_wl s) = 40" using h by (simp_all add: s'_def sem_holds_def)
    ultimately show ?thesis by (simp add: ring_list_def)
  qed
  ultimately have "sem_holds s' xs"
    using h R le by (simp add: sem_holds_def s'_def mod_simps)
  moreover have "x \<noteq> 0" using h by (simp add: sem_holds_def)
  ultimately show ?thesis using R by (simp add: sem_deq_def NTHREAD_def s'_def)
qed

interpretation waiting_list: fifo sem_enq sem_deq sem_holds "\<lambda>t. t \<noteq> 0" 40
  using sem_enq_holds sem_deq_holds by unfold_locales blast+

lemma sem_holds_empty: "sem_holds s [] \<Longrightarrow> s_wl s ! s_left s = 0 \<and> s_left s = s_right s"
  by (auto simp: sem_holds_def dest: spec [of _ 0])

lemma sem_holds_Cons: "sem_holds s (x # xs) \<Longrightarrow> s_wl s ! s_left s = x \<and> x \<noteq> 0"
  using ring_list_Suc [of "s_left s" "s_wl s" "length xs"] by (auto simp: sem_holds_def)

lemma seminit_holds: "sem_holds (seminit v) []"
  by (simp add: sem_holds_def seminit_def NTHREAD_def)

lemma sem_enq_value: "sem_enq s t = Inr s' \<Longrightarrow> s_value s' = s_value s \<and> s_active s' = s_active s"
  by (auto simp: sem_enq_def res_simps)

section \<open>Tasks, CPUs and semaphores together\<close>

text \<open>
  Where a task is: outside \<open>semwait\<close>, before a round of the loop on semaphore \<open>i\<close>, or suspended by a
  round and before its \<open>_yield\<close>.
\<close>

datatype pos = Free | Trying nat | Parked nat

record sys =
  y_k :: kmt
  y_sem :: "nat \<Rightarrow> sem"
  y_pos :: "nat \<Rightarrow> pos"

definition switched :: "kmt \<Rightarrow> nat \<Rightarrow> nat \<Rightarrow> (nat \<times> kmt) res" where
  "switched k c ctx = kmt_context_switch (kmt_context_save k c ctx) c"

text \<open>
  The steps, for a set \<open>Z\<close> of tasks that never wait (\<open>zombie\<close>).  A timer interrupt switches a CPU at
  any time; signals come from any task or interrupt handler.
\<close>

inductive sem_step :: "nat set \<Rightarrow> sys \<Rightarrow> sys \<Rightarrow> bool" for Z where
  call: "t = current_tasks (y_k y) c \<Longrightarrow> t \<noteq> 0 \<Longrightarrow> y_pos y t = Free \<Longrightarrow> t \<notin> Z \<Longrightarrow>
     sem_step Z y (y\<lparr>y_pos := (y_pos y)(t := Trying i)\<rparr>)"
| take: "t = current_tasks (y_k y) c \<Longrightarrow> y_pos y t = Trying i \<Longrightarrow>
     semwait_pass c (y_k y) (y_sem y i) = Inr (True, k', s') \<Longrightarrow>
     sem_step Z y (y\<lparr>y_k := k', y_sem := (y_sem y)(i := s'), y_pos := (y_pos y)(t := Free)\<rparr>)"
| park: "t = current_tasks (y_k y) c \<Longrightarrow> y_pos y t = Trying i \<Longrightarrow>
     semwait_pass c (y_k y) (y_sem y i) = Inr (False, k', s') \<Longrightarrow>
     sem_step Z y (y\<lparr>y_k := k', y_sem := (y_sem y)(i := s'), y_pos := (y_pos y)(t := Parked i)\<rparr>)"
| yield: "t = current_tasks (y_k y) c \<Longrightarrow> y_pos y t = Parked i \<Longrightarrow> switched (y_k y) c ctx = Inr (r, k') \<Longrightarrow>
     sem_step Z y (y\<lparr>y_k := k', y_pos := (y_pos y)(t := Trying i)\<rparr>)"
| timer: "switched (y_k y) c ctx = Inr (r, k') \<Longrightarrow> sem_step Z y (y\<lparr>y_k := k'\<rparr>)"
| signal: "semsignal (y_k y) (y_sem y i) = Inr (k', s') \<Longrightarrow>
     sem_step Z y (y\<lparr>y_k := k', y_sem := (y_sem y)(i := s')\<rparr>)"

inductive_cases sem_stepE: "sem_step Z y y'"

definition asleep :: "sys \<Rightarrow> nat \<Rightarrow> bool" where
  "asleep y t \<longleftrightarrow> t_status (k_task (y_k y) t) = Suspend"

definition in_sem :: "sys \<Rightarrow> nat \<Rightarrow> nat \<Rightarrow> bool" where
  "in_sem y i t \<longleftrightarrow> y_pos y t = Trying i \<or> y_pos y t = Parked i"

definition all_tasks :: "kmt \<Rightarrow> nat set" where
  "all_tasks k = (\<Union>c. tasks_of k c)"

text \<open>What holds of a semaphore whose sleeping tasks are \<open>W\<close> and whose tasks that can run are \<open>A\<close>.\<close>

definition sem_ok :: "sem \<Rightarrow> nat set \<Rightarrow> nat set \<Rightarrow> bool" where
  "sem_ok s W A \<longleftrightarrow> s_active s = 1 \<and> 0 \<le> s_value s \<and>
     (\<exists>xs. sem_holds s xs \<and> distinct xs \<and> set xs = W) \<and> (W \<noteq> {} \<longrightarrow> s_value s \<le> int (card A))"

definition sys_inv :: "nat set \<Rightarrow> sys \<Rightarrow> bool" where
  "sys_inv Z y \<longleftrightarrow> kmt_inv (y_k y) \<and> finite (all_tasks (y_k y)) \<and> card (all_tasks (y_k y)) \<le> 40 \<and>
     (\<forall>c. tasks_of (y_k y) c \<noteq> {} \<longrightarrow> (\<exists>z \<in> Z. z \<in> tasks_of (y_k y) c)) \<and> (\<forall>z \<in> Z. y_pos y z = Free) \<and>
     (\<forall>t. y_pos y t \<noteq> Free \<longrightarrow> t \<in> all_tasks (y_k y)) \<and>
     (\<forall>t \<in> all_tasks (y_k y). asleep y t \<longrightarrow> y_pos y t \<noteq> Free) \<and>
     (\<forall>c i. y_pos y (current_tasks (y_k y) c) = Trying i \<longrightarrow> \<not> asleep y (current_tasks (y_k y) c)) \<and>
     (\<forall>i. sem_ok (y_sem y i) {t. in_sem y i t \<and> asleep y t} {t. in_sem y i t \<and> \<not> asleep y t})"

lemma sys_invD:
  assumes "sys_inv Z y"
  shows "kmt_inv (y_k y)" and "finite (all_tasks (y_k y))" and "card (all_tasks (y_k y)) \<le> 40"
    and "tasks_of (y_k y) c \<noteq> {} \<Longrightarrow> \<exists>z \<in> Z. z \<in> tasks_of (y_k y) c" and "z \<in> Z \<Longrightarrow> y_pos y z = Free"
    and "y_pos y t \<noteq> Free \<Longrightarrow> t \<in> all_tasks (y_k y)"
    and "t \<in> all_tasks (y_k y) \<Longrightarrow> asleep y t \<Longrightarrow> y_pos y t \<noteq> Free"
    and "y_pos y (current_tasks (y_k y) c) = Trying i \<Longrightarrow> \<not> asleep y (current_tasks (y_k y) c)"
    and "sem_ok (y_sem y i) {t. in_sem y i t \<and> asleep y t} {t. in_sem y i t \<and> \<not> asleep y t}"
  using assms by (auto simp: sys_inv_def)

subsection \<open>One semaphore\<close>

lemma sem_ok_call: "sem_ok s W A \<Longrightarrow> finite A \<Longrightarrow> sem_ok s W (insert t A)"
  by (auto simp: sem_ok_def card_insert_if)

lemma pass_take:
  assumes ok: "sem_ok s W A" and "semwait_pass c k s = Inr (True, k', s')" and "t \<in> A" and "finite A"
  shows "k' = k" and "sem_ok s' W (A - {t})"
proof -
  have v: "0 < s_value s" "k' = k" "s' = s\<lparr>s_value := s_value s - 1\<rparr>"
    using assms(1,2) by (auto simp: semwait_pass_def res_simps split: if_splits)
  have "0 < card A" using assms(3,4) by (auto simp: card_gt_0_iff)
  then show "k' = k" "sem_ok s' W (A - {t})"
    using ok v assms(3) by (auto simp: sem_ok_def sem_holds_def card_Diff_singleton)
qed

lemma pass_park:
  assumes ok: "sem_ok s W A" and "semwait_pass c k s = Inr (False, k', s')"
    and "t = current_tasks k c" and "t \<noteq> 0" and "t \<notin> W" and "card W < 40"
  shows "k' = set_status k t Suspend" and "sem_ok s' (insert t W) A'"
proof -
  obtain xs where xs: "sem_holds s xs" "distinct xs" "set xs = W" using ok by (auto simp: sem_ok_def)
  have v: "s_value s = 0" "k' = set_status k t Suspend" "sem_enq s t = Inr s'"
    using assms(1-3) by (auto simp: semwait_pass_def res_simps sem_ok_def split: if_splits)
  have "length xs < 40" using xs assms(6) distinct_card by metis
  then have "sem_holds s' (xs @ [t])" using waiting_list.enq_holds [OF xs(1) _ assms(4)] v(3) by auto
  moreover have "s_value s' = 0" "s_active s' = 1" using sem_enq_value [OF v(3)] v(1) ok by (simp_all add: sem_ok_def)
  ultimately show "k' = set_status k t Suspend" "sem_ok s' (insert t W) A'"
    using v(2) xs assms(5) by (auto simp: sem_ok_def intro!: exI [of _ "xs @ [t]"])
qed

lemma pass_runs:
  assumes "sem_ok s W A" and "t = current_tasks k c" and "t \<noteq> 0" and "card W < 40"
  shows "\<exists>b k' s'. semwait_pass c k s = Inr (b, k', s')"
proof -
  obtain xs where xs: "sem_holds s xs" "distinct xs" "set xs = W" using assms(1) by (auto simp: sem_ok_def)
  then have "length xs < 40" using assms(4) distinct_card by metis
  from waiting_list.enq_holds [OF xs(1) this assms(3)] show ?thesis
    using assms(1,2) by (auto simp: semwait_pass_def sem_ok_def)
qed

lemma signal_runs:
  assumes ok: "sem_ok s W A"
  obtains (none) s' where "W = {}" "semsignal k s = Inr (k, s')" "\<And>A'. sem_ok s' {} A'"
  | (woken) x s' where "x \<in> W" "semsignal k s = Inr (set_status k x Ready, s')"
      "\<And>A'. finite A' \<Longrightarrow> card A' = Suc (card A) \<Longrightarrow> sem_ok s' (W - {x}) A'"
proof -
  obtain xs where xs: "sem_holds s xs" "distinct xs" "set xs = W" using ok by (auto simp: sem_ok_def)
  define s1 where "s1 = s\<lparr>s_value := s_value s + 1\<rparr>"
  have h1: "sem_holds s1 xs" using xs(1) by (simp add: sem_holds_def s1_def)
  have act: "s_active s = 1" "0 \<le> s_value s" using ok by (auto simp: sem_ok_def)
  show thesis
  proof (cases xs)
    case Nil
    have "sem_holds s1 []" using h1 Nil by simp
    then have "s_wl s1 ! s_left s1 = 0" "s_right s1 = s_left s1" by (metis sem_holds_empty)+
    then have "semsignal k s = Inr (k, s1)"
      using act by (simp add: semsignal_def s1_def [symmetric])
    then show thesis using Nil xs h1 act by (intro none [of s1]) (auto simp: sem_ok_def s1_def)
  next
    case (Cons x ys)
    obtain s' where s': "sem_deq s1 = Inr (x, s')" "sem_holds s' ys" "s_value s' = s_value s1" "s_active s' = s_active s1"
      using sem_deq_holds [of s1 x ys] h1 Cons by auto
    have "s_wl s1 ! s_left s1 \<noteq> 0" using sem_holds_Cons [of s1 x ys] h1 Cons by simp
    then have "semsignal k s = Inr (set_status k x Ready, s')"
      using act s'(1) by (simp add: semsignal_def s1_def [symmetric])
    moreover have "set ys = W - {x}" "distinct ys" using xs(2,3) Cons by auto
    moreover have "s_value s \<le> int (card A)" using ok xs(3) Cons by (auto simp: sem_ok_def)
    ultimately show thesis
      using s' act xs(3) Cons by (intro woken [of x s']) (auto simp: sem_ok_def s1_def)
  qed
qed

subsection \<open>Every step keeps the invariant\<close>

lemma switched_facts:
  assumes inv: "kmt_inv k" and run: "switched k c ctx = Inr (r, k')"
    and z: "tasks_of k c \<noteq> {} \<Longrightarrow> \<exists>z \<in> tasks_of k c. t_status (k_task k z) \<noteq> Suspend"
  shows "kmt_inv k'" and "tasks_of k' = tasks_of k"
    and "t_status (k_task k' t) = Suspend \<longleftrightarrow> t_status (k_task k t) = Suspend"
    and "d \<noteq> c \<Longrightarrow> current_tasks k' d = current_tasks k d"
    and "t_status (cur k' c) = Running"
proof -
  define k1 where "k1 = kmt_context_save k c ctx"
  have same: "current_tasks k1 = current_tasks k" "k_tl k1 = k_tl k" "tasks_of k1 = tasks_of k"
    "\<And>t. t_status (k_task k1 t) = t_status (k_task k t)" 
    by (auto simp: k1_def kmt_context_save_def cur_def tasks_of_def)
  have inv1: "kmt_inv k1" unfolding k1_def by (rule context_save_inv [OF inv])
  have run1: "kmt_context_switch k1 c = Inr (r, k')" using run by (simp add: switched_def k1_def)
  note S = switch_inv [OF inv1 run1]
  show "kmt_inv k'" "tasks_of k' = tasks_of k" using S same by simp_all
  have ne: "tasks_of k1 c \<noteq> {}"
  proof
    assume "tasks_of k1 c = {}"
    then have "k_tl k1 c = []" "current_tasks k1 c = 0"
      using kmt_invD(6) [OF inv1, of c] by (auto simp: tasks_of_def)
    then show False using run1 kmt_invD(11) [OF inv1] by (simp add: kmt_context_switch_def cur_def)
  qed
  then obtain y where "y \<in> tasks_of k1 c" "t_status (k_task k1 y) \<noteq> Suspend" using z same by auto
  from switch_runs_unsuspended_lemma [OF inv1 this] run1 show "t_status (cur k' c) = Running" by auto
  show "t_status (k_task k' t) = Suspend \<longleftrightarrow> t_status (k_task k t) = Suspend"
    using switch_suspend [OF inv1 run1] same by simp
  show "d \<noteq> c \<Longrightarrow> current_tasks k' d = current_tasks k d"
    using switch_current [OF run1] same by simp
qed

text \<open>A step that keeps the task lists, the sleepers and the places of the tasks, but may switch.\<close>

lemma tasks_disjoint:
  assumes "kmt_inv k" and "current_tasks k d = current_tasks k c" and "current_tasks k c \<noteq> 0"
  shows "d = c"
  using assms kmt_invD(4) [OF assms(1), of d c "current_tasks k c"] kmt_invD(6) [OF assms(1)] by metis

lemma sys_inv_current: "sys_inv Z y \<Longrightarrow> y_pos y t \<noteq> Free \<Longrightarrow> t \<noteq> 0"
  using sys_invD(6) [of Z y t] kmt_invD(3) [OF sys_invD(1)] by (metis UN_E all_tasks_def)

lemma switch_keeps:
  assumes inv: "sys_inv Z y" and run: "switched (y_k y) c ctx = Inr (r, k')"
    and pos: "\<And>t i. in_sem (y\<lparr>y_k := k', y_pos := p\<rparr>) i t \<longleftrightarrow> in_sem y i t"
    and other: "\<And>d. d \<noteq> c \<Longrightarrow> p (current_tasks (y_k y) d) = y_pos y (current_tasks (y_k y) d)"
  shows "sys_inv Z (y\<lparr>y_k := k', y_pos := p\<rparr>)"
proof -
  let ?y = "y\<lparr>y_k := k', y_pos := p\<rparr>"
  note I = sys_invD [OF inv]
  have free: "p t = Free \<longleftrightarrow> y_pos y t = Free" for t
    using pos [of _ t] by (cases "p t"; cases "y_pos y t") (auto simp: in_sem_def)
  have zs: "\<exists>z \<in> tasks_of (y_k y) c. t_status (k_task (y_k y) z) \<noteq> Suspend" if ne: "tasks_of (y_k y) c \<noteq> {}"
  proof -
    obtain z where "z \<in> Z" "z \<in> tasks_of (y_k y) c" using I(4) [OF ne] by blast
    moreover from this have "\<not> asleep y z" using I(5,7) by (auto simp: all_tasks_def)
    ultimately show ?thesis by (auto simp: asleep_def)
  qed
  note F = switched_facts [OF I(1) run zs]
  have al: "asleep ?y t \<longleftrightarrow> asleep y t" for t using F(3) by (simp add: asleep_def)
  have at: "all_tasks k' = all_tasks (y_k y)" using F(2) by (simp add: all_tasks_def)
  have "\<not> asleep ?y (current_tasks k' d)" if "p (current_tasks k' d) = Trying i" for d i
  proof (cases "d = c")
    case True
    then show ?thesis using F(5) by (simp add: asleep_def cur_def)
  next
    case False
    then show ?thesis using that F(4) [of d] other [of d] I(8) [of d i] al by simp
  qed
  then show ?thesis
    unfolding sys_inv_def al pos using I F(1,2) at by (simp add: free)
qed

lemma sem_step_inv: "sem_step Z y y' \<Longrightarrow> sys_inv Z y \<Longrightarrow> sys_inv Z y'"
proof (induction rule: sem_step.induct)
  case (call t y c i)
  note inv = call(5)
  note I = sys_invD [OF inv]
  let ?y = "y\<lparr>y_pos := (y_pos y)(t := Trying i)\<rparr>"
  have t: "t \<in> all_tasks (y_k y)" using call(1,2) kmt_invD(6) [OF I(1), of c] by (auto simp: all_tasks_def)
  have na: "\<not> asleep y t" using I(7) [OF t] call(3) by blast
  have al: "asleep ?y u \<longleftrightarrow> asleep y u" for u by (simp add: asleep_def)
  have W: "{u. in_sem ?y j u \<and> asleep y u} = {u. in_sem y j u \<and> asleep y u}" for j
    using na call(3) by (auto simp: in_sem_def)
  have A: "{u. in_sem ?y j u \<and> \<not> asleep y u} =
      (if j = i then insert t {u. in_sem y j u \<and> \<not> asleep y u} else {u. in_sem y j u \<and> \<not> asleep y u})" for j
    using na call(3) by (auto simp: in_sem_def)
  have fin: "finite {u. in_sem y j u \<and> \<not> asleep y u}" for j
    using I(2) by (rule finite_subset [rotated]) (use I(6) in \<open>auto simp: in_sem_def\<close>)
  show ?case
    unfolding sys_inv_def al W A using I t na call(4) fin by (auto intro: sem_ok_call)
next
  case (take t y c i k' s')
  note inv = take(4)
  note I = sys_invD [OF inv]
  let ?y = "y\<lparr>y_k := k', y_sem := (y_sem y)(i := s'), y_pos := (y_pos y)(t := Free)\<rparr>"
  have na: "\<not> asleep y t" using I(8) [of c i] take(1,2) by simp
  have fin: "finite {u. in_sem y i u \<and> \<not> asleep y u}"
    using I(2) by (rule finite_subset [rotated]) (use I(6) in \<open>auto simp: in_sem_def\<close>)
  note P = pass_take [OF I(9) [of i] take(3) _ fin, of t]
  have k: "k' = y_k y" and ok: "sem_ok s' {u. in_sem y i u \<and> asleep y u} ({u. in_sem y i u \<and> \<not> asleep y u} - {t})"
    using P na take(2) by (auto simp: in_sem_def)
  have al: "asleep ?y u \<longleftrightarrow> asleep y u" for u by (simp add: asleep_def k)
  have W: "{u. in_sem ?y j u \<and> asleep y u} = {u. in_sem y j u \<and> asleep y u}" for j
    using na by (auto simp: in_sem_def)
  have A: "{u. in_sem ?y j u \<and> \<not> asleep y u} =
      (if j = i then {u. in_sem y j u \<and> \<not> asleep y u} - {t} else {u. in_sem y j u \<and> \<not> asleep y u})" for j
    using take(2) by (auto simp: in_sem_def)
  show ?case
    unfolding sys_inv_def al W A using I na ok by (auto simp: k)
next
  case (park t y c i k' s')
  note inv = park(4)
  note I = sys_invD [OF inv]
  let ?y = "y\<lparr>y_k := k', y_sem := (y_sem y)(i := s'), y_pos := (y_pos y)(t := Parked i)\<rparr>"
  have t0: "t \<noteq> 0" using sys_inv_current [OF inv, of t] park(2) by simp
  have t: "t \<in> all_tasks (y_k y)" using I(6) [of t] park(2) by simp
  have na: "\<not> asleep y t" using I(8) [of c i] park(1,2) by simp
  have "{u. in_sem y i u \<and> asleep y u} \<subseteq> all_tasks (y_k y) - {t}"
    using I(6) na by (auto simp: in_sem_def)
  then have "card {u. in_sem y i u \<and> asleep y u} \<le> card (all_tasks (y_k y) - {t})"
    by (rule card_mono [rotated]) (use I(2) in simp)
  also have "\<dots> < card (all_tasks (y_k y))" using t I(2) by (rule card_Diff1_less [rotated])
  finally have "card {u. in_sem y i u \<and> asleep y u} < 40" using I(3) by simp
  note P = pass_park [OF I(9) [of i] park(3,1) t0 _ this]
  have k: "k' = set_status (y_k y) t Suspend" and ok: "\<And>A'. sem_ok s' (insert t {u. in_sem y i u \<and> asleep y u}) A'"
    using P na by auto
  have al: "asleep ?y u \<longleftrightarrow> u = t \<or> asleep y u" for u by (simp add: asleep_def k)
  have W: "{u. in_sem ?y j u \<and> (u = t \<or> asleep y u)} =
      (if j = i then insert t {u. in_sem y j u \<and> asleep y u} else {u. in_sem y j u \<and> asleep y u})" for j
    using na park(2) by (auto simp: in_sem_def)
  have A: "j \<noteq> i \<Longrightarrow> {u. in_sem ?y j u \<and> \<not> (u = t \<or> asleep y u)} = {u. in_sem y j u \<and> \<not> asleep y u}" for j
    using park(2) by (auto simp: in_sem_def)
  have K: "kmt_inv k'" unfolding k by (rule set_status_inv [OF I(1) t0]) simp_all
  have lists: "tasks_of k' = tasks_of (y_k y)" "all_tasks k' = all_tasks (y_k y)" "current_tasks k' = current_tasks (y_k y)"
    by (auto simp: k all_tasks_def tasks_of_def)
  have zt: "t \<notin> Z" using I(5) [of t] park(2) by auto
  have S: "sem_ok (y_sem ?y j) {u. in_sem ?y j u \<and> asleep ?y u} {u. in_sem ?y j u \<and> \<not> asleep ?y u}" for j
    unfolding al W using ok I(9) [of j] A [of j] by simp
  show ?case
    unfolding sys_inv_def
  proof (intro conjI)
    show "\<forall>i. sem_ok (y_sem ?y i) {t. in_sem ?y i t \<and> asleep ?y t} {t. in_sem ?y i t \<and> \<not> asleep ?y t}" using S by blast
    show "\<forall>c i. y_pos ?y (current_tasks (y_k ?y) c) = Trying i \<longrightarrow> \<not> asleep ?y (current_tasks (y_k ?y) c)"
      unfolding al using I(8) by (auto simp: lists)
    show "\<forall>t\<in>all_tasks (y_k ?y). asleep ?y t \<longrightarrow> y_pos ?y t \<noteq> Free" unfolding al using I(7) by (auto simp: lists)
  qed (use I K lists t zt in auto)
next
  case (yield t y c i ctx r k')
  note inv = yield(4)
  let ?p = "(y_pos y)(t := Trying i)"
  have t0: "t \<noteq> 0" using sys_inv_current [OF inv, of t] yield(2) by simp
  show ?case
  proof (rule switch_keeps [OF inv yield(3)])
    show "in_sem (y\<lparr>y_k := k', y_pos := ?p\<rparr>) j u \<longleftrightarrow> in_sem y j u" for j u
      using yield(2) by (auto simp: in_sem_def)
    show "?p (current_tasks (y_k y) d) = y_pos y (current_tasks (y_k y) d)" if "d \<noteq> c" for d
      using tasks_disjoint [OF sys_invD(1) [OF inv], of d c] that t0 yield(1) by auto
  qed
next
  case (timer y c ctx r k')
  have "sys_inv Z (y\<lparr>y_k := k', y_pos := y_pos y\<rparr>)"
    by (rule switch_keeps [OF timer(2,1)]) (simp_all add: in_sem_def)
  then show ?case by simp
next
  case (signal y i k' s')
  note inv = signal(2)
  note I = sys_invD [OF inv]
  let ?y = "y\<lparr>y_k := k', y_sem := (y_sem y)(i := s')\<rparr>"
  have ins: "in_sem ?y j u \<longleftrightarrow> in_sem y j u" for j u by (simp add: in_sem_def)
  from I(9) [of i] show ?case
  proof (cases rule: signal_runs [where k = "y_k y"])
    case (none s)
    then have ks: "k' = y_k y" "s' = s" using signal(1) by simp_all
    have al: "asleep ?y u \<longleftrightarrow> asleep y u" for u by (simp add: asleep_def ks)
    have S: "sem_ok (y_sem ?y j) {u. in_sem y j u \<and> asleep y u} {u. in_sem y j u \<and> \<not> asleep y u}" for j
    proof (cases "j = i")
      case True
      have "sem_ok s {u. in_sem y i u \<and> asleep y u} {u. in_sem y j u \<and> \<not> asleep y u}"
        unfolding none(1) by (rule none(3))
      then show ?thesis using True by (simp add: ks)
    next
      case False
      then show ?thesis using I(9) [of j] by simp
    qed
    show ?thesis unfolding sys_inv_def al ins using I(1-8) S by (auto simp: ks)
  next
    case (woken x s)
    then have ks: "k' = set_status (y_k y) x Ready" "s' = s" using signal(1) by simp_all
    have x: "in_sem y i x" "asleep y x" using woken(1) by auto
    have x0: "x \<noteq> 0" using sys_inv_current [OF inv, of x] x(1) by (auto simp: in_sem_def)
    have al: "asleep ?y u \<longleftrightarrow> u \<noteq> x \<and> asleep y u" for u by (simp add: asleep_def ks)
    have fin: "finite {u. in_sem y i u \<and> \<not> asleep y u}"
      using I(2) by (rule finite_subset [rotated]) (use I(6) in \<open>auto simp: in_sem_def\<close>)
    have W: "{u. in_sem y j u \<and> u \<noteq> x \<and> asleep y u} = {u. in_sem y j u \<and> asleep y u} - {x}" for j by auto
    have A: "{u. in_sem y i u \<and> \<not> (u \<noteq> x \<and> asleep y u)} = insert x {u. in_sem y i u \<and> \<not> asleep y u}" using x by auto
    have o: "{u. in_sem y j u \<and> u \<noteq> x \<and> asleep y u} = {u. in_sem y j u \<and> asleep y u}"
      "{u. in_sem y j u \<and> \<not> (u \<noteq> x \<and> asleep y u)} = {u. in_sem y j u \<and> \<not> asleep y u}" if "j \<noteq> i" for j
      using x(1) that by (auto simp: in_sem_def)
    have oki: "sem_ok s {u. in_sem y i u \<and> u \<noteq> x \<and> asleep y u} {u. in_sem y i u \<and> \<not> (u \<noteq> x \<and> asleep y u)}"
      unfolding W A by (rule woken(3)) (use fin x in simp_all)
    have S: "sem_ok (y_sem ?y j) {u. in_sem ?y j u \<and> asleep ?y u} {u. in_sem ?y j u \<and> \<not> asleep ?y u}" for j
      unfolding al ins using oki I(9) [of j] o [of j] by (cases "j = i") (simp_all add: ks)
    have K: "kmt_inv k'" unfolding ks by (rule set_status_inv [OF I(1) x0]) simp_all
    have lists: "tasks_of k' = tasks_of (y_k y)" "all_tasks k' = all_tasks (y_k y)" "current_tasks k' = current_tasks (y_k y)"
      by (auto simp: ks all_tasks_def tasks_of_def)
    show ?thesis
      unfolding sys_inv_def
    proof (intro conjI)
      show "\<forall>i. sem_ok (y_sem ?y i) {t. in_sem ?y i t \<and> asleep ?y t} {t. in_sem ?y i t \<and> \<not> asleep ?y t}" using S by blast
      show "\<forall>c i. y_pos ?y (current_tasks (y_k ?y) c) = Trying i \<longrightarrow> \<not> asleep ?y (current_tasks (y_k ?y) c)"
        unfolding al using I(8) by (auto simp: lists)
      show "\<forall>t\<in>all_tasks (y_k ?y). asleep ?y t \<longrightarrow> y_pos ?y t \<noteq> Free" unfolding al using I(7) by (auto simp: lists)
    qed (use I K lists in auto)
  qed
qed

section \<open>Reachable states\<close>

definition sys_start :: "nat set \<Rightarrow> sys \<Rightarrow> bool" where
  "sys_start Z y \<longleftrightarrow> kmt_inv (y_k y) \<and> finite (all_tasks (y_k y)) \<and> card (all_tasks (y_k y)) \<le> 40 \<and>
     (\<forall>c. tasks_of (y_k y) c \<noteq> {} \<longrightarrow> (\<exists>z \<in> Z. z \<in> tasks_of (y_k y) c)) \<and> (\<forall>t. y_pos y t = Free) \<and>
     (\<forall>t \<in> all_tasks (y_k y). t_status (k_task (y_k y) t) \<noteq> Suspend) \<and>
     (\<forall>i. \<exists>v \<ge> 0. y_sem y i = seminit v)"

inductive sem_reach :: "nat set \<Rightarrow> sys \<Rightarrow> bool" for Z where
  start: "sys_start Z y \<Longrightarrow> sem_reach Z y"
| step: "sem_reach Z y \<Longrightarrow> sem_step Z y y' \<Longrightarrow> sem_reach Z y'"

lemma sys_start_inv: "sys_start Z y \<Longrightarrow> sys_inv Z y"
proof -
  assume st: "sys_start Z y"
  have ok: "sem_ok (seminit v) {} {}" if "0 \<le> v" for v
    using that seminit_holds [of v] by (auto simp: sem_ok_def) (auto simp: seminit_def)
  have ns: "in_sem y i t = False" for i t using st by (simp add: in_sem_def sys_start_def)
  have "sem_ok (y_sem y i) {} {}" for i using st ok unfolding sys_start_def by metis
  then show ?thesis
    using st unfolding sys_inv_def ns by (simp add: sys_start_def asleep_def)
qed

lemma sem_reach_inv: "sem_reach Z y \<Longrightarrow> sys_inv Z y"
  by (induction rule: sem_reach.induct) (auto intro: sys_start_inv sem_step_inv)


text \<open>
  C15. No wake-up is lost.  A task waits in the list of a semaphore exactly when it is suspended by it;
  and when a semaphore has a positive count while tasks sleep on it, at least that many tasks inside
  \<open>semwait\<close> on it are able to run, also when the signal came between the release of the lock and the
  \<open>_yield\<close> of the waiter.  No suspended task is ever in a round of the loop.
\<close>

theorem semaphores_lose_no_wakeup:
  assumes "sem_reach Z y"
  shows "(\<exists>xs. sem_holds (y_sem y i) xs \<and> distinct xs \<and> set xs = {t. in_sem y i t \<and> asleep y t}) \<and>
    0 \<le> s_value (y_sem y i) \<and>
    ({t. in_sem y i t \<and> asleep y t} \<noteq> {} \<longrightarrow> s_value (y_sem y i) \<le> int (card {t. in_sem y i t \<and> \<not> asleep y t})) \<and>
    (y_pos y (current_tasks (y_k y) c) = Trying i \<longrightarrow> \<not> asleep y (current_tasks (y_k y) c))"
  using sys_invD(8,9) [OF sem_reach_inv [OF assms]] unfolding sem_ok_def by blast

text \<open>
  An instance: task 300 runs on CPU 0, where 100 never waits, and calls \<open>semwait\<close> on an empty semaphore.
\<close>

definition demo_sys :: sys where
  "demo_sys = \<lparr>y_k = (set_task demo_kmt 300 ((demo_task 1 9)\<lparr>t_cpu := Some 0, t_status := Running\<rparr>))
     \<lparr>current_tasks := (\<lambda>_. 0)(0 := 300)\<rparr>, y_sem = \<lambda>_. seminit 0, y_pos = \<lambda>_. Free\<rparr>"

lemma demo_sys_tasks:
  "tasks_of (y_k demo_sys) c = (if c = 0 then {100, 300} else if c = 1 then {200} else {})"
  by (simp add: demo_sys_def demo_kmt_def tasks_of_def)

lemma demo_sys_start: "sys_start {100, 200} demo_sys"
proof -
  have all: "all_tasks (y_k demo_sys) = {100, 300, 200}"
    using demo_sys_tasks by (fastforce simp: all_tasks_def split: if_splits)
  have "kmt_inv (y_k demo_sys)"
    by (auto simp: kmt_inv_def demo_sys_def demo_kmt_def tasks_of_def NTHREAD_def demo_task_def set_task_def cur_def
        less_Suc_eq nth_Cons split: if_splits nat.splits)
  then show ?thesis
    unfolding sys_start_def all
    by (auto simp: demo_sys_tasks) (auto simp: demo_sys_def demo_kmt_def demo_task_def set_task_def)
qed

definition demo_trying :: sys where
  "demo_trying = demo_sys\<lparr>y_pos := (\<lambda>_. Free)(300 := Trying 0)\<rparr>"

lemma demo_trying_reach: "sem_reach {100, 200} demo_trying"
proof -
  have "sem_step {100, 200} demo_sys (demo_sys\<lparr>y_pos := (y_pos demo_sys)(300 := Trying 0)\<rparr>)"
    by (rule call [of _ _ 0]) (simp_all add: demo_sys_def)
  moreover have "demo_sys\<lparr>y_pos := (y_pos demo_sys)(300 := Trying 0)\<rparr> = demo_trying"
    by (simp add: demo_trying_def demo_sys_def)
  ultimately show ?thesis using sem_reach.step [OF sem_reach.start [OF demo_sys_start]] by simp
qed


lemma semaphores_lose_no_wakeup_witness:
  "\<exists>y. sem_reach {100, 200} y \<and> asleep y 300 \<and> s_value (y_sem y 0) \<le> int (card {t. in_sem y 0 t \<and> \<not> asleep y t})"
proof -
  obtain s' where s': "sem_enq (seminit 0) 300 = Inr s'"
    using waiting_list.enq_holds [OF seminit_holds, of 300 0] by auto
  define y where "y = demo_trying\<lparr>y_k := set_status (y_k demo_trying) 300 Suspend,
    y_sem := (y_sem demo_trying)(0 := s'), y_pos := (y_pos demo_trying)(300 := Parked 0)\<rparr>"
  have p: "semwait_pass 0 (y_k demo_trying) (y_sem demo_trying 0) = Inr (False, set_status (y_k demo_trying) 300 Suspend, s')"
    using s' by (simp add: semwait_pass_def demo_trying_def demo_sys_def) (simp add: seminit_def)
  have "sem_step {100, 200} demo_trying y"
    unfolding y_def by (rule park [OF _ _ p]) (simp_all add: demo_trying_def demo_sys_def)
  then have r: "sem_reach {100, 200} y" by (rule sem_reach.step [OF demo_trying_reach])
  have a: "asleep y 300" "in_sem y 0 300" by (simp_all add: asleep_def in_sem_def y_def)
  then have "{t. in_sem y 0 t \<and> asleep y t} \<noteq> {}" by auto
  with semaphores_lose_no_wakeup [OF r, of 0] r a(1) show ?thesis by blast
qed

end
