(* ===== verification/Stdio.thy ===== *)
theory Stdio
  imports Prelude
begin

unbundle bit_operations_syntax

text \<open>
  The formatted output of the runtime library (\<open>abstract-machine/libs/klib/src/stdio.c\<close>) with the
  character classes it uses (\<open>ctype.c\<close>, \<open>ctype.h\<close>).  Strings are C strings without their NUL.
  \<open>vsprintf\<close> produces the bytes it stores before the final NUL; a conversion that asks for an argument
  of another kind, or for one that was not passed, follows a wild pointer.
\<close>

section \<open>Character classes\<close>

definition U_bit :: nat where "U_bit = 0x01"
definition L_bit :: nat where "L_bit = 0x02"
definition D_bit :: nat where "D_bit = 0x04"
definition C_bit :: nat where "C_bit = 0x08"
definition P_bit :: nat where "P_bit = 0x10"
definition S_bit :: nat where "S_bit = 0x20"
definition X_bit :: nat where "X_bit = 0x40"
definition SP_bit :: nat where "SP_bit = 0x80"

text \<open>The table \<open>_ctype\<close>, with runs of equal entries written as \<open>replicate\<close>.\<close>

definition ctype_table :: "nat list" where
  "ctype_table =
     replicate 9 C_bit @ replicate 5 (C_bit OR S_bit) @ replicate 18 C_bit @
     [S_bit OR SP_bit] @ replicate 15 P_bit @ replicate 10 D_bit @ replicate 7 P_bit @
     replicate 6 (U_bit OR X_bit) @ replicate 20 U_bit @ replicate 6 P_bit @
     replicate 6 (L_bit OR X_bit) @ replicate 20 L_bit @ replicate 4 P_bit @ [C_bit] @
     replicate 32 0 @ [S_bit OR SP_bit] @ replicate 31 P_bit @
     replicate 23 U_bit @ [P_bit] @ replicate 7 U_bit @ [L_bit] @
     replicate 23 L_bit @ [P_bit] @ replicate 8 L_bit"

definition ismask :: "char \<Rightarrow> nat" where
  "ismask c = ctype_table ! (of_char c)"

definition isdigit :: "char \<Rightarrow> bool" where "isdigit c \<longleftrightarrow> schar CHR ''0'' \<le> schar c \<and> schar c \<le> schar CHR ''9''"
definition islower :: "char \<Rightarrow> bool" where "islower c \<longleftrightarrow> ismask c AND L_bit \<noteq> 0"
definition isxdigit :: "char \<Rightarrow> bool" where "isxdigit c \<longleftrightarrow> ismask c AND (D_bit OR X_bit) \<noteq> 0"

definition isalnum :: "char \<Rightarrow> bool" where "isalnum c \<longleftrightarrow> ismask c AND (U_bit OR L_bit OR D_bit) \<noteq> 0"
definition isalpha :: "char \<Rightarrow> bool" where "isalpha c \<longleftrightarrow> ismask c AND (U_bit OR L_bit) \<noteq> 0"
definition iscntrl :: "char \<Rightarrow> bool" where "iscntrl c \<longleftrightarrow> ismask c AND C_bit \<noteq> 0"
definition isgraph :: "char \<Rightarrow> bool" where "isgraph c \<longleftrightarrow> ismask c AND (P_bit OR U_bit OR L_bit OR D_bit) \<noteq> 0"
definition isprint :: "char \<Rightarrow> bool" where
  "isprint c \<longleftrightarrow> ismask c AND (P_bit OR U_bit OR L_bit OR D_bit OR SP_bit) \<noteq> 0"
definition ispunct :: "char \<Rightarrow> bool" where "ispunct c \<longleftrightarrow> ismask c AND P_bit \<noteq> 0"
definition isspace :: "char \<Rightarrow> bool" where "isspace c \<longleftrightarrow> ismask c AND S_bit \<noteq> 0"
definition isupper :: "char \<Rightarrow> bool" where "isupper c \<longleftrightarrow> ismask c AND U_bit \<noteq> 0"
definition isascii :: "char \<Rightarrow> bool" where "isascii c \<longleftrightarrow> (of_char c :: nat) \<le> 0x7F"
definition toascii :: "char \<Rightarrow> nat" where "toascii c = of_char c AND 0x7F"
definition isodigit :: "char \<Rightarrow> bool" where "isodigit c \<longleftrightarrow> schar CHR ''0'' \<le> schar c \<and> schar c \<le> schar CHR ''7''"

definition toupper :: "char \<Rightarrow> nat" where
  "toupper c = (if islower c then of_char c - 32 else of_char c)"

definition tolower :: "char \<Rightarrow> nat" where
  "tolower c = (if isupper c then (of_char c + 32) mod 256 else of_char c)"

definition fast_tolower :: "char \<Rightarrow> nat" where
  "fast_tolower c = of_char c OR 0x20"

lemma length_ctype_table: "length ctype_table = 256"
  by (simp add: ctype_table_def)

text \<open>On ASCII the classes are the ranges of the C standard, and the cases are converted into each other.\<close>

definition standard_classes :: "nat \<Rightarrow> bool" where
  "standard_classes n =
     (let c = char_of n; up = 65 \<le> n \<and> n \<le> 90; low = 97 \<le> n \<and> n \<le> 122; dig = 48 \<le> n \<and> n \<le> 57
      in isupper c = up \<and> islower c = low \<and> isdigit c = dig \<and> isalpha c = (up \<or> low) \<and> isalnum c = (up \<or> low \<or> dig) \<and>
         isxdigit c = (dig \<or> 65 \<le> n \<and> n \<le> 70 \<or> 97 \<le> n \<and> n \<le> 102) \<and> iscntrl c = (n < 32 \<or> n = 127) \<and>
         isspace c = (n = 32 \<or> 9 \<le> n \<and> n \<le> 13) \<and> isgraph c = (33 \<le> n \<and> n \<le> 126) \<and>
         isprint c = (32 \<le> n \<and> n \<le> 126) \<and> ispunct c = (isgraph c \<and> \<not> isalnum c) \<and>
         toupper c = (if low then n - 32 else n) \<and> tolower c = (if up then n + 32 else n))"

definition ascii_mask :: "nat \<Rightarrow> nat" where
  "ascii_mask n =
     (if n < 9 \<or> 14 \<le> n \<and> n < 32 \<or> n = 127 then 8 else if n < 14 then 40 else if n = 32 then 160
      else if 48 \<le> n \<and> n \<le> 57 then 4 else if 65 \<le> n \<and> n \<le> 70 then 65 else if 71 \<le> n \<and> n \<le> 90 then 1
      else if 97 \<le> n \<and> n \<le> 102 then 66 else if 103 \<le> n \<and> n \<le> 122 then 2 else 16)"

lemma ctype_ascii: "n < 128 \<Longrightarrow> ismask (char_of n) = ascii_mask n"
proof -
  assume n: "n < 128"
  have "take 128 ctype_table = map ascii_mask [0..<128]" by code_simp
  then have "take 128 ctype_table ! n = map ascii_mask [0..<128] ! n" by simp
  then show ?thesis using n by (simp add: ismask_def)
qed

lemma ascii_classes:
  assumes "n < 128"
  shows "standard_classes n"
proof -
  have c: "ismask (char_of n) = ascii_mask n" "(of_char (char_of n) :: nat) = n" "schar (char_of n) = int n"
    using assms ctype_ascii by (simp_all add: schar_def)
  note bits = U_bit_def L_bit_def D_bit_def C_bit_def P_bit_def S_bit_def X_bit_def SP_bit_def
  have up: "isupper (char_of n) \<longleftrightarrow> 65 \<le> n \<and> n \<le> 90" by (auto simp: isupper_def c bits ascii_mask_def)
  have low: "islower (char_of n) \<longleftrightarrow> 97 \<le> n \<and> n \<le> 122" by (auto simp: islower_def c bits ascii_mask_def)
  have "isdigit (char_of n) \<longleftrightarrow> 48 \<le> n \<and> n \<le> 57" 
    unfolding isdigit_def c(3) by (auto simp: schar_def)
  moreover have "isalpha (char_of n) \<longleftrightarrow> 65 \<le> n \<and> n \<le> 90 \<or> 97 \<le> n \<and> n \<le> 122" by (auto simp: isalpha_def c bits ascii_mask_def)
  moreover have an: "isalnum (char_of n) \<longleftrightarrow> 65 \<le> n \<and> n \<le> 90 \<or> 97 \<le> n \<and> n \<le> 122 \<or> 48 \<le> n \<and> n \<le> 57"
    by (auto simp: isalnum_def c bits ascii_mask_def)
  moreover have "isxdigit (char_of n) \<longleftrightarrow> 48 \<le> n \<and> n \<le> 57 \<or> 65 \<le> n \<and> n \<le> 70 \<or> 97 \<le> n \<and> n \<le> 102"
    by (auto simp: isxdigit_def c bits ascii_mask_def)
  moreover have "iscntrl (char_of n) \<longleftrightarrow> n < 32 \<or> n = 127" by (auto simp: iscntrl_def c bits ascii_mask_def)
  moreover have "isspace (char_of n) \<longleftrightarrow> n = 32 \<or> 9 \<le> n \<and> n \<le> 13" by (auto simp: isspace_def c bits ascii_mask_def)
  moreover have gr: "isgraph (char_of n) \<longleftrightarrow> 33 \<le> n \<and> n \<le> 126" using assms by (auto simp: isgraph_def c bits ascii_mask_def)
  moreover have "isprint (char_of n) \<longleftrightarrow> 32 \<le> n \<and> n \<le> 126" using assms by (auto simp: isprint_def c bits ascii_mask_def)
  moreover have "ispunct (char_of n) \<longleftrightarrow> isgraph (char_of n) \<and> \<not> isalnum (char_of n)"
    unfolding an gr using assms by (auto simp: ispunct_def c bits ascii_mask_def)
  moreover have "toupper (char_of n) = (if 97 \<le> n \<and> n \<le> 122 then n - 32 else n)" using assms by (simp add: toupper_def low c)
  moreover have "tolower (char_of n) = (if 65 \<le> n \<and> n \<le> 90 then n + 32 else n)" using assms by (simp add: tolower_def up c)
  ultimately show ?thesis using up low unfolding standard_classes_def Let_def by blast
qed

section \<open>Reading numbers\<close>

text \<open>The value of a digit in \<open>simple_strtoul\<close>.\<close>

definition digit_value :: "char \<Rightarrow> nat" where
  "digit_value c = (if isdigit c then of_char c - 48 else (if islower c then toupper c else of_char c) - 65 + 10)"

fun strtoul_loop :: "string \<Rightarrow> nat \<Rightarrow> nat \<Rightarrow> nat \<times> string" where
  "strtoul_loop [] base result = (result, [])"
| "strtoul_loop (c # cs) base result =
     (if isxdigit c \<and> digit_value c < base
      then strtoul_loop cs base ((result * base + digit_value c) mod 2 ^ 32) else (result, c # cs))"

definition strtoul_base :: "string \<Rightarrow> nat \<times> string" where
  "strtoul_base cp =
     (case cp of
        [] \<Rightarrow> (10, cp)
      | c # cs \<Rightarrow>
          if c = CHR ''0'' then
            (case cs of
               x # d # ds \<Rightarrow> if x = CHR ''x'' \<and> isxdigit d then (16, d # ds) else (8, cs)
             | _ \<Rightarrow> (8, cs))
          else (10, cp))"

definition simple_strtoul :: "string \<Rightarrow> nat \<Rightarrow> nat \<times> string" where
  "simple_strtoul cp base =
     (if base = 0 then (case strtoul_base cp of (b, s) \<Rightarrow> strtoul_loop s b 0) else strtoul_loop cp base 0)"

definition is_digit :: "char \<Rightarrow> bool" where
  "is_digit c \<longleftrightarrow> schar CHR ''0'' \<le> schar c \<and> schar c \<le> schar CHR ''9''"

fun skip_atoi_loop :: "string \<Rightarrow> int \<Rightarrow> int \<times> string" where
  "skip_atoi_loop [] i = (i, [])"
| "skip_atoi_loop (c # cs) i = (if is_digit c then skip_atoi_loop cs (i * 10 + schar c - 48) else (i, c # cs))"

definition skip_atoi :: "string \<Rightarrow> int \<times> string" where
  "skip_atoi s = skip_atoi_loop s 0"

section \<open>Writing numbers\<close>

definition ZEROPAD :: nat where "ZEROPAD = 1"
definition SIGN :: nat where "SIGN = 2"
definition PLUS :: nat where "PLUS = 4"
definition SPACE :: nat where "SPACE = 8"
definition LEFT :: nat where "LEFT = 16"
definition SPECIAL :: nat where "SPECIAL = 32"
definition SMALL :: nat where "SMALL = 64"

definition flag :: "nat \<Rightarrow> nat \<Rightarrow> bool" where "flag type b \<longleftrightarrow> type AND b \<noteq> 0"

definition digits_table :: "bool \<Rightarrow> string" where
  "digits_table small =
     (if small then ''0123456789abcdefghijklmnopqrstuvwxyz'' else ''0123456789ABCDEFGHIJKLMNOPQRSTUVWXYZ'')"

text \<open>
  The loop \<open>tmp[i++] = digits[do_div(num, base)]\<close>: \<open>divl\<close> divides without sign.  The result is \<open>tmp\<close>,
  the last digit first.
\<close>

function num_digits :: "nat \<Rightarrow> nat \<Rightarrow> nat list" where
  "num_digits base n = (if n = 0 \<or> base < 2 then [] else (n mod base) # num_digits base (n div base))"
  by pat_completeness auto
termination
  by (relation "measure snd") auto

declare num_digits.simps [simp del]

definition number_tmp :: "nat \<Rightarrow> nat \<Rightarrow> nat list" where
  "number_tmp base n = (if n = 0 then [0] else num_digits base n)"

text \<open>
  The bytes that \<open>number\<close> stores from \<open>str\<close> on.  The three padding loops share the counter \<open>size\<close> (\<open>sz\<close> here), so at
  most one of them runs.  \<open>None\<close> is the result 0 for a bad base.
\<close>

definition number :: "32 word \<Rightarrow> nat \<Rightarrow> int \<Rightarrow> int \<Rightarrow> nat \<Rightarrow> string option" where
  "number num base sz precision type =
     (let digits = digits_table (flag type SMALL);
          left = flag type LEFT;
          zeropad = (flag type ZEROPAD \<and> \<not> left);
          c = (if zeropad then CHR ''0'' else CHR '' '');
          neg = (flag type SIGN \<and> sint num < 0);
          n = unat (if neg then - num else num);
          sign = (if neg then ''-'' else if flag type PLUS then ''+'' else if flag type SPACE then '' '' else []);
          prefix = (if flag type SPECIAL then
                      if base = 8 then ''0'' else if base = 16 then [CHR ''0'', digits ! 33] else [] else []);
          size1 = sz - int (length sign) - int (length prefix);
          tmp = number_tmp base n;
          prec = (if int (length tmp) > precision then int (length tmp) else precision);
          pad = nat (size1 - prec)
      in if base < 2 \<or> 36 < base then None
         else Some
           ((if \<not> zeropad \<and> \<not> left then replicate pad CHR '' '' else []) @ sign @ prefix @
            (if zeropad then replicate pad c else []) @
            replicate (nat (prec - int (length tmp))) CHR ''0'' @ map (nth digits) (rev tmp) @
            (if left then replicate pad CHR '' '' else [])))"

section \<open>\<open>vsprintf\<close>\<close>

text \<open>
  The arguments are numbers, strings (\<open>None\<close> for \<open>NULL\<close>) and the addresses that \<open>%n\<close> stores the count of
  bytes at; these stores are listed beside the bytes, in the order they are made.
\<close>

datatype arg = A_int "32 word" | A_str "string option" | A_ptr "32 word"

type_synonym stores = "(32 word \<times> nat) list"

fun pop_int :: "arg list \<Rightarrow> (32 word \<times> arg list) res" where
  "pop_int (A_int w # as) = Inr (w, as)"
| "pop_int _ = Inl Wild_ptr"

fun pop_str :: "arg list \<Rightarrow> (string option \<times> arg list) res" where
  "pop_str (A_str s # as) = Inr (s, as)"
| "pop_str _ = Inl Wild_ptr"

fun pop_ptr :: "arg list \<Rightarrow> (32 word \<times> arg list) res" where
  "pop_ptr (A_ptr w # as) = Inr (w, as)"
| "pop_ptr _ = Inl Wild_ptr"

text \<open>The loop at \<open>repeat\<close>, from the character behind the \<open>%\<close>.\<close>

fun fmt_flags :: "string \<Rightarrow> nat \<Rightarrow> nat \<times> string" where
  "fmt_flags [] flags = (flags, [])"
| "fmt_flags (c # cs) flags =
     (if c = CHR ''-'' then fmt_flags cs (flags OR LEFT)
      else if c = CHR ''+'' then fmt_flags cs (flags OR PLUS)
      else if c = CHR '' '' then fmt_flags cs (flags OR SPACE)
      else if c = CHR ''#'' then fmt_flags cs (flags OR SPECIAL)
      else if c = CHR ''0'' then fmt_flags cs (flags OR ZEROPAD)
      else (flags, c # cs))"

text \<open>The code does not step over the \<open>*\<close>, neither here nor in the precision.\<close>

definition fmt_width :: "string \<Rightarrow> nat \<Rightarrow> arg list \<Rightarrow> (int \<times> nat \<times> string \<times> arg list) res" where
  "fmt_width cs flags as =
     (case cs of
        [] \<Rightarrow> Inr (- 1, flags, cs, as)
      | c # _ \<Rightarrow>
          if is_digit c then (case skip_atoi cs of (w, cs') \<Rightarrow> Inr (w, flags, cs', as))
          else if c = CHR ''*'' then
            rbind (pop_int as) (\<lambda>(w, as').
            Inr (if sint w < 0 then (- sint w, flags OR LEFT, cs, as') else (sint w, flags, cs, as')))
          else Inr (- 1, flags, cs, as))"

definition fmt_precision :: "string \<Rightarrow> arg list \<Rightarrow> (int \<times> string \<times> arg list) res" where
  "fmt_precision cs as =
     (case cs of
        [] \<Rightarrow> Inr (- 1, cs, as)
      | c # cs1 \<Rightarrow>
          if c = CHR ''.'' then
            (case cs1 of
               [] \<Rightarrow> Inr (0, cs1, as)
             | d # _ \<Rightarrow>
                 if is_digit d then (case skip_atoi cs1 of (p, cs') \<Rightarrow> Inr (max p 0, cs', as))
                 else if d = CHR ''*'' then rbind (pop_int as) (\<lambda>(p, as'). Inr (max (sint p) 0, cs1, as'))
                 else Inr (0, cs1, as))
          else Inr (- 1, cs, as))"

definition fmt_qualifier :: "string \<Rightarrow> string" where
  "fmt_qualifier cs =
     (case cs of [] \<Rightarrow> [] | c # cs1 \<Rightarrow> if c = CHR ''h'' \<or> c = CHR ''l'' \<or> c = CHR ''L'' then cs1 else cs)"

definition fmt_char :: "32 word \<Rightarrow> int \<Rightarrow> nat \<Rightarrow> string" where
  "fmt_char w width flags =
     (let pad = replicate (nat (width - 1)) CHR '' ''; ch = [char_of (unat (take_bit 8 w))]
      in if flag flags LEFT then ch @ pad else pad @ ch)"

definition fmt_string :: "string option \<Rightarrow> int \<Rightarrow> int \<Rightarrow> nat \<Rightarrow> string" where
  "fmt_string so width precision flags =
     (let s = (case so of None \<Rightarrow> ''<NULL>'' | Some s \<Rightarrow> s);
          t = (if precision < 0 then s else take (nat precision) s);
          pad = replicate (nat (width - int (length t))) CHR '' ''
      in if flag flags LEFT then t @ pad else pad @ t)"

definition conv_number :: "nat \<Rightarrow> nat \<Rightarrow> int \<Rightarrow> int \<Rightarrow> arg list \<Rightarrow> (string \<times> arg list) res" where
  "conv_number base flags width precision as =
     rbind (pop_int as) (\<lambda>(w, as').
     case number w base width precision flags of None \<Rightarrow> Inl Null_deref | Some s \<Rightarrow> Inr (s, as'))"

text \<open>
  The \<open>switch\<close> on the conversion character, with \<open>pos\<close> bytes stored so far: the bytes it stores, the store
  of \<open>%n\<close>, the rest of the format after the step of the \<open>for\<close> loop, and the arguments left.
\<close>

definition convert ::
  "nat \<Rightarrow> string \<Rightarrow> nat \<Rightarrow> int \<Rightarrow> int \<Rightarrow> arg list \<Rightarrow> (string \<times> stores \<times> string \<times> arg list) res"
where
  "convert pos cs flags width precision as =
     (case cs of
        [] \<Rightarrow> Inr (''%'', [], [], as)
      | c # cs1 \<Rightarrow>
          let num = (\<lambda>base fl w. rbind (conv_number base fl w precision as) (\<lambda>(s, as'). Inr (s, [], cs1, as')))
          in if c = CHR ''c'' then rbind (pop_int as) (\<lambda>(w, as'). Inr (fmt_char w width flags, [], cs1, as'))
          else if c = CHR ''s'' then
            rbind (pop_str as) (\<lambda>(s, as'). Inr (fmt_string s width precision flags, [], cs1, as'))
          else if c = CHR ''o'' then num 8 flags width
          else if c = CHR ''p'' then
            (if width = - 1 then num 16 (flags OR ZEROPAD) 8 else num 16 flags width)
          else if c = CHR ''x'' then num 16 (flags OR SMALL) width
          else if c = CHR ''X'' then num 16 flags width
          else if c = CHR ''d'' \<or> c = CHR ''i'' then num 10 (flags OR SIGN) width
          else if c = CHR ''u'' then num 10 flags width
          else if c = CHR ''n'' then rbind (pop_ptr as) (\<lambda>(ip, as'). Inr ([], [(ip, pos)], cs1, as'))
          else Inr ((if c \<noteq> CHR ''%'' then ''%'' else []) @ [c], [], cs1, as))"

definition directive :: "nat \<Rightarrow> string \<Rightarrow> arg list \<Rightarrow> (string \<times> stores \<times> string \<times> arg list) res" where
  "directive pos cs as =
     (case fmt_flags cs 0 of (flags0, cs1) \<Rightarrow>
     rbind (fmt_width cs1 flags0 as) (\<lambda>(width, flags, cs2, as2).
     rbind (fmt_precision cs2 as2) (\<lambda>(precision, cs3, as3).
     convert pos (fmt_qualifier cs3) flags width precision as3)))"

subsection \<open>Termination\<close>

lemma fmt_flags_length: "fmt_flags cs fl = (fl', cs') \<Longrightarrow> length cs' \<le> length cs"
  by (induction cs arbitrary: fl) (auto split: if_splits intro: le_SucI)

lemma skip_atoi_length: "skip_atoi_loop cs i = (n, cs') \<Longrightarrow> length cs' \<le> length cs"
  by (induction cs arbitrary: i) (auto split: if_splits intro: le_SucI)

lemma fmt_width_length: "fmt_width cs fl as = Inr (w, fl', cs', as') \<Longrightarrow> length cs' \<le> length cs"
  by (auto simp: fmt_width_def skip_atoi_def res_simps split: list.splits if_splits prod.splits dest: skip_atoi_length)

lemma fmt_precision_length: "fmt_precision cs as = Inr (p, cs', as') \<Longrightarrow> length cs' \<le> length cs"
  by (auto simp: fmt_precision_def skip_atoi_def res_simps split: list.splits if_splits prod.splits
      dest!: skip_atoi_length)

lemma fmt_qualifier_length: "length (fmt_qualifier cs) \<le> length cs"
  by (auto simp: fmt_qualifier_def split: list.splits)

lemma convert_length: "convert pos cs fl w p as = Inr (s, st, cs', as') \<Longrightarrow> length cs' \<le> length cs"
  by (cases cs) (auto simp: convert_def res_simps Let_def split: if_splits)

lemma directive_length:
  assumes "directive pos cs as = Inr (s, st, cs', as')"
  shows "length cs' \<le> length cs"
proof -
  obtain fl0 cs1 where f: "fmt_flags cs 0 = (fl0, cs1)" by fastforce
  obtain w fl cs2 as2 p cs3 as3 where "fmt_width cs1 fl0 as = Inr (w, fl, cs2, as2)"
    and "fmt_precision cs2 as2 = Inr (p, cs3, as3)" and "convert pos (fmt_qualifier cs3) fl w p as3 = Inr (s, st, cs', as')"
    using assms f by (auto simp: directive_def res_simps)
  then show ?thesis
    using fmt_flags_length [OF f] fmt_width_length fmt_precision_length fmt_qualifier_length [of cs3] convert_length
    by (meson order_trans)
qed

function vsprintf_from :: "nat \<Rightarrow> string \<Rightarrow> arg list \<Rightarrow> (string \<times> stores) res" where
  "vsprintf_from pos [] as = Inr ([], [])"
| "vsprintf_from pos (c # cs) as =
     (if c \<noteq> CHR ''%'' then rbind (vsprintf_from (pos + 1) cs as) (\<lambda>(s, st). Inr (c # s, st))
      else case directive pos cs as of
        Inl e \<Rightarrow> Inl e
      | Inr (s, st, cs', as') \<Rightarrow>
          rbind (vsprintf_from (pos + length s) cs' as') (\<lambda>(s', st'). Inr (s @ s', st @ st')))"
  by pat_completeness auto
termination
  by (relation "measure (length \<circ> fst \<circ> snd)") (auto dest: directive_length simp: le_imp_less_Suc)

definition vsprintf :: "string \<Rightarrow> arg list \<Rightarrow> (string \<times> stores) res" where
  "vsprintf fmt as = vsprintf_from 0 fmt as"

text \<open>\<open>sprintf\<close> returns the bytes with their count; \<open>printf\<close> sends the same bytes to \<open>_putc\<close>.\<close>

definition sprintf :: "string \<Rightarrow> arg list \<Rightarrow> (int \<times> string \<times> stores) res" where
  "sprintf fmt as = rbind (vsprintf fmt as) (\<lambda>(s, st). Inr (int (length s), s, st))"

definition printf :: "string \<Rightarrow> arg list \<Rightarrow> (int \<times> string \<times> stores) res" where
  "printf fmt as = rbind (vsprintf fmt as) (\<lambda>(s, st).
     rbind (require (length s < 5024) Overrun) (\<lambda>_. Inr (int (length s), cstr s, st)))"

section \<open>Numbers read back\<close>

text \<open>The digits of \<open>number\<close>: below the base, at most 32 of them, and of the right value.\<close>

definition digits_value :: "nat \<Rightarrow> nat list \<Rightarrow> nat" where
  "digits_value b ds = foldl (\<lambda>a d. a * b + d) 0 ds"

lemma num_digits_below: "2 \<le> b \<Longrightarrow> d \<in> set (num_digits b n) \<Longrightarrow> d < b"
proof (induction b n rule: num_digits.induct)
  case (1 b n)
  then show ?case by (subst (asm) (2) num_digits.simps) (auto split: if_splits)
qed

lemma num_digits_value: "2 \<le> b \<Longrightarrow> digits_value b (rev (num_digits b n)) = n"
proof (induction b n rule: num_digits.induct)
  case (1 b n)
  then show ?case
    by (subst num_digits.simps) (auto simp: digits_value_def split: if_splits)
qed

lemma num_digits_length: "2 \<le> b \<Longrightarrow> n < 2 ^ k \<Longrightarrow> length (num_digits b n) \<le> k"
proof (induction k arbitrary: n)
  case 0
  then show ?case by (subst num_digits.simps) simp
next
  case (Suc k)
  have "n div b \<le> n div 2" using Suc.prems(1) by (simp add: div_le_mono2)
  also have "\<dots> < 2 ^ k" using Suc.prems(2) by (simp add: less_mult_imp_div_less mult.commute)
  finally show ?case using Suc by (subst num_digits.simps) auto
qed

lemma number_tmp_below: "2 \<le> b \<Longrightarrow> d \<in> set (number_tmp b n) \<Longrightarrow> d < b"
  using num_digits_below by (fastforce simp: number_tmp_def split: if_splits)

lemma number_tmp_value: "2 \<le> b \<Longrightarrow> digits_value b (rev (number_tmp b n)) = n"
  by (simp add: number_tmp_def num_digits_value) (simp add: digits_value_def)

lemma number_tmp_length: "2 \<le> b \<Longrightarrow> n < 2 ^ 32 \<Longrightarrow> length (number_tmp b n) \<le> 32"
  using num_digits_length [of b n 32] by (simp add: number_tmp_def)

lemma number_tmp_nonempty: "2 \<le> b \<Longrightarrow> number_tmp b n \<noteq> []"
  by (subst number_tmp_def) (simp add: num_digits.simps)

lemma digit_of_table:
  assumes "d < 16"
  shows "isxdigit (digits_table small ! d) \<and> digit_value (digits_table small ! d) = d"
proof -
  have "list_all (\<lambda>d. isxdigit (digits_table small ! d) \<and> digit_value (digits_table small ! d) = d) [0..<16]"
    by (cases small) (simp_all only:, code_simp+)
  then show ?thesis using assms by (simp add: list_all_iff)
qed

lemma strtoul_loop_digits:
  "b \<le> 16 \<Longrightarrow> \<forall>d\<in>set ds. d < b \<Longrightarrow>
   strtoul_loop (map (nth (digits_table small)) ds) b r = (foldl (\<lambda>a d. (a * b + d) mod 2 ^ 32) r ds, [])"
  by (induction ds arbitrary: r) (auto simp: digit_of_table)

lemma foldl_mod: "foldl (\<lambda>a d. (a * b + d) mod m) (r mod m) ds = foldl (\<lambda>a d. a * b + d) r ds mod (m::nat)"
proof (induction ds arbitrary: r)
  case (Cons d ds)
  have "(r mod m * b + d) mod m = (r * b + d) mod m" by (metis mod_add_left_eq mod_mult_left_eq)
  then show ?case using Cons [of "r * b + d"] by simp
qed simp

lemma strtoul_loop_value:
  assumes "b \<le> 16" and "\<forall>d\<in>set ds. d < b"
  shows "strtoul_loop (map (nth (digits_table small)) ds) b 0 = (digits_value b ds mod 2 ^ 32, [])"
  using strtoul_loop_digits [OF assms, of small 0] foldl_mod [of b "2 ^ 32" 0 ds] by (simp add: digits_value_def)

lemma digits_value_zeros: "digits_value b (replicate k 0 @ ds) = digits_value b ds"
proof -
  have "foldl (\<lambda>a d. a * b + d) 0 (replicate k 0) = 0" by (induction k) auto
  then show ?thesis by (simp add: digits_value_def)
qed

lemma zeros_digits: "replicate k CHR ''0'' = map (nth (digits_table small)) (replicate k 0)"
  by (simp add: digits_table_def)

lemma unat_below32: "unat (x :: 32 word) < 4294967296"
  by (rule order_less_le_trans [OF unsigned_less]) simp

text \<open>Without sign, prefix and trailing padding \<open>number\<close> writes zeros and digits only.\<close>

lemma number_digits:
  assumes "2 \<le> b" "b \<le> 36" and flags: "\<not> flag fl SIGN" "\<not> flag fl PLUS" "\<not> flag fl SPACE" "\<not> flag fl SPECIAL"
    and pad: "flag fl ZEROPAD \<and> \<not> flag fl LEFT \<or> sz \<le> 1"
  shows "\<exists>k. number w b sz prec fl =
           Some (map (nth (digits_table (flag fl SMALL))) (replicate k 0 @ rev (number_tmp b (unat w))))"
proof -
  let ?ds = "number_tmp b (unat w)" and ?dig = "nth (digits_table (flag fl SMALL))"
  define p where "p = (if int (length ?ds) > prec then int (length ?ds) else prec)"
  define q where "q = nat (p - int (length ?ds))"
  define z where "z = (if flag fl ZEROPAD \<and> \<not> flag fl LEFT then nat (sz - p) else 0)"
  have "?ds \<noteq> []" using assms(1) by (rule number_tmp_nonempty)
  then have "1 \<le> int (length ?ds)" by (cases ?ds) simp_all
  then have "1 \<le> p" by (simp add: p_def)
  then have z0: "nat (sz - p) = 0" if "\<not> (flag fl ZEROPAD \<and> \<not> flag fl LEFT)" using pad that by auto
  have "number w b sz prec fl =
      Some (replicate z CHR ''0'' @ replicate q CHR ''0'' @ map ?dig (rev ?ds))"
    using assms(1,2) flags z0
    by (simp only: number_def Let_def if_False simp_thms p_def [symmetric] q_def [symmetric] list.size of_nat_0
        diff_zero append_Nil) (auto simp: z_def q_def)
  also have "\<dots> = Some (map ?dig (replicate (z + q) 0 @ rev ?ds))"
    by (simp only: zeros_digits [of _ "flag fl SMALL"] map_append replicate_add append_assoc)
  finally show ?thesis by blast
qed

text \<open>
  C17. What \<open>number\<close> writes, \<open>simple_strtoul\<close> reads: in every base up to 16, in either case of letters,
  with any precision and with any width padded by zeros, the text of an unsigned number reads back as
  that number and is read to its end.
\<close>

theorem strtoul_reads_number:
  assumes "2 \<le> b" "b \<le> 16" and "number w b sz prec fl = Some s"
    and "\<not> flag fl SIGN" "\<not> flag fl PLUS" "\<not> flag fl SPACE" "\<not> flag fl SPECIAL"
    and "flag fl ZEROPAD \<and> \<not> flag fl LEFT \<or> sz \<le> 1"
  shows "simple_strtoul s b = (unat w, [])"
proof -
  let ?ds = "rev (number_tmp b (unat w))"
  obtain k where s: "s = map (nth (digits_table (flag fl SMALL))) (replicate k 0 @ ?ds)"
    using number_digits [of b fl sz w prec] assms by auto
  have "\<forall>d\<in>set (replicate k 0 @ ?ds). d < b"
    using assms(1) number_tmp_below by auto
  then have "strtoul_loop s b 0 = (digits_value b (replicate k 0 @ ?ds) mod 2 ^ 32, [])"
    unfolding s by (rule strtoul_loop_value [OF assms(2)])
  also have "digits_value b (replicate k 0 @ ?ds) = unat w"
    using assms(1) by (simp only: digits_value_zeros number_tmp_value)
  finally show ?thesis using assms(1) unat_below32 [of w] by (simp add: simple_strtoul_def)
qed

lemma flag_demo: "flag (ZEROPAD + SMALL) SMALL" "flag (ZEROPAD + SMALL) ZEROPAD" "\<not> flag (ZEROPAD + SMALL) LEFT"
  "\<not> flag (ZEROPAD + SMALL) SIGN" "\<not> flag (ZEROPAD + SMALL) PLUS" "\<not> flag (ZEROPAD + SMALL) SPACE"
  "\<not> flag (ZEROPAD + SMALL) SPECIAL"
  "flag SIGN SIGN" "\<not> flag SIGN PLUS" "\<not> flag SIGN SPACE" "\<not> flag SIGN SPECIAL"
  by code_simp+

lemma replicate_4: "replicate 4 x = [x, x, x, x]"
  by (simp add: numeral_eq_Suc)

lemma number_demo: "number 48879 16 8 0 (ZEROPAD + SMALL) = Some ''0000beef''"
  by (simp add: number_def flag_demo Let_def number_tmp_def num_digits.simps digits_table_def replicate_4)

theorem strtoul_reads_number_witness: "simple_strtoul ''0000beef'' 16 = (unat (48879 :: 32 word), [])"
  by (rule strtoul_reads_number [OF _ _ number_demo]) (simp_all add: flag_demo)

text \<open>
  C18. \<open>number\<close> fills its field exactly: for every base from 2 to 36 the text is as long as the wider of
  the field width and sign, prefix and digits, and the digits always fit the 36 bytes of \<open>tmp\<close>.
\<close>

theorem number_fills_width:
  assumes "2 \<le> b" "b \<le> 36"
  shows "let isneg = flag fl SIGN \<and> sint w < 0;
             ds = number_tmp b (unat (if isneg then - w else w));
             sign = (if isneg \<or> flag fl PLUS \<or> flag fl SPACE then 1 else 0);
             prefix = (if flag fl SPECIAL then if b = 8 then 1 else if b = 16 then 2 else 0 else 0)
         in length ds \<le> 36 \<and>
            (\<exists>s. number w b sz prec fl = Some s \<and>
                 int (length s) = max sz (sign + prefix + max (int (length ds)) prec))"
proof -
  define isneg where "isneg \<longleftrightarrow> flag fl SIGN \<and> sint w < 0"
  define ds where "ds = number_tmp b (unat (if isneg then - w else w))"
  define sign where "sign = (if isneg \<or> flag fl PLUS \<or> flag fl SPACE then 1 else 0 :: int)"
  define prefix where "prefix = (if flag fl SPECIAL then if b = 8 then 1 else if b = 16 then 2 else 0 else 0 :: int)"
  have "unat x < 2 ^ 32" for x :: "32 word" using unat_below32 [of x] by simp
  then have "length ds \<le> 32" unfolding ds_def using number_tmp_length [OF assms(1)] by blast
  moreover have "\<exists>s. number w b sz prec fl = Some s \<and>
         int (length s) = max sz (sign + prefix + max (int (length ds)) prec)"
    using assms
    by (simp add: number_def Let_def isneg_def [symmetric] ds_def [symmetric])
      (simp add: sign_def prefix_def max_def split: if_split)
  ultimately show ?thesis
    by (simp add: Let_def isneg_def [symmetric] ds_def [symmetric] sign_def [symmetric] prefix_def [symmetric])
qed

theorem number_fills_width_witness:
  "\<exists>s. number (- 7) 10 12 3 SIGN = Some s \<and> length s = 12"
proof -
  have "length (number_tmp 10 7) = 1" by (simp add: number_tmp_def num_digits.simps)
  then show ?thesis
    using number_fills_width [of 10 SIGN "- 7" 12 3] by (simp add: flag_demo Let_def)
qed

section \<open>Formats of the kernel\<close>

text \<open>
  The kernel formats with literal text, \<open>%d\<close> and \<open>%s\<close>.  \<open>decimal\<close> is what \<open>%d\<close> stores.
\<close>

definition decimal :: "32 word \<Rightarrow> string" where
  "decimal w = (if sint w < 0 then ''-'' else []) @
     map (nth (digits_table False)) (rev (number_tmp 10 (unat (if sint w < 0 then - w else w))))"

lemma vsprintf_literal:
  "CHR ''%'' \<notin> set pre \<Longrightarrow>
    vsprintf_from pos (pre @ f) as = rbind (vsprintf_from (pos + length pre) f as) (\<lambda>(s, st). Inr (pre @ s, st))"
  by (induction pre arbitrary: pos) (auto simp: rbind_assoc rbind_def split: sum.splits)

lemma vsprintf_plain: "CHR ''%'' \<notin> set pre \<Longrightarrow> vsprintf_from pos pre as = Inr (pre, [])"
  using vsprintf_literal [of pre pos "[]" as] by simp

lemma directive_s: "directive pos (CHR ''s'' # post) (A_str (Some s) # as) = Inr (s, [], post, as)"
  by (simp add: directive_def fmt_width_def fmt_precision_def fmt_qualifier_def convert_def is_digit_def schar_def
      fmt_string_def flag_def)

lemma number_decimal: "number w 10 (- 1) (- 1) SIGN = Some (decimal w)"
proof -
  have "number_tmp 10 n \<noteq> []" for n by (rule number_tmp_nonempty) simp
  then have "length (number_tmp 10 n) \<noteq> 0" for n by simp
  then show ?thesis
    by (simp add: number_def Let_def decimal_def flag_demo)
      (simp add: flag_def SIGN_def SMALL_def ZEROPAD_def LEFT_def)
qed

lemma directive_d: "directive pos (CHR ''d'' # post) (A_int w # as) = Inr (decimal w, [], post, as)"
  by (simp add: directive_def fmt_width_def fmt_precision_def fmt_qualifier_def convert_def is_digit_def schar_def
      conv_number_def number_decimal)

lemma directive_n: "directive pos (CHR ''n'' # post) (A_ptr ip # as) = Inr ([], [(ip, pos)], post, as)"
  by (simp add: directive_def fmt_width_def fmt_precision_def fmt_qualifier_def convert_def is_digit_def schar_def)

lemma vsprintf_s:
  "vsprintf_from pos (CHR ''%'' # CHR ''s'' # post) (A_str (Some s) # as) =
    rbind (vsprintf_from (pos + length s) post as) (\<lambda>(t, st). Inr (s @ t, st))"
  by (simp add: directive_s)

lemma vsprintf_d:
  "vsprintf_from pos (CHR ''%'' # CHR ''d'' # post) (A_int w # as) =
    rbind (vsprintf_from (pos + length (decimal w)) post as) (\<lambda>(t, st). Inr (decimal w @ t, st))"
  by (simp add: directive_d)

text \<open>\<open>%n\<close> stores how many bytes are before it.\<close>

lemma vsprintf_n: "CHR ''%'' \<notin> set f \<Longrightarrow> vsprintf (f @ ''%n'') (A_ptr ip # as) = Inr (f, [(ip, length f)])"
  using vsprintf_literal [of f 0 "''%n''" "A_ptr ip # as"] by (simp add: vsprintf_def directive_n)

lemmas vsprintf_kernel = vsprintf_literal vsprintf_plain vsprintf_s vsprintf_d

text \<open>
  A field width from the arguments does not work: \<open>*\<close> is read but not stepped over, so it is taken for the
  conversion and the directive prints itself.
\<close>

lemma vsprintf_star_literal: "vsprintf ''%*d'' [A_int 5, A_int 7] = Inr (''%*d'', [])"
  by (simp add: vsprintf_def directive_def fmt_width_def fmt_precision_def fmt_qualifier_def convert_def is_digit_def schar_def)

end
