(* ===== verification/Alloc.thy ===== *)
theory Alloc
  imports Prelude
begin

text \<open>
  The page-less memory manager (\<open>kernel/src/alloc.c\<close>) as the kernel is configured, with
  \<open>CORRECTNESS_FIRST\<close>: a pointer that only moves up, zeroed blocks, and no reuse.  Addresses are 32 bits
  wide and wrap around.  The allocator in the other branches of the
  \<open>#ifdef\<close>s is in \<open>Slab\<close>.
\<close>

section \<open>State and operations\<close>

record pmm =
  pm_start :: "32 word"
  pm_end :: "32 word"
  estart :: "32 word"
  pm_mem :: "32 word \<Rightarrow> char"

definition pmm_init :: "32 word \<Rightarrow> 32 word \<Rightarrow> pmm \<Rightarrow> pmm" where
  "pmm_init lo hi p = p\<lparr>pm_start := lo, pm_end := hi, estart := lo\<rparr>"

definition clear_mem :: "32 word \<Rightarrow> 32 word \<Rightarrow> (32 word \<Rightarrow> char) \<Rightarrow> 32 word \<Rightarrow> char" where
  "clear_mem a n m = (\<lambda>x. if x - a < n then NUL else m x)"

text \<open>The part of \<open>kalloc\<close> under \<open>alloc_lk\<close>, and the return value, which reads \<open>estart\<close> again.\<close>

definition kalloc_locked :: "32 word \<Rightarrow> pmm \<Rightarrow> pmm res" where
  "kalloc_locked sz p =
     (let e = estart p + sz in
      rbind (require (\<not> e > pm_end p) Assert_fail) (\<lambda>_.
      Inr (p\<lparr>estart := e, pm_mem := clear_mem (e - sz) sz (pm_mem p)\<rparr>)))"

definition kalloc_return :: "32 word \<Rightarrow> pmm \<Rightarrow> 32 word" where
  "kalloc_return sz p = estart p - sz"

definition kalloc :: "32 word \<Rightarrow> pmm \<Rightarrow> (32 word \<times> pmm) res" where
  "kalloc sz p = rbind (kalloc_locked sz p) (\<lambda>p1. Inr (kalloc_return sz p1, p1))"

definition kfree :: "32 word \<Rightarrow> pmm \<Rightarrow> pmm" where
  "kfree a p = p"

section \<open>One processor\<close>

text \<open>A sequence of allocations by one processor, with the blocks written in between.\<close>

fun kallocs :: "pmm \<Rightarrow> 32 word list \<Rightarrow> (32 word list \<times> pmm) res" where
  "kallocs p [] = Inr ([], p)"
| "kallocs p (n # ns) = rbind (kalloc n p) (\<lambda>(a, p1). rbind (kallocs p1 ns) (\<lambda>(as, p2). Inr (a # as, p2)))"

definition heap_ok :: "pmm \<Rightarrow> bool" where
  "heap_ok p \<longleftrightarrow> pm_start p \<le> estart p \<and> estart p \<le> pm_end p"

lemma unat_add_room:
  fixes a n hi :: "32 word"
  assumes "unat a + unat n \<le> unat hi"
  shows "unat (a + n) = unat a + unat n"
proof -
  have "unat a + unat n < 2 ^ LENGTH(32)"
    using assms unsigned_less [of hi, where ?'a = nat] by linarith
  then show ?thesis by (rule unat_add_lem [THEN iffD1])
qed

lemma kalloc_run:
  assumes "unat (estart p) + unat n \<le> unat (pm_end p)"
  shows "kalloc n p = Inr (estart p, p\<lparr>estart := estart p + n, pm_mem := clear_mem (estart p) n (pm_mem p)\<rparr>)"
proof -
  have "\<not> estart p + n > pm_end p"
    using assms unat_add_room [OF assms] by (simp add: word_less_nat_alt)
  then show ?thesis by (simp add: kalloc_def kalloc_locked_def kalloc_return_def Let_def)
qed

text \<open>
  C19. A processor that allocates blocks one after the other, of any sizes that fit in the heap, gets
  blocks that lie inside the heap, one behind the other without overlap, and all of their bytes are zero.
\<close>

theorem kalloc_blocks_disjoint:
  assumes "unat (estart p) + sum_list (map unat ns) \<le> unat (pm_end p)"
  shows "\<exists>as p'. kallocs p ns = Inr (as, p') \<and> length as = length ns \<and>
    (\<forall>i < length ns. unat (estart p) \<le> unat (as ! i) \<and> unat (as ! i) + unat (ns ! i) \<le> unat (pm_end p) \<and>
       (\<forall>x. x - as ! i < ns ! i \<longrightarrow> pm_mem p' x = NUL)) \<and>
    (\<forall>i j. i < j \<longrightarrow> j < length ns \<longrightarrow> unat (as ! i) + unat (ns ! i) \<le> unat (as ! j))"
proof -
  have "\<exists>as p'. kallocs p ns = Inr (as, p') \<and> length as = length ns \<and>
    (\<forall>x. pm_mem p x = NUL \<longrightarrow> pm_mem p' x = NUL) \<and>
    (\<forall>i < length ns. unat (estart p) \<le> unat (as ! i) \<and> unat (as ! i) + unat (ns ! i) \<le> unat (pm_end p) \<and>
       (\<forall>x. x - as ! i < ns ! i \<longrightarrow> pm_mem p' x = NUL)) \<and>
    (\<forall>i j. i < j \<longrightarrow> j < length ns \<longrightarrow> unat (as ! i) + unat (ns ! i) \<le> unat (as ! j))"
    using assms
  proof (induction ns arbitrary: p)
    case Nil
    then show ?case by simp
  next
    case (Cons n ns)
    have room: "unat (estart p) + unat n \<le> unat (pm_end p)" using Cons.prems by simp
    define p1 where "p1 = p\<lparr>estart := estart p + n, pm_mem := clear_mem (estart p) n (pm_mem p)\<rparr>"
    have e1: "unat (estart p1) = unat (estart p) + unat n" "pm_end p1 = pm_end p"
      using unat_add_room [OF room] by (simp_all add: p1_def)
    have "unat (estart p1) + sum_list (map unat ns) \<le> unat (pm_end p1)" using Cons.prems e1 by simp
    then obtain as p' where I: "kallocs p1 ns = Inr (as, p')" "length as = length ns"
      "\<And>x. pm_mem p1 x = NUL \<Longrightarrow> pm_mem p' x = NUL"
      "\<And>i. i < length ns \<Longrightarrow> unat (estart p1) \<le> unat (as ! i) \<and> unat (as ! i) + unat (ns ! i) \<le> unat (pm_end p1) \<and>
       (\<forall>x. x - as ! i < ns ! i \<longrightarrow> pm_mem p' x = NUL)"
      "\<And>i j. i < j \<Longrightarrow> j < length ns \<Longrightarrow> unat (as ! i) + unat (ns ! i) \<le> unat (as ! j)"
      using Cons.IH [of p1] by blast
    have "kallocs p (n # ns) = Inr (estart p # as, p')"
      using kalloc_run [OF room] I(1) by (simp add: p1_def)
    moreover have "pm_mem p' x = NUL" if "pm_mem p x = NUL" for x
      using that I(3) [of x] by (simp add: p1_def clear_mem_def)
    moreover have "pm_mem p' x = NUL" if "x - estart p < n" for x
      using that I(3) [of x] by (simp add: p1_def clear_mem_def)
    moreover have "unat (estart p) \<le> unat ((estart p # as) ! i) \<and>
        unat ((estart p # as) ! i) + unat ((n # ns) ! i) \<le> unat (pm_end p) \<and>
        (\<forall>x. x - (estart p # as) ! i < (n # ns) ! i \<longrightarrow> pm_mem p' x = NUL)" if "i < length (n # ns)" for i
      using that room e1 I(4) [of "i - 1"] calculation(3) by (cases i) auto
    moreover have "unat ((estart p # as) ! i) + unat ((n # ns) ! i) \<le> unat ((estart p # as) ! j)"
      if "i < j" "j < length (n # ns)" for i j
      using that e1 I(4) [of "j - 1"] I(5) [of "i - 1" "j - 1"] by (cases i; cases j) auto
    ultimately show ?case using I(2) by (intro exI [of _ "estart p # as"] exI [of _ p']) simp
  qed
  then show ?thesis by blast
qed

definition demo_heap :: pmm where
  "demo_heap = \<lparr>pm_start = 4096, pm_end = 8192, estart = 4096, pm_mem = \<lambda>_. CHR ''x''\<rparr>"

lemma kalloc_blocks_disjoint_witness:
  "\<exists>as p'. kallocs demo_heap [16, 100, 8] = Inr (as, p') \<and> unat (as ! 0) + 16 \<le> unat (as ! 1)"
proof -
  have "unat (estart demo_heap) + sum_list (map unat [16, 100, 8 :: 32 word]) \<le> unat (pm_end demo_heap)"
    by (simp add: demo_heap_def)
  from kalloc_blocks_disjoint [OF this] obtain as p' where r: "kallocs demo_heap [16, 100, 8] = Inr (as, p')"
    and d: "\<And>i j. i < j \<Longrightarrow> j < length [16, 100, 8 :: 32 word] \<Longrightarrow>
      unat (as ! i) + unat ([16, 100, 8 :: 32 word] ! i) \<le> unat (as ! j)" by blast
  from d [of 0 1] have "unat (as ! 0) + 16 \<le> unat (as ! 1)" by simp
  with r show ?thesis by blast
qed

section \<open>Where the manager fails\<close>

text \<open>
  The return value is computed after the lock is released: when two processors allocate blocks of one
  size and both leave the critical section before either returns, both get the same block.
\<close>

lemma kalloc_race:
  assumes "kalloc_locked n p = Inr p1" and "kalloc_locked n p1 = Inr p2"
  shows "kalloc_return n p2 = estart p + n \<and> kalloc_return n p1 = estart p"
  using assms by (auto simp: kalloc_locked_def kalloc_return_def Let_def res_simps)

text \<open>A size that wraps the pointer around passes the test and gives memory out again.\<close>

lemma kalloc_wraps:
  assumes "unat k \<le> unat (estart p)" and "heap_ok p"
  shows "\<exists>p'. kalloc (- k) p = Inr (estart p, p') \<and> unat (estart p') = unat (estart p) - unat k"
proof -
  have u: "unat (estart p - k) = unat (estart p) - unat k"
    using assms(1) by (simp add: unat_sub word_le_nat_alt)
  moreover have "unat (estart p) \<le> unat (pm_end p)"
    using assms(2) by (simp add: word_le_nat_alt heap_ok_def)
  ultimately have "\<not> unat (pm_end p) < unat (estart p - k)" by linarith
  then have "\<not> estart p + - k > pm_end p" by (simp add: word_less_nat_alt)
  with u show ?thesis by (simp add: kalloc_def kalloc_locked_def kalloc_return_def Let_def)
qed

end
