(* ===== verification/Slab.thy ===== *)
theory Slab
  imports Alloc
begin

text \<open>
  The second allocator of \<open>kernel/src/alloc.c\<close>, in the branches for a build without
  \<open>CORRECTNESS_FIRST\<close>: doubly linked lists of blocks in use and, for each size, of free blocks.  The
  headers are two heaps of records over 32-bit addresses, \<open>NULL\<close> is the address 0; the heaps are separate,
  and the invariant of \<open>Slab_Props\<close> shows that no two headers or blocks overlap.  The lock \<open>alloc_lk\<close> is
  held over each operation, so an operation is one step.
\<close>

section \<open>Headers and state\<close>

type_synonym addr = "32 word"

record m_header =
  smaddr :: addr
  msize :: addr
  mnext :: addr
  mprev :: addr

record l_header =
  lnext :: addr
  lprev :: addr
  lsize :: addr
  bmheader :: addr

record slab =
  heap_start :: addr
  heap_end :: addr
  pm_now :: addr
  recycle :: addr
  in_use :: addr
  mh :: "addr \<Rightarrow> m_header"
  lh :: "addr \<Rightarrow> l_header"
  bytes :: "addr \<Rightarrow> char"

definition set_m :: "addr \<Rightarrow> (m_header \<Rightarrow> m_header) \<Rightarrow> slab \<Rightarrow> slab" where
  "set_m a f s = s\<lparr>mh := (mh s)(a := f (mh s a))\<rparr>"

definition set_l :: "addr \<Rightarrow> (l_header \<Rightarrow> l_header) \<Rightarrow> slab \<Rightarrow> slab" where
  "set_l a f s = s\<lparr>lh := (lh s)(a := f (lh s a))\<rparr>"

text \<open>\<open>LEN(m_header)\<close>, \<open>LEN(l_header)\<close> and \<open>alloc_num\<close>.\<close>

definition HDR :: addr where
  "HDR = 16"

definition alloc_num :: nat where
  "alloc_num = 4"

definition slab_init :: "addr \<Rightarrow> addr \<Rightarrow> slab \<Rightarrow> slab" where
  "slab_init lo hi s =
     s\<lparr>heap_start := lo, heap_end := hi, pm_now := lo, in_use := 0, recycle := 0\<rparr>"

section \<open>Making blocks\<close>

definition create :: "addr \<Rightarrow> slab \<Rightarrow> (addr \<times> slab) res" where
  "create sz s =
     (let ret = pm_now s; s1 = s\<lparr>pm_now := pm_now s + (HDR + word_of_nat alloc_num * sz)\<rparr>
      in if pm_now s1 > heap_end s1 then Inl Assert_fail else Inr (ret, s1))"

text \<open>
  The size of the blocks, a power of two, as configured by \<open>POW\<close>; above \<open>2 ^ 31\<close> the loop shifts beyond
  the width of \<open>int\<close> and does not end.
\<close>

function pow_size :: "addr \<Rightarrow> nat \<Rightarrow> addr res" where
  "pow_size rsize index =
     (if 31 \<le> index then Inl Diverge
      else if rsize > push_bit index 1 \<and> rsize \<le> push_bit (index + 1) 1 then Inr (push_bit (index + 1) 1)
      else pow_size rsize (index + 1))"
  by pat_completeness auto
termination
  by (relation "measure (\<lambda>(rsize, index). 31 - index)") auto

text \<open>The loop over the blocks behind the first one; it returns the last.\<close>

fun chop :: "nat \<Rightarrow> addr \<Rightarrow> addr \<Rightarrow> slab \<Rightarrow> addr \<times> slab" where
  "chop 0 sz tmpm s = (tmpm, s)"
| "chop (Suc i) sz tmpm s =
     (let tmpn = tmpm + sz;
          s1 = set_m tmpn (\<lambda>h. h\<lparr>smaddr := tmpn + HDR, msize := sz - HDR, mprev := tmpm\<rparr>) s;
          s2 = set_m tmpm (\<lambda>h. h\<lparr>mnext := tmpn\<rparr>) s1;
          s3 = (if i = 0 then set_m tmpn (\<lambda>h. h\<lparr>mnext := 0\<rparr>) s2 else s2)
      in chop i sz tmpn s3)"

definition carve :: "addr \<Rightarrow> addr \<Rightarrow> slab \<Rightarrow> addr \<times> slab" where
  "carve l sz s =
     (let tmpm = l + HDR;
          s1 = set_l l (\<lambda>h. h\<lparr>bmheader := tmpm\<rparr>) s;
          s2 = set_m tmpm (\<lambda>h. h\<lparr>smaddr := tmpm + HDR, msize := sz - HDR, mprev := 0\<rparr>) s1
      in chop (alloc_num - 1) sz tmpm s2)"

text \<open>The last block of a new list leaves it.\<close>

definition cut_last :: "addr \<Rightarrow> slab \<Rightarrow> slab res" where
  "cut_last tmpm s =
     rbind (require (mprev (mh s tmpm) \<noteq> 0) Assert_fail) (\<lambda>_.
     rbind (require (mnext (mh s tmpm) = 0) Assert_fail) (\<lambda>_.
       let s1 = set_m (mprev (mh s tmpm)) (\<lambda>h. h\<lparr>mnext := 0\<rparr>) s
       in Inr (set_m tmpm (\<lambda>h. h\<lparr>mprev := 0\<rparr>) s1)))"

text \<open>In front of the list of blocks in use.\<close>

definition push_use :: "addr \<Rightarrow> slab \<Rightarrow> slab" where
  "push_use tmpm s =
     (if in_use s = 0 then s\<lparr>in_use := tmpm\<rparr>
      else
        let s1 = set_m tmpm (\<lambda>h. h\<lparr>mnext := in_use s\<rparr>) s;
            s2 = set_m (in_use s) (\<lambda>h. h\<lparr>mprev := tmpm\<rparr>) s1
        in s2\<lparr>in_use := tmpm\<rparr>)"

section \<open>Allocation\<close>

partial_function (option) find_list :: "slab \<Rightarrow> addr \<Rightarrow> addr \<Rightarrow> addr option" where
  "find_list s sz p =
     (if p = 0 then Some p
      else if lsize (lh s p) = sz \<and> bmheader (lh s p) \<noteq> 0 then Some p
      else find_list s sz (lnext (lh s p)))"

definition ends :: "'a option \<Rightarrow> 'a res" where
  "ends r = (case r of None \<Rightarrow> Inl Diverge | Some x \<Rightarrow> Inr x)"

definition first_list :: "addr \<Rightarrow> slab \<Rightarrow> (addr \<times> slab) res" where
  "first_list sz s =
     rbind (create sz s) (\<lambda>(l, s1).
       let s2 = set_l l (\<lambda>h. h\<lparr>lsize := sz, lprev := 0, lnext := 0\<rparr>) s1\<lparr>recycle := l\<rparr>;
           (tmpm, s3) = carve l sz s2
       in if in_use s3 = 0 then
            rbind (cut_last tmpm (s3\<lparr>in_use := tmpm\<rparr>)) (\<lambda>s4. Inr (smaddr (mh s4 (in_use s4)), s4))
          else Inl Assert_fail)"

definition new_list :: "addr \<Rightarrow> slab \<Rightarrow> (addr \<times> slab) res" where
  "new_list sz s =
     rbind (create sz s) (\<lambda>(l, s1).
     rbind (require (l \<noteq> 0) Assert_fail) (\<lambda>_.
       let s2 = set_l l (\<lambda>h. h\<lparr>lsize := sz, lprev := 0, lnext := recycle s1\<rparr>) s1;
           s3 = set_l (recycle s1) (\<lambda>h. h\<lparr>lprev := l\<rparr>) s2\<lparr>recycle := l\<rparr>;
           (tmpm, s4) = carve l sz s3
       in rbind (cut_last tmpm s4) (\<lambda>s5.
            let s6 = push_use tmpm s5 in Inr (smaddr (mh s6 (in_use s6)), s6))))"

definition reuse :: "addr \<Rightarrow> slab \<Rightarrow> (addr \<times> slab) res" where
  "reuse p s =
     (let tmpm = bmheader (lh s p)
      in rbind (require (tmpm \<noteq> 0) Assert_fail) (\<lambda>_.
         rbind (require (mprev (mh s tmpm) = 0) Assert_fail) (\<lambda>_.
           let s1 = set_l p (\<lambda>h. h\<lparr>bmheader := mnext (mh s tmpm)\<rparr>) s;
               nx = bmheader (lh s1 p);
               s2 = (if nx \<noteq> 0 then set_m nx (\<lambda>h. h\<lparr>mprev := 0\<rparr>) s1 else s1);
               s3 = set_m tmpm (\<lambda>h. h\<lparr>mprev := 0, mnext := 0\<rparr>) s2;
               s4 = push_use tmpm s3
           in Inr (smaddr (mh s4 (in_use s4)), s4))))"

definition big_alloc :: "addr \<Rightarrow> slab \<Rightarrow> (addr \<times> slab) res" where
  "big_alloc sz s =
     (let rsize = sz + HDR
      in rbind (require (rsize \<ge> HDR) Assert_fail) (\<lambda>_.
         rbind (pow_size rsize 0) (\<lambda>asz.
           if recycle s = 0 then first_list asz s
           else
             rbind (ends (find_list s asz (recycle s))) (\<lambda>p.
               if p = 0 then new_list asz s else reuse p s))))"

definition slab_alloc :: "addr \<Rightarrow> slab \<Rightarrow> (addr \<times> slab) res" where
  "slab_alloc sz s =
     rbind (big_alloc sz s) (\<lambda>(ret, s1). Inr (ret, s1\<lparr>bytes := clear_mem ret sz (bytes s1)\<rparr>))"

section \<open>Release\<close>

partial_function (option) find_size :: "slab \<Rightarrow> addr \<Rightarrow> addr \<Rightarrow> addr option" where
  "find_size s sz p =
     (if p = 0 then Some p
      else if lsize (lh s p) = sz then Some p
      else find_size s sz (lnext (lh s p)))"

definition big_free :: "addr \<Rightarrow> slab \<Rightarrow> slab res" where
  "big_free m s =
     rbind (require (m \<noteq> 0) Assert_fail) (\<lambda>_.
     rbind (require (recycle s \<noteq> 0) Assert_fail) (\<lambda>_.
     rbind (ends (find_size s (msize (mh s m) + HDR) (recycle s))) (\<lambda>l.
     rbind (require (l \<noteq> 0) Assert_fail) (\<lambda>_.
       let s1 = set_m m (\<lambda>h. h\<lparr>mprev := 0, mnext := bmheader (lh s l)\<rparr>) s;
           s2 = set_l l (\<lambda>h. h\<lparr>bmheader := m\<rparr>) s1;
           s3 = set_m (bmheader (lh s2 l)) (\<lambda>h. h\<lparr>mprev := 0\<rparr>) s2;
           nx = mnext (mh s3 m)
       in Inr (if nx \<noteq> 0 then set_m nx (\<lambda>h. h\<lparr>mprev := m\<rparr>) s3 else s3)))))"

partial_function (option) find_use :: "slab \<Rightarrow> addr \<Rightarrow> addr \<Rightarrow> addr option" where
  "find_use s m p =
     (if p = 0 then Some p else if p = m then Some p else find_use s m (mnext (mh s p)))"

definition unlink :: "addr \<Rightarrow> slab \<Rightarrow> slab res" where
  "unlink m s =
     (if m = in_use s then
        let nx = mnext (mh s m); s1 = s\<lparr>in_use := nx\<rparr>
        in Inr (if nx \<noteq> 0 then set_m nx (\<lambda>h. h\<lparr>mprev := 0\<rparr>) s1 else s1)
      else
        let pv = mprev (mh s m); nx = mnext (mh s m)
        in rbind (require (pv \<noteq> 0) Assert_fail) (\<lambda>_.
             let s1 = set_m pv (\<lambda>h. h\<lparr>mnext := nx\<rparr>) s
             in Inr (if nx \<noteq> 0 then set_m nx (\<lambda>h. h\<lparr>mprev := pv\<rparr>) s1 else s1)))"

definition slab_free :: "addr \<Rightarrow> slab \<Rightarrow> slab res" where
  "slab_free ptr s =
     (let tmph = ptr - HDR
      in rbind (require (tmph \<noteq> 0) Assert_fail) (\<lambda>_.
         rbind (require (in_use s \<noteq> 0) Assert_fail) (\<lambda>_.
         rbind (ends (find_use s tmph (in_use s))) (\<lambda>m.
           if m = 0 then Inr s
           else
             rbind (unlink m s) (\<lambda>s1.
               big_free m (set_m m (\<lambda>h. h\<lparr>mnext := 0, mprev := 0\<rparr>) s1))))))"

end
