(* ===== verification/Slab_Props.thy ===== *)
theory Slab_Props
  imports Slab
begin

text \<open>
  The allocator of lists: the lists the pointers make, an invariant with the layout of headers and blocks in
  the heap, and what allocation and release do to the blocks in use.
\<close>

section \<open>Lists\<close>

fun mlist :: "(addr \<Rightarrow> m_header) \<Rightarrow> addr \<Rightarrow> addr \<Rightarrow> addr list \<Rightarrow> bool" where
  "mlist h pv p [] \<longleftrightarrow> p = 0"
| "mlist h pv p (x # xs) \<longleftrightarrow> p = x \<and> x \<noteq> 0 \<and> mprev (h x) = pv \<and> mlist h x (mnext (h x)) xs"

fun llist :: "(addr \<Rightarrow> l_header) \<Rightarrow> addr \<Rightarrow> addr list \<Rightarrow> bool" where
  "llist h p [] \<longleftrightarrow> p = 0"
| "llist h p (x # xs) \<longleftrightarrow> p = x \<and> x \<noteq> 0 \<and> llist h (lnext (h x)) xs"

lemma mlist_cong:
  assumes "\<And>x. x \<in> set xs \<Longrightarrow> mnext (h x) = mnext (g x) \<and> mprev (h x) = mprev (g x)"
  shows "mlist h pv p xs = mlist g pv p xs"
  using assms by (induction xs arbitrary: pv p) auto

lemma llist_cong:
  assumes "\<And>x. x \<in> set xs \<Longrightarrow> lnext (h x) = lnext (g x)"
  shows "llist h p xs = llist g p xs"
  using assms by (induction xs arbitrary: p) auto

lemma mlist_0: "mlist h pv 0 xs \<longleftrightarrow> xs = []"
  by (cases xs) auto

lemma mlist_hd: "mlist h pv p xs \<Longrightarrow> p \<noteq> 0 \<Longrightarrow> \<exists>ys. xs = p # ys"
  by (cases xs) auto

lemma mlist_upd:
  "a \<notin> set xs \<Longrightarrow> mlist (h(a := f (h a))) pv p xs = mlist h pv p xs"
  by (rule mlist_cong) auto

lemma mlist_size_upd:
  "mnext v = mnext (h a) \<Longrightarrow> mprev v = mprev (h a) \<Longrightarrow> mlist (h(a := v)) pv p xs = mlist h pv p xs"
  by (rule mlist_cong) auto

text \<open>The head of a list gets another predecessor.\<close>

definition reprev :: "addr \<Rightarrow> addr \<Rightarrow> (addr \<Rightarrow> m_header) \<Rightarrow> addr \<Rightarrow> m_header" where
  "reprev p pv h = (if p \<noteq> 0 then h(p := (h p)\<lparr>mprev := pv\<rparr>) else h)"

lemma mlist_reprev:
  assumes "mlist h pv p xs" and "distinct xs"
  shows "mlist (reprev p pv1 h) pv1 p xs"
proof (cases xs)
  case Nil
  then show ?thesis using assms(1) by simp
next
  case (Cons x ys)
  then have "mlist (h(x := (h x)\<lparr>mprev := pv1\<rparr>)) x (mnext (h x)) ys = mlist h x (mnext (h x)) ys"
    using assms(2) by (intro mlist_cong) auto
  then show ?thesis using assms(1) Cons by (simp add: reprev_def)
qed

lemma reprev_other: "x \<noteq> p \<Longrightarrow> reprev p pv h x = h x"
  by (simp add: reprev_def)

lemma reprev_next [simp]:
  "mnext (reprev p pv h x) = mnext (h x)" "msize (reprev p pv h x) = msize (h x)"
  "smaddr (reprev p pv h x) = smaddr (h x)"
  by (simp_all add: reprev_def)

lemma mlist_reprev_other:
  assumes "p \<notin> set xs"
  shows "mlist (reprev p pv1 h) pv q xs = mlist h pv q xs"
  using assms by (intro mlist_cong) (auto simp: reprev_def)

text \<open>A block leaves its list.\<close>

lemma mlist_unlink:
  assumes "mlist h pv p (as @ m # bs)" and "distinct (as @ m # bs)" and "as \<noteq> []"
  shows "mlist (reprev (mnext (h m)) (mprev (h m))
      (h(mprev (h m) := (h (mprev (h m)))\<lparr>mnext := mnext (h m)\<rparr>))) pv p (as @ bs)"
    and "mprev (h m) = last as"
  using assms
proof (induction as arbitrary: pv p)
  case Nil
  {
    case 1
    then show ?case by simp
  next
    case 2
    then show ?case by simp
  }
next
  case (Cons a as)
  let ?g = "h(mprev (h m) := (h (mprev (h m)))\<lparr>mnext := mnext (h m)\<rparr>)"
  let ?nx = "mnext (h m)" and ?pv = "mprev (h m)"
  have nx: "?nx = 0 \<or> ?nx \<in> set bs" if "mlist h x m (m # bs)" for x
    using that by (cases bs) auto
  {
    case 2
    show ?case
    proof (cases "as = []")
      case True
      then show ?thesis using 2 by simp
    next
      case False
      then show ?thesis using Cons.IH(2) [of a "mnext (h a)"] 2 by simp
    qed
  next
    case 1
    show ?case
    proof (cases "as = []")
      case True
      then have pv: "?pv = a" and a: "p = a" "a \<noteq> 0" "mprev (h a) = pv" and m: "mlist h a m (m # bs)"
        and d: "a \<notin> set bs" "distinct bs" "m \<noteq> a" using 1 by auto
      have "?nx \<noteq> a" using nx [OF m] d(1) a(2) by auto
      then have ra: "mnext (reprev ?nx a ?g a) = ?nx" "mprev (reprev ?nx a ?g a) = pv"
        using a pv by (simp_all add: reprev_other)
      have "mlist ?g m ?nx bs" using m d(1) pv by (simp add: mlist_upd [where f = "mnext_update (\<lambda>_. ?nx)"])
      then have "mlist (reprev ?nx a ?g) a ?nx bs" using d(2) by (rule mlist_reprev)
      then show ?thesis using True a ra pv by (simp del: fun_upd_apply)
    next
      case False
      have prems: "mlist h a (mnext (h a)) (as @ m # bs)" "distinct (as @ m # bs)"
        and a: "p = a" "a \<noteq> 0" "mprev (h a) = pv" "a \<notin> set as" "a \<notin> set bs" "a \<noteq> m" using 1 by auto
      have last: "?pv = last as" using Cons.IH(2) [OF prems False] .
      then have "?pv \<noteq> a" using False a(4) by (metis last_in_set)
      moreover have "?nx \<noteq> a"
      proof -
        have "\<exists>x. mlist h x m (m # bs)" using prems(1)
          by (induction as arbitrary: a p pv) auto
        then show ?thesis using nx a by auto
      qed
      ultimately have "reprev ?nx ?pv ?g a = h a" by (simp add: reprev_other)
      then show ?thesis using Cons.IH(1) [OF prems False] a by (simp del: fun_upd_apply)
    qed
  }
qed


lemma mlist_part: "mlist h pv p (as @ m # bs) \<Longrightarrow> \<exists>x. mlist h x m (m # bs)"
  by (induction as arbitrary: pv p) auto

text \<open>A block goes in front of a list.\<close>

lemma mlist_push:
  assumes "mlist h 0 p xs" and "distinct xs" and "m \<notin> set xs" and "m \<noteq> 0" and "mprev (h m) = 0"
  shows "mlist (reprev p m (h(m := (h m)\<lparr>mnext := p\<rparr>))) 0 m (m # xs)"
proof -
  let ?g = "h(m := (h m)\<lparr>mnext := p\<rparr>)"
  have "m \<noteq> p" using assms(1,3,4) by (cases xs) auto
  then have m: "mnext (reprev p m ?g m) = p" "mprev (reprev p m ?g m) = 0"
    using assms(5) by (simp_all add: reprev_other)
  have "mlist ?g 0 p xs" using assms(1,3) by (simp add: mlist_upd [where f = "mnext_update (\<lambda>_. p)"])
  then have "mlist (reprev p m ?g) m p xs" using assms(2) by (rule mlist_reprev)
  then show ?thesis using m assms(4) by (simp del: fun_upd_apply)
qed

section \<open>The invariant\<close>

text \<open>
  \<open>U\<close> are the blocks in use and \<open>R\<close> the headers of the lists with the free blocks of each.  Headers and
  blocks lie between the start of the heap and \<open>pm_now\<close> and do not overlap.
\<close>

type_synonym lists = "(addr \<times> addr list) list"

definition free_blocks :: "lists \<Rightarrow> addr list" where
  "free_blocks R = concat (map snd R)"

definition all_blocks :: "addr list \<Rightarrow> lists \<Rightarrow> addr set" where
  "all_blocks U R = set U \<union> set (free_blocks R)"

definition apart :: "nat \<times> nat \<Rightarrow> nat \<times> nat \<Rightarrow> bool" where
  "apart a b \<longleftrightarrow> fst a + snd a \<le> fst b \<or> fst b + snd b \<le> fst a"

definition block_at :: "slab \<Rightarrow> addr \<Rightarrow> nat \<times> nat" where
  "block_at s m = (unat m, 16 + unat (msize (mh s m)))"

definition inside :: "slab \<Rightarrow> nat \<times> nat \<Rightarrow> bool" where
  "inside s a \<longleftrightarrow> unat (heap_start s) \<le> fst a \<and> fst a + snd a \<le> unat (pm_now s)"

definition layout :: "slab \<Rightarrow> addr set \<Rightarrow> addr set \<Rightarrow> bool" where
  "layout s L B \<longleftrightarrow>
     0 < unat (heap_start s) \<and> unat (heap_start s) \<le> unat (pm_now s) \<and> unat (pm_now s) \<le> unat (heap_end s) \<and>
     (\<forall>l \<in> L. inside s (unat l, 16)) \<and>
     (\<forall>m \<in> B. inside s (block_at s m) \<and> smaddr (mh s m) = m + 16) \<and>
     (\<forall>l \<in> L. \<forall>k \<in> L. l \<noteq> k \<longrightarrow> apart (unat l, 16) (unat k, 16)) \<and>
     (\<forall>l \<in> L. \<forall>m \<in> B. apart (unat l, 16) (block_at s m)) \<and>
     (\<forall>m \<in> B. \<forall>n \<in> B. m \<noteq> n \<longrightarrow> apart (block_at s m) (block_at s n))"

definition list_ok :: "slab \<Rightarrow> addr \<times> addr list \<Rightarrow> bool" where
  "list_ok s r \<longleftrightarrow>
     mlist (mh s) 0 (bmheader (lh s (fst r))) (snd r) \<and>
     (\<forall>x \<in> set (snd r). msize (mh s x) + 16 = lsize (lh s (fst r)))"

definition lists_ok :: "slab \<Rightarrow> addr list \<Rightarrow> lists \<Rightarrow> bool" where
  "lists_ok s U R \<longleftrightarrow>
     llist (lh s) (recycle s) (map fst R) \<and> distinct (map fst R) \<and>
     (\<forall>r \<in> set R. list_ok s r) \<and>
     mlist (mh s) 0 (in_use s) U \<and>
     (\<forall>x \<in> set U. \<exists>r \<in> set R. lsize (lh s (fst r)) = msize (mh s x) + 16)"

definition slab_inv :: "slab \<Rightarrow> addr list \<Rightarrow> lists \<Rightarrow> bool" where
  "slab_inv s U R \<longleftrightarrow>
     lists_ok s U R \<and> distinct (U @ free_blocks R) \<and> layout s (fst ` set R) (all_blocks U R)"

text \<open>Between two lists: the block \<open>m\<close> is in none.\<close>

definition loose :: "slab \<Rightarrow> addr list \<Rightarrow> lists \<Rightarrow> addr \<Rightarrow> bool" where
  "loose s U R m \<longleftrightarrow>
     lists_ok s U R \<and> distinct (m # U @ free_blocks R) \<and>
     mprev (mh s m) = 0 \<and> mnext (mh s m) = 0 \<and>
     (\<exists>r \<in> set R. lsize (lh s (fst r)) = msize (mh s m) + 16) \<and>
     layout s (fst ` set R) (insert m (all_blocks U R))"

text \<open>The blocks keep their sizes and places; only the pointers of headers change.\<close>

definition same_blocks :: "slab \<Rightarrow> slab \<Rightarrow> bool" where
  "same_blocks s t \<longleftrightarrow>
     heap_start t = heap_start s \<and> heap_end t = heap_end s \<and> pm_now t = pm_now s \<and>
     (\<forall>x. msize (mh t x) = msize (mh s x) \<and> smaddr (mh t x) = smaddr (mh s x)) \<and>
     (\<forall>l. lsize (lh t l) = lsize (lh s l) \<and> lnext (lh t l) = lnext (lh s l))"

lemma same_blocks_layout: "same_blocks s t \<Longrightarrow> layout t L B = layout s L B"
  by (simp add: same_blocks_def layout_def inside_def block_at_def)

lemma slab_init_inv:
  assumes "0 < unat lo" and "unat lo \<le> unat hi"
  shows "slab_inv (slab_init lo hi s) [] []"
  using assms by (simp add: slab_inv_def lists_ok_def slab_init_def layout_def free_blocks_def all_blocks_def)

section \<open>Sizes\<close>

lemma unat_word_of_nat: "n < 2 ^ 32 \<Longrightarrow> unat (word_of_nat n :: addr) = n"
  by (simp add: unsigned_of_nat take_bit_nat_eq_self)

lemma unat_power: "k < 32 \<Longrightarrow> unat (push_bit k 1 :: addr) = 2 ^ k"
  using unat_word_of_nat [of "2 ^ k"] power_strict_increasing [of k 32 "2 :: nat"] by simp

lemma pow_size_ok:
  assumes "2 ^ index < unat r" and "unat r \<le> 2 ^ 29" and "index \<le> 29"
  shows "\<exists>a. pow_size r index = Inr a \<and> unat r \<le> unat a \<and> 2 ^ (index + 1) \<le> unat a \<and> unat a \<le> 2 ^ 29"
  using assms
proof (induction "29 - index" arbitrary: index rule: less_induct)
  case less
  have i: "index < 29"
  proof (rule ccontr)
    assume "\<not> index < 29"
    then have "index = 29" using less.prems(3) by simp
    then show False using less.prems(1,2) by simp
  qed
  have c: "r > push_bit index 1 \<longleftrightarrow> 2 ^ index < unat r"
    "r \<le> push_bit (index + 1) 1 \<longleftrightarrow> unat r \<le> 2 ^ (index + 1)"
    using unat_power [of index] unat_power [of "index + 1"] i
    by (simp_all only: word_less_nat_alt word_le_nat_alt)
  show ?case
  proof (cases "unat r \<le> 2 ^ (index + 1)")
    case True
    have "(2::nat) ^ (index + 1) \<le> 2 ^ 29" using i by (intro power_increasing) auto
    moreover have "pow_size r index = Inr (push_bit (index + 1) 1)"
      unfolding pow_size.simps [of r index] c using True i less.prems(1) by simp
    moreover have "unat (push_bit (index + 1) 1 :: addr) = 2 ^ (index + 1)"
      by (rule unat_power) (use i in simp)
    ultimately show ?thesis using True by (metis order_refl)
  next
    case False
    then have step: "pow_size r index = pow_size r (index + 1)"
      unfolding pow_size.simps [of r index] c using i by simp
    have "29 - (index + 1) < 29 - index" "2 ^ (index + 1) < unat r" "index + 1 \<le> 29" using False i by auto
    from less.hyps [OF this(1,2) less.prems(2) this(3)] obtain a
      where a: "pow_size r (index + 1) = Inr a" "unat r \<le> unat a" "2 ^ (index + 1 + 1) \<le> unat a" "unat a \<le> 2 ^ 29"
      by blast
    have "(2::nat) ^ (index + 1) \<le> 2 ^ (index + 1 + 1)" by simp
    then have "2 ^ (index + 1) \<le> unat a" using a(3) by (rule order_trans)
    with a show ?thesis unfolding step by blast
  qed
qed

declare pow_size.simps [simp del]

lemma alloc_size_ok:
  assumes "unat n + 16 \<le> 2 ^ 29"
  shows "\<exists>a. pow_size (n + HDR) 0 = Inr a \<and> unat n + 16 \<le> unat a \<and> unat a \<le> 2 ^ 29"
    and "n + HDR \<ge> HDR"
proof -
  have u: "unat (n + HDR) = unat n + 16"
  proof -
    have "unat n + unat HDR < 2 ^ LENGTH(32)" using assms by (simp add: HDR_def)
    then have "unat (n + HDR) = unat n + unat HDR" by (rule unat_add_lem [THEN iffD1])
    then show ?thesis by (simp add: HDR_def)
  qed
  then show "n + HDR \<ge> HDR" by (simp add: word_le_nat_alt HDR_def)
  have "2 ^ 0 < unat (n + HDR)" "unat (n + HDR) \<le> 2 ^ 29" using u assms by auto
  from pow_size_ok [OF this] show "\<exists>a. pow_size (n + HDR) 0 = Inr a \<and> unat n + 16 \<le> unat a \<and> unat a \<le> 2 ^ 29"
    unfolding u by auto
qed

section \<open>New lists\<close>

lemma set_m_simps [simp]:
  "mh (set_m a f s) = (mh s)(a := f (mh s a))" "lh (set_m a f s) = lh s" "in_use (set_m a f s) = in_use s"
  "recycle (set_m a f s) = recycle s" "pm_now (set_m a f s) = pm_now s"
  "heap_start (set_m a f s) = heap_start s" "heap_end (set_m a f s) = heap_end s" "bytes (set_m a f s) = bytes s"
  by (simp_all add: set_m_def)

lemma set_l_simps [simp]:
  "lh (set_l a f s) = (lh s)(a := f (lh s a))" "mh (set_l a f s) = mh s" "in_use (set_l a f s) = in_use s"
  "recycle (set_l a f s) = recycle s" "pm_now (set_l a f s) = pm_now s"
  "heap_start (set_l a f s) = heap_start s" "heap_end (set_l a f s) = heap_end s" "bytes (set_l a f s) = bytes s"
  by (simp_all add: set_l_def)

text \<open>The four blocks behind the header at \<open>l\<close>.\<close>

definition nth_block :: "addr \<Rightarrow> addr \<Rightarrow> nat \<Rightarrow> addr" where
  "nth_block l sz k = l + 16 + word_of_nat k * sz"

lemma unat_nth_block:
  assumes "unat l + 16 + 4 * unat sz < 2 ^ 32" and "k \<le> 4"
  shows "unat (nth_block l sz k) = unat l + 16 + k * unat sz"
proof -
  have "k * unat sz \<le> 4 * unat sz" using assms(2) by simp
  with assms(1) have "unat l + 16 + k * unat sz < 2 ^ 32" by linarith
  from unat_word_of_nat [OF this] show ?thesis by (simp add: nth_block_def)
qed

definition new_blocks :: "addr \<Rightarrow> addr \<Rightarrow> (addr \<Rightarrow> m_header) \<Rightarrow> (addr \<Rightarrow> m_header) \<Rightarrow> bool" where
  "new_blocks l sz g h \<longleftrightarrow>
     (\<forall>k < 4. smaddr (h (nth_block l sz k)) = nth_block l sz k + 16 \<and> msize (h (nth_block l sz k)) = sz - 16) \<and>
     (\<forall>x. (\<forall>k < 4. x \<noteq> nth_block l sz k) \<longrightarrow> h x = g x)"

lemma all_less_4: "(\<forall>k < (4::nat). P k) \<longleftrightarrow> P 0 \<and> P 1 \<and> P 2 \<and> P 3"
  by (simp add: eval_nat_numeral All_less_Suc) blast

lemma carve_blocks:
  assumes "unat l + 16 + 4 * unat sz < 2 ^ 32" and "0 < unat sz"
  shows "\<exists>s1. carve l sz s = (nth_block l sz 3, s1) \<and>
    new_blocks l sz (mh s) (mh s1) \<and>
    mlist (mh s1) 0 (nth_block l sz 0) (map (nth_block l sz) [0..<4]) \<and>
    s1 = s\<lparr>mh := mh s1, lh := (lh s)(l := (lh s l)\<lparr>bmheader := nth_block l sz 0\<rparr>)\<rparr>"
proof -
  let ?b = "nth_block l sz"
  have neq: "?b i \<noteq> ?b j" if "i < 4" "j < 4" "i \<noteq> j" for i j
    using unat_nth_block [OF assms(1), of i] unat_nth_block [OF assms(1), of j] that assms(2)
    by auto
  have nz: "?b k \<noteq> 0" if "k < 4" for k
    using unat_nth_block [OF assms(1), of k] that by (metis add_is_0 unsigned_0 less_imp_le_nat zero_neq_numeral)
  obtain b0 b1 b2 b3 where def: "b0 = ?b 0" "b1 = ?b 1" "b2 = ?b 2" "b3 = ?b 3" by blast
  have b: "l + HDR = b0" "b0 + sz = b1" "b1 + sz = b2" "b2 + sz = b3"
    by (simp_all add: def nth_block_def HDR_def algebra_simps)
  have d: "b0 \<noteq> b1" "b0 \<noteq> b2" "b0 \<noteq> b3" "b1 \<noteq> b2" "b1 \<noteq> b3" "b2 \<noteq> b3"
    "b0 \<noteq> 0" "b1 \<noteq> 0" "b2 \<noteq> 0" "b3 \<noteq> 0"
    unfolding def using neq nz by simp_all
  have three: "alloc_num - 1 = Suc (Suc (Suc 0))" by (simp add: alloc_num_def)
  define s1 where "s1 = snd (carve l sz s)"
  have run: "carve l sz s = (b3, s1)"
    by (simp only: s1_def carve_def three chop.simps Let_def b snd_conv)
  have hs: "mh s1 = (mh s)
      (b0 := (mh s b0)\<lparr>smaddr := b0 + 16, msize := sz - 16, mprev := 0, mnext := b1\<rparr>,
       b1 := (mh s b1)\<lparr>smaddr := b1 + 16, msize := sz - 16, mprev := b0, mnext := b2\<rparr>,
       b2 := (mh s b2)\<lparr>smaddr := b2 + 16, msize := sz - 16, mprev := b1, mnext := b3\<rparr>,
       b3 := (mh s b3)\<lparr>smaddr := b3 + 16, msize := sz - 16, mprev := b2, mnext := 0\<rparr>)"
    and rest: "s1 = s\<lparr>mh := mh s1, lh := (lh s)(l := (lh s l)\<lparr>bmheader := b0\<rparr>)\<rparr>"
    by (simp_all only: s1_def carve_def three chop.simps Let_def b snd_conv)
      (auto simp: d d [THEN not_sym] HDR_def fun_eq_iff set_m_def set_l_def)
  have "map ?b [0..<4] = [b0, b1, b2, b3]" by (simp add: def eval_nat_numeral)
  moreover have "mlist (mh s1) 0 b0 [b0, b1, b2, b3]" using d by (simp add: hs)
  moreover have "new_blocks l sz (mh s) (mh s1)"
    unfolding new_blocks_def all_less_4 def [symmetric] using d by (simp add: hs)
  ultimately show ?thesis using run rest by (auto simp: def)
qed


section \<open>Moving blocks\<close>

lemma layoutD:
  assumes "layout s L B"
  shows "0 < unat (heap_start s)" "unat (heap_start s) \<le> unat (pm_now s)" "unat (pm_now s) \<le> unat (heap_end s)"
    and "\<And>l. l \<in> L \<Longrightarrow> inside s (unat l, 16)"
    and "\<And>m. m \<in> B \<Longrightarrow> inside s (block_at s m)" "\<And>m. m \<in> B \<Longrightarrow> smaddr (mh s m) = m + 16"
    and "\<And>l k. l \<in> L \<Longrightarrow> k \<in> L \<Longrightarrow> l \<noteq> k \<Longrightarrow> apart (unat l, 16) (unat k, 16)"
    and "\<And>l m. l \<in> L \<Longrightarrow> m \<in> B \<Longrightarrow> apart (unat l, 16) (block_at s m)"
    and "\<And>m n. m \<in> B \<Longrightarrow> n \<in> B \<Longrightarrow> m \<noteq> n \<Longrightarrow> apart (block_at s m) (block_at s n)"
  using assms unfolding layout_def by blast+

lemma layout_nz:
  assumes "layout s L B" and "m \<in> B"
  shows "m \<noteq> 0"
  using assms by (auto simp: layout_def inside_def block_at_def)

lemma free_blocks_in: "r \<in> set R \<Longrightarrow> x \<in> set (snd r) \<Longrightarrow> x \<in> set (free_blocks R)"
  by (auto simp: free_blocks_def)

lemma list_ok_cong:
  assumes "\<And>x. x \<in> set (snd r) \<Longrightarrow> mnext (mh t x) = mnext (mh s x) \<and> mprev (mh t x) = mprev (mh s x) \<and>
      msize (mh t x) = msize (mh s x)"
    and "bmheader (lh t (fst r)) = bmheader (lh s (fst r))" and "lsize (lh t (fst r)) = lsize (lh s (fst r))"
  shows "list_ok t r = list_ok s r"
  using assms mlist_cong [of "snd r" "mh t" "mh s" 0] by (auto simp: list_ok_def)

lemma push_use_inv:
  assumes "loose s U R m"
  shows "slab_inv (push_use m s) (m # U) R" and "same_blocks s (push_use m s)"
    and "in_use (push_use m s) = m" and "bytes (push_use m s) = bytes s"
proof -
  note loose = assms [unfolded loose_def lists_ok_def]
  define p where "p = in_use s"
  define h where "h = mh s"
  have m0: "m \<noteq> 0" using loose layout_nz by blast
  have U: "mlist h 0 p U" "distinct U" "m \<notin> set U" "mprev (h m) = 0" "mnext (h m) = 0"
    using loose by (simp_all add: p_def h_def)
  define h1 where "h1 = (if p = 0 then h else reprev p m (h(m := (h m)\<lparr>mnext := p\<rparr>)))"
  have push: "push_use m s = s\<lparr>in_use := m, mh := h1\<rparr>"
    by (simp add: push_use_def h1_def p_def h_def set_m_def reprev_def Let_def)
  have front: "mlist h1 0 m (m # U)"
  proof (cases "p = 0")
    case True
    then have "U = []" using U(1) by (simp add: mlist_0)
    then show ?thesis using True U m0 by (simp add: h1_def)
  next
    case False
    then show ?thesis using mlist_push [OF U(1,2,3) m0 U(4)] by (simp add: h1_def)
  qed
  have sizes: "msize (h1 x) = msize (h x)" "smaddr (h1 x) = smaddr (h x)" for x
    by (simp_all add: h1_def)
  have other: "h1 x = h x" if "x \<noteq> m" "x \<notin> set U" for x
    using that mlist_hd [OF U(1)] by (auto simp: h1_def reprev_def)
  have "list_ok (push_use m s) r = list_ok s r" if "r \<in> set R" for r
  proof (rule list_ok_cong)
    fix x assume "x \<in> set (snd r)"
    with that have "x \<in> set (free_blocks R)" by (rule free_blocks_in)
    then have "x \<noteq> m" "x \<notin> set U" using loose by auto
    then show "mnext (mh (push_use m s) x) = mnext (mh s x) \<and> mprev (mh (push_use m s) x) = mprev (mh s x) \<and>
        msize (mh (push_use m s) x) = msize (mh s x)"
      using other by (simp add: push h_def)
  qed (simp_all add: push)
  moreover show same: "same_blocks s (push_use m s)"
    by (simp add: same_blocks_def push sizes) (simp add: h_def)
  ultimately show "slab_inv (push_use m s) (m # U) R"
    using loose front sizes unfolding slab_inv_def lists_ok_def same_blocks_layout [OF same]
    by (simp add: push all_blocks_def h_def)
  show "in_use (push_use m s) = m" "bytes (push_use m s) = bytes s" by (simp_all add: push)
qed


text \<open>One list of free blocks changes, the headers and all other blocks stay.\<close>

lemma lists_ok_change:
  assumes "lists_ok s U (A @ (l, fs) # B)" and "same_blocks s t"
    and "list_ok t (l, gs)" and "mlist (mh t) 0 (in_use t) V"
    and "recycle t = recycle s" and "\<And>k. k \<noteq> l \<Longrightarrow> bmheader (lh t k) = bmheader (lh s k)"
    and "\<And>x. x \<in> set (free_blocks A) \<union> set (free_blocks B) \<Longrightarrow> mh t x = mh s x"
    and "\<And>x. x \<in> set V \<Longrightarrow> x \<in> set U \<or> (\<exists>k \<in> fst ` set (A @ (l, fs) # B). lsize (lh s k) = msize (mh s x) + 16)"
  shows "lists_ok t V (A @ (l, gs) # B)"
proof -
  note ok = assms(1) [unfolded lists_ok_def]
  have dist: "k \<noteq> l" if "(k, ks) \<in> set A \<union> set B" for k ks
    using ok that by (auto simp: rev_image_eqI)
  have "list_ok t r = list_ok s r" if r: "r \<in> set A \<union> set B" for r
  proof (rule list_ok_cong)
    fix x assume "x \<in> set (snd r)"
    with r have "x \<in> set (free_blocks A) \<union> set (free_blocks B)" using free_blocks_in by blast
    with assms(7) show "mnext (mh t x) = mnext (mh s x) \<and> mprev (mh t x) = mprev (mh s x) \<and> msize (mh t x) = msize (mh s x)"
      by simp
  next
    show "bmheader (lh t (fst r)) = bmheader (lh s (fst r))"
      using assms(6) dist [of "fst r" "snd r"] r by simp
  qed (use assms(2) in \<open>simp add: same_blocks_def\<close>)
  moreover have "llist (lh t) (recycle s) (map fst (A @ (l, gs) # B)) = llist (lh s) (recycle s) (map fst (A @ (l, fs) # B))"
    using llist_cong [of "map fst (A @ (l, fs) # B)" "lh t" "lh s"] assms(2) by (simp add: same_blocks_def)
  moreover have "\<exists>k \<in> fst ` set (A @ (l, fs) # B). lsize (lh s k) = msize (mh s x) + 16" if "x \<in> set V" for x
    using assms(8) [OF that] ok by (auto simp: ball_Un bex_Un)
  ultimately show ?thesis
    using ok assms(2-5) unfolding lists_ok_def by (auto simp: same_blocks_def)
qed

lemma free_blocks_split: "free_blocks (A @ (l, fs) # B) = free_blocks A @ fs @ free_blocks B"
  by (simp add: free_blocks_def)

lemma reuse_inv:
  assumes "slab_inv s U (A @ (l, m # fs) # B)"
  shows "\<exists>t. reuse l s = Inr (smaddr (mh (push_use m t) (in_use (push_use m t))), push_use m t) \<and>
    loose t U (A @ (l, fs) # B) m \<and> same_blocks s t \<and> bytes t = bytes s"
proof -
  note inv = assms [unfolded slab_inv_def]
  define h where "h = mh s"
  define nx where "nx = mnext (h m)"
  have l: "list_ok s (l, m # fs)" using inv by (simp add: lists_ok_def)
  then have m: "bmheader (lh s l) = m" "m \<noteq> 0" "mprev (h m) = 0" and tl: "mlist h m nx fs"
    and sz: "msize (h m) + 16 = lsize (lh s l)" "\<forall>x \<in> set fs. msize (h x) + 16 = lsize (lh s l)"
    by (auto simp: list_ok_def h_def nx_def)
  have d: "m \<notin> set fs" "distinct fs" "m \<notin> set U" and dU: "distinct (m # U @ free_blocks (A @ (l, fs) # B))"
    and dA: "\<And>x. x \<in> set (free_blocks A) \<union> set (free_blocks B) \<Longrightarrow> x \<noteq> m \<and> x \<notin> set fs"
    and dV: "\<And>x. x \<in> set U \<Longrightarrow> x \<noteq> m \<and> x \<notin> set fs"
    using inv by (auto simp: free_blocks_split)
  have nxfs: "nx = 0 \<or> nx \<in> set fs" using tl by (cases fs) auto
  define h1 where "h1 = reprev nx 0 h"
  define h2 where "h2 = h1(m := (h1 m)\<lparr>mprev := 0, mnext := 0\<rparr>)"
  define t where "t = s\<lparr>lh := (lh s)(l := (lh s l)\<lparr>bmheader := nx\<rparr>), mh := h2\<rparr>"
  have run: "reuse l s = Inr (smaddr (mh (push_use m t) (in_use (push_use m t))), push_use m t)"
    using m by (simp add: reuse_def Let_def t_def h2_def h1_def reprev_def set_m_def set_l_def h_def nx_def)
  have same: "same_blocks s t"
    by (simp add: same_blocks_def t_def h2_def h1_def h_def)
  have other: "h2 x = h x" if "x \<noteq> m" "x \<notin> set fs" "x \<noteq> 0" for x
    using that nxfs by (auto simp: h2_def h1_def reprev_def)
  have nz: "x \<noteq> 0" if "x \<in> all_blocks U (A @ (l, m # fs) # B)" for x
    using inv that layout_nz by blast
  have "mlist h1 0 nx fs" using mlist_reprev [OF tl d(2)] by (simp add: h1_def)
  then have "mlist h2 0 nx fs"
    using d(1) mlist_upd [of m fs h1 "\<lambda>x. x\<lparr>mprev := 0, mnext := 0\<rparr>"] by (simp add: h2_def)
  then have l1: "list_ok t (l, fs)"
    using sz d(1) by (auto simp: list_ok_def t_def h2_def h1_def)
  have "mlist h2 0 (in_use s) U = mlist h 0 (in_use s) U"
    by (rule mlist_cong) (use other nz dV in \<open>auto simp: all_blocks_def\<close>)
  then have U1: "mlist (mh t) 0 (in_use t) U"
    using inv by (simp add: t_def lists_ok_def h_def)
  have "lists_ok t U (A @ (l, fs) # B)"
  proof (rule lists_ok_change [OF _ same l1 U1])
    show "lists_ok s U (A @ (l, m # fs) # B)" using inv by blast
    show "bmheader (lh t k) = bmheader (lh s k)" if "k \<noteq> l" for k using that by (simp add: t_def)
    show "mh t x = mh s x" if "x \<in> set (free_blocks A) \<union> set (free_blocks B)" for x
      using other [of x] dA [OF that] nz [of x] that
      by (auto simp: t_def h_def all_blocks_def free_blocks_split)
  qed (simp_all add: t_def)
  moreover have "insert m (all_blocks U (A @ (l, fs) # B)) = all_blocks U (A @ (l, m # fs) # B)"
    by (auto simp: all_blocks_def free_blocks_split)
  moreover have "mprev (mh t m) = 0" "mnext (mh t m) = 0" by (simp_all add: t_def h2_def)
  moreover have "\<exists>r \<in> set (A @ (l, fs) # B). lsize (lh t (fst r)) = msize (mh t m) + 16"
    using sz(1) by (auto simp: t_def h2_def h1_def)
  moreover have "layout t (fst ` set (A @ (l, fs) # B)) (all_blocks U (A @ (l, m # fs) # B))"
    using inv unfolding same_blocks_layout [OF same] by simp
  ultimately have "loose t U (A @ (l, fs) # B) m"
    unfolding loose_def using dU by simp
  then show ?thesis using run same by (auto simp: t_def)
qed


lemma unlink_inv:
  assumes "slab_inv s U R" and "m \<in> set U"
  shows "\<exists>t. rbind (unlink m s) (\<lambda>s1. Inr (set_m m (\<lambda>h. h\<lparr>mnext := 0, mprev := 0\<rparr>) s1)) = Inr t \<and>
    loose t (remove1 m U) R m \<and> same_blocks s t \<and> bytes t = bytes s"
proof -
  note inv = assms(1) [unfolded slab_inv_def]
  define h where "h = mh s"
  obtain as bs where U: "U = as @ m # bs" "m \<notin> set as" using split_list_first [OF assms(2)] by blast
  have "distinct U" using inv by simp
  then have list: "mlist h 0 (in_use s) (as @ m # bs)" and d: "distinct (as @ m # bs)"
    using inv unfolding U(1) by (simp_all add: lists_ok_def h_def)
  define nx where "nx = mnext (h m)"
  define pv where "pv = mprev (h m)"
  have nxbs: "nx = 0 \<or> nx \<in> set bs"
  proof -
    obtain x where "mlist h x m (m # bs)" using mlist_part [OF list] by blast
    then show ?thesis unfolding nx_def by (cases bs) auto
  qed
  define g where "g = (if as = [] then reprev nx 0 h else reprev nx pv (h(pv := (h pv)\<lparr>mnext := nx\<rparr>)))"
  define u where "u = (if as = [] then nx else in_use s)"
  define t where "t = s\<lparr>in_use := u, mh := g(m := (g m)\<lparr>mnext := 0, mprev := 0\<rparr>)\<rparr>"
  have g: "mlist g 0 u (as @ bs) \<and> (as \<noteq> [] \<longrightarrow> pv \<in> set as \<and> pv \<noteq> 0 \<and> m \<noteq> in_use s) \<and> (as = [] \<longrightarrow> m = in_use s)"
  proof (cases "as = []")
    case True
    then show ?thesis
      using list d mlist_reprev [of h m nx bs 0] by (simp add: g_def u_def nx_def)
  next
    case False
    have "pv = last as" using mlist_unlink(2) [OF list d False] by (simp add: pv_def)
    then have "pv \<in> set as" using False by simp
    moreover have "pv \<noteq> 0"
    proof
      assume "pv = 0"
      then have "0 \<in> all_blocks U R" using \<open>pv \<in> set as\<close> by (simp add: all_blocks_def U)
      then show False using inv layout_nz by blast
    qed
    moreover have "m \<noteq> in_use s" using list False U(2) by (cases as) auto
    ultimately show ?thesis
      using mlist_unlink(1) [OF list d False] False by (simp add: g_def u_def nx_def pv_def)
  qed
  have run: "rbind (unlink m s) (\<lambda>s1. Inr (set_m m (\<lambda>h. h\<lparr>mnext := 0, mprev := 0\<rparr>) s1)) = Inr t"
    using g by (auto simp: unlink_def Let_def t_def g_def u_def nx_def pv_def h_def reprev_def set_m_def)
  have same: "same_blocks s t"
    by (simp add: same_blocks_def t_def g_def h_def)
  have other: "mh t x = h x" if "x \<notin> set U" "x \<noteq> 0" for x
    using that nxbs g by (auto simp: t_def g_def reprev_def U)
  have nz: "x \<noteq> 0" if "x \<in> all_blocks U R" for x using inv that layout_nz by blast
  have "mlist (mh t) 0 u (as @ bs)"
    using g d mlist_upd [of m "as @ bs" g "\<lambda>x. x\<lparr>mnext := 0, mprev := 0\<rparr>"] by (simp add: t_def)
  moreover have rem: "remove1 m U = as @ bs" using U by (simp add: remove1_append)
  moreover have "list_ok t r = list_ok s r" if "r \<in> set R" for r
  proof (rule list_ok_cong)
    fix x assume "x \<in> set (snd r)"
    then have x: "x \<in> set (free_blocks R)" using that free_blocks_in by blast
    then have "x \<notin> set U" "x \<noteq> 0" using inv nz [of x] by (auto simp: all_blocks_def)
    from other [OF this] show "mnext (mh t x) = mnext (mh s x) \<and> mprev (mh t x) = mprev (mh s x) \<and> msize (mh t x) = msize (mh s x)"
      by (simp add: h_def)
  qed (simp_all add: t_def)
  ultimately have "lists_ok t (remove1 m U) R"
    using inv same by (auto simp: lists_ok_def same_blocks_def t_def U)
  moreover have "insert m (all_blocks (remove1 m U) R) = all_blocks U R"
    by (auto simp: all_blocks_def rem U)
  moreover have "mprev (mh t m) = 0" "mnext (mh t m) = 0" by (simp_all add: t_def)
  moreover have "\<exists>r \<in> set R. lsize (lh t (fst r)) = msize (mh t m) + 16"
    using inv same assms(2) by (auto simp: lists_ok_def same_blocks_def)
  moreover have "layout t (fst ` set R) (all_blocks U R)"
    using inv unfolding same_blocks_layout [OF same] by simp
  moreover have dist: "distinct (m # remove1 m U @ free_blocks R)"
  proof -
    have "distinct ((as @ m # bs) @ free_blocks R)" using inv by (simp add: U)
    then show ?thesis unfolding rem by (simp only: distinct_append distinct.simps set_append list.set) blast
  qed
  ultimately have "loose t (remove1 m U) R m"
    using inv dist unfolding loose_def by (auto simp: U)
  then show ?thesis using run same by (auto simp: t_def)
qed

section \<open>Searches\<close>

lemma find_use_run: "mlist (mh s) pv p U \<Longrightarrow> find_use s m p = Some (if m \<in> set U then m else 0)"
proof (induction U arbitrary: pv p)
  case Nil
  then show ?case by (subst find_use.simps) simp
next
  case (Cons x U)
  then show ?case by (subst find_use.simps) auto
qed

lemma find_list_run:
  assumes "llist (lh s) p (map fst R)" and "\<forall>r \<in> set R. list_ok s r" and "0 \<notin> set (free_blocks R)"
  shows "find_list s sz p =
    Some (case List.find (\<lambda>r. lsize (lh s (fst r)) = sz \<and> snd r \<noteq> []) R of None \<Rightarrow> 0 | Some r \<Rightarrow> fst r)"
  using assms
proof (induction R arbitrary: p)
  case Nil
  then show ?case by (subst find_list.simps) simp
next
  case (Cons r R)
  have "mlist (mh s) 0 (bmheader (lh s (fst r))) (snd r)" using Cons.prems(2) by (simp add: list_ok_def)
  then have "bmheader (lh s (fst r)) \<noteq> 0 \<longleftrightarrow> snd r \<noteq> []" by (cases "snd r") auto
  moreover have "0 \<notin> set (free_blocks R)" using Cons.prems(3) by (simp add: free_blocks_def)
  ultimately show ?case
    using Cons.prems Cons.IH [of "lnext (lh s (fst r))"] by (subst find_list.simps) auto
qed

lemma find_size_run:
  assumes "llist (lh s) p (map fst R)"
  shows "find_size s sz p =
    Some (case List.find (\<lambda>r. lsize (lh s (fst r)) = sz) R of None \<Rightarrow> 0 | Some r \<Rightarrow> fst r)"
  using assms
proof (induction R arbitrary: p)
  case Nil
  then show ?case by (subst find_size.simps) simp
next
  case (Cons r R)
  then show ?case using Cons.IH [of "lnext (lh s (fst r))"] by (subst find_size.simps) auto
qed

text \<open>The first element with a property splits the list.\<close>

lemma find_split:
  "List.find P xs = Some x \<Longrightarrow> \<exists>as bs. xs = as @ x # bs \<and> P x \<and> (\<forall>y \<in> set as. \<not> P y)"
  by (induction xs) (auto split: if_splits, metis append_Nil empty_iff empty_set, metis append_Cons set_ConsD)

lemma find_first: "P x \<Longrightarrow> (\<forall>y \<in> set as. \<not> P y) \<Longrightarrow> List.find P (as @ x # bs) = Some x"
  by (induction as) auto


section \<open>Release\<close>

lemma big_free_inv:
  assumes "loose s U R m"
  shows "\<exists>t A l fs B. big_free m s = Inr t \<and> R = A @ (l, fs) # B \<and>
    lsize (lh s l) = msize (mh s m) + 16 \<and> (\<forall>r \<in> set A. lsize (lh s (fst r)) \<noteq> msize (mh s m) + 16) \<and>
    slab_inv t U (A @ (l, m # fs) # B) \<and> same_blocks s t \<and> bytes t = bytes s"
proof -
  note loose = assms [unfolded loose_def]
  let ?sz = "msize (mh s m) + HDR" and ?P = "\<lambda>r. lsize (lh s (fst r)) = msize (mh s m) + 16"
  define h where "h = mh s"
  have m0: "m \<noteq> 0" using loose layout_nz by blast
  have nz: "x \<noteq> 0" if "x \<in> all_blocks U R" for x using loose that layout_nz by blast
  obtain r where "List.find ?P R = Some r"
    using loose by (metis (mono_tags, lifting) find_None_iff option.exhaust)
  note found_r = this
  obtain l fs where r: "r = (l, fs)" by (cases r)
  from find_split [OF found_r [unfolded r]] obtain A B where R: "R = A @ (l, fs) # B" and l: "?P (l, fs)"
    and A: "\<forall>y \<in> set A. \<not> ?P y" by blast
  have ll: "llist (lh s) (recycle s) (map fst R)" using loose by (simp add: lists_ok_def)
  have l0: "l \<noteq> 0"
  proof
    assume "l = 0"
    then have "inside s (unat (0 :: addr), 16)" using loose by (auto simp: layout_def R)
    then show False using loose by (auto simp: layout_def inside_def)
  qed
  have found: "find_size s ?sz (recycle s) = Some l"
    using find_size_run [OF ll, of ?sz] found_r by (simp add: HDR_def r)
  have rec: "recycle s \<noteq> 0"
    using ll by (auto simp: R) (cases A, auto)
  define q where "q = bmheader (lh s l)"
  have ok: "list_ok s (l, fs)" using loose by (simp add: lists_ok_def R)
  then have q: "mlist h 0 q fs" by (simp add: list_ok_def q_def h_def)
  have d: "m \<notin> set fs" "distinct fs" and dU: "distinct (U @ free_blocks (A @ (l, m # fs) # B))"
    and dA: "\<And>x. x \<in> set (free_blocks A) \<union> set (free_blocks B) \<union> set U \<Longrightarrow> x \<noteq> m \<and> x \<notin> set fs"
    using loose by (auto simp: free_blocks_split R)
  have qfs: "q = 0 \<or> q \<in> set fs" using q by (cases fs) auto
  have mp: "mprev (h m) = 0" using loose by (simp add: h_def)
  define h1 where "h1 = reprev q m (h(m := (h m)\<lparr>mnext := q\<rparr>))"
  define t where "t = s\<lparr>lh := (lh s)(l := (lh s l)\<lparr>bmheader := m\<rparr>), mh := h1\<rparr>"
  have upd: "(mh s m)\<lparr>mnext := v, mprev := 0\<rparr> = (mh s m)\<lparr>mnext := v\<rparr>" for v
    using mp by (cases "mh s m") (simp add: h_def)
  have run: "big_free m s = Inr t"
    using m0 rec l0 mp
    by (simp add: upd big_free_def found ends_def Let_def t_def h1_def reprev_def set_m_def set_l_def q_def h_def)
  have same: "same_blocks s t" by (simp add: same_blocks_def t_def h1_def h_def)
  have other: "h1 x = h x" if "x \<noteq> m" "x \<notin> set fs" "x \<noteq> 0" for x
    using that qfs by (auto simp: h1_def reprev_def)
  have "mlist h1 0 m (m # fs)" using mlist_push [OF q d(2,1) m0 mp] by (simp add: h1_def)
  then have l1: "list_ok t (l, m # fs)"
    using ok l by (auto simp: list_ok_def t_def h1_def h_def)
  have "mlist h1 0 (in_use s) U = mlist h 0 (in_use s) U"
    by (rule mlist_cong) (use other nz dA in \<open>auto simp: all_blocks_def\<close>)
  then have U1: "mlist (mh t) 0 (in_use t) U" using loose by (simp add: t_def lists_ok_def h_def)
  have "lists_ok t U (A @ (l, m # fs) # B)"
  proof (rule lists_ok_change [OF _ same l1 U1])
    show "lists_ok s U (A @ (l, fs) # B)" using loose by (simp add: R)
    show "bmheader (lh t k) = bmheader (lh s k)" if "k \<noteq> l" for k using that by (simp add: t_def)
    show "mh t x = mh s x" if "x \<in> set (free_blocks A) \<union> set (free_blocks B)" for x
      using other [of x] dA [of x] nz [of x] that
      by (auto simp: t_def h_def all_blocks_def free_blocks_split R)
  qed (simp_all add: t_def)
  moreover have "layout t (fst ` set R) (all_blocks U (A @ (l, m # fs) # B))"
    using loose unfolding same_blocks_layout [OF same]
    by (simp add: all_blocks_def free_blocks_split R insert_commute)
  ultimately have "slab_inv t U (A @ (l, m # fs) # B)"
    using dU by (simp add: slab_inv_def R)
  then show ?thesis using run R l A same by (auto simp: t_def)
qed

lemma same_blocks_trans: "same_blocks s t \<Longrightarrow> same_blocks t u \<Longrightarrow> same_blocks s u"
  by (simp add: same_blocks_def)

lemma slab_free_inv:
  assumes "slab_inv s U R" and "m \<in> set U" and "ptr = m + 16"
  shows "\<exists>t A l fs B. slab_free ptr s = Inr t \<and> R = A @ (l, fs) # B \<and>
    lsize (lh s l) = msize (mh s m) + 16 \<and> (\<forall>r \<in> set A. lsize (lh s (fst r)) \<noteq> msize (mh s m) + 16) \<and>
    slab_inv t (remove1 m U) (A @ (l, m # fs) # B) \<and> same_blocks s t \<and> bytes t = bytes s"
proof -
  from unlink_inv [OF assms(1,2)] obtain u
    where u: "rbind (unlink m s) (\<lambda>s1. Inr (set_m m (\<lambda>h. h\<lparr>mnext := 0, mprev := 0\<rparr>) s1)) = Inr u"
      and loose: "loose u (remove1 m U) R m" and su: "same_blocks s u" and bu: "bytes u = bytes s" by blast
  from u obtain v where v: "unlink m s = Inr v" "u = set_m m (\<lambda>h. h\<lparr>mnext := 0, mprev := 0\<rparr>) v"
    by (auto simp: rbind_eq_Inr_iff)
  from big_free_inv [OF loose] obtain t A l fs B
    where t: "big_free m u = Inr t" "R = A @ (l, fs) # B" "lsize (lh u l) = msize (mh u m) + 16"
      "\<forall>r \<in> set A. lsize (lh u (fst r)) \<noteq> msize (mh u m) + 16"
      "slab_inv t (remove1 m U) (A @ (l, m # fs) # B)" "same_blocks u t" "bytes t = bytes u" by blast
  have U: "mlist (mh s) 0 (in_use s) U" and m0: "m \<noteq> 0"
    using assms(1,2) layout_nz by (auto simp: slab_inv_def lists_ok_def all_blocks_def)
  have "in_use s \<noteq> 0" using U assms(2) by (auto simp: mlist_0)
  then have "slab_free ptr s = Inr t"
    using m0 assms(2,3) t(1) v find_use_run [OF U, of m]
    by (simp add: slab_free_def HDR_def ends_def Let_def)
  moreover have "\<And>k. lsize (lh u k) = lsize (lh s k)" "msize (mh u m) = msize (mh s m)"
    using su by (simp_all add: same_blocks_def)
  note t1 = t(3,4) [unfolded this]
  have "same_blocks s t" "bytes t = bytes s" using same_blocks_trans [OF su t(6)] t(7) bu by simp_all
  ultimately show ?thesis using t(2,5) t1 by blast
qed

text \<open>A pointer that is not in use: nothing happens, as long as some block is.\<close>

lemma slab_free_unknown:
  assumes "slab_inv s U R" and "U \<noteq> []" and "ptr - 16 \<notin> set U" and "ptr \<noteq> 16"
  shows "slab_free ptr s = Inr s"
proof -
  have U: "mlist (mh s) 0 (in_use s) U" using assms(1) by (simp add: slab_inv_def lists_ok_def)
  then have "in_use s \<noteq> 0" using assms(2) by (auto simp: mlist_0)
  moreover have "ptr - 16 \<noteq> 0" using assms(4) by simp
  ultimately show ?thesis
    using assms(3) find_use_run [OF U, of "ptr - 16"] by (simp add: slab_free_def HDR_def ends_def)
qed


section \<open>Allocation\<close>

lemma create_run:
  assumes "unat (pm_now s) + 16 + 4 * unat sz < 2 ^ 32"
  shows "create sz s = (if unat (pm_now s) + 16 + 4 * unat sz \<le> unat (heap_end s)
    then Inr (pm_now s, s\<lparr>pm_now := nth_block (pm_now s) sz 4\<rparr>) else Inl Assert_fail)"
proof -
  have "pm_now s + (HDR + word_of_nat alloc_num * sz) = nth_block (pm_now s) sz 4"
    by (simp add: HDR_def alloc_num_def nth_block_def)
  moreover have "nth_block (pm_now s) sz 4 > heap_end s \<longleftrightarrow> \<not> unat (pm_now s) + 16 + 4 * unat sz \<le> unat (heap_end s)"
    using unat_nth_block [OF assms, of 4] by (simp add: word_less_nat_alt not_le)
  ultimately show ?thesis by (simp add: create_def Let_def)
qed

lemma loose_new:
  assumes inv: "slab_inv s U R" and l: "l = pm_now s" and sz: "16 \<le> unat sz"
    and room: "unat l + 16 + 4 * unat sz \<le> unat (heap_end s)"
    and heap: "heap_start t = heap_start s" "heap_end t = heap_end s" "pm_now t = nth_block l sz 4"
    and heads: "recycle t = l" "in_use t = in_use s"
    and header: "lsize (lh t l) = sz" "lnext (lh t l) = recycle s" "bmheader (lh t l) = nth_block l sz 0"
    and headers: "\<And>k. k \<noteq> l \<Longrightarrow> lsize (lh t k) = lsize (lh s k) \<and> lnext (lh t k) = lnext (lh s k) \<and>
      bmheader (lh t k) = bmheader (lh s k)"
    and blocks: "new_blocks l sz (mh s) (mh t)"
    and list: "mlist (mh t) 0 (nth_block l sz 0) (map (nth_block l sz) [0..<3])"
    and last: "mprev (mh t (nth_block l sz 3)) = 0" "mnext (mh t (nth_block l sz 3)) = 0"
  shows "loose t U ((l, map (nth_block l sz) [0..<3]) # R) (nth_block l sz 3)"
proof -
  let ?b = "nth_block l sz" and ?R = "(l, map (nth_block l sz) [0..<3]) # R"
  define L where "L = fst ` set R"
  let ?B = "all_blocks U R"
  note ok = inv [unfolded slab_inv_def]
  have lt: "unat l + 16 + 4 * unat sz < 2 ^ 32"
    using room unsigned_less [of "heap_end s", where ?'a = nat] by simp
  have b: "unat (?b k) = unat l + 16 + k * unat sz" if "k \<le> 4" for k
    using unat_nth_block [OF lt that] .
  have lay: "layout s L ?B" using ok by (simp add: L_def)
  note oldL = layoutD(4) [OF lay] and oldB = layoutD(5,6) [OF lay]
  have notb: "x \<noteq> ?b k" if "x \<in> ?B" "k < 4" for x k
    using oldB(1) [OF that(1)] b [of k] that(2) by (auto simp: inside_def block_at_def l)
  have notl: "k \<noteq> l" if "k \<in> L" for k using oldL [OF that] by (auto simp: inside_def l)
  have same: "mh t x = mh s x" if "x \<in> ?B" for x using blocks notb [OF that] by (simp add: new_blocks_def)
  have nsz: "unat (sz - 16) = unat sz - 16" using sz by (simp add: unat_sub word_le_nat_alt)
  have newB: "block_at t (?b k) = (unat l + 16 + k * unat sz, unat sz)" "smaddr (mh t (?b k)) = ?b k + 16"
    if "k < 4" for k
    using blocks that b [of k] nsz sz by (simp_all add: block_at_def new_blocks_def)
  have sameB: "block_at t x = block_at s x" if "x \<in> ?B" for x using same [OF that] by (simp add: block_at_def)
  have bs: "set (map ?b [0..<3]) \<union> {?b 3} = ?b ` {0..<4}" 
  proof -
    have "{0..<4} = insert 3 {0..<3::nat}" by auto
    then show ?thesis by simp
  qed
  have allB: "insert (?b 3) (all_blocks U ?R) = ?b ` {0..<4} \<union> ?B"
    unfolding bs [symmetric] by (auto simp: all_blocks_def free_blocks_def)
  have belowL: "unat k + 16 \<le> unat l" if "k \<in> L" for k using oldL [OF that] by (simp add: inside_def l)
  have belowB: "fst (block_at s x) + snd (block_at s x) \<le> unat l" if "x \<in> ?B" for x
    using oldB(1) [OF that] by (simp add: inside_def l)
  have far: "unat l + 16 + i * unat sz + unat sz \<le> unat l + 16 + j * unat sz" if "i < j" for i j
    using mult_le_mono1 [of "Suc i" j "unat sz"] that by simp
  have lay1: "layout t (insert l L) (?b ` {0..<4} \<union> ?B)"
    unfolding layout_def
  proof (intro conjI ballI impI)
    show "0 < unat (heap_start t)" "unat (heap_start t) \<le> unat (pm_now t)" "unat (pm_now t) \<le> unat (heap_end t)"
      using layoutD(1,2) [OF lay] room b [of 4] by (simp_all add: heap l)
  next
    fix k assume "k \<in> insert l L"
    then show "inside t (unat k, 16)"
      using belowL [of k] oldL [of k] layoutD(2) [OF lay] b [of 4] by (auto simp: inside_def heap l)
  next
    fix m assume "m \<in> ?b ` {0..<4} \<union> ?B"
    then consider i where "i < 4" "m = ?b i" | "m \<in> ?B" by auto
    then show "inside t (block_at t m)"
    proof cases
      case 1
      then show ?thesis
        using newB(1) [OF 1(1)] far [OF 1(1)] b [of 4] layoutD(2) [OF lay] by (simp add: inside_def heap l)
    next
      case 2
      then show ?thesis using oldB(1) [OF 2] b [of 4] sameB [OF 2] by (simp add: inside_def heap l)
    qed
    show "smaddr (mh t m) = m + 16" using \<open>m \<in> ?b ` {0..<4} \<union> ?B\<close> newB(2) oldB(2) same by auto
  next
    fix k j assume "k \<in> insert l L" "j \<in> insert l L" "k \<noteq> j"
    then show "apart (unat k, 16) (unat j, 16)"
      using layoutD(7) [OF lay, of k j] belowL [of k] belowL [of j] by (auto simp: apart_def)
  next
    fix k m assume k: "k \<in> insert l L" and m: "m \<in> ?b ` {0..<4} \<union> ?B"
    from m consider i where "i < 4" "m = ?b i" | "m \<in> ?B" by auto
    then show "apart (unat k, 16) (block_at t m)"
    proof cases
      case 1
      then show ?thesis using k newB(1) [OF 1(1)] belowL [of k] by (auto simp: apart_def)
    next
      case 2
      then show ?thesis
        using k layoutD(8) [OF lay, of k m] belowB [OF 2] sameB [OF 2] by (auto simp: apart_def)
    qed
  next
    fix m n assume m: "m \<in> ?b ` {0..<4} \<union> ?B" and n: "n \<in> ?b ` {0..<4} \<union> ?B" and "m \<noteq> n"
    from m consider i where "i < 4" "m = ?b i" | "m \<in> ?B" by auto
    then show "apart (block_at t m) (block_at t n)"
    proof cases
      case 1
      from n consider j where "j < 4" "n = ?b j" | "n \<in> ?B" by auto
      then show ?thesis
      proof cases
        fix j assume j: "j < 4" "n = ?b j"
        then consider "i < j" | "j < i" using 1 \<open>m \<noteq> n\<close> by fastforce
        then show ?thesis
        proof cases
          assume "i < j"
          from far [OF this] show ?thesis
            using newB(1) [OF 1(1)] newB(1) [OF j(1)] 1 j by (simp add: apart_def)
        next
          assume "j < i"
          from far [OF this] show ?thesis
            using newB(1) [OF 1(1)] newB(1) [OF j(1)] 1 j by (simp add: apart_def)
        qed
      next
        assume "n \<in> ?B"
        then show ?thesis using belowB sameB newB(1) [OF 1(1)] 1 by (fastforce simp: apart_def)
      qed
    next
      case 2
      from n consider j where "j < 4" "n = ?b j" | "n \<in> ?B" by auto
      then show ?thesis
      proof cases
        fix j assume j: "j < 4" "n = ?b j"
        then show ?thesis using belowB [OF 2] sameB [OF 2] newB(1) [OF j(1)] by (auto simp: apart_def)
      next
        assume "n \<in> ?B"
        then show ?thesis using layoutD(9) [OF lay 2] sameB 2 \<open>m \<noteq> n\<close> by simp
      qed
    qed
  qed
  have newl: "list_ok t (l, map ?b [0..<3])"
    using list header blocks by (auto simp: list_ok_def new_blocks_def)
  have "list_ok t r = list_ok s r" if "r \<in> set R" for r
  proof (rule list_ok_cong)
    fix x assume "x \<in> set (snd r)"
    with that have "x \<in> ?B" using free_blocks_in by (auto simp: all_blocks_def)
    from same [OF this] show "mnext (mh t x) = mnext (mh s x) \<and> mprev (mh t x) = mprev (mh s x) \<and> msize (mh t x) = msize (mh s x)"
      by simp
  qed (use headers notl that in \<open>auto simp: L_def\<close>)
  moreover have "llist (lh t) (recycle s) (map fst R) = llist (lh s) (recycle s) (map fst R)"
    by (rule llist_cong) (use headers notl in \<open>auto simp: L_def\<close>)
  moreover have "mlist (mh t) 0 (in_use s) U = mlist (mh s) 0 (in_use s) U"
    by (rule mlist_cong) (use same in \<open>auto simp: all_blocks_def\<close>)
  moreover have "l \<noteq> 0" using layoutD(1,2) [OF lay] by (auto simp: l)
  moreover have "\<exists>r \<in> set ?R. lsize (lh t (fst r)) = msize (mh t x) + 16" if "x \<in> set U" for x
  proof -
    from ok that obtain r where r: "r \<in> set R" "lsize (lh s (fst r)) = msize (mh s x) + 16"
      by (auto simp: lists_ok_def)
    moreover have "fst r \<noteq> l" using notl r(1) by (auto simp: L_def)
    moreover have "x \<in> ?B" using that by (simp add: all_blocks_def)
    ultimately show ?thesis using headers same by (auto intro!: bexI [of _ r])
  qed
  moreover have "l \<notin> set (map fst R)" using notl by (auto simp: L_def)
  ultimately have lists: "lists_ok t U ?R"
    using ok newl unfolding lists_ok_def by (simp add: heads header)
  have "?b i \<noteq> ?b j" if "i < 4" "j < 4" "i \<noteq> j" for i j
    using b [of i] b [of j] that sz by auto
  then have "inj_on ?b {0..<4}" by (auto simp: inj_on_def) (metis)
  then have "distinct (map ?b [0..<4])" by (simp add: distinct_map)
  moreover have "set (map ?b [0..<4]) \<inter> ?B = {}"
  proof (rule equals0I)
    fix x assume "x \<in> set (map ?b [0..<4]) \<inter> ?B"
    then obtain k where "k < 4" "x = ?b k" "x \<in> ?B" by auto
    then show False using notb [of x k] by simp
  qed
  ultimately have "distinct (?b 3 # U @ free_blocks ?R)"
    using ok by (auto simp: free_blocks_def all_blocks_def eval_nat_numeral)
  moreover have "msize (mh t (?b 3)) + 16 = sz" using blocks by (simp add: new_blocks_def)
  ultimately show ?thesis
    using lists last lay1 header unfolding loose_def allB by (simp add: L_def)
qed


lemma cut_blocks:
  assumes "unat l + 16 + 4 * unat sz < 2 ^ 32" and "0 < unat sz"
    and "new_blocks l sz g (mh s)" and "mlist (mh s) 0 (nth_block l sz 0) (map (nth_block l sz) [0..<4])"
  shows "\<exists>t. cut_last (nth_block l sz 3) s = Inr t \<and> new_blocks l sz g (mh t) \<and>
    mlist (mh t) 0 (nth_block l sz 0) (map (nth_block l sz) [0..<3]) \<and>
    mprev (mh t (nth_block l sz 3)) = 0 \<and> mnext (mh t (nth_block l sz 3)) = 0 \<and> t = s\<lparr>mh := mh t\<rparr>"
proof -
  let ?b = "nth_block l sz"
  have neq: "?b i \<noteq> ?b j" if "i < 4" "j < 4" "i \<noteq> j" for i j
    using unat_nth_block [OF assms(1), of i] unat_nth_block [OF assms(1), of j] that assms(2)
    by auto
  obtain b0 b1 b2 b3 where def: "b0 = ?b 0" "b1 = ?b 1" "b2 = ?b 2" "b3 = ?b 3" by blast
  have d: "b0 \<noteq> b1" "b0 \<noteq> b2" "b0 \<noteq> b3" "b1 \<noteq> b2" "b1 \<noteq> b3" "b2 \<noteq> b3"
    unfolding def using neq by simp_all
  have maps: "map ?b [0..<4] = [b0, b1, b2, b3]" "map ?b [0..<3] = [b0, b1, b2]"
    by (simp_all add: def eval_nat_numeral)
  have l4: "mlist (mh s) 0 b0 [b0, b1, b2, b3]" using assms(4) unfolding maps def(1) .
  define h where "h = (mh s)(b2 := (mh s b2)\<lparr>mnext := 0\<rparr>, b3 := (mh s b3)\<lparr>mprev := 0\<rparr>)"
  define t where "t = s\<lparr>mh := h\<rparr>"
  have "cut_last b3 s = Inr t"
    using l4 d by (simp add: cut_last_def Let_def t_def h_def set_m_def)
  moreover have "mlist h 0 b0 [b0, b1, b2]" using l4 d by (simp add: h_def)
  moreover have "mprev (h b3) = 0" "mnext (h b3) = 0" using l4 d by (simp_all add: h_def)
  moreover have "new_blocks l sz g h"
    using assms(3) d unfolding new_blocks_def all_less_4 def [symmetric] by (auto simp: h_def)
  ultimately show ?thesis unfolding maps by (intro exI [of _ t]) (simp add: t_def flip: def)
qed

lemma carve_cut:
  assumes "unat l + 16 + 4 * unat sz < 2 ^ 32" and "0 < unat sz"
  shows "\<exists>s1 t. carve l sz s = (nth_block l sz 3, s1) \<and> cut_last (nth_block l sz 3) s1 = Inr t \<and>
    in_use s1 = in_use s \<and> new_blocks l sz (mh s) (mh t) \<and>
    mlist (mh t) 0 (nth_block l sz 0) (map (nth_block l sz) [0..<3]) \<and>
    mprev (mh t (nth_block l sz 3)) = 0 \<and> mnext (mh t (nth_block l sz 3)) = 0 \<and>
    t = s\<lparr>mh := mh t, lh := (lh s)(l := (lh s l)\<lparr>bmheader := nth_block l sz 0\<rparr>)\<rparr>"
proof -
  from carve_blocks [OF assms] obtain s1 where s1: "carve l sz s = (nth_block l sz 3, s1)"
      "new_blocks l sz (mh s) (mh s1)" "mlist (mh s1) 0 (nth_block l sz 0) (map (nth_block l sz) [0..<4])"
      "s1 = s\<lparr>mh := mh s1, lh := (lh s)(l := (lh s l)\<lparr>bmheader := nth_block l sz 0\<rparr>)\<rparr>" by blast
  from cut_blocks [OF assms s1(2,3)] obtain t where t: "cut_last (nth_block l sz 3) s1 = Inr t"
      "new_blocks l sz (mh s) (mh t)" "mlist (mh t) 0 (nth_block l sz 0) (map (nth_block l sz) [0..<3])"
      "mprev (mh t (nth_block l sz 3)) = 0" "mnext (mh t (nth_block l sz 3)) = 0" "t = s1\<lparr>mh := mh t\<rparr>" by blast
  have "t = s\<lparr>mh := mh t, lh := (lh s)(l := (lh s l)\<lparr>bmheader := nth_block l sz 0\<rparr>)\<rparr>"
    by (subst t(6), subst s1(4)) simp
  moreover have "in_use s1 = in_use s" by (subst s1(4)) simp
  ultimately show ?thesis using s1(1) t by blast
qed

text \<open>What a new list leaves as it was.\<close>

definition grown :: "slab \<Rightarrow> addr \<Rightarrow> slab \<Rightarrow> bool" where
  "grown s sz t \<longleftrightarrow>
     heap_start t = heap_start s \<and> heap_end t = heap_end s \<and> pm_now t = nth_block (pm_now s) sz 4 \<and>
     bytes t = bytes s \<and> new_blocks (pm_now s) sz (mh s) (mh t)"

lemma new_list_inv:
  assumes inv: "slab_inv s U R" and sz: "16 \<le> unat sz" and l: "l = pm_now s"
    and room: "unat l + 16 + 4 * unat sz \<le> unat (heap_end s)" and rec: "recycle s \<noteq> 0"
  shows "\<exists>t. new_list sz s =
      Inr (smaddr (mh (push_use (nth_block l sz 3) t) (in_use (push_use (nth_block l sz 3) t))), push_use (nth_block l sz 3) t) \<and>
    loose t U ((l, map (nth_block l sz) [0..<3]) # R) (nth_block l sz 3) \<and> grown s sz t"
proof -
  have lt: "unat l + 16 + 4 * unat sz < 2 ^ 32"
    using room unsigned_less [of "heap_end s", where ?'a = nat] by simp
  have lay: "layout s (fst ` set R) (all_blocks U R)" using inv by (simp add: slab_inv_def)
  have l0: "l \<noteq> 0" using layoutD(1,2) [OF lay] by (auto simp: l)
  have rl: "recycle s \<noteq> l"
  proof
    assume "recycle s = l"
    moreover have "recycle s \<in> fst ` set R"
      using inv rec by (cases R) (auto simp: slab_inv_def lists_ok_def)
    ultimately show False using layoutD(4) [OF lay, of l] by (simp add: inside_def l)
  qed
  define s3 where "s3 = s\<lparr>pm_now := nth_block l sz 4, recycle := l,
    lh := (lh s)(l := (lh s l)\<lparr>lsize := sz, lprev := 0, lnext := recycle s\<rparr>,
                 recycle s := (lh s (recycle s))\<lparr>lprev := l\<rparr>)\<rparr>"
  from carve_cut [OF lt, of s3] sz obtain s4 t where
    c: "carve l sz s3 = (nth_block l sz 3, s4)" "cut_last (nth_block l sz 3) s4 = Inr t"
      "new_blocks l sz (mh s3) (mh t)" "mlist (mh t) 0 (nth_block l sz 0) (map (nth_block l sz) [0..<3])"
      "mprev (mh t (nth_block l sz 3)) = 0" "mnext (mh t (nth_block l sz 3)) = 0"
      "t = s3\<lparr>mh := mh t, lh := (lh s3)(l := (lh s3 l)\<lparr>bmheader := nth_block l sz 0\<rparr>)\<rparr>" by auto
  have t: "heap_start t = heap_start s" "heap_end t = heap_end s" "pm_now t = nth_block l sz 4"
      "recycle t = l" "in_use t = in_use s" "bytes t = bytes s"
      "lh t = (lh s3)(l := (lh s3 l)\<lparr>bmheader := nth_block l sz 0\<rparr>)"
    by (subst c(7), simp add: s3_def)+
  have "new_list sz s = Inr (smaddr (mh (push_use (nth_block l sz 3) t) (in_use (push_use (nth_block l sz 3) t))),
      push_use (nth_block l sz 3) t)"
  proof -
    have "set_l (recycle s) (\<lambda>h. h\<lparr>lprev := l\<rparr>)
        (set_l l (\<lambda>h. h\<lparr>lsize := sz, lprev := 0, lnext := recycle s\<rparr>) (s\<lparr>pm_now := nth_block l sz 4\<rparr>))
          \<lparr>recycle := l\<rparr> = s3"
      using rl by (simp add: s3_def set_l_def)
    then show ?thesis
      using create_run [of s sz] lt room l0 c(1,2)
      by (simp add: new_list_def l [symmetric] Let_def)
  qed
  moreover have "loose t U ((l, map (nth_block l sz) [0..<3]) # R) (nth_block l sz 3)"
    by (rule loose_new [OF inv l sz room t(1-5) _ _ _ _ _ c(4-6)])
      (use c(3) rl in \<open>simp_all add: t s3_def\<close>)
  moreover have "grown s sz t" using t c(3) by (simp add: grown_def l [symmetric] s3_def)
  ultimately show ?thesis by blast
qed

lemma first_list_inv:
  assumes inv: "slab_inv s U R" and sz: "16 \<le> unat sz" and l: "l = pm_now s"
    and room: "unat l + 16 + 4 * unat sz \<le> unat (heap_end s)" and rec: "recycle s = 0"
  shows "\<exists>t. first_list sz s =
      Inr (smaddr (mh (push_use (nth_block l sz 3) t) (in_use (push_use (nth_block l sz 3) t))), push_use (nth_block l sz 3) t) \<and>
    loose t U ((l, map (nth_block l sz) [0..<3]) # R) (nth_block l sz 3) \<and> grown s sz t"
proof -
  have lt: "unat l + 16 + 4 * unat sz < 2 ^ 32"
    using room unsigned_less [of "heap_end s", where ?'a = nat] by simp
  have "R = []" using inv rec by (cases R) (auto simp: slab_inv_def lists_ok_def)
  then have U: "U = []" using inv by (cases U) (auto simp: slab_inv_def lists_ok_def)
  have use: "in_use s = 0" using inv by (simp add: slab_inv_def lists_ok_def U)
  define s3 where "s3 = s\<lparr>pm_now := nth_block l sz 4, recycle := l,
    lh := (lh s)(l := (lh s l)\<lparr>lsize := sz, lprev := 0, lnext := 0\<rparr>)\<rparr>"
  from carve_cut [OF lt, of s3] sz obtain s4 t where
    c: "carve l sz s3 = (nth_block l sz 3, s4)" "cut_last (nth_block l sz 3) s4 = Inr t"
      "new_blocks l sz (mh s3) (mh t)" "mlist (mh t) 0 (nth_block l sz 0) (map (nth_block l sz) [0..<3])"
      "mprev (mh t (nth_block l sz 3)) = 0" "mnext (mh t (nth_block l sz 3)) = 0"
      "t = s3\<lparr>mh := mh t, lh := (lh s3)(l := (lh s3 l)\<lparr>bmheader := nth_block l sz 0\<rparr>)\<rparr>"
    and use4: "in_use s4 = in_use s3" by auto
  have t: "heap_start t = heap_start s" "heap_end t = heap_end s" "pm_now t = nth_block l sz 4"
      "recycle t = l" "in_use t = in_use s" "bytes t = bytes s"
      "lh t = (lh s3)(l := (lh s3 l)\<lparr>bmheader := nth_block l sz 0\<rparr>)"
    by (subst c(7), simp add: s3_def)+
  have "first_list sz s = Inr (smaddr (mh (push_use (nth_block l sz 3) t) (in_use (push_use (nth_block l sz 3) t))),
      push_use (nth_block l sz 3) t)"
  proof -
    have "set_l l (\<lambda>h. h\<lparr>lsize := sz, lprev := 0, lnext := 0\<rparr>) (s\<lparr>pm_now := nth_block l sz 4\<rparr>)\<lparr>recycle := l\<rparr> = s3"
      by (simp add: s3_def set_l_def)
    moreover have "cut_last (nth_block l sz 3) (s4\<lparr>in_use := nth_block l sz 3\<rparr>) =
        Inr (t\<lparr>in_use := nth_block l sz 3\<rparr>)"
      using c(2) by (auto simp: cut_last_def set_m_def Let_def rbind_eq_Inr_iff require_eq_Inr_iff)
    moreover have "push_use (nth_block l sz 3) t = t\<lparr>in_use := nth_block l sz 3\<rparr>"
      using t(5) use by (simp add: push_use_def)
    ultimately show ?thesis
      using create_run [of s sz] lt room c(1) use4 use
      by (simp add: first_list_def l [symmetric] Let_def) (simp add: s3_def)
  qed
  moreover have "loose t U ((l, map (nth_block l sz) [0..<3]) # R) (nth_block l sz 3)"
    by (rule loose_new [OF inv l sz room t(1-5) _ _ _ _ _ c(4-6)])
      (use c(3) rec in \<open>simp_all add: t s3_def\<close>)
  moreover have "grown s sz t" using t c(3) by (simp add: grown_def l [symmetric] s3_def)
  ultimately show ?thesis by blast
qed


text \<open>The first list with a free block of the size.\<close>

definition free_of :: "slab \<Rightarrow> lists \<Rightarrow> addr \<Rightarrow> (addr \<times> addr list) option" where
  "free_of s R sz = List.find (\<lambda>r. lsize (lh s (fst r)) = sz \<and> snd r \<noteq> []) R"

lemma inv_facts:
  assumes "slab_inv s U R"
  shows "llist (lh s) (recycle s) (map fst R)" "\<forall>r \<in> set R. list_ok s r" "0 \<notin> set (free_blocks R)"
    "\<And>r. r \<in> set R \<Longrightarrow> fst r \<noteq> 0" "recycle s = 0 \<longleftrightarrow> R = []"
proof -
  note inv = assms [unfolded slab_inv_def]
  show ll: "llist (lh s) (recycle s) (map fst R)" "\<forall>r \<in> set R. list_ok s r"
    using inv by (simp_all add: lists_ok_def)
  show "0 \<notin> set (free_blocks R)" using inv layout_nz by (auto simp: all_blocks_def)
  have "layout s (fst ` set R) (all_blocks U R)" using inv by blast
  then show "fst r \<noteq> 0" if "r \<in> set R" for r
    using layoutD(1,4) [of s "fst ` set R" "all_blocks U R"] that by (fastforce simp: inside_def)
  show "recycle s = 0 \<longleftrightarrow> R = []" using ll(1) by (cases R) auto
qed

lemma smaddr_front:
  assumes "slab_inv (push_use m t) (m # U) R" and "in_use (push_use m t) = m"
  shows "smaddr (mh (push_use m t) (in_use (push_use m t))) = m + 16"
proof -
  have "layout (push_use m t) (fst ` set R) (all_blocks (m # U) R)" using assms(1) by (simp add: slab_inv_def)
  from layoutD(6) [OF this, of m] show ?thesis by (simp add: all_blocks_def assms(2))
qed

lemma big_alloc_run:
  assumes inv: "slab_inv s U R" and n: "unat n + 16 \<le> 2 ^ 29" and hi: "unat (heap_end s) < 2 ^ 31 - 16"
    and asz: "pow_size (n + HDR) 0 = Inr asz"
  shows "case free_of s R asz of
      Some (l, fs) \<Rightarrow> \<exists>t A B. R = A @ (l, fs) # B \<and> big_alloc n s = Inr (hd fs + 16, t) \<and>
        slab_inv t (hd fs # U) (A @ (l, tl fs) # B) \<and> same_blocks s t \<and> bytes t = bytes s
    | None \<Rightarrow>
        if unat (pm_now s) + 16 + 4 * unat asz \<le> unat (heap_end s)
        then \<exists>t u R1. big_alloc n s = Inr (nth_block (pm_now s) asz 3 + 16, t) \<and>
          slab_inv t (nth_block (pm_now s) asz 3 # U) R1 \<and> grown s asz u \<and> same_blocks u t \<and> bytes t = bytes s
        else big_alloc n s = Inl Assert_fail"
proof -
  note facts = inv_facts [OF inv]
  have asz_le: "unat n + 16 \<le> unat asz" "unat asz \<le> 2 ^ 29"
    using alloc_size_ok(1) [OF n] asz by auto
  note ge = alloc_size_ok(2) [OF n]
  have found: "find_list s asz (recycle s) = Some (case free_of s R asz of None \<Rightarrow> 0 | Some r \<Rightarrow> fst r)"
    using find_list_run [OF facts(1-3)] by (simp add: free_of_def)
  have big: "big_alloc n s = (if recycle s = 0 then first_list asz s
      else rbind (ends (find_list s asz (recycle s))) (\<lambda>p. if p = 0 then new_list asz s else reuse p s))"
    using ge by (simp add: big_alloc_def Let_def asz)
  show ?thesis
  proof (cases "free_of s R asz")
    case None
    have lay: "layout s (fst ` set R) (all_blocks U R)" using inv by (simp add: slab_inv_def)
    have lt: "unat (pm_now s) + 16 + 4 * unat asz < 2 ^ 32"
      using layoutD(3) [OF lay] hi asz_le(2) by simp
    have run: "big_alloc n s = (if recycle s = 0 then first_list asz s else new_list asz s)"
      using found None by (simp add: big ends_def)
    show ?thesis
    proof (cases "unat (pm_now s) + 16 + 4 * unat asz \<le> unat (heap_end s)")
      case False
      then have "create asz s = Inl Assert_fail" using create_run [OF lt] by simp
      then show ?thesis using None False run by (simp add: first_list_def new_list_def)
    next
      case True
      have "16 \<le> unat asz" using asz_le by simp
      then obtain t where t: "big_alloc n s = Inr (smaddr (mh (push_use (nth_block (pm_now s) asz 3) t)
            (in_use (push_use (nth_block (pm_now s) asz 3) t))), push_use (nth_block (pm_now s) asz 3) t)"
          "loose t U ((pm_now s, map (nth_block (pm_now s) asz) [0..<3]) # R) (nth_block (pm_now s) asz 3)" "grown s asz t"
        using first_list_inv [OF inv _ refl True] new_list_inv [OF inv _ refl True] run
        by (cases "recycle s = 0") auto
      note push = push_use_inv [OF t(2)]
      have "big_alloc n s = Inr (nth_block (pm_now s) asz 3 + 16, push_use (nth_block (pm_now s) asz 3) t)"
        using t(1) smaddr_front [OF push(1,3)] by simp
      moreover have "bytes (push_use (nth_block (pm_now s) asz 3) t) = bytes s"
        using push(4) t(3) by (simp add: grown_def)
      ultimately show ?thesis using None True push(1,2) t(3) by auto
    qed
  next
    case (Some r)
    obtain l fs where r: "r = (l, fs)" by (cases r)
    from find_split [OF Some [unfolded free_of_def r]] obtain A B
      where R: "R = A @ (l, fs) # B" and p: "lsize (lh s l) = asz" "fs \<noteq> []" by auto
    then obtain m ms where fs: "fs = m # ms" by (cases fs) auto
    have "l \<noteq> 0" using facts(4) [of "(l, fs)"] by (simp add: R)
    then have run: "big_alloc n s = reuse l s"
      using found Some facts(5) by (simp add: big ends_def r R)
    from reuse_inv [OF inv [unfolded R fs]] obtain t
      where t: "reuse l s = Inr (smaddr (mh (push_use m t) (in_use (push_use m t))), push_use m t)"
        "loose t U (A @ (l, ms) # B) m" "same_blocks s t" "bytes t = bytes s" by blast
    note push = push_use_inv [OF t(2)]
    have "big_alloc n s = Inr (m + 16, push_use m t)"
      using t(1) smaddr_front [OF push(1,3)] run by simp
    then show ?thesis
      using Some push(1,4) same_blocks_trans [OF t(3) push(2)] t(4) by (auto simp: r R fs)
  qed
qed


text \<open>
  An allocation: a block of the size class is taken into use, its bytes asked for are zero, and the sizes of
  the blocks in use stay; or the heap has no room for a new list and no list a free block.
\<close>

definition room_for :: "slab \<Rightarrow> addr \<Rightarrow> bool" where
  "room_for s asz \<longleftrightarrow> unat (pm_now s) + 16 + 4 * unat asz \<le> unat (heap_end s)"

lemma slab_alloc_run:
  assumes inv: "slab_inv s U R" and n: "unat n + 16 \<le> 2 ^ 29" and hi: "unat (heap_end s) < 2 ^ 31 - 16"
    and asz: "pow_size (n + HDR) 0 = Inr asz"
  shows "if free_of s R asz = None \<and> \<not> room_for s asz then slab_alloc n s = Inl Assert_fail
    else \<exists>m t R1. slab_alloc n s = Inr (m + 16, t) \<and> slab_inv t (m # U) R1 \<and>
      msize (mh t m) = asz - 16 \<and> (\<forall>x \<in> set U. msize (mh t x) = msize (mh s x)) \<and>
      heap_start t = heap_start s \<and> heap_end t = heap_end s \<and> bytes t = clear_mem (m + 16) n (bytes s)"
proof -
  note run = big_alloc_run [OF assms]
  have alloc: "slab_alloc n s = Inr (p, t\<lparr>bytes := clear_mem p n (bytes t)\<rparr>)"
    if "big_alloc n s = Inr (p, t)" for p t using that by (simp add: slab_alloc_def)
  have keep: "slab_inv (t\<lparr>bytes := b\<rparr>) V Q = slab_inv t V Q" for t b V Q
    by (simp add: slab_inv_def lists_ok_def list_ok_def layout_def inside_def block_at_def)
  show ?thesis
  proof (cases "free_of s R asz")
    case (Some r)
    obtain l fs where r: "r = (l, fs)" by (cases r)
    from run Some obtain t A B where t: "R = A @ (l, fs) # B" "big_alloc n s = Inr (hd fs + 16, t)"
      "slab_inv t (hd fs # U) (A @ (l, tl fs) # B)" "same_blocks s t" "bytes t = bytes s"
      by (auto simp: r)
    from Some find_split have "lsize (lh s l) = asz" "fs \<noteq> []" by (auto simp: free_of_def r dest!: find_split)
    moreover have "list_ok s (l, fs)" using inv_facts(2) [OF inv] by (simp add: t(1))
    ultimately have "msize (mh s (hd fs)) = asz - 16" by (auto simp: list_ok_def algebra_simps)
    then show ?thesis
      using Some alloc [OF t(2)] t(3,4,5)
      by (intro if_not_P [THEN iffD2] exI [of _ "hd fs"]) (auto simp: same_blocks_def keep intro!: exI)
  next
    case None
    show ?thesis
    proof (cases "room_for s asz")
      case False
      then show ?thesis using run None by (simp add: room_for_def slab_alloc_def)
    next
      case True
      let ?m = "nth_block (pm_now s) asz 3"
      from run None True obtain t u R1 where t: "big_alloc n s = Inr (?m + 16, t)" "slab_inv t (?m # U) R1"
          "grown s asz u" "same_blocks u t" "bytes t = bytes s" by (auto simp: room_for_def)
      have "msize (mh t ?m) = asz - 16" using t(3,4) by (simp add: grown_def new_blocks_def same_blocks_def)
      moreover have "msize (mh t x) = msize (mh s x)" if "x \<in> set U" for x
      proof -
        have lay: "layout s (fst ` set R) (all_blocks U R)" using inv by (simp add: slab_inv_def)
        have lt: "unat (pm_now s) + 16 + 4 * unat asz < 2 ^ 32"
          using True hi by (simp add: room_for_def)
        have "x \<noteq> nth_block (pm_now s) asz k" if "k < 4" for k
          using layoutD(5) [OF lay, of x] \<open>x \<in> set U\<close> unat_nth_block [OF lt, of k] that
          by (auto simp: all_blocks_def inside_def block_at_def)
        then show ?thesis using t(3,4) by (simp add: grown_def new_blocks_def same_blocks_def)
      qed
      ultimately show ?thesis
        using None True alloc [OF t(1)] t(2-5)
        by (auto simp: grown_def same_blocks_def keep intro!: exI)
    qed
  qed
qed


section \<open>Programs\<close>

text \<open>
  A program of allocations and releases, with the list of the pointers it holds and the sizes it asked for.
\<close>

datatype request = Get addr | Put addr

fun requests :: "request list \<Rightarrow> (addr \<times> addr) list \<Rightarrow> slab \<Rightarrow> ((addr \<times> addr) list \<times> slab) res" where
  "requests [] L s = Inr (L, s)"
| "requests (Get n # rs) L s = rbind (slab_alloc n s) (\<lambda>(p, t). requests rs ((p, n) # L) t)"
| "requests (Put p # rs) L s = rbind (slab_free p s) (\<lambda>t. requests rs (filter (\<lambda>(q, n). q \<noteq> p) L) t)"

definition held :: "slab \<Rightarrow> addr list \<Rightarrow> (addr \<times> addr) list \<Rightarrow> bool" where
  "held s U L \<longleftrightarrow>
     map fst L = map (\<lambda>m. m + 16) U \<and> (\<forall>(p, n) \<in> set L. unat n \<le> unat (msize (mh s (p - 16))))"

definition small :: "request \<Rightarrow> bool" where
  "small r = (case r of Get n \<Rightarrow> unat n + 16 \<le> 2 ^ 29 | Put p \<Rightarrow> True)"

lemma filter_remove1:
  assumes "map fst L = map (\<lambda>m. m + (16::addr)) U" and "distinct U"
  shows "map fst (filter (\<lambda>(q, n). q \<noteq> p) L) = map (\<lambda>m. m + 16) (remove1 (p - 16) U)"
  using assms
proof (induction L arbitrary: U)
  case Nil
  then show ?case by simp
next
  case (Cons x L)
  then obtain m V where U: "U = m # V" "fst x = m + 16" "map fst L = map (\<lambda>m. m + 16) V" "m \<notin> set V"
    by (cases U) auto
  have IH: "map fst (filter (\<lambda>(q, n). q \<noteq> p) L) = map (\<lambda>m. m + 16) (remove1 (p - 16) V)"
    using Cons U by auto
  show ?case
  proof (cases "p - 16 = m")
    case True
    then have "p = m + 16" "p - 16 \<notin> set V" using U(4) by (auto simp: algebra_simps)
    then show ?thesis using IH U True by (simp add: case_prod_unfold remove1_idem)
  next
    case False
    then have "p \<noteq> m + 16" by auto
    then show ?thesis using IH U False by (simp add: case_prod_unfold)
  qed
qed

lemma requests_run:
  assumes "slab_inv s U R" and "held s U L" and "\<forall>r \<in> set rs. small r"
    and "unat (heap_end s) < 2 ^ 31 - 16"
  shows "case requests rs L s of
      Inl e \<Rightarrow> e = Assert_fail
    | Inr (M, t) \<Rightarrow> \<exists>V Q. slab_inv t V Q \<and> held t V M \<and> heap_start t = heap_start s \<and> heap_end t = heap_end s"
  using assms
proof (induction rs arbitrary: s U R L)
  case Nil
  then show ?case by auto
next
  case (Cons r rs)
  have small: "\<forall>r \<in> set rs. small r" using Cons.prems(3) by simp
  have dU: "distinct U" using Cons.prems(1) by (simp add: slab_inv_def)
  show ?case
  proof (cases r)
    case (Get n)
    have n: "unat n + 16 \<le> 2 ^ 29" using Cons.prems(3) by (simp add: Get small_def)
    obtain asz where asz: "pow_size (n + HDR) 0 = Inr asz" "unat n + 16 \<le> unat asz"
      using alloc_size_ok(1) [OF n] by blast
    note run = slab_alloc_run [OF Cons.prems(1) n Cons.prems(4) asz(1)]
    show ?thesis
    proof (cases "free_of s R asz = None \<and> \<not> room_for s asz")
      case True
      then show ?thesis using run by (simp add: Get)
    next
      case False
      with run obtain m t R1 where t: "slab_alloc n s = Inr (m + 16, t)" "slab_inv t (m # U) R1"
          "msize (mh t m) = asz - 16" "\<forall>x \<in> set U. msize (mh t x) = msize (mh s x)"
          "heap_start t = heap_start s" "heap_end t = heap_end s" by auto
      have "unat n \<le> unat (asz - 16)" using asz(2) by (simp add: unat_sub word_le_nat_alt)
      moreover have "p - 16 \<in> set U" if "(p, k) \<in> set L" for p k
        using Cons.prems(2) that unfolding held_def
        by (metis (no_types, lifting) add_diff_cancel_right' fst_conv image_eqI imageE set_map)
      ultimately have "held t (m # U) ((m + 16, n) # L)"
        using Cons.prems(2) t(3,4) by (auto simp: held_def)
      from Cons.IH [OF t(2) this small, unfolded t(5,6)] Cons.prems(4) show ?thesis by (simp add: Get t(1))
    qed
  next
    case (Put p)
    show ?thesis
    proof (cases "p - 16 \<in> set U")
      case True
      from slab_free_inv [OF Cons.prems(1) True, of p] obtain t Q
        where t: "slab_free p s = Inr t" "slab_inv t (remove1 (p - 16) U) Q" "same_blocks s t" by auto
      have "held t (remove1 (p - 16) U) (filter (\<lambda>(q, n). q \<noteq> p) L)"
        using Cons.prems(2) filter_remove1 [OF _ dU] t(3) by (auto simp: held_def same_blocks_def)
      moreover have ends: "heap_start t = heap_start s" "heap_end t = heap_end s"
        using t(3) by (simp_all add: same_blocks_def)
      ultimately show ?thesis
        using Cons.IH [OF t(2) _ small, unfolded ends] Cons.prems(4) by (simp add: Put t(1))
    next
      case False
      have "filter (\<lambda>(q, n). q \<noteq> p) L = L"
      proof (rule filter_True)
        have "set (map fst L) = set (map (\<lambda>m. m + 16) U)" using Cons.prems(2) by (simp only: held_def)
        then have "p \<notin> set (map fst L)" using False by auto
        then show "\<forall>x \<in> set L. case x of (q, n) \<Rightarrow> q \<noteq> p" by force
      qed
      moreover have "slab_free p s = Inl Assert_fail \<or> slab_free p s = Inr s"
      proof (cases "U = [] \<or> p = 16")
        case True
        then have "in_use s = 0 \<or> p = 16" using Cons.prems(1) by (auto simp: slab_inv_def lists_ok_def)
        then show ?thesis by (auto simp: slab_free_def HDR_def require_def)
      next
        case no: False
        then show ?thesis using slab_free_unknown [OF Cons.prems(1) _ False] by simp
      qed
      ultimately show ?thesis using Cons.IH [OF Cons.prems(1,2) small Cons.prems(4)] by (auto simp: Put)
    qed
  qed
qed



definition slab0 :: slab where
  "slab0 =
     \<lparr>heap_start = 0, heap_end = 0, pm_now = 0, recycle = 0, in_use = 0,
      mh = \<lambda>_. \<lparr>smaddr = 0, msize = 0, mnext = 0, mprev = 0\<rparr>,
      lh = \<lambda>_. \<lparr>lnext = 0, lprev = 0, lsize = 0, bmheader = 0\<rparr>, bytes = \<lambda>_. NUL\<rparr>"


text \<open>
  An allocation halts exactly when no free block has its size class and the heap has no room for a new
  list of four; else it takes a block of the class into use that was not in use, clears the bytes asked for
  and keeps the invariant and the sizes of the blocks in use.
\<close>

theorem slab_alloc_takes_block:
  assumes "slab_inv s U R" and "unat n + 16 \<le> 2 ^ 29" and "unat (heap_end s) < 2 ^ 31 - 16"
    and "pow_size (n + HDR) 0 = Inr asz"
  shows "if free_of s R asz = None \<and> \<not> room_for s asz then slab_alloc n s = Inl Assert_fail
    else \<exists>m t R1. slab_alloc n s = Inr (m + 16, t) \<and> slab_inv t (m # U) R1 \<and>
      msize (mh t m) = asz - 16 \<and> (\<forall>x \<in> set U. msize (mh t x) = msize (mh s x)) \<and>
      heap_start t = heap_start s \<and> heap_end t = heap_end s \<and> bytes t = clear_mem (m + 16) n (bytes s)"
  by (rule slab_alloc_run [OF assms])

lemma pow_size_36: "pow_size (20 + HDR) 0 = Inr 64"
  by code_simp

lemma slab_alloc_takes_block_witness:
  "\<exists>m t R1. slab_alloc 20 (slab_init 0x1000 0x100000 slab0) = Inr (m + 16, t) \<and> slab_inv t [m] R1 \<and>
    msize (mh t m) = 48"
  using slab_alloc_takes_block [OF slab_init_inv [of "0x1000" "0x100000" slab0] _ _ pow_size_36]
  by (simp add: slab_init_def room_for_def) blast

text \<open>
  C24. A block just released is the next one allocated for a size of its class: no new list is made.
\<close>

theorem slab_free_then_alloc:
  assumes inv: "slab_inv s U R" and m: "m \<in> set U" and n: "unat n + 16 \<le> 2 ^ 29"
    and hi: "unat (heap_end s) < 2 ^ 31 - 16" and asz: "pow_size (n + HDR) 0 = Inr (msize (mh s m) + 16)"
  shows "\<exists>t u. slab_free (m + 16) s = Inr t \<and> slab_alloc n t = Inr (m + 16, u) \<and>
    pm_now u = pm_now s \<and> bytes u = clear_mem (m + 16) n (bytes s)"
proof -
  from slab_free_inv [OF inv m refl] obtain t A l fs B
    where t: "slab_free (m + 16) s = Inr t" "lsize (lh s l) = msize (mh s m) + 16"
      "\<forall>r \<in> set A. lsize (lh s (fst r)) \<noteq> msize (mh s m) + 16"
      "slab_inv t (remove1 m U) (A @ (l, m # fs) # B)" "same_blocks s t" "bytes t = bytes s" by blast
  have same: "lsize (lh t k) = lsize (lh s k)" "heap_end t = heap_end s" for k
    using t(5) by (simp_all add: same_blocks_def)
  have "free_of t (A @ (l, m # fs) # B) (msize (mh s m) + 16) = Some (l, m # fs)"
    unfolding free_of_def by (rule find_first) (use t(2,3) same in auto)
  with big_alloc_run [OF t(4) n _ asz] hi same obtain u
    where u: "big_alloc n t = Inr (m + 16, u)" "same_blocks t u" "bytes u = bytes t" by auto
  have "slab_alloc n t = Inr (m + 16, u\<lparr>bytes := clear_mem (m + 16) n (bytes u)\<rparr>)"
    using u(1) by (simp add: slab_alloc_def)
  then show ?thesis using t(1,5,6) u(2,3) by (auto simp: same_blocks_def)
qed

lemma slab_free_then_alloc_witness:
  "\<exists>s m t u. slab_alloc 20 (slab_init 0x1000 0x100000 slab0) = Inr (m + 16, s) \<and>
    slab_free (m + 16) s = Inr t \<and> slab_alloc 20 t = Inr (m + 16, u) \<and> pm_now u = pm_now s"
proof -
  from slab_alloc_run [OF slab_init_inv [of "0x1000" "0x100000" slab0] _ _ pow_size_36] obtain m t R1
    where t: "slab_alloc 20 (slab_init 0x1000 0x100000 slab0) = Inr (m + 16, t)" "slab_inv t [m] R1"
      "msize (mh t m) = 48" "heap_end t = 0x100000"
    by (simp add: slab_init_def room_for_def) blast
  from slab_free_then_alloc [OF t(2), of m 20] pow_size_36 t(3,4) t(1) show ?thesis by auto
qed


section \<open>Limits\<close>

text \<open>
  A request of almost 1 GB: the size of four blocks wraps to 0, the test against the end of the heap passes,
  headers are written and a block is returned outside the heap.
\<close>

lemma huge_request_wraps:
  "map_sum id fst (slab_alloc 0x3FFFFFF0 (slab_init 0x1000 0x100000 slab0)) = Inr 0xC0001020"
  by code_simp

text \<open>With no block in use a release halts, where one of a block not in use returns.\<close>

lemma release_of_nothing_halts: "in_use s = 0 \<Longrightarrow> slab_free p s = Inl Assert_fail"
  by (simp add: slab_free_def require_def Let_def)

end
