(* ===== verification/Os.thy ===== *)
theory Os
  imports Sem Spinlock Dev
begin

text \<open>
  Interrupts and traps (\<open>kernel/src/os.c\<close>): the sorted list of handlers, built node by node in memory by
  \<open>os_on_irq\<close>, and \<open>os_trap\<close>, which runs the handlers of an event under two locks and returns the context
  to continue with.  Addresses are numbers, 0 is \<open>NULL\<close>; a context is its address.
\<close>

section \<open>The list of handlers\<close>

text \<open>The functions the kernel registers: of the scheduler and of the keyboard.\<close>

datatype handler = Context_save | Context_switch | Input_notify

record hnode =
  h_handler :: handler
  h_event :: int
  h_seq :: int
  h_next :: nat

record hlist =
  h_mem :: "nat \<Rightarrow> hnode"
  handlehead :: nat

definition INT_MAX :: int where "INT_MAX = 2147483647"
definition INT_MIN :: int where "INT_MIN = - 2147483648"

definition EVENT_NULL :: int where "EVENT_NULL = 0"
definition EVENT_ERROR :: int where "EVENT_ERROR = 1"
definition EVENT_IRQ_TIMER :: int where "EVENT_IRQ_TIMER = 2"
definition EVENT_IRQ_IODEV :: int where "EVENT_IRQ_IODEV = 3"
definition EVENT_YIELD :: int where "EVENT_YIELD = 5"

text \<open>The search for the place: the first node that is not smaller, and the last one before it.\<close>

partial_function (option) find_pos :: "(nat \<Rightarrow> hnode) \<Rightarrow> int \<Rightarrow> nat \<Rightarrow> nat \<Rightarrow> (nat \<times> nat) option" where
  "find_pos m seq ind old =
     (if ind = 0 then Some (ind, old)
      else if seq > h_seq (m ind) then find_pos m seq (h_next (m ind)) ind
      else Some (ind, old))"

text \<open>\<open>a\<close> is the node that \<open>pmm->alloc\<close> returns.  At the front \<open>old\<close> is the head itself.\<close>

definition os_on_irq :: "nat \<Rightarrow> int \<Rightarrow> int \<Rightarrow> handler \<Rightarrow> hlist \<Rightarrow> hlist option" where
  "os_on_irq a seq evt hnd H =
     map_option (\<lambda>(ind, old).
       let m1 = (h_mem H)(a := \<lparr>h_handler = hnd, h_event = evt, h_seq = seq, h_next = ind\<rparr>);
           m2 = (if old \<noteq> 0 then m1(old := (m1 old)\<lparr>h_next := a\<rparr>) else m1)
       in \<lparr>h_mem = m2, handlehead = (if ind = handlehead H then a else handlehead H)\<rparr>)
     (find_pos (h_mem H) seq (handlehead H) (handlehead H))"

section \<open>\<open>os_trap\<close>\<close>

record os =
  o_kmt :: kmt
  o_kbd :: sem
  o_spins :: spins
  o_list :: hlist

definition HL_LOCK :: nat where "HL_LOCK = 0"
definition TRAP_LOCK :: nat where "TRAP_LOCK = 1"

text \<open>One handler: the context it returns (0 for \<open>NULL\<close>) and its effect.\<close>

definition run_handler :: "nat \<Rightarrow> nat \<Rightarrow> handler \<Rightarrow> os \<Rightarrow> (nat \<times> os) res" where
  "run_handler c ctx h s =
     (case h of
        Context_save \<Rightarrow> Inr (0, s\<lparr>o_kmt := kmt_context_save (o_kmt s) c ctx\<rparr>)
      | Context_switch \<Rightarrow>
          rbind (kmt_context_switch (o_kmt s) c) (\<lambda>(r, k). Inr (r, s\<lparr>o_kmt := k\<rparr>))
      | Input_notify \<Rightarrow>
          rbind (semsignal (o_kmt s) (o_kbd s)) (\<lambda>(k, q). Inr (0, s\<lparr>o_kmt := k, o_kbd := q\<rparr>)))"

partial_function (option) run_handlers :: "nat \<Rightarrow> int \<Rightarrow> nat \<Rightarrow> nat \<Rightarrow> nat \<Rightarrow> os \<Rightarrow> (nat \<times> os) res option" where
  "run_handlers c ev ctx ind ret s =
     (if ind = 0 then Some (Inr (ret, s))
      else
        let n = h_mem (o_list s) ind in
        if h_event n = EVENT_NULL \<or> h_event n = ev then
          case run_handler c ctx (h_handler n) s of
            Inl e \<Rightarrow> Some (Inl e)
          | Inr (nxt, s1) \<Rightarrow> run_handlers c ev ctx (h_next n) (if nxt \<noteq> 0 then nxt else ret) s1
        else run_handlers c ev ctx (h_next n) ret s)"

text \<open>Taking a lock unless this processor has it, and giving it back if it has.\<close>

definition enter_lock :: "nat \<Rightarrow> nat \<Rightarrow> os \<Rightarrow> os res" where
  "enter_lock c l s =
     rbind (holding c l (o_spins s)) (\<lambda>(h, sp).
     if h then Inr (s\<lparr>o_spins := sp\<rparr>)
     else rbind (my_spinlock c l sp) (\<lambda>sp1. Inr (s\<lparr>o_spins := sp1\<rparr>)))"

definition leave_lock :: "nat \<Rightarrow> nat \<Rightarrow> os \<Rightarrow> os res" where
  "leave_lock c l s =
     rbind (holding c l (o_spins s)) (\<lambda>(h, sp).
     if h then rbind (my_spinunlock c l sp) (\<lambda>sp1. Inr (s\<lparr>o_spins := sp1\<rparr>))
     else Inr (s\<lparr>o_spins := sp\<rparr>))"

definition os_trap :: "nat \<Rightarrow> int \<Rightarrow> nat \<Rightarrow> os \<Rightarrow> (nat \<times> os) res option" where
  "os_trap c ev ctx s =
     (case
        rbind (enter_lock c TRAP_LOCK s) (\<lambda>s1.
        rbind (require (ev \<noteq> EVENT_ERROR) Assert_fail) (\<lambda>_.
        rbind (enter_lock c HL_LOCK s1) (\<lambda>s2.
        rbind (require (handlehead (o_list s2) \<noteq> 0) Assert_fail) (\<lambda>_. Inr s2))))
      of
        Inl e \<Rightarrow> Some (Inl e)
      | Inr s2 \<Rightarrow>
          map_option (\<lambda>r.
            rbind r (\<lambda>(ret, s3).
            rbind (require (ret \<noteq> 0) Assert_fail) (\<lambda>_.
            rbind (leave_lock c HL_LOCK s3) (\<lambda>s4.
            rbind (leave_lock c TRAP_LOCK s4) (\<lambda>s5. Inr (ret, s5))))))
          (run_handlers c ev ctx (handlehead (o_list s2)) 0 s2))"

section \<open>The list refines sorted insertion\<close>

text \<open>The nodes \<open>xs\<close> lead from \<open>p\<close> to \<open>q\<close>.\<close>

fun chain :: "(nat \<Rightarrow> hnode) \<Rightarrow> nat \<Rightarrow> nat list \<Rightarrow> nat \<Rightarrow> bool" where
  "chain m p [] q \<longleftrightarrow> p = q"
| "chain m p (x # xs) q \<longleftrightarrow> p = x \<and> x \<noteq> 0 \<and> chain m (h_next (m x)) xs q"

lemma chain_append: "chain m p (xs @ ys) q \<longleftrightarrow> (\<exists>r. chain m p xs r \<and> chain m r ys q)"
  by (induction xs arbitrary: p) auto

lemma chain_cong: "\<forall>x \<in> set xs. h_next (m' x) = h_next (m x) \<Longrightarrow> chain m' p xs q \<longleftrightarrow> chain m p xs q"
  by (induction xs arbitrary: p) auto

lemma chain_unique: "chain m p xs 0 \<Longrightarrow> chain m p ys 0 \<Longrightarrow> xs = ys"
proof (induction xs arbitrary: p ys)
  case Nil
  then show ?case by (cases ys) auto
next
  case (Cons x xs)
  then show ?case by (cases ys) auto
qed

lemma chain_distinct: "chain m p xs 0 \<Longrightarrow> distinct xs"
proof (induction xs arbitrary: p)
  case (Cons x xs)
  have "x \<notin> set xs"
  proof
    assume "x \<in> set xs"
    then obtain as bs where xs: "xs = as @ x # bs" by (auto dest: split_list)
    obtain r where "chain m r (x # bs) 0" using Cons.prems by (auto simp: xs chain_append)
    then have "chain m x (x # bs) 0" by simp
    moreover have "chain m x (x # xs) 0" using Cons.prems by simp
    ultimately have "x # xs = x # bs" by (rule chain_unique [rotated])
    then have "length xs = length bs" by simp
    then show False by (simp add: xs)
  qed
  with Cons show ?case by auto
qed simp

lemma chain_hd: "chain m p xs 0 \<Longrightarrow> p = (case xs of [] \<Rightarrow> 0 | x # _ \<Rightarrow> x)"
  by (cases xs) auto

lemma find_pos_chain:
  "chain m p xs 0 \<Longrightarrow> find_pos m seq p old =
     (let T = takeWhile (\<lambda>x. h_seq (m x) < seq) xs; R = dropWhile (\<lambda>x. h_seq (m x) < seq) xs
      in Some (case R of [] \<Rightarrow> 0 | y # _ \<Rightarrow> y, if T = [] then old else last T))"
proof (induction xs arbitrary: p old)
  case Nil
  then show ?case by (subst find_pos.simps) simp
next
  case (Cons x xs)
  then show ?case by (subst find_pos.simps) (auto simp: Let_def)
qed

text \<open>What a node says, and the registrations as a list.\<close>

definition h_view :: "(nat \<Rightarrow> hnode) \<Rightarrow> nat \<Rightarrow> int \<times> int \<times> handler" where
  "h_view m x = (h_seq (m x), h_event (m x), h_handler (m x))"

definition registered :: "hlist \<Rightarrow> (int \<times> int \<times> handler) list \<Rightarrow> bool" where
  "registered H rs \<longleftrightarrow> (\<exists>xs. chain (h_mem H) (handlehead H) xs 0 \<and> map (h_view (h_mem H)) xs = rs)"

definition fresh_node :: "hlist \<Rightarrow> nat \<Rightarrow> bool" where
  "fresh_node H a \<longleftrightarrow> a \<noteq> 0 \<and> (\<forall>xs. chain (h_mem H) (handlehead H) xs 0 \<longrightarrow> a \<notin> set xs)"

definition insert_handler :: "int \<times> int \<times> handler \<Rightarrow> (int \<times> int \<times> handler) list \<Rightarrow> (int \<times> int \<times> handler) list" where
  "insert_handler r rs = takeWhile (\<lambda>x. fst x < fst r) rs @ r # dropWhile (\<lambda>x. fst x < fst r) rs"

lemma takeWhile_view:
  "takeWhile (\<lambda>x. fst x < s) (map (h_view m) xs) = map (h_view m) (takeWhile (\<lambda>x. h_seq (m x) < s) xs)"
  "dropWhile (\<lambda>x. fst x < s) (map (h_view m) xs) = map (h_view m) (dropWhile (\<lambda>x. h_seq (m x) < s) xs)"
  by (simp_all add: takeWhile_map dropWhile_map comp_def h_view_def)

lemma os_on_irq_inserts:
  assumes "registered H rs" and "fresh_node H a" and "rs = [] \<or> fst (hd rs) < seq"
  shows "\<exists>H'. os_on_irq a seq ev hnd H = Some H' \<and> registered H' (insert_handler (seq, ev, hnd) rs)"
proof -
  let ?m = "h_mem H" and ?p = "handlehead H"
  obtain xs where xs: "chain ?m ?p xs 0" "map (h_view ?m) xs = rs" using assms(1) by (auto simp: registered_def)
  have a: "a \<noteq> 0" "a \<notin> set xs" using assms(2) xs(1) by (auto simp: fresh_node_def)
  define T where "T = takeWhile (\<lambda>x. h_seq (?m x) < seq) xs"
  define R where "R = dropWhile (\<lambda>x. h_seq (?m x) < seq) xs"
  define ind where "ind = (case R of [] \<Rightarrow> 0 | y # _ \<Rightarrow> y)"
  define m1 where "m1 = ?m(a := \<lparr>h_handler = hnd, h_event = ev, h_seq = seq, h_next = ind\<rparr>)"
  have TR: "xs = T @ R" by (simp add: T_def R_def)
  note find = find_pos_chain [OF xs(1), of seq ?p, folded T_def R_def, unfolded Let_def, folded ind_def]
  have ins: "insert_handler (seq, ev, hnd) rs = map (h_view ?m) T @ (seq, ev, hnd) # map (h_view ?m) R"
    unfolding insert_handler_def xs(2) [symmetric] fst_conv takeWhile_view T_def R_def ..
  obtain r where r: "chain ?m ?p T r" "chain ?m r R 0" using xs(1) by (auto simp: TR chain_append)
  have rind: "r = ind" using chain_hd [OF r(2)] by (simp add: ind_def)
  show ?thesis
  proof (cases "xs = []")
    case True
    then have "?p = 0" "ind = 0" "R = []" "T = []" using xs(1) TR by (simp_all add: ind_def)
    then have "os_on_irq a seq ev hnd H = Some \<lparr>h_mem = m1, handlehead = a\<rparr>"
      using find by (simp add: os_on_irq_def m1_def)
    moreover have "registered \<lparr>h_mem = m1, handlehead = a\<rparr> (insert_handler (seq, ev, hnd) rs)"
      unfolding ins registered_def using a \<open>R = []\<close> \<open>T = []\<close> \<open>ind = 0\<close>
      by (intro exI [of _ "[a]"]) (simp add: m1_def h_view_def)
    ultimately show ?thesis by blast
  next
    case False
    then have "fst (hd rs) < seq" "hd rs = h_view ?m (hd xs)"
      using assms(3) xs(2) hd_map [OF False, of "h_view ?m"] by (auto simp del: hd_map)
    then have "h_seq (?m (hd xs)) < seq" by (simp add: h_view_def)
    then have T: "T \<noteq> []" using False by (cases xs) (auto simp: T_def)
    define l where "l = last T"
    obtain U where U: "T = U @ [l]" using T by (metis l_def append_butlast_last_id)
    have d: "distinct (U @ l # R)" using chain_distinct [OF xs(1)] by (simp add: TR U)
    have l: "l \<noteq> 0" "l \<noteq> a" using r(1) a TR U by (auto simp: chain_append)
    have pind: "ind \<noteq> ?p"
    proof (cases R)
      case Nil
      then show ?thesis using xs(1) False by (cases xs) (auto simp: ind_def)
    next
      case (Cons y ys)
      then have "ind \<in> set R" by (simp add: ind_def)
      moreover have "?p \<in> set T" using r(1) T by (cases T) auto
      ultimately show ?thesis using chain_distinct [OF xs(1)] TR by auto
    qed
    define m2 where "m2 = m1(l := (m1 l)\<lparr>h_next := a\<rparr>)"
    have run: "os_on_irq a seq ev hnd H = Some \<lparr>h_mem = m2, handlehead = ?p\<rparr>"
      using find T l pind by (simp add: os_on_irq_def m1_def [symmetric] m2_def l_def [symmetric])
    have "chain m2 ?p U l"
      using r(1) d a TR U by (subst chain_cong [of _ _ ?m]) (auto simp: chain_append m2_def m1_def)
    moreover have "chain m2 ind R 0"
      using r(2) d a TR U rind by (subst chain_cong [of _ _ ?m]) (auto simp: m2_def m1_def)
    moreover have "h_next (m2 l) = a" "h_next (m2 a) = ind" using l by (simp_all add: m2_def m1_def)
    ultimately have "chain m2 ?p ((U @ [l]) @ a # R) 0" using l a by (auto simp: chain_append)
    moreover have "map (h_view m2) (T @ a # R) = insert_handler (seq, ev, hnd) rs"
      unfolding ins using a l TR U by (auto simp: m2_def m1_def h_view_def)
    ultimately have "registered \<lparr>h_mem = m2, handlehead = ?p\<rparr> (insert_handler (seq, ev, hnd) rs)"
      unfolding registered_def U [symmetric] by auto
    with run show ?thesis by blast
  qed
qed

text \<open>
  Registering a handler whose number is larger than the first one's, or the first handler of all,
  inserts it into the list in memory before the handlers with the same or a larger number: the list
  stays sorted and every other registration stays as it is.
\<close>

theorem os_on_irq_refines:
  assumes "registered H rs" and "fresh_node H a" and "rs = [] \<or> fst (hd rs) < seq" and "sorted (map fst rs)"
  shows "\<exists>H'. os_on_irq a seq ev hnd H = Some H' \<and> registered H' (insert_handler (seq, ev, hnd) rs) \<and>
    sorted (map fst (insert_handler (seq, ev, hnd) rs))"
proof -
  have "sorted (map fst (insert_handler (seq, ev, hnd) rs))"
  proof -
    let ?P = "\<lambda>x :: int \<times> int \<times> handler. fst x < seq"
    have s: "sorted (map fst (takeWhile ?P rs)) \<and> sorted (map fst (dropWhile ?P rs))"
      using assms(4) sorted_append [of "map fst (takeWhile ?P rs)" "map fst (dropWhile ?P rs)"]
      by (simp flip: map_append)
    have "\<forall>x \<in> set (dropWhile ?P rs). seq \<le> fst x"
      using assms(4)
    proof (induction rs)
      case (Cons r rs)
      then show ?case by (auto simp: not_less)
    qed simp
    moreover have "\<forall>x \<in> set (takeWhile ?P rs). fst x < seq" by (auto dest: set_takeWhileD)
    moreover from calculation have "\<forall>x \<in> set (takeWhile ?P rs). \<forall>y \<in> set (dropWhile ?P rs). fst x \<le> fst y"
      by (meson less_imp_le less_le_trans)
    ultimately show ?thesis
      using s by (auto simp: insert_handler_def sorted_append)
  qed
  with os_on_irq_inserts [OF assms(1-3)] show ?thesis by blast
qed

text \<open>The three registrations of the kernel, in the order of the boot.\<close>

definition boot_handlers :: "(int \<times> int \<times> handler) list" where
  "boot_handlers = [(INT_MIN, EVENT_NULL, Context_save), (0, EVENT_IRQ_IODEV, Input_notify),
     (INT_MAX, EVENT_NULL, Context_switch)]"

definition no_handlers :: hlist where
  "no_handlers = \<lparr>h_mem = \<lambda>_. \<lparr>h_handler = Context_save, h_event = 0, h_seq = 0, h_next = 0\<rparr>, handlehead = 0\<rparr>"

lemma registered_none: "registered no_handlers []"
  by (auto simp: registered_def no_handlers_def intro: exI [of _ "[]"])

lemma fresh_by: "chain (h_mem H) (handlehead H) xs 0 \<Longrightarrow> a \<noteq> 0 \<Longrightarrow> a \<notin> set xs \<Longrightarrow> fresh_node H a"
  unfolding fresh_node_def using chain_unique by blast

lemma os_on_irq_refines_witness:
  "\<exists>H'. os_on_irq 64 INT_MIN EVENT_NULL Context_save no_handlers = Some H' \<and>
    registered H' (insert_handler (INT_MIN, EVENT_NULL, Context_save) []) \<and>
    sorted (map fst (insert_handler (INT_MIN, EVENT_NULL, Context_save) []))"
proof (rule os_on_irq_refines [OF registered_none])
  show "fresh_node no_handlers 64" by (rule fresh_by [of _ "[]"]) (simp_all add: no_handlers_def)
qed simp_all

text \<open>
  A number that is not larger than the first one's ties the first two nodes into a ring: the new node
  points to the old head, and the old head, which \<open>old\<close> still is, back to the new node.
\<close>

lemma os_on_irq_front_ring:
  assumes "handlehead H = p" and "p \<noteq> 0" and "seq \<le> h_seq (h_mem H p)" and "a \<noteq> 0" and "a \<noteq> p"
  shows "\<exists>H'. os_on_irq a seq ev hnd H = Some H' \<and> handlehead H' = a \<and>
    h_next (h_mem H' a) = p \<and> h_next (h_mem H' p) = a"
  using assms by (simp add: os_on_irq_def find_pos.simps)

text \<open>A trap on such a list does not return.\<close>

lemma run_handler_list: "run_handler c ctx h s = Inr (r, s') \<Longrightarrow> o_list s' = o_list s"
  by (auto simp: run_handler_def res_simps split: handler.splits)

lemma ring_never_returns:
  assumes "h_next (h_mem H a) = p" and "h_next (h_mem H p) = a" and "a \<noteq> 0" and "p \<noteq> 0"
    and "o_list s = H" and "ind = a \<or> ind = p"
  shows "run_handlers c ev ctx ind ret s \<noteq> Some (Inr r)"
proof
  assume "run_handlers c ev ctx ind ret s = Some (Inr r)"
  then have "\<forall>x. Inr r = (Inr x :: (nat \<times> os) res) \<longrightarrow> o_list s = H \<longrightarrow> \<not> (ind = a \<or> ind = p)"
  proof (rule run_handlers.raw_induct [where
        P = "\<lambda>c ev ctx ind ret s y. \<forall>x. y = Inr x \<longrightarrow> o_list s = H \<longrightarrow> \<not> (ind = a \<or> ind = p)", rotated])
    fix f :: "nat \<Rightarrow> int \<Rightarrow> nat \<Rightarrow> nat \<Rightarrow> nat \<Rightarrow> os \<Rightarrow> (nat \<times> os) res option" and c ev ctx ind ret s y
    assume IH: "\<And>c ev ctx ind ret s y. f c ev ctx ind ret s = Some y \<Longrightarrow>
        \<forall>x. y = Inr x \<longrightarrow> o_list s = H \<longrightarrow> \<not> (ind = a \<or> ind = p)"
      and run: "(if ind = 0 then Some (Inr (ret, s))
      else
        let n = h_mem (o_list s) ind in
        if h_event n = EVENT_NULL \<or> h_event n = ev then
          case run_handler c ctx (h_handler n) s of
            Inl e \<Rightarrow> Some (Inl e)
          | Inr (nxt, s1) \<Rightarrow> f c ev ctx (h_next n) (if nxt \<noteq> 0 then nxt else ret) s1
        else f c ev ctx (h_next n) ret s) = Some y"
    show "\<forall>x. y = Inr x \<longrightarrow> o_list s = H \<longrightarrow> \<not> (ind = a \<or> ind = p)"
    proof (intro allI impI notI)
      fix x
      assume y: "y = Inr x" and H: "o_list s = H" and at: "ind = a \<or> ind = p"
      then have nz: "ind \<noteq> 0" and nx: "h_next (h_mem H ind) = a \<or> h_next (h_mem H ind) = p" using assms by auto
      from run y H nz obtain ret' s' where "f c ev ctx (h_next (h_mem H ind)) ret' s' = Some (Inr x)" "o_list s' = H"
        by (auto simp: Let_def split: if_splits sum.splits dest: run_handler_list)
      with IH nx show False by blast
    qed
  qed
  with assms show False by blast
qed

section \<open>A trap\<close>

text \<open>The locks around the handlers: taking a free one, giving back one that is held.\<close>

lemma enter_lock_free:
  assumes "cpu_ok (cpu_info (o_spins s) c)" and "\<not> lk_locked (locks (o_spins s) l)"
  shows "\<exists>sp. enter_lock c l s = Inr (s\<lparr>o_spins := sp\<rparr>) \<and>
    locks sp = (locks (o_spins s))(l := \<lparr>lk_locked = True, lk_cpu = Some c\<rparr>) \<and> cpu_ok (cpu_info sp c) \<and>
    c_ncli (cpu_info sp c) = c_ncli (cpu_info (o_spins s) c) + 1 \<and>
    c_intena (cpu_info sp c) = (if c_ncli (cpu_info (o_spins s) c) = 0 then c_if (cpu_info (o_spins s) c)
      else c_intena (cpu_info (o_spins s) c))"
proof -
  let ?S = "o_spins s" and ?p = "cpu_info (o_spins s) c"
  obtain q where q: "pop_cpu (push_cpu ?p) = Inr q" "c_ncli q = c_ncli ?p" "c_if q = c_if ?p"
      "0 < c_ncli ?p \<longrightarrow> q = ?p"
    using pop_push_cpu [OF assms(1)] by blast
  have okq: "cpu_ok q" using assms(1) q by (simp add: cpu_ok_def)
  define S1 where "S1 = ?S\<lparr>cpu_info := (cpu_info ?S)(c := q)\<rparr>"
  have h: "holding c l ?S = Inr (False, S1)"
    using q(1) assms(2) by (simp add: holding_def pushcli_def popcli_def holds_lock_def S1_def)
  define S2 where "S2 = pushcli c S1"
  have S2: "cpu_info S2 c = push_cpu q" "locks S2 = locks ?S" by (simp_all add: S2_def S1_def pushcli_def)
  have ok2: "cpu_ok (cpu_info S2 c)" "0 < c_ncli (cpu_info S2 c)" using push_cpu_ok [OF okq] by (simp_all add: S2)
  define S3 where "S3 = S2\<lparr>locks := (locks S2)(l := \<lparr>lk_locked = True, lk_cpu = Some c\<rparr>)\<rparr>"
  have "my_spinlock c l S1 = Inr S3"
    using assms(2) holding_pushed [OF ok2] by (simp add: my_spinlock_def S2_def [symmetric] S2 holds_lock_def S3_def)
  then have "enter_lock c l s = Inr (s\<lparr>o_spins := S3\<rparr>)" using h by (simp add: enter_lock_def)
  moreover have "c_intena (push_cpu q) = (if c_ncli ?p = 0 then c_if ?p else c_intena ?p)"
    using q assms(1) by (auto simp: push_cpu_def cpu_ok_def)
  ultimately show ?thesis
    using ok2(1) q(2) S2 by (intro exI [of _ S3]) (simp add: S3_def push_cpu_def)
qed

lemma leave_lock_held:
  assumes "cpu_ok (cpu_info (o_spins s) c)" and "0 < c_ncli (cpu_info (o_spins s) c)"
    and "holds_lock c (locks (o_spins s) l)"
  shows "\<exists>sp. leave_lock c l s = Inr (s\<lparr>o_spins := sp\<rparr>) \<and>
    locks sp = (locks (o_spins s))(l := \<lparr>lk_locked = False, lk_cpu = None\<rparr>) \<and> cpu_ok (cpu_info sp c) \<and>
    c_ncli (cpu_info sp c) = c_ncli (cpu_info (o_spins s) c) - 1 \<and>
    c_intena (cpu_info sp c) = c_intena (cpu_info (o_spins s) c) \<and>
    c_if (cpu_info sp c) = (c_ncli (cpu_info sp c) = 0 \<and> c_intena (cpu_info sp c))"
proof -
  let ?S = "o_spins s" and ?p = "cpu_info (o_spins s) c"
  obtain q where q: "pop_cpu ?p = Inr q" "cpu_ok q" using pop_cpu_ok [OF assms(1,2)] by blast
  have qv: "c_ncli q = c_ncli ?p - 1" "c_intena q = c_intena ?p" "c_if q = (c_ncli q = 0 \<and> c_intena q)"
    using q(1) by (auto simp: pop_cpu_def Let_def split: if_splits)
  note h = holding_pushed [OF assms(1,2)]
  define S1 where "S1 = ?S\<lparr>locks := (locks ?S)(l := \<lparr>lk_locked = False, lk_cpu = None\<rparr>), cpu_info := (cpu_info ?S)(c := q)\<rparr>"
  have "my_spinunlock c l ?S = Inr S1"
    using h [of l] assms(3) q(1) by (simp add: my_spinunlock_def popcli_def S1_def)
  then have "leave_lock c l s = Inr (s\<lparr>o_spins := S1\<rparr>)" using h [of l] assms(3) by (simp add: leave_lock_def)
  then show ?thesis using q(2) qv by (intro exI [of _ S1]) (simp add: S1_def)
qed

text \<open>The handlers of an event that is not the keyboard's: save, then switch.\<close>

lemma run_boot_handlers:
  assumes "registered (o_list s) boot_handlers" and "ev \<noteq> EVENT_IRQ_IODEV" and "ev \<noteq> EVENT_NULL"
    and "switched (o_kmt s) c ctx = Inr (r, k)" and "r \<noteq> 0"
  shows "run_handlers c ev ctx (handlehead (o_list s)) 0 s = Some (Inr (r, s\<lparr>o_kmt := k\<rparr>))"
proof -
  obtain xs where xs: "chain (h_mem (o_list s)) (handlehead (o_list s)) xs 0"
      "map (h_view (h_mem (o_list s))) xs = boot_handlers"
    using assms(1) by (auto simp: registered_def)
  then obtain x y z where "xs = [x, y, z]" by (auto simp: boot_handlers_def map_eq_Cons_conv)
  with xs show ?thesis
    using assms(2-5)
    by (simp add: run_handlers.simps boot_handlers_def h_view_def run_handler_def switched_def Let_def
        EVENT_NULL_def EVENT_IRQ_IODEV_def)
qed

lemma run_boot_handlers_kbd:
  assumes "registered (o_list s) boot_handlers"
    and "semsignal (kmt_context_save (o_kmt s) c ctx) (o_kbd s) = Inr (k1, q)"
    and "kmt_context_switch k1 c = Inr (r, k)" and "r \<noteq> 0"
  shows "run_handlers c EVENT_IRQ_IODEV ctx (handlehead (o_list s)) 0 s =
    Some (Inr (r, s\<lparr>o_kmt := k, o_kbd := q\<rparr>))"
proof -
  obtain xs where xs: "chain (h_mem (o_list s)) (handlehead (o_list s)) xs 0"
      "map (h_view (h_mem (o_list s))) xs = boot_handlers"
    using assms(1) by (auto simp: registered_def)
  then obtain x y z where "xs = [x, y, z]" by (auto simp: boot_handlers_def map_eq_Cons_conv)
  with xs show ?thesis
    using assms(2-4)
    by (simp add: run_handlers.simps boot_handlers_def h_view_def run_handler_def Let_def)
qed

lemma registered_head: "registered H rs \<Longrightarrow> rs \<noteq> [] \<Longrightarrow> handlehead H \<noteq> 0"
  by (auto simp: registered_def) (metis chain.elims(2) list.map_disc_iff)

lemma switch_context:
  "kmt_context_switch k c = Inr (r, k') \<Longrightarrow> t_context (k_task k' t) = t_context (k_task k t)"
  using switch_effect [of k c r k'] by (auto simp: pick_def Let_def split: if_splits)

text \<open>Entering, running handlers that do what \<open>run\<close> says, and leaving again.\<close>

lemma os_trap_frame:
  assumes ok: "cpu_ok (cpu_info (o_spins s) c)"
    and free: "\<not> lk_locked (locks (o_spins s) TRAP_LOCK)" "\<not> lk_locked (locks (o_spins s) HL_LOCK)"
    and ev: "ev \<noteq> EVENT_ERROR" and reg: "registered (o_list s) boot_handlers" and r: "r \<noteq> 0"
    and run: "\<And>sp. run_handlers c ev ctx (handlehead (o_list s)) 0 (s\<lparr>o_spins := sp\<rparr>) =
        Some (Inr (r, s\<lparr>o_kmt := k, o_kbd := q, o_spins := sp\<rparr>))"
  shows "\<exists>sp. os_trap c ev ctx s = Some (Inr (r, s\<lparr>o_kmt := k, o_kbd := q, o_spins := sp\<rparr>)) \<and>
    \<not> lk_locked (locks sp TRAP_LOCK) \<and> \<not> lk_locked (locks sp HL_LOCK) \<and>
    c_ncli (cpu_info sp c) = c_ncli (cpu_info (o_spins s) c) \<and> c_if (cpu_info sp c) = c_if (cpu_info (o_spins s) c)"
proof -
  have ne: "TRAP_LOCK \<noteq> HL_LOCK" "HL_LOCK \<noteq> TRAP_LOCK" by (simp_all add: TRAP_LOCK_def HL_LOCK_def)
  obtain sp1 where e1: "enter_lock c TRAP_LOCK s = Inr (s\<lparr>o_spins := sp1\<rparr>)"
      "locks sp1 = (locks (o_spins s))(TRAP_LOCK := \<lparr>lk_locked = True, lk_cpu = Some c\<rparr>)" "cpu_ok (cpu_info sp1 c)"
      "c_ncli (cpu_info sp1 c) = c_ncli (cpu_info (o_spins s) c) + 1"
      "c_intena (cpu_info sp1 c) = (if c_ncli (cpu_info (o_spins s) c) = 0 then c_if (cpu_info (o_spins s) c)
        else c_intena (cpu_info (o_spins s) c))"
    using enter_lock_free [OF ok free(1)] by blast
  let ?s1 = "s\<lparr>o_spins := sp1\<rparr>"
  have "cpu_ok (cpu_info (o_spins ?s1) c)" "\<not> lk_locked (locks (o_spins ?s1) HL_LOCK)" using e1 free ne by simp_all
  from enter_lock_free [OF this] obtain sp2 where E2: "enter_lock c HL_LOCK ?s1 = Inr (?s1\<lparr>o_spins := sp2\<rparr>)"
      "locks sp2 = (locks (o_spins ?s1))(HL_LOCK := \<lparr>lk_locked = True, lk_cpu = Some c\<rparr>)" "cpu_ok (cpu_info sp2 c)"
      "c_ncli (cpu_info sp2 c) = c_ncli (cpu_info (o_spins ?s1) c) + 1"
      "c_intena (cpu_info sp2 c) = (if c_ncli (cpu_info (o_spins ?s1) c) = 0 then c_if (cpu_info (o_spins ?s1) c)
        else c_intena (cpu_info (o_spins ?s1) c))"
    by blast
  have e2: "enter_lock c HL_LOCK ?s1 = Inr (s\<lparr>o_spins := sp2\<rparr>)"
      "locks sp2 = (locks sp1)(HL_LOCK := \<lparr>lk_locked = True, lk_cpu = Some c\<rparr>)" "cpu_ok (cpu_info sp2 c)"
      "c_ncli (cpu_info sp2 c) = c_ncli (cpu_info sp1 c) + 1"
    using E2(1-4) by simp_all
  have i2: "c_intena (cpu_info sp2 c) = (if c_ncli (cpu_info sp1 c) = 0 then c_if (cpu_info sp1 c) else c_intena (cpu_info sp1 c))"
    using E2(5) by simp
  have n0: "0 \<le> c_ncli (cpu_info (o_spins s) c)" using ok by (simp add: cpu_ok_def)
  let ?s2 = "s\<lparr>o_kmt := k, o_kbd := q, o_spins := sp2\<rparr>"
  have "cpu_ok (cpu_info (o_spins ?s2) c)" "0 < c_ncli (cpu_info (o_spins ?s2) c)" "holds_lock c (locks (o_spins ?s2) HL_LOCK)"
    using e1 e2 n0 by (simp_all add: holds_lock_def)
  from leave_lock_held [OF this] obtain sp3 where l1: "leave_lock c HL_LOCK ?s2 = Inr (?s2\<lparr>o_spins := sp3\<rparr>)"
      "locks sp3 = (locks (o_spins ?s2))(HL_LOCK := \<lparr>lk_locked = False, lk_cpu = None\<rparr>)" "cpu_ok (cpu_info sp3 c)"
      "c_ncli (cpu_info sp3 c) = c_ncli (cpu_info (o_spins ?s2) c) - 1" "c_intena (cpu_info sp3 c) = c_intena (cpu_info (o_spins ?s2) c)"
    by blast
  let ?s3 = "s\<lparr>o_kmt := k, o_kbd := q, o_spins := sp3\<rparr>"
  have "cpu_ok (cpu_info (o_spins ?s3) c)" "0 < c_ncli (cpu_info (o_spins ?s3) c)" "holds_lock c (locks (o_spins ?s3) TRAP_LOCK)"
    using e1 e2 l1 n0 ne by (simp_all add: holds_lock_def)
  from leave_lock_held [OF this] obtain sp4 where l2: "leave_lock c TRAP_LOCK ?s3 = Inr (?s3\<lparr>o_spins := sp4\<rparr>)"
      "locks sp4 = (locks (o_spins ?s3))(TRAP_LOCK := \<lparr>lk_locked = False, lk_cpu = None\<rparr>)"
      "c_ncli (cpu_info sp4 c) = c_ncli (cpu_info (o_spins ?s3) c) - 1" "c_intena (cpu_info sp4 c) = c_intena (cpu_info (o_spins ?s3) c)"
      "c_if (cpu_info sp4 c) = (c_ncli (cpu_info sp4 c) = 0 \<and> c_intena (cpu_info sp4 c))"
    by blast
  have "handlehead (o_list s) \<noteq> 0" using registered_head [OF reg] by (simp add: boot_handlers_def)
  then have "os_trap c ev ctx s = Some (Inr (r, s\<lparr>o_kmt := k, o_kbd := q, o_spins := sp4\<rparr>))"
    using e1(1) e2(1) ev run [of sp2] r l1(1) l2(1) by (simp add: os_trap_def)
  moreover have "\<not> lk_locked (locks sp4 TRAP_LOCK)" "\<not> lk_locked (locks sp4 HL_LOCK)" using l1(2) l2(2) ne by simp_all
  moreover have "c_ncli (cpu_info sp4 c) = c_ncli (cpu_info (o_spins s) c)" using e1 e2 l1 l2 by simp
  moreover from this have "c_if (cpu_info sp4 c) = c_if (cpu_info (o_spins s) c)"
    using ok e1(4,5) i2 l1(5) l2(4,5) n0 by (auto simp: cpu_ok_def)
  ultimately show ?thesis by blast
qed

lemma os_trap_switches_run:
  assumes "kmt_inv (o_kmt s)" and "z \<in> tasks_of (o_kmt s) c" and "t_status (k_task (o_kmt s) z) \<noteq> Suspend"
    and "\<forall>t \<in> tasks_of (o_kmt s) c. t_context (k_task (o_kmt s) t) \<noteq> 0" and "ctx \<noteq> 0"
    and "registered (o_list s) boot_handlers" and "ev = EVENT_IRQ_TIMER \<or> ev = EVENT_YIELD"
    and "cpu_ok (cpu_info (o_spins s) c)"
    and "\<not> lk_locked (locks (o_spins s) TRAP_LOCK)" and "\<not> lk_locked (locks (o_spins s) HL_LOCK)"
  shows "\<exists>r k sp. os_trap c ev ctx s = Some (Inr (r, s\<lparr>o_kmt := k, o_spins := sp\<rparr>)) \<and>
    switched (o_kmt s) c ctx = Inr (r, k) \<and> kmt_inv k \<and> current_tasks k c \<in> tasks_of (o_kmt s) c \<and>
    t_status (cur k c) = Running \<and> r = t_context (cur k c) \<and>
    \<not> lk_locked (locks sp TRAP_LOCK) \<and> \<not> lk_locked (locks sp HL_LOCK) \<and>
    c_ncli (cpu_info sp c) = c_ncli (cpu_info (o_spins s) c) \<and> c_if (cpu_info sp c) = c_if (cpu_info (o_spins s) c)"
proof -
  let ?k0 = "o_kmt s" and ?k1 = "kmt_context_save (o_kmt s) c ctx"
  have inv: "kmt_inv ?k1" using assms(1) by (rule context_save_inv)
  have tasks: "tasks_of ?k1 d = tasks_of ?k0 d" for d
    by (simp add: kmt_context_save_def tasks_of_def)
  have st: "t_status (k_task ?k1 t) = t_status (k_task ?k0 t)" for t
    by (simp add: kmt_context_save_def cur_def)
  have cx: "t_context (k_task ?k1 t) \<noteq> 0" if "t \<in> tasks_of ?k0 c" for t
    using assms(4,5) that by (simp add: kmt_context_save_def)
  obtain r k where sw: "kmt_context_switch ?k1 c = Inr (r, k)" "kmt_inv k" "current_tasks k c \<in> tasks_of ?k1 c"
      "t_status (cur k c) = Running" "r = t_context (cur k c)"
    using switch_runs_unsuspended_lemma [OF inv, of z c] assms(2,3) by (auto simp: tasks st)
  have "r \<noteq> 0" using sw(1,3,5) cx tasks switch_context [OF sw(1)] by (simp add: cur_def)
  have nev: "ev \<noteq> EVENT_ERROR" "ev \<noteq> EVENT_IRQ_IODEV" "ev \<noteq> EVENT_NULL"
    using assms(7) by (auto simp: EVENT_IRQ_TIMER_def EVENT_YIELD_def EVENT_ERROR_def EVENT_IRQ_IODEV_def EVENT_NULL_def)
  have swd: "switched ?k0 c ctx = Inr (r, k)" using sw(1) by (simp add: switched_def)
  have "run_handlers c ev ctx (handlehead (o_list s)) 0 (s\<lparr>o_spins := sp\<rparr>) =
      Some (Inr (r, s\<lparr>o_kmt := k, o_kbd := o_kbd s, o_spins := sp\<rparr>))" for sp
    using run_boot_handlers [of "s\<lparr>o_spins := sp\<rparr>" ev c ctx r k] assms(6) nev swd \<open>r \<noteq> 0\<close> by simp
  from os_trap_frame [OF assms(8-10) nev(1) assms(6) \<open>r \<noteq> 0\<close> this] sw swd tasks
  show ?thesis by auto
qed

text \<open>
  A timer interrupt or a yield on a processor with a task that is not suspended: \<open>os_trap\<close> stores
  the interrupted context in the task that was running and returns the context of the task that the
  scheduler picked, which is now the running task of this processor; the task lists stay consistent,
  both locks of the trap are free again and the interrupt state is as before.
\<close>

theorem os_trap_switches:
  assumes "kmt_inv (o_kmt s)" and "z \<in> tasks_of (o_kmt s) c" and "t_status (k_task (o_kmt s) z) \<noteq> Suspend"
    and "\<forall>t \<in> tasks_of (o_kmt s) c. t_context (k_task (o_kmt s) t) \<noteq> 0" and "ctx \<noteq> 0"
    and "registered (o_list s) boot_handlers" and "ev = EVENT_IRQ_TIMER \<or> ev = EVENT_YIELD"
    and "cpu_ok (cpu_info (o_spins s) c)"
    and "\<not> lk_locked (locks (o_spins s) TRAP_LOCK)" and "\<not> lk_locked (locks (o_spins s) HL_LOCK)"
  shows "\<exists>r k sp. os_trap c ev ctx s = Some (Inr (r, s\<lparr>o_kmt := k, o_spins := sp\<rparr>)) \<and>
    switched (o_kmt s) c ctx = Inr (r, k) \<and> kmt_inv k \<and> current_tasks k c \<in> tasks_of (o_kmt s) c \<and>
    t_status (cur k c) = Running \<and> r = t_context (cur k c) \<and>
    \<not> lk_locked (locks sp TRAP_LOCK) \<and> \<not> lk_locked (locks sp HL_LOCK) \<and>
    c_ncli (cpu_info sp c) = c_ncli (cpu_info (o_spins s) c) \<and> c_if (cpu_info sp c) = c_if (cpu_info (o_spins s) c)"
  by (rule os_trap_switches_run [OF assms])

text \<open>An instance: the registrations of the boot, and the tasks of \<open>demo_kmt\<close>.\<close>

definition boot_list :: hlist where
  "boot_list = \<lparr>h_mem = (\<lambda>_. \<lparr>h_handler = Context_save, h_event = 0, h_seq = 0, h_next = 0\<rparr>)
       (64 := \<lparr>h_handler = Context_save, h_event = EVENT_NULL, h_seq = INT_MIN, h_next = 96\<rparr>,
        80 := \<lparr>h_handler = Context_switch, h_event = EVENT_NULL, h_seq = INT_MAX, h_next = 0\<rparr>,
        96 := \<lparr>h_handler = Input_notify, h_event = EVENT_IRQ_IODEV, h_seq = 0, h_next = 80\<rparr>), handlehead = 64\<rparr>"

lemma boot_list_registered: "registered boot_list boot_handlers"
  unfolding registered_def by (intro exI [of _ "[64, 96, 80]"]) (simp add: boot_list_def boot_handlers_def h_view_def)

definition demo_os :: os where
  "demo_os = \<lparr>o_kmt = demo_kmt, o_kbd = seminit 0,
     o_spins = \<lparr>cpu_info = \<lambda>_. cpu_init, locks = \<lambda>_. my_spinlock_init\<rparr>, o_list = boot_list\<rparr>"

lemma os_trap_switches_witness:
  "\<exists>r k sp. os_trap 0 EVENT_YIELD 5 demo_os = Some (Inr (r, demo_os\<lparr>o_kmt := k, o_spins := sp\<rparr>)) \<and>
    t_status (cur k 0) = Running \<and> r = t_context (cur k 0)"
proof -
  have "kmt_inv (o_kmt demo_os)" using demo_kmt_inv by (simp add: demo_os_def)
  moreover have "100 \<in> tasks_of (o_kmt demo_os) 0" "t_status (k_task (o_kmt demo_os) 100) \<noteq> Suspend"
    "\<forall>t \<in> tasks_of (o_kmt demo_os) 0. t_context (k_task (o_kmt demo_os) t) \<noteq> 0"
    by (auto simp: demo_os_def demo_kmt_def tasks_of_def demo_task_def)
  moreover have "registered (o_list demo_os) boot_handlers" using boot_list_registered by (simp add: demo_os_def)
  moreover have "cpu_ok (cpu_info (o_spins demo_os) 0)" "\<not> lk_locked (locks (o_spins demo_os) l)" for l
    by (simp_all add: demo_os_def cpu_ok_def cpu_init_def my_spinlock_init_def)
  ultimately show ?thesis using os_trap_switches [of demo_os 100 0 5 EVENT_YIELD] by fastforce
qed

end
