(* ===== verification/Os_Init.thy ===== *)
theory Os_Init
  imports Os Stdio Vfs_Boot
begin

text \<open>
  The boot (\<open>os_init\<close> in \<open>kernel/src/os.c\<close>): the modules are initialised in order, then every processor
  gets a \<open>zombie\<close> task and four shells are started, each task with a file in \<open>/proc\<close>.  Addresses and
  contexts of the tasks, and the times \<open>uptime()\<close> returns, are arguments.
\<close>

section \<open>\<open>os_init\<close>\<close>

text \<open>\<open>kmt->init\<close> and \<open>input_init\<close> register the handlers; the nodes come from \<open>pmm->alloc\<close>.\<close>

definition register_kmt :: "nat \<Rightarrow> nat \<Rightarrow> hlist \<Rightarrow> hlist option" where
  "register_kmt a1 a2 H =
     (case os_on_irq a1 INT_MIN EVENT_NULL Context_save H of None \<Rightarrow> None
      | Some H1 \<Rightarrow> os_on_irq a2 INT_MAX EVENT_NULL Context_switch H1)"

definition register_input :: "nat \<Rightarrow> hlist \<Rightarrow> hlist option" where
  "register_input a3 H = os_on_irq a3 0 EVENT_IRQ_IODEV Input_notify H"

text \<open>\<open>memcpy(hgproc.block[n], buf, strlen(buf) + 1)\<close>\<close>

definition proc_text :: "vfs \<Rightarrow> nat \<Rightarrow> string \<Rightarrow> vfs res" where
  "proc_text v n s =
     (let b = pr_block v ! n in
      rbind (require (n < NFILEINFS \<and> length s + 1 \<le> length b) Overrun) (\<lambda>_.
      Inr (v\<lparr>pr_block := (pr_block v)[n := s @ NUL # drop (length s + 1) b]\<rparr>)))"

text \<open>A string formatted into \<open>buf[128]\<close>.\<close>

definition buf_sprintf :: "string \<Rightarrow> arg list \<Rightarrow> string res" where
  "buf_sprintf fmt as =
     rbind (sprintf fmt as) (\<lambda>(_, s, _). rbind (require (length s \<le> 127) Overrun) (\<lambda>_. Inr s))"

text \<open>One round of the loops: create the task, open its file, store its text.\<close>

record start =
  st_task :: nat
  st_ctx :: nat
  st_uptime :: "32 word"

definition start_task :: "nat \<Rightarrow> string \<Rightarrow> nat \<Rightarrow> nat \<Rightarrow> start \<Rightarrow> kmt \<times> vfs \<Rightarrow> (kmt \<times> vfs) res" where
  "start_task ncpu fmt i pidcnt st = (\<lambda>(k, v).
     rbind (kmt_create ncpu k (st_task st) (st_ctx st)) (\<lambda>k1.
     rbind (buf_sprintf ''/proc/%d'' [A_int (of_nat pidcnt)]) (\<lambda>path.
     rbind (vfsopen v path (O_CREAT OR O_RDWR)) (\<lambda>(_, v1).
     rbind (buf_sprintf fmt [A_int (of_nat i), A_int (st_uptime st)]) (\<lambda>text.
     rbind (proc_text v1 (pidcnt + 2) text) (\<lambda>v2. Inr (k1, v2)))))))"

fun start_tasks :: "nat \<Rightarrow> string \<Rightarrow> nat \<Rightarrow> nat \<Rightarrow> start list \<Rightarrow> kmt \<times> vfs \<Rightarrow> (kmt \<times> vfs) res" where
  "start_tasks ncpu fmt i pidcnt [] s = Inr s"
| "start_tasks ncpu fmt i pidcnt (st # sts) s =
     rbind (start_task ncpu fmt i pidcnt st s) (start_tasks ncpu fmt (i + 1) (pidcnt + 1) sts)"

definition zombie_fmt :: string where
  "zombie_fmt = ''ThreadName: zombie%d.'' @ [LF] @ ''CreateTime: %d''"

definition shell_fmt :: string where
  "shell_fmt = ''ThreadName:    shell_thread%d.'' @ [LF] @ ''CreateTime:   %d''"

record boot_args =
  ba_nodes :: "nat \<times> nat \<times> nat"
  ba_fs :: "nat \<times> nat \<times> nat"
  ba_input :: "nat \<times> nat"
  ba_tty :: "nat \<times> nat"
  ba_zombies :: "start list"
  ba_shells :: "start list"

definition os_init :: "nat \<Rightarrow> boot_args \<Rightarrow> devs \<Rightarrow> hlist \<Rightarrow> kmt \<Rightarrow> vfs \<Rightarrow> (kmt \<times> hlist \<times> vfs) res option" where
  "os_init ncpu A D H k v =
     (case (ba_nodes A, ba_fs A) of ((a1, a2, a3), (p, q, r)) \<Rightarrow>
      case register_kmt a1 a2 (H\<lparr>handlehead := 0\<rparr>) of None \<Rightarrow> None
      | Some H1 \<Rightarrow>
          case register_input a3 H1 of None \<Rightarrow> None
          | Some H2 \<Rightarrow> Some (
              rbind (kmt_create ncpu (kmt_init k) (fst (ba_input A)) (snd (ba_input A))) (\<lambda>k1.
              rbind (kmt_create ncpu k1 (fst (ba_tty A)) (snd (ba_tty A))) (\<lambda>k2.
              rbind (vfsinit (v\<lparr>v_devs := D\<rparr>) p q r (int ncpu)) (\<lambda>v1.
              rbind (start_tasks ncpu zombie_fmt 0 1 (ba_zombies A) (k2, v1)) (\<lambda>s2.
              rbind (start_tasks ncpu shell_fmt 0 (1 + length (ba_zombies A)) (ba_shells A) s2) (\<lambda>(k3, v3).
              Inr (k3, H2, v3))))))))"

section \<open>Names of the files in \<open>/proc\<close>\<close>

lemma sint_small: "n < 2 ^ 31 \<Longrightarrow> \<not> sint (of_nat n :: 32 word) < 0 \<and> unat (of_nat n :: 32 word) = n"
  by (simp add: signed_of_nat signed_take_bit_int_eq_self unat_of_nat take_bit_nat_eq_self)

lemma decimal_nat: "n < 2 ^ 31 \<Longrightarrow> decimal (of_nat n) = map (nth (digits_table False)) (rev (number_tmp 10 n))"
  using sint_small [of n] by (simp add: decimal_def)

lemma decimal_read:
  assumes "n < 2 ^ 31"
  shows "strtoul_loop (decimal (of_nat n)) 10 0 = (n, [])"
proof -
  have "\<forall>d \<in> set (rev (number_tmp 10 n)). d < 10" using number_tmp_below [of 10] by simp
  then show ?thesis
    using strtoul_loop_value [of 10 "rev (number_tmp 10 n)" False] assms number_tmp_value [of 10 n]
    by (simp add: decimal_nat)
qed

lemma decimal_inj: "n < 2 ^ 31 \<Longrightarrow> m < 2 ^ 31 \<Longrightarrow> decimal (of_nat n) = decimal (of_nat m) \<Longrightarrow> n = m"
  by (metis decimal_read prod.inject)

lemma decimal_length: "decimal w \<noteq> [] \<and> length (decimal w) \<le> 33"
proof -
  let ?n = "unat (if sint w < 0 then - w else w)"
  have "length (number_tmp 10 ?n) \<le> 32" using unat_below32 by (intro number_tmp_length) auto
  then show ?thesis using number_tmp_nonempty [of 10 ?n] by (auto simp: decimal_def)
qed

lemma decimal_digits:
  assumes "n < 2 ^ 31" and "c \<in> set (decimal (of_nat n))"
  shows "c \<in> set ''0123456789''"
proof -
  obtain d where d: "d < 10" "c = digits_table False ! d"
    using assms number_tmp_below [of 10 _ n] by (auto simp: decimal_nat)
  have "list_all (\<lambda>d. digits_table False ! d \<in> set ''0123456789'') [0..<10]" by code_simp
  then show ?thesis using d by (simp add: list_all_iff)
qed

section \<open>The directory of \<open>/proc\<close>\<close>

text \<open>The entries in use stand in front: \<open>ns\<close> are their names, and the rest of the directory is zero.\<close>

definition named :: "edt \<Rightarrow> string \<Rightarrow> bool" where
  "named e nm \<longleftrightarrow> wf_edt e \<and> e_valid e = 1 \<and> NUL \<in> set (e_name e) \<and> cstr (e_name e) = nm"

definition proc_has :: "vfs \<Rightarrow> string list \<Rightarrow> bool" where
  "proc_has v ns \<longleftrightarrow> (\<exists>es. proc_dir v = zero_ed\<lparr>etrs := es @ replicate (80 - length ns) zero_edt\<rparr> \<and>
     list_all2 named es ns) \<and> length (pr_block v) = 80 \<and> length (pr_block v ! 0) = 4096 \<and>
     (\<exists>xs. pr_ino v = map Some xs @ replicate (79 - length ns) None \<and> length xs = length ns + 1)"

lemma proc_find_none:
  assumes "list_all2 named es ns" and "nm \<noteq> []" and "nm \<notin> set ns"
  shows "proc_find nm (es @ replicate k zero_edt) = Inr None"
  using assms
proof (induction rule: list_all2_induct)
  case Nil
  show ?case by (induction k) (simp_all add: zero_edt_def)
next
  case (Cons e es n ns)
  then have "nm \<noteq> n" "n \<noteq> nm" by auto
  with Cons show ?case by (simp add: named_def name_eq_def)
qed

lemma put_proc_dir_get:
  assumes "wf_ed r" and "length (pr_block v) = 80" and "length (pr_block v ! 0) = 4096"
  shows "proc_dir (put_proc_dir v r) = r" and "length (pr_block (put_proc_dir v r)) = 80"
    and "length (pr_block (put_proc_dir v r) ! 0) = 4096"
    and "j \<noteq> 0 \<Longrightarrow> pr_block (put_proc_dir v r) ! j = pr_block v ! j"
  using assms length_enc_ed [OF assms(1)] dec_enc_ed [OF assms(1)]
  by (simp_all add: proc_dir_def put_proc_dir_def)

text \<open>What does not change when a file of \<open>/proc\<close> is created.\<close>

definition same_disk :: "vfs \<Rightarrow> vfs \<Rightarrow> bool" where
  "same_disk v v' \<longleftrightarrow> std_mounts v' = std_mounts v \<and> bfs v' = bfs v \<and> rd1_of v' = rd1_of v \<and> env_of v' = env_of v"

lemma same_disk_upd [simp]:
  "same_disk v (v\<lparr>pr_ino := x\<rparr>)" "same_disk v (v\<lparr>pr_block := y\<rparr>)" "same_disk v (v\<lparr>fildes := z\<rparr>)" "same_disk v v"
  by (simp_all add: same_disk_def std_mounts_def bfs_def rd1_of_def env_of_def)

lemma same_disk_trans: "same_disk u v \<Longrightarrow> same_disk v w \<Longrightarrow> same_disk u w"
  by (simp add: same_disk_def)

lemma same_disk_ok: "same_disk v v' \<Longrightarrow> vfs_ok v' D = vfs_ok v D \<and> vtree v' D = vtree v D"
  by (simp add: same_disk_def vfs_ok_def vtree_def)

lemma proc_create_runs:
  assumes has: "proc_has v ns" and room: "2 \<le> length ns" "length ns < 79" and nm: "length nm \<le> 31" "NUL \<notin> set nm"
  shows "\<exists>v'. proc_create v nm = Inr (Some (length ns + 1), v') \<and> proc_has v' (ns @ [nm]) \<and> same_disk v v' \<and>
    fildes v' = fildes v \<and> pr_block v' ! (length ns + 1) = replicate FILEBLOCK NUL \<and>
    (\<forall>j. j \<noteq> 0 \<longrightarrow> j \<noteq> length ns + 1 \<longrightarrow> pr_block v' ! j = pr_block v ! j)"
proof -
  let ?n = "length ns" and ?pp = "length ns + 1"
  obtain es where es: "proc_dir v = zero_ed\<lparr>etrs := es @ replicate (80 - ?n) zero_edt\<rparr>" "list_all2 named es ns"
    using has by (auto simp: proc_has_def)
  obtain xs where xs: "pr_ino v = map Some xs @ replicate (79 - ?n) None" "length xs = ?pp"
    using has by (auto simp: proc_has_def)
  have blk: "length (pr_block v) = 80" "length (pr_block v ! 0) = 4096" using has by (simp_all add: proc_has_def)
  have le: "length es = ?n" using es(2) by (rule list_all2_lengthD)
  have slot: "find_idx (\<lambda>x. x = None) (pr_ino v) = Some ?pp"
    unfolding find_idx_Some using xs room by (auto simp: nth_append)
  define v1 where "v1 = v\<lparr>pr_ino := (pr_ino v)[?pp := Some (proc_node v ?pp)],
      pr_block := (pr_block v)[?pp := replicate FILEBLOCK NUL]\<rparr>"
  have dir1: "proc_dir v1 = proc_dir v" by (simp add: proc_dir_def v1_def)
  have ev: "e_valid e = 1" if "e \<in> set es" for e
    using es(2) that by (auto simp: list_all2_conv_all_nth in_set_conv_nth named_def)
  have free: "find_idx (\<lambda>e. e_valid e = 0) (etrs (proc_dir v1)) = Some ?n"
    unfolding find_idx_Some dir1 es(1) using room le ev by (auto simp: nth_append zero_edt_def)
  define e where "e = \<lparr>e_ino = ?pp, e_ftype = EXT2_FT_REG_FILE, e_valid = 1, e_name = nm @ replicate (32 - length nm) NUL\<rparr>"
  have name: "set_name (e_name (etrs (proc_dir v1) ! ?n)) nm = Inr (e_name e)"
  proof -
    have "etrs (proc_dir v1) ! ?n = zero_edt" using dir1 es(1) le room by (simp add: nth_append)
    moreover have "32 - length nm = Suc (31 - length nm)" using nm(1) by simp
    ultimately show ?thesis using nm(1) by (simp add: set_name_def zero_edt_def e_def)
  qed
  have nam: "named e nm"
  proof -
    have "32 - length nm = Suc (31 - length nm)" using nm(1) by simp
    then have "e_name e = nm @ NUL # replicate (31 - length nm) NUL" by (simp add: e_def)
    moreover have "wf_edt e" using nm(1) room by (simp add: e_def wf_edt_def EXT2_FT_REG_FILE_def)
    ultimately show ?thesis using nm(2) by (simp add: named_def e_def)
  qed
  define r where "r = zero_ed\<lparr>etrs := (es @ [e]) @ replicate (80 - (?n + 1)) zero_edt\<rparr>"
  have upd: "(proc_dir v1)\<lparr>etrs := (etrs (proc_dir v1))[?n := e]\<rparr> = r"
  proof -
    have "80 - ?n = Suc (80 - (?n + 1))" using room by simp
    then have "(es @ replicate (80 - ?n) zero_edt)[?n := e] = (es @ [e]) @ replicate (80 - (?n + 1)) zero_edt"
      using le by (simp add: list_update_append)
    then show ?thesis by (simp add: dir1 es(1) r_def)
  qed
  have "list_all wf_edt es" using es(2) by (auto simp: list_all2_conv_all_nth list_all_length named_def)
  moreover have "list_all wf_edt (replicate j zero_edt)" for j by (simp add: list_all_iff)
  ultimately have wf: "wf_ed r" using nam le room by (simp add: wf_ed_def r_def zero_ed_def named_def)
  have blk1: "length (pr_block v1) = 80" "length (pr_block v1 ! 0) = 4096" using blk by (simp_all add: v1_def)
  note G = put_proc_dir_get [OF wf blk1]
  let ?v2 = "put_proc_dir v1 r"
  have mu: "maxuse (proc_dir v1) = 0" by (simp add: dir1 es(1) zero_ed_def)
  have e2: "\<lparr>e_ino = ?pp, e_ftype = EXT2_FT_REG_FILE, e_valid = 1, e_name = e_name e\<rparr> = e" by (simp add: e_def)
  have ne: "?n \<noteq> 0" using room(1) by linarith
  have run: "proc_create v nm = Inr (Some ?pp, ?v2)"
    unfolding proc_create_def slot option.case Let_def v1_def [symmetric] free name rbind_Inr e2 upd mu
    by (simp only: ne if_False)
  have "list_all2 named (es @ [e]) (ns @ [nm])" using es(2) nam by (simp add: list_all2_appendI)
  moreover have "pr_ino ?v2 = map Some (xs @ [proc_node v ?pp]) @ replicate (79 - (?n + 1)) None"
  proof -
    have "79 - ?n = Suc (79 - (?n + 1))" using room by simp
    then show ?thesis using xs by (simp add: put_proc_dir_def v1_def list_update_append)
  qed
  ultimately have "proc_has ?v2 (ns @ [nm])"
    unfolding proc_has_def using G xs(2)
    by (intro conjI exI [of _ "es @ [e]"] exI [of _ "xs @ [proc_node v ?pp]"]) (simp_all add: r_def)
  moreover have "same_disk v ?v2" by (simp add: same_disk_def put_proc_dir_def v1_def std_mounts_def bfs_def rd1_of_def env_of_def)
  moreover have "fildes ?v2 = fildes v" by (simp add: put_proc_dir_def v1_def)
  moreover have "pr_block ?v2 ! ?pp = replicate FILEBLOCK NUL" using G(4) [of ?pp] blk room by (simp add: v1_def)
  moreover have "pr_block ?v2 ! j = pr_block v ! j" if "j \<noteq> 0" "j \<noteq> ?pp" for j
    using G(4) [of j] that by (simp add: v1_def)
  ultimately show ?thesis using run by blast
qed

text \<open>Opening a new name in \<open>/proc\<close>, with the first \<open>m\<close> descriptors in use.\<close>

definition fds_used :: "vfs \<Rightarrow> nat \<Rightarrow> bool" where
  "fds_used v m \<longleftrightarrow> (\<exists>xs. fildes v = map Some xs @ replicate (16 - m) None \<and> length xs = m)"

definition proc_name :: "string \<Rightarrow> bool" where
  "proc_name nm \<longleftrightarrow> nm \<noteq> [] \<and> length nm \<le> 31 \<and> NUL \<notin> set nm \<and> CHR ''/'' \<notin> set nm"

lemma open_new_proc:
  assumes has: "proc_has v ns" and std: "std_mounts v" and room: "2 \<le> length ns" "length ns < 79"
    and nm: "proc_name nm" "nm \<notin> set ns" and fds: "fds_used v m" "m < 16"
  shows "\<exists>v'. vfsopen v (''/proc/'' @ nm) (O_CREAT OR O_RDWR) = Inr (int m, v') \<and> proc_has v' (ns @ [nm]) \<and>
    same_disk v v' \<and> fds_used v' (Suc m) \<and> pr_block v' ! (length ns + 1) = replicate FILEBLOCK NUL"
proof -
  have sp: "split_path (''/proc/'' @ nm) = Inr (''/proc'', CHR ''/'' # nm)"
    by (simp add: split_path_def first_comp_def Let_def)
  have mt: "mount_target v ''/proc'' (CHR ''/'' # nm) = Inr (Some (2, ''/proc'', CHR ''/'' # nm))"
    using std nm(1) by (simp add: mount_target_def std_mounts_def last_idx_5 proc_name_def)
  have mo: "mounted v ''/proc''" using std by (simp add: mounted_def std_mounts_def)
  obtain es where es: "proc_dir v = zero_ed\<lparr>etrs := es @ replicate (80 - length ns) zero_edt\<rparr>" "list_all2 named es ns"
    using has by (auto simp: proc_has_def)
  have find: "proc_find nm (etrs (proc_dir v)) = Inr None"
    using proc_find_none [OF es(2)] nm by (simp add: es(1) proc_name_def)
  have c: "has (O_CREAT OR O_RDWR) O_CREAT" by simp
  obtain v1 where v1: "proc_create v nm = Inr (Some (length ns + 1), v1)" "proc_has v1 (ns @ [nm])" "same_disk v v1"
      "fildes v1 = fildes v" "pr_block v1 ! (length ns + 1) = replicate FILEBLOCK NUL"
    using proc_create_runs [OF has room] nm(1) by (auto simp: proc_name_def)
  have op: "open_proc v (CHR ''/'' # nm) (O_CREAT OR O_RDWR) = Inr (Some (length ns + 1), v1)"
    using find c v1(1) by (simp add: open_proc_def Let_def)
  obtain xs where xs: "fildes v1 = map Some xs @ replicate (16 - m) None" "length xs = m"
    using fds(1) v1(4) by (auto simp: fds_used_def)
  have slot: "find_idx (\<lambda>f. f = None) (fildes v1) = Some m"
    unfolding find_idx_Some using xs fds(2) by (auto simp: nth_append)
  define f where "f = \<lparr>f_inode = Ino_proc (length ns + 1), f_offset = 0, f_name = ''/proc/'' @ nm\<rparr>"
  let ?v2 = "v1\<lparr>fildes := (fildes v1)[m := Some f]\<rparr>"
  have "vfsopen v (''/proc/'' @ nm) (O_CREAT OR O_RDWR) = Inr (int m, ?v2)"
    using sp mt mo op slot nm(1) by (simp add: vfsopen_def alloc_fd_def f_def proc_name_def)
  moreover have "16 - m = Suc (15 - m)" using fds(2) by simp
  then have "fds_used ?v2 (Suc m)"
    unfolding fds_used_def using xs by (intro exI [of _ "xs @ [f]"]) (simp add: list_update_append)
  moreover have "proc_has ?v2 (ns @ [nm])" using v1(2) by (simp add: proc_has_def proc_dir_def)
  moreover have "same_disk v ?v2" using same_disk_trans [OF v1(3) same_disk_upd(3)] .
  ultimately show ?thesis using v1(5) by (intro exI [of _ ?v2]) simp
qed

text \<open>The text of a task, and the file it is stored in.\<close>

lemma buf_sprintf_proc: "buf_sprintf ''/proc/%d'' [A_int w] = Inr (''/proc/'' @ decimal w)"
proof -
  have "vsprintf_from pos ''%d'' [A_int w] = Inr (decimal w, [])" for pos using vsprintf_d [of pos "[]" w "[]"] by simp
  then have "vsprintf (''/proc/'' @ ''%d'') [A_int w] = Inr (''/proc/'' @ decimal w, [])"
    unfolding vsprintf_def by (subst vsprintf_literal) simp_all
  then have "vsprintf ''/proc/%d'' [A_int w] = Inr (''/proc/'' @ decimal w, [])" by simp
  then show ?thesis using decimal_length [of w] by (simp add: buf_sprintf_def sprintf_def)
qed

lemma buf_sprintf_two:
  assumes "CHR ''%'' \<notin> set a" and "CHR ''%'' \<notin> set b" and "length a + length b \<le> 61"
  shows "buf_sprintf (a @ ''%d'' @ b @ ''%d'') [A_int x, A_int y] = Inr (a @ decimal x @ b @ decimal y)"
proof -
  have "vsprintf_from pos (b @ ''%d'') [A_int y] = Inr (b @ decimal y, [])" for pos
    using vsprintf_literal [OF assms(2), of pos "''%d''" "[A_int y]"] vsprintf_d [of "pos + length b" "[]" y "[]"] by simp
  then have "vsprintf_from pos (''%d'' @ b @ ''%d'') [A_int x, A_int y] = Inr (decimal x @ b @ decimal y, [])" for pos
    using vsprintf_d [of pos "b @ ''%d''" x "[A_int y]"] by simp
  then have "vsprintf (a @ ''%d'' @ b @ ''%d'') [A_int x, A_int y] = Inr (a @ decimal x @ b @ decimal y, [])"
    using vsprintf_literal [OF assms(1), of 0 "''%d'' @ b @ ''%d''" "[A_int x, A_int y]"] by (simp add: vsprintf_def)
  then show ?thesis
    using assms(3) decimal_length [of x] decimal_length [of y] by (simp add: buf_sprintf_def sprintf_def)
qed

lemma task_texts:
  "\<exists>s. buf_sprintf zombie_fmt [A_int x, A_int y] = Inr s \<and> length s \<le> 127"
  "\<exists>s. buf_sprintf shell_fmt [A_int x, A_int y] = Inr s \<and> length s \<le> 127"
proof -
  have l: "length (decimal w) \<le> 33" for w using decimal_length by blast
  have "zombie_fmt = ''ThreadName: zombie'' @ ''%d'' @ (CHR ''.'' # LF # ''CreateTime: '') @ ''%d''"
    "shell_fmt = ''ThreadName:    shell_thread'' @ ''%d'' @ (CHR ''.'' # LF # ''CreateTime:   '') @ ''%d''"
    by (simp_all add: zombie_fmt_def shell_fmt_def)
  then show "\<exists>s. buf_sprintf zombie_fmt [A_int x, A_int y] = Inr s \<and> length s \<le> 127"
    "\<exists>s. buf_sprintf shell_fmt [A_int x, A_int y] = Inr s \<and> length s \<le> 127"
    using buf_sprintf_two [of "''ThreadName: zombie''" "CHR ''.'' # LF # ''CreateTime: ''" x y]
      buf_sprintf_two [of "''ThreadName:    shell_thread''" "CHR ''.'' # LF # ''CreateTime:   ''" x y]
      l [of x] l [of y] by (simp_all add: LF_def)
qed

section \<open>Tasks over the processors\<close>

text \<open>The tasks \<open>ts\<close> have been created, one after the other on the next processor.\<close>

definition dealt :: "nat \<Rightarrow> kmt \<Rightarrow> nat list \<Rightarrow> bool" where
  "dealt n k ts \<longleftrightarrow> kmt_inv k \<and> k_tidcnt k = length ts mod n \<and>
     (\<forall>c t. t \<in> tasks_of k c \<longleftrightarrow> (\<exists>j < length ts. ts ! j = t \<and> j mod n = c)) \<and>
     (\<forall>t \<in> set ts. t_status (k_task k t) = Ready) \<and> (\<forall>c. current_tasks k c = 0)"

lemma dealt_tasks: "dealt n k ts \<Longrightarrow> tasks_of k c \<subseteq> set ts"
  unfolding dealt_def by (auto simp: in_set_conv_nth)

lemma kmt_create_fields:
  "kmt_create n k t ctx = Inr k' \<Longrightarrow> k_tidcnt k' = (k_tidcnt k + 1) mod n \<and> current_tasks k' = current_tasks k \<and>
     (\<forall>u. u \<noteq> t \<longrightarrow> k_task k' u = k_task k u) \<and> t_status (k_task k' t) = Ready"
  by (auto simp: kmt_create_def Let_def res_simps)

lemma deal_next:
  assumes d: "dealt n k ts" and t: "t \<noteq> 0" "t \<notin> set ts" and l: "length ts < NTHREAD"
  shows "\<exists>k'. kmt_create n k t ctx = Inr k' \<and> dealt n k' (ts @ [t])"
proof -
  have inv: "kmt_inv k" using d by (simp add: dealt_def)
  have "length (k_tl k c) \<le> length ts" for c
  proof -
    have "distinct (k_tl k c)" using kmt_invD(1) [OF inv] .
    then have "length (k_tl k c) = card (tasks_of k c)" by (simp add: tasks_of_def distinct_card)
    also have "\<dots> \<le> card (set ts)" using dealt_tasks [OF d] by (intro card_mono) auto
    also have "\<dots> \<le> length ts" by (rule card_length)
    finally show ?thesis .
  qed
  then have "length (k_tl k (k_tidcnt k)) < NTHREAD" using l by (meson le_less_trans)
  moreover have "t \<notin> tasks_of k c" for c using dealt_tasks [OF d] t(2) by blast
  ultimately obtain k' where k': "kmt_create n k t ctx = Inr k'" "kmt_inv k'"
      "\<forall>c. tasks_of k' c = (if c = k_tidcnt k then insert t (tasks_of k c) else tasks_of k c)"
    using kmt_create_inv [OF inv t(1)] by blast
  note F = kmt_create_fields [OF k'(1)]
  have "u \<in> tasks_of k' c \<longleftrightarrow> (\<exists>j < length (ts @ [t]). (ts @ [t]) ! j = u \<and> j mod n = c)" for u c
  proof -
    have "(\<exists>j < length (ts @ [t]). (ts @ [t]) ! j = u \<and> j mod n = c) \<longleftrightarrow>
        (u = t \<and> length ts mod n = c) \<or> (\<exists>j < length ts. ts ! j = u \<and> j mod n = c)"
      by (auto simp: Ex_less_Suc nth_append cong: conj_cong)
    moreover have "u \<in> tasks_of k c \<longleftrightarrow> (\<exists>j < length ts. ts ! j = u \<and> j mod n = c)"
      using d unfolding dealt_def by blast
    ultimately show ?thesis using k'(3) d by (auto simp: dealt_def)
  qed
  moreover have "k_tidcnt k' = length (ts @ [t]) mod n" using F d by (simp add: dealt_def mod_Suc_eq)
  moreover have "\<forall>u \<in> set (ts @ [t]). t_status (k_task k' u) = Ready" using F d unfolding dealt_def by force
  ultimately have "dealt n k' (ts @ [t])" using k'(2) F d unfolding dealt_def by auto
  with k'(1) show ?thesis by blast
qed

section \<open>The loops\<close>

definition proc_names :: "nat \<Rightarrow> string list" where
  "proc_names pid = [''cpuinfo'', ''meminfo''] @ map (\<lambda>i. decimal (of_nat i)) [1..<pid]"

definition procs :: "vfs \<Rightarrow> nat \<Rightarrow> bool" where
  "procs v pid \<longleftrightarrow> proc_has v (proc_names pid) \<and> fds_used v (pid - 1) \<and> std_mounts v"

lemma proc_name_decimal:
  assumes "n < 1000"
  shows "proc_name (decimal (of_nat n))"
proof -
  have n: "n < 2 ^ 31" using assms by simp
  have "num_digits 10 n = num_digits 10 n \<and> n < 2 ^ 10" using assms by simp
  then have "length (num_digits 10 n) \<le> 10" by (intro num_digits_length) auto
  then have "length (number_tmp 10 n) \<le> 10" by (simp add: number_tmp_def)
  moreover have "c \<noteq> NUL \<and> c \<noteq> CHR ''/''" if "c \<in> set (decimal (of_nat n))" for c
    using decimal_digits [OF n that] by auto
  ultimately show ?thesis
    using n decimal_length [of "of_nat n"] by (auto simp: proc_name_def decimal_nat)
qed

lemma decimal_fresh:
  assumes "1 \<le> pid" and "pid < 1000"
  shows "decimal (of_nat pid) \<notin> set (proc_names pid)"
proof -
  have p: "pid < 2 ^ 31" using assms by simp
  have "CHR ''m'' \<notin> set (decimal (of_nat pid))" "CHR ''c'' \<notin> set (decimal (of_nat pid))"
    using decimal_digits [OF p] by auto
  moreover have "decimal (of_nat pid) \<noteq> decimal (of_nat i)" if "i < pid" for i
    using decimal_inj [OF p, of i] that p by (metis less_trans less_irrefl)
  then have "decimal (of_nat pid) \<notin> set (map (\<lambda>i. decimal (of_nat i)) [1..<pid])" by force
  ultimately show ?thesis by (auto simp: proc_names_def)
qed

lemma proc_text_runs:
  assumes "procs v pid" and "n \<noteq> 0" and "n < 80" and "pr_block v ! n = replicate FILEBLOCK NUL" and "length s \<le> 127"
  shows "\<exists>v'. proc_text v n s = Inr v' \<and> procs v' pid \<and> same_disk v v'"
proof -
  let ?v = "v\<lparr>pr_block := (pr_block v)[n := s @ NUL # drop (length s + 1) (pr_block v ! n)]\<rparr>"
  have "proc_text v n s = Inr ?v"
    using assms(3-5) by (simp add: proc_text_def NFILEINFS_def FILEBLOCK_def)
  moreover have "procs ?v pid"
    using assms(1,2) same_disk_upd(2) [of v]
    by (simp add: procs_def proc_has_def proc_dir_def fds_used_def same_disk_def)
  ultimately show ?thesis by auto
qed

lemma start_task_runs:
  assumes d: "dealt n k ts" and t: "st_task st \<noteq> 0" "st_task st \<notin> set ts" "length ts < NTHREAD"
    and p: "procs v pid" "1 \<le> pid" "pid \<le> 16" and fmt: "fmt = zombie_fmt \<or> fmt = shell_fmt"
  shows "\<exists>k' v'. start_task n fmt i pid st (k, v) = Inr (k', v') \<and> dealt n k' (ts @ [st_task st]) \<and>
    procs v' (pid + 1) \<and> same_disk v v'"
proof -
  obtain k' where k': "kmt_create n k (st_task st) (st_ctx st) = Inr k'" "dealt n k' (ts @ [st_task st])"
    using deal_next [OF d t] by blast
  let ?nm = "decimal (of_nat pid)"
  have len: "length (proc_names pid) = pid + 1" using p(2) by (simp add: proc_names_def)
  have nm: "proc_name ?nm" "?nm \<notin> set (proc_names pid)"
    using proc_name_decimal [of pid] decimal_fresh [of pid] p(2,3) by simp_all
  have nx: "proc_names pid @ [?nm] = proc_names (pid + 1)" using p(2) by (simp add: proc_names_def)
  obtain v1 where v1: "vfsopen v (''/proc/'' @ ?nm) (O_CREAT OR O_RDWR) = Inr (int (pid - 1), v1)"
      "proc_has v1 (proc_names (pid + 1))" "same_disk v v1" "fds_used v1 (Suc (pid - 1))"
      "pr_block v1 ! (pid + 2) = replicate FILEBLOCK NUL"
  proof -
    have c: "proc_has v (proc_names pid)" "std_mounts v" "2 \<le> length (proc_names pid)" "length (proc_names pid) < 79"
      "fds_used v (pid - 1)" "pid - 1 < 16" using p len by (simp_all add: procs_def)
    have "length (proc_names pid) + 1 = pid + 2" using len by simp
    then show thesis using open_new_proc [OF c(1-4) nm c(5,6)] nx that by auto
  qed
  have p1: "procs v1 (pid + 1)" using v1 p by (simp add: procs_def same_disk_def)
  obtain s where s: "buf_sprintf fmt [A_int (of_nat i), A_int (st_uptime st)] = Inr s" "length s \<le> 127"
    using fmt task_texts by blast
  obtain v2 where v2: "proc_text v1 (pid + 2) s = Inr v2" "procs v2 (pid + 1)" "same_disk v1 v2"
    using proc_text_runs [OF p1 _ _ v1(5) s(2)] p(3) by auto
  have "start_task n fmt i pid st (k, v) = Inr (k', v2)"
    using k'(1) v1(1) s(1) v2(1) by (simp add: start_task_def buf_sprintf_proc)
  with k'(2) v2(2) same_disk_trans [OF v1(3) v2(3)] show ?thesis by blast
qed

lemma start_tasks_run:
  assumes "dealt n k ts" and "\<forall>st \<in> set sts. st_task st \<noteq> 0" and "distinct (ts @ map st_task sts)"
    and "length ts + length sts \<le> NTHREAD" and "procs v pid" and "1 \<le> pid" and "pid + length sts \<le> 17"
    and "fmt = zombie_fmt \<or> fmt = shell_fmt"
  shows "\<exists>k' v'. start_tasks n fmt i pid sts (k, v) = Inr (k', v') \<and> dealt n k' (ts @ map st_task sts) \<and>
    procs v' (pid + length sts) \<and> same_disk v v'"
  using assms
proof (induction sts arbitrary: i pid k v ts)
  case Nil
  then show ?case by simp
next
  case (Cons st sts)
  obtain k1 v1 where s1: "start_task n fmt i pid st (k, v) = Inr (k1, v1)" "dealt n k1 (ts @ [st_task st])"
      "procs v1 (pid + 1)" "same_disk v v1"
    using start_task_runs [OF Cons.prems(1), of st v pid fmt i] Cons.prems(2-8) by auto
  have "\<exists>k' v'. start_tasks n fmt (i + 1) (pid + 1) sts (k1, v1) = Inr (k', v') \<and>
      dealt n k' ((ts @ [st_task st]) @ map st_task sts) \<and> procs v' (pid + 1 + length sts) \<and> same_disk v1 v'"
    by (rule Cons.IH [OF s1(2)]) (use Cons.prems s1(3) in auto)
  then show ?case using s1 same_disk_trans by auto
qed


section \<open>The booted system\<close>

text \<open>\<open>vfsinit\<close> opens nothing and leaves \<open>/proc\<close> with its two files.\<close>

lemma vlookup_fildes: "vlookup v p path fl = Inr (r, v') \<Longrightarrow> fildes v' = fildes v"
  by (auto simp: vlookup_def res_simps set_rd1_def)

lemma vfsmount_fildes: "vfsmount v path fs = Inr (r, v') \<Longrightarrow> fildes v' = fildes v"
  by (auto simp: vfsmount_def res_simps Let_def split: option.splits if_splits dest: vlookup_fildes)

lemma vcreate_fildes: "vcreate v path fl = Inr (r, v') \<Longrightarrow> fildes v' = fildes v"
  by (auto simp: vcreate_def res_simps split: option.splits dest: vlookup_fildes)

lemma init_fildes:
  "init_blkfs v p = Inr v' \<Longrightarrow> fildes v' = fildes v"
  "init_files v = Inr v' \<Longrightarrow> fildes v' = fildes v"
  "init_virtual v p q = Inr v' \<Longrightarrow> fildes v' = fildes v"
  by (auto simp: init_blkfs_def init_files_def init_virtual_def init_root_def put_text_def res_simps Let_def
      dest!: vlookup_fildes vcreate_fildes vfsmount_fildes)

lemma vfsinit_parts:
  assumes "vfsinit v p q r n = Inr v'"
  shows "\<exists>w. v' = init_proc w n \<and> fildes w = fildes v"
proof -
  obtain v1 v2 v3 where "init_blkfs v p = Inr v1" "init_files v1 = Inr v2" "init_virtual v2 q r = Inr v3"
      "v' = init_proc v3 n"
    using assms by (auto simp: vfsinit_def res_simps)
  then show ?thesis using init_fildes by metis
qed

lemma init_proc_has: "proc_has (init_proc w n) [''cpuinfo'', ''meminfo'']"
proof -
  let ?es = "[proc_entry 1 ''cpuinfo'', proc_entry 2 ''meminfo'']"
  define r where "r = zero_ed\<lparr>etrs := ?es @ replicate 78 zero_edt\<rparr>"
  have e80: "replicate 80 zero_edt = zero_edt # zero_edt # replicate 78 zero_edt" by (simp add: numeral_eq_Suc)
  have dir: "zero_ed\<lparr>etrs := (etrs zero_ed)[0 := proc_entry 1 ''cpuinfo'', 1 := proc_entry 2 ''meminfo'']\<rparr> = r"
    by (simp add: r_def zero_ed_def e80)
  have nm: "named (proc_entry 1 ''cpuinfo'') ''cpuinfo''" "named (proc_entry 2 ''meminfo'') ''meminfo''"
    using cstr_append_NUL [of "''cpuinfo''" "replicate 24 NUL"] cstr_append_NUL [of "''meminfo''" "replicate 24 NUL"]
    by (simp_all add: named_def proc_entry_def wf_edt_def EXT2_FT_REG_FILE_def flip: replicate_Suc)
  have "list_all wf_edt (replicate 78 zero_edt)" by (simp add: list_all_iff)
  then have wf: "wf_ed r" using nm by (simp add: wf_ed_def r_def named_def zero_ed_def)
  have l: "length (enc_ed r) = 3524" using length_enc_ed [OF wf] .
  have b0: "pr_block (init_proc w n) ! 0 = enc_ed r @ replicate 572 NUL"
    using l dir by (simp add: init_proc_def Let_def FILEBLOCK_def)
  have "proc_dir (init_proc w n) = r" using b0 l dec_enc_ed [OF wf] by (simp add: proc_dir_def)
  moreover have "length (pr_block (init_proc w n)) = 80" by (simp add: init_proc_def Let_def NFILEINFS_def)
  moreover have "\<exists>xs. pr_ino (init_proc w n) = map Some xs @ replicate 77 None \<and> length xs = Suc (length [''cpuinfo'', ''meminfo''])"
    by (intro exI [of _ "[proc_inode w 0 (2 * sizeof_edt), proc_inode w 1 4, proc_inode w 2 (length meminfo_text)]"])
      (simp add: init_proc_def Let_def NFILEINFS_def)
  ultimately show ?thesis
    unfolding proc_has_def using b0 l nm by (intro conjI exI [of _ ?es]) (simp_all add: r_def)
qed

lemma register_boot:
  assumes "distinct [a1, a2, a3]" and "0 \<notin> {a1, a2, a3}"
  shows "\<exists>H1 H2. register_kmt a1 a2 (H\<lparr>handlehead := 0\<rparr>) = Some H1 \<and> register_input a3 H1 = Some H2 \<and>
    registered H2 boot_handlers"
proof -
  have ne: "INT_MIN < 0" "0 < INT_MAX" "INT_MIN < INT_MAX" by (simp_all add: INT_MIN_def INT_MAX_def)
  let ?n1 = "\<lparr>h_handler = Context_save, h_event = EVENT_NULL, h_seq = INT_MIN, h_next = 0\<rparr>"
  let ?n2 = "\<lparr>h_handler = Context_switch, h_event = EVENT_NULL, h_seq = INT_MAX, h_next = 0\<rparr>"
  let ?n3 = "\<lparr>h_handler = Input_notify, h_event = EVENT_IRQ_IODEV, h_seq = 0, h_next = a2\<rparr>"
  define m where "m = (h_mem H)(a1 := ?n1\<lparr>h_next := a2\<rparr>, a2 := ?n2)"
  have k: "register_kmt a1 a2 (H\<lparr>handlehead := 0\<rparr>) = Some \<lparr>h_mem = m, handlehead = a1\<rparr>"
    using assms ne by (simp add: register_kmt_def os_on_irq_def find_pos.simps m_def fun_upd_twist)
  define m' where "m' = m(a3 := ?n3, a1 := (m a1)\<lparr>h_next := a3\<rparr>)"
  have i: "register_input a3 \<lparr>h_mem = m, handlehead = a1\<rparr> = Some \<lparr>h_mem = m', handlehead = a1\<rparr>"
    using assms ne by (simp add: register_input_def os_on_irq_def find_pos.simps m_def m'_def fun_upd_twist)
  have "registered \<lparr>h_mem = m', handlehead = a1\<rparr> boot_handlers"
    unfolding registered_def using assms
    by (intro exI [of _ "[a1, a3, a2]"]) (simp add: m'_def m_def boot_handlers_def h_view_def)
  with k i show ?thesis by blast
qed

text \<open>One \<open>zombie\<close> for every processor: the tasks with the numbers 2 to \<open>n + 1\<close>.\<close>

lemma zombie_everywhere:
  assumes "0 < n" and "c < n"
  shows "\<exists>j. 2 \<le> j \<and> j < n + 2 \<and> j mod n = (c :: nat)"
proof (cases "2 \<le> c + n")
  case True
  show ?thesis
  proof (cases "2 \<le> c")
    case True
    with assms show ?thesis by (intro exI [of _ c]) simp
  next
    case False
    with assms True show ?thesis by (intro exI [of _ "c + n"]) auto
  qed
next
  case False
  then have "n = 1" "c = 0" using assms by linarith+
  then show ?thesis by (intro exI [of _ 2]) simp
qed


definition demo_args :: boot_args where
  "demo_args = \<lparr>ba_nodes = (1, 2, 3), ba_fs = (4, 5, 6), ba_input = (7, 0), ba_tty = (8, 0),
     ba_zombies = [\<lparr>st_task = 9, st_ctx = 0, st_uptime = 5\<rparr>],
     ba_shells = map (\<lambda>t. \<lparr>st_task = t, st_ctx = 0, st_uptime = 7\<rparr>) [10, 11, 12, 13]\<rparr>"


end
