(* ===== verification/Cmd.thy ===== *)
theory Cmd
  imports Vfs Stdio
begin

text \<open>
  The commands of the shell (\<open>kernel/src/cmd.c\<close>).  A command gets the words of the line, the current
  path of the shell (\<open>~\<close> for the root directory, \<open>~\<close> and a path below it) and the 128 bytes of the
  shell's buffer, into which it writes its answer; the state of the file system goes through every
  call.  A buffer is the list of its bytes, so that what lies behind a terminator is kept.
  Temporary memory comes zeroed from \<open>pmm->alloc\<close> and is a local value.
\<close>

section \<open>Buffers\<close>

definition blen :: "char list \<Rightarrow> nat res" where
  "blen b = rbind (require (NUL \<in> set b) Overrun) (\<lambda>_. Inr (length (cstr b)))"

text \<open>\<open>sprintf(b + off, "%s", s)\<close>, \<open>sprintf(b + strlen(b), ...)\<close> and \<open>b[strlen(b)] = '\n'\<close>.\<close>

definition put_str :: "char list \<Rightarrow> nat \<Rightarrow> string \<Rightarrow> char list res" where
  "put_str b off s =
     rbind (require (off + length s + 1 \<le> length b) Overrun) (\<lambda>_.
     Inr (take off b @ s @ NUL # drop (off + length s + 1) b))"

definition add_str :: "char list \<Rightarrow> string \<Rightarrow> char list res" where
  "add_str b s = rbind (blen b) (\<lambda>n. put_str b n s)"

definition end_line :: "char list \<Rightarrow> char list res" where
  "end_line b = rbind (blen b) (\<lambda>n. Inr (b[n := LF]))"

definition clear_buf :: "char list" where
  "clear_buf = replicate 128 NUL"

text \<open>The word \<open>pars[i]\<close>; the entries behind the last word are \<open>NULL\<close>.\<close>

definition par :: "string option list \<Rightarrow> nat \<Rightarrow> string res" where
  "par pars i =
     rbind (require (i < length pars) Overrun) (\<lambda>_.
     case pars ! i of None \<Rightarrow> Inl Null_deref | Some s \<Rightarrow> Inr s)"

section \<open>Paths\<close>

definition path_buf :: "string \<Rightarrow> string res" where
  "path_buf s = rbind (require (length s \<le> 127) Overrun) (\<lambda>_. Inr s)"

definition cur_dir :: "string \<Rightarrow> string" where
  "cur_dir curpath = (if curpath = ''~'' then ''/'' else drop 1 curpath)"

text \<open>The path a word means: absolute, the current directory for the empty word, or below it.\<close>

definition full_path :: "string \<Rightarrow> string \<Rightarrow> string res" where
  "full_path curpath p =
     path_buf (if p \<noteq> [] \<and> hd p = CHR ''/'' then p
               else if p = [] then cur_dir curpath
               else drop 1 curpath @ CHR ''/'' # p)"

text \<open>The parent directory: the current path up to its last slash.\<close>

definition parent_path :: "string \<Rightarrow> string res" where
  "parent_path curpath =
     (if curpath = ''~'' then Inr ''/''
      else case last_idx (\<lambda>c. c = CHR ''/'') curpath of
        None \<Rightarrow> Inl Overrun
      | Some ind \<Rightarrow> let p = take (ind - 1) (drop 1 curpath) in Inr (if p = [] then ''/'' else p))"

text \<open>\<open>ls\<close> and \<open>cd\<close> know \<open>..\<close>; \<open>cd\<close> without a word goes to the root directory.\<close>

definition dotdot :: "string \<Rightarrow> bool" where
  "dotdot p \<longleftrightarrow> p = ''..'' \<or> p = ''../''"

definition ls_path :: "string \<Rightarrow> string \<Rightarrow> string res" where
  "ls_path curpath p = (if dotdot p then parent_path curpath else full_path curpath p)"

definition cd_path :: "string \<Rightarrow> string \<Rightarrow> string res" where
  "cd_path curpath p = (if p = [] then Inr ''/'' else if dotdot p then parent_path curpath else full_path curpath p)"

section \<open>Loops over the words\<close>

text \<open>\<open>for (int i = 0; i <= num; ++i)\<close>; the body tells whether the loop goes on.\<close>

fun for_pars :: "(nat \<Rightarrow> 's \<Rightarrow> (bool \<times> 's) res) \<Rightarrow> nat list \<Rightarrow> 's \<Rightarrow> 's res" where
  "for_pars f [] s = Inr s"
| "for_pars f (i # is) s = rbind (f i s) (\<lambda>(on, s1). if on then for_pars f is s1 else Inr s1)"

text \<open>Commands that do one thing with the path of every word; an empty word counts only in front.\<close>

definition each_path ::
  "nat \<Rightarrow> string option list \<Rightarrow> string \<Rightarrow> (string \<Rightarrow> 's \<Rightarrow> 's res) \<Rightarrow> 's \<Rightarrow> 's res" where
  "each_path num pars curpath act s =
     for_pars (\<lambda>i s.
       rbind (par pars i) (\<lambda>p.
       if p = [] \<and> i \<noteq> 0 then Inr (True, s)
       else rbind (full_path curpath p) (\<lambda>path. rbind (act path s) (\<lambda>s1. Inr (True, s1))))) [0..<Suc num] s"

section \<open>\<open>mkdir\<close>, \<open>rmdir\<close>, \<open>rm\<close>, \<open>link\<close>, \<open>touch\<close>\<close>

type_synonym out = "char list \<times> vfs"

definition cmd_mkdir :: "nat \<Rightarrow> string option list \<Rightarrow> string \<Rightarrow> out \<Rightarrow> out res" where
  "cmd_mkdir num pars curpath =
     each_path num pars curpath (\<lambda>path (buf, v).
       rbind (vfsmkdir v path) (\<lambda>(r, v1).
       if r \<noteq> 0 then rbind (put_str buf 0 (''Permisiion denied.'' @ [LF])) (\<lambda>b. Inr (b, v1)) else Inr (buf, v1)))"

definition cmd_rmdir :: "nat \<Rightarrow> string option list \<Rightarrow> string \<Rightarrow> out \<Rightarrow> out res" where
  "cmd_rmdir num pars curpath =
     each_path num pars curpath (\<lambda>path (buf, v).
       rbind (vfsrmdir v path) (\<lambda>(r, v1).
       if r \<noteq> 0 then rbind (put_str buf 0 (''Permission denied or the path is not exist.'' @ [LF])) (\<lambda>b. Inr (b, v1))
       else Inr (buf, v1)))"

definition cmd_rm :: "nat \<Rightarrow> string option list \<Rightarrow> string \<Rightarrow> out \<Rightarrow> out res" where
  "cmd_rm num pars curpath =
     each_path num pars curpath (\<lambda>path (buf, v). rbind (vfsunlink v path) (\<lambda>(_, v1). Inr (buf, v1)))"

definition cmd_link :: "nat \<Rightarrow> string option list \<Rightarrow> string \<Rightarrow> out \<Rightarrow> out res" where
  "cmd_link num pars curpath = (\<lambda>(buf, v).
     rbind (par pars 0) (\<lambda>p0. rbind (full_path curpath p0) (\<lambda>oldpath.
     rbind (par pars 1) (\<lambda>p1. rbind (full_path curpath p1) (\<lambda>newpath.
     rbind (vfslink v oldpath newpath) (\<lambda>(_, v1). Inr (buf, v1)))))))"

definition touch_path :: "string \<Rightarrow> out \<Rightarrow> out res" where
  "touch_path path = (\<lambda>(buf, v).
     let mntname = first_comp path in
     if mntname = ''dev'' \<or> mntname = ''proc'' then
       rbind (put_str buf 0 (''Permission denied.'' @ [LF])) (\<lambda>b. Inr (b, v))
     else rbind (vfsaccess v path F_OK) (\<lambda>(r1, v1).
       if r1 = 0 then Inr (buf, v1)
       else rbind (vfsaccess v1 path DIR_OK) (\<lambda>(r2, v2).
         if r2 = 0 then Inr (buf, v2)
         else rbind (vfsopen v2 path (O_CREAT OR O_RDWR)) (\<lambda>(fd, v3).
           if 0 < fd then
             rbind (vfsclose v3 fd) (\<lambda>(r3, v4). rbind (require (r3 = 0) Assert_fail) (\<lambda>_. Inr (buf, v4)))
           else Inr (buf, v3)))))"

definition cmd_touch :: "nat \<Rightarrow> string option list \<Rightarrow> string \<Rightarrow> out \<Rightarrow> out res" where
  "cmd_touch num pars curpath = each_path num pars curpath touch_path"

section \<open>\<open>cd\<close>, \<open>mnt\<close>, \<open>unmnt\<close>\<close>

text \<open>The current path is a buffer of 128 bytes of its own.\<close>

definition cmd_cd :: "string option list \<Rightarrow> string \<Rightarrow> out \<Rightarrow> (string \<times> out) res" where
  "cmd_cd pars curpath = (\<lambda>(buf, v).
     rbind (par pars 0) (\<lambda>p. rbind (cd_path curpath p) (\<lambda>path.
     rbind (vfsaccess v path DIR_OK) (\<lambda>(r, v1).
     if r = 0 then
       if path = ''/'' then Inr (''~'', buf, v1)
       else rbind (path_buf (CHR ''~'' # path)) (\<lambda>c. Inr (c, buf, v1))
     else
       rbind (put_str buf 0 (''No such a directory '' @ CHR 0x22 # path @ [CHR 0x22, CHR ''.'', LF])) (\<lambda>b.
       Inr (curpath, b, v1))))))"

definition mnt_answer :: "out \<Rightarrow> string \<Rightarrow> out res" where
  "mnt_answer o1 msg = (case o1 of (buf, v) \<Rightarrow> rbind (put_str buf 0 (msg @ [LF])) (\<lambda>b. Inr (b, v)))"

definition cmd_mnt :: "string option list \<Rightarrow> out \<Rightarrow> out res" where
  "cmd_mnt pars = (\<lambda>(buf, v).
     rbind (par pars 0) (\<lambda>p.
     if p = ''devfs'' then
       rbind (vfsmount v ''/dev'' (devfs v)) (\<lambda>(r, v1).
       if r = - 1 then mnt_answer (buf, v1) ''mount fail.'' else Inr (buf, v1))
     else if p = ''procfs'' then
       rbind (vfsmount v ''/proc'' (procfs v)) (\<lambda>(r, v1).
       if r = - 1 then mnt_answer (buf, v1) ''mount fail.'' else Inr (buf, v1))
     else if p = ''blkfs'' then mnt_answer (buf, v) ''Permisiion denied.''
     else mnt_answer (buf, v) ''No such a filesystem.''))"

definition cmd_unmnt :: "string option list \<Rightarrow> out \<Rightarrow> out res" where
  "cmd_unmnt pars = (\<lambda>(buf, v).
     rbind (par pars 0) (\<lambda>p.
     if p = ''devfs'' then
       rbind (vfsunmount v ''/dev'') (\<lambda>(r, v1).
       if r = - 1 then mnt_answer (buf, v1) ''unmount fail.'' else Inr (buf, v1))
     else if p = ''procfs'' then
       rbind (vfsunmount v ''/proc'') (\<lambda>(r, v1).
       if r = - 1 then mnt_answer (buf, v1) ''unmount fail.'' else Inr (buf, v1))
     else if p = ''blkfs'' then mnt_answer (buf, v) ''Permisiion denied.''
     else mnt_answer (buf, v) ''No such a filesystem.''))"

section \<open>\<open>ls\<close>\<close>

text \<open>Where the inode of an open file comes from: \<open>NULL\<close>, no device (\<open>procfs\<close>) or the RAM disk.\<close>

definition fd_inode :: "vfs \<Rightarrow> int \<Rightarrow> iref res" where
  "fd_inode v fd = rbind (get_file v fd) (\<lambda>f. Inr (f_inode f))"

definition close_ok :: "vfs \<Rightarrow> int \<Rightarrow> vfs res" where
  "close_ok v fd = rbind (vfsclose v fd) (\<lambda>(r, v1). rbind (require (r = 0) Assert_fail) (\<lambda>_. Inr v1))"

definition devdir :: string where
  "devdir = ''~/dev: ramdisk0   ramdisk1   tty1   tty2   tty3   tty4'' @ [LF]"

definition ls_title :: "string \<Rightarrow> string" where
  "ls_title path = (if path = ''/'' then ''~:'' else CHR ''~'' # path @ '':'')"

definition entry_str :: "edt \<Rightarrow> string res" where
  "entry_str e = rbind (require (NUL \<in> set (e_name e)) Overrun) (\<lambda>_. Inr (cstr (e_name e)))"

fun ls_proc :: "edt list \<Rightarrow> char list \<Rightarrow> char list res" where
  "ls_proc [] b = add_str b [LF]"
| "ls_proc (e # es) b =
     (if e_valid e = 1 then
        rbind (entry_str e) (\<lambda>nm. rbind (add_str b (''    '' @ nm)) (\<lambda>b1. ls_proc es b1))
      else ls_proc es b)"

text \<open>The directory on the disk: \<open>False\<close> when the buffer is too full for the next name and \<open>ls\<close> returns.\<close>

fun ls_disk :: "edt list \<Rightarrow> char list \<Rightarrow> (bool \<times> char list) res" where
  "ls_disk [] b = rbind (add_str b [LF]) (\<lambda>b1. Inr (True, b1))"
| "ls_disk (e # es) b =
     (if e_valid e = 1 then
        rbind (entry_str e) (\<lambda>nm. rbind (blen b) (\<lambda>n.
        if n + length nm + 3 > 127 then Inr (False, b)
        else rbind (add_str b (''   '' @ nm)) (\<lambda>b1. ls_disk es b1)))
      else ls_disk es b)"

definition ls_one :: "string \<Rightarrow> out \<Rightarrow> (bool \<times> out) res" where
  "ls_one path = (\<lambda>(buf, v).
     rbind (vfsopen v path (O_DIR OR O_CHECK)) (\<lambda>(fd, v1).
     if fd = - 1 then rbind (put_str buf 0 (''The path is not a dir.'' @ [LF])) (\<lambda>b. Inr (True, b, v1))
     else
       rbind (fd_inode v1 fd) (\<lambda>iref. rbind (close_ok v1 fd) (\<lambda>v2.
       case node_of v2 iref of
         None \<Rightarrow>
           rbind (blen buf) (\<lambda>n.
           if n + length devdir > 128 then Inr (False, buf, v2)
           else rbind (put_str buf n devdir) (\<lambda>b. Inr (True, b, v2)))
       | Some node \<Rightarrow>
           if fs_dev (v_fs v2 (i_fs node)) = 0 then
             rbind (add_str buf (ls_title path)) (\<lambda>b1.
             rbind (ls_proc (etrs (proc_dir v2)) b1) (\<lambda>b2. Inr (False, b2, v2)))
           else
             rbind (blen buf) (\<lambda>n.
             if n + length path + 1 > 128 then Inr (False, buf, v2)
             else rbind (put_str buf n (ls_title path)) (\<lambda>b1.
               rbind (ls_disk (etrs (get_ed (rd1_of v2) (blk_addr (v_fs v2 (i_fs node)) (i_nblocks node)))) b1)
                 (\<lambda>(on, b2). Inr (on, b2, v2))))))))"

definition cmd_ls :: "nat \<Rightarrow> string option list \<Rightarrow> string \<Rightarrow> out \<Rightarrow> out res" where
  "cmd_ls num pars curpath o1 =
     for_pars (\<lambda>i s.
       rbind (par pars i) (\<lambda>p.
       if p = [] \<and> i \<noteq> 0 then Inr (True, s)
       else rbind (ls_path curpath p) (\<lambda>path. ls_one path s))) [0..<Suc num] o1"

section \<open>\<open>cat\<close>\<close>

text \<open>The index of the word \<open>>\<close>, or \<open>num + 1\<close>.\<close>

fun find_gt :: "string option list \<Rightarrow> nat \<Rightarrow> nat list \<Rightarrow> nat res" where
  "find_gt pars n [] = Inr n"
| "find_gt pars n (i # is) = rbind (par pars i) (\<lambda>p. if p = ''>'' then Inr i else find_gt pars n is)"

text \<open>Bytes read into the front of the buffer.\<close>

definition fill_buf :: "char list \<Rightarrow> char list \<Rightarrow> char list" where
  "fill_buf b bs = bs @ drop (length bs) b"

definition last_part :: "string \<Rightarrow> string" where
  "last_part path = rev (takeWhile (\<lambda>c. c \<noteq> CHR ''/'') (rev path))"

definition cat_show :: "string \<Rightarrow> out \<Rightarrow> out res" where
  "cat_show path = (\<lambda>(buf, v).
     rbind (vfsopen v path O_CHECK) (\<lambda>(fd, v1).
     if fd = - 1 then rbind (put_str buf 0 (''The file is not exist.'' @ [LF])) (\<lambda>b. Inr (b, v1))
     else
       rbind (fd_inode v1 fd) (\<lambda>iref. rbind (close_ok v1 fd) (\<lambda>v2.
       case node_of v2 iref of
         None \<Rightarrow>
           rbind (dev_lookup (last_part path)) (\<lambda>dev.
           rbind (dev_read (v_devs v2) dev 0 127) (\<lambda>(_, bs, D). Inr (fill_buf buf bs, v2\<lparr>v_devs := D\<rparr>)))
       | Some node \<Rightarrow>
           if fs_dev (v_fs v2 (i_fs node)) = 0 then
             rbind (end_line (fill_buf buf (take 127 (pr_block v2 ! i_nblocks node)))) (\<lambda>b. Inr (b, v2))
           else
             rbind (end_line (fill_buf buf
               (rd_read (rd1_of v2) (blk_addr (v_fs v2 (i_fs node)) (i_nblocks node)) 127))) (\<lambda>b. Inr (b, v2))))))"

text \<open>\<open>cat from > to\<close>: one block is copied.  A device has no inode; \<open>procfs\<close> is only read.\<close>

definition cat_copy :: "string \<Rightarrow> string \<Rightarrow> out \<Rightarrow> out res" where
  "cat_copy fromfile tofile = (\<lambda>(buf, v).
     rbind (vfsopen v fromfile O_CHECK) (\<lambda>(fd1, v1).
     if fd1 = - 1 then rbind (put_str buf 0 (''The file is not exist.'' @ [LF])) (\<lambda>b. Inr (b, v1))
     else
       rbind (fd_inode v1 fd1) (\<lambda>iref1.
       rbind (vfsopen v1 tofile (O_CREAT OR O_CHECK)) (\<lambda>(fd2, v2).
       if fd2 = - 1 then
         rbind (put_str buf 0 (''open file '' @ tofile @ '' fail.'' @ [LF])) (\<lambda>b.
         rbind (close_ok v2 fd1) (\<lambda>v3. Inr (b, v3)))
       else
         rbind (fd_inode v2 fd2) (\<lambda>iref2.
         let denied = rbind (put_str buf 0 (''Permission denied.'' @ [LF])) (\<lambda>b.
               rbind (close_ok v2 fd1) (\<lambda>v3. rbind (close_ok v3 fd2) (\<lambda>v4. Inr (b, v4))))
         in case (node_of v2 iref1, node_of v2 iref2) of
              (Some n1, Some n2) \<Rightarrow>
                let fs1 = v_fs v2 (i_fs n1); fs2 = v_fs v2 (i_fs n2) in
                if fs_dev fs2 = 0 then denied
                else
                  let temp = (if fs_dev fs1 = 0 then take FILEBLOCK (pr_block v2 ! i_nblocks n1)
                              else rd_read (rd1_of v2) (blk_addr fs1 (i_nblocks n1)) FILEBLOCK);
                      v3 = set_rd1 v2 (rd_write (rd1_of v2) (blk_addr fs2 (i_nblocks n2)) temp)
                  in rbind (close_ok v3 fd1) (\<lambda>v4. rbind (close_ok v4 fd2) (\<lambda>v5. Inr (buf, v5)))
            | _ \<Rightarrow> denied)))))"

definition from_num :: "nat \<Rightarrow> nat" where
  "from_num i = foldl (\<lambda>r pp. if pp = i \<or> pp = i + 1 then r else pp) 0 [0..<3]"

definition invalid_format :: string where
  "invalid_format = ''The format of cmd is Invalid.'' @ [LF]"

definition cmd_cat :: "nat \<Rightarrow> string option list \<Rightarrow> string \<Rightarrow> out \<Rightarrow> out res" where
  "cmd_cat num pars curpath = (\<lambda>(buf, v).
     rbind (find_gt pars (Suc num) [0..<Suc num]) (\<lambda>i.
     if i = Suc num then
       rbind (par pars 0) (\<lambda>p. rbind (full_path curpath p) (\<lambda>path. cat_show path (buf, v)))
     else if i = num then rbind (put_str buf 0 invalid_format) (\<lambda>b. Inr (b, v))
     else
       rbind (par pars (i + 1)) (\<lambda>pt. rbind (full_path curpath pt) (\<lambda>tofile.
       rbind (par pars (from_num i)) (\<lambda>pf. rbind (full_path curpath pf) (\<lambda>fromfile.
       cat_copy fromfile tofile (buf, v)))))))"

section \<open>\<open>echo\<close>\<close>

text \<open>The words of the line, each with a space behind it, as long as they fit; some are skipped.\<close>

definition echo_words :: "nat \<Rightarrow> string option list \<Rightarrow> nat set \<Rightarrow> nat list \<Rightarrow> char list \<Rightarrow> char list res" where
  "echo_words limit pars skip is b =
     for_pars (\<lambda>i b.
       if i \<in> skip then Inr (True, b)
       else rbind (par pars i) (\<lambda>p. rbind (blen b) (\<lambda>n.
         if n + length p + 1 > limit then Inr (False, b)
         else rbind (put_str b n (p @ '' '')) (\<lambda>b1. Inr (True, b1))))) is b"

definition echo_dev :: "nat \<Rightarrow> string option list \<Rightarrow> nat \<Rightarrow> string \<Rightarrow> out \<Rightarrow> out res" where
  "echo_dev num pars i path = (\<lambda>(buf, v).
     rbind (require (length (drop 5 path) \<le> 31) Overrun) (\<lambda>_.
     rbind (dev_lookup (drop 5 path)) (\<lambda>dev.
     rbind (echo_words 128 pars {i, i + 1} [0..<Suc num] buf) (\<lambda>b1.
     rbind (end_line b1) (\<lambda>b2.
     rbind (blen b2) (\<lambda>n.
     rbind (dev_write (v_devs v) dev 0 (take n b2)) (\<lambda>(_, D). Inr (clear_buf, v\<lparr>v_devs := D\<rparr>))))))))"

text \<open>The new text of the file: block, then inode, then \<open>close\<close>.\<close>

definition echo_store :: "nat \<Rightarrow> string option list \<Rightarrow> nat \<Rightarrow> int \<Rightarrow> inode \<Rightarrow> out \<Rightarrow> out res" where
  "echo_store num pars i fd node = (\<lambda>(buf, v).
     rbind (echo_words 128 pars {i, i + 1} [0..<Suc num] buf) (\<lambda>b.
     rbind (blen b) (\<lambda>n.
     let fs = v_fs v (i_fs node);
         d1 = rd_write (rd1_of v) (blk_addr fs (i_nblocks node)) (take n b);
         d2 = put_inode d1 (fsoff fs + i_offset node) (node\<lparr>i_size := n\<rparr>)
     in rbind (close_ok (set_rd1 v d2) fd) (\<lambda>v1. Inr (clear_buf, v1)))))"

definition echo_file :: "nat \<Rightarrow> string option list \<Rightarrow> nat \<Rightarrow> string \<Rightarrow> out \<Rightarrow> out res" where
  "echo_file num pars i path = (\<lambda>(buf, v).
     let denied = (\<lambda>v. rbind (put_str buf 0 (''Permission denied.'' @ [LF])) (\<lambda>b. Inr (b, v))) in
     rbind (vfsaccess v path DIR_OK) (\<lambda>(check, v1).
     if check = 0 then rbind (put_str buf 0 (''Cannot echo to a directory or a dev.'' @ [LF])) (\<lambda>b. Inr (b, v1))
     else rbind (vfsaccess v1 path F_OK) (\<lambda>(check2, v2).
     if check2 = 0 then
       rbind (vfsopen v2 path O_RDWR) (\<lambda>(fd, v3).
       rbind (require (0 \<le> fd) Assert_fail) (\<lambda>_.
       rbind (fd_inode v3 fd) (\<lambda>iref.
       case node_of v3 iref of
         None \<Rightarrow> echo_dev num pars i path (buf, v3)
       | Some node \<Rightarrow>
           let fs = v_fs v3 (i_fs node) in
           if fs_dev fs = 0 then denied v3
           else echo_store num pars i fd node
             (buf, set_rd1 v3 (rd_write (rd1_of v3) (blk_addr fs (i_nblocks node)) (replicate FILEBLOCK NUL))))))
     else
       rbind (vfsopen v2 path (O_RDWR OR O_CREAT)) (\<lambda>(fd, v3).
       if fd < 0 then rbind (put_str buf 0 (''Open file fail.'' @ [LF])) (\<lambda>b. Inr (b, v3))
       else rbind (fd_inode v3 fd) (\<lambda>iref.
         case node_of v3 iref of
           None \<Rightarrow> denied v3
         | Some node \<Rightarrow>
             if fs_dev (v_fs v3 (i_fs node)) = 0 then denied v3
             else echo_store num pars i fd node (buf, v3))))))"

definition cmd_echo :: "nat \<Rightarrow> string option list \<Rightarrow> string \<Rightarrow> out \<Rightarrow> out res" where
  "cmd_echo num pars curpath = (\<lambda>(buf, v).
     rbind (find_gt pars (Suc num) [0..<Suc num]) (\<lambda>i.
     if i = Suc num then
       rbind (echo_words 127 pars {} [0..<Suc num] buf) (\<lambda>b1.
       rbind (add_str b1 [LF]) (\<lambda>b2. Inr (b2, v)))
     else if i = num then rbind (put_str buf 0 invalid_format) (\<lambda>b. Inr (b, v))
     else rbind (par pars (i + 1)) (\<lambda>p. rbind (full_path curpath p) (\<lambda>path.
       echo_file num pars i path (buf, v)))))"

end
