(* ===== verification/Shell.thy ===== *)
theory Shell
  imports Cmd
begin

text \<open>
  The shell task (\<open>kernel/src/shell.c\<close>): \<open>sp_cmd\<close>, which cuts a line into the command and its words, and
  one round of the loop of \<open>shell_thread\<close>.  The line is the C string in the buffer, without its NUL.
\<close>

section \<open>\<open>sp_cmd\<close>\<close>

text \<open>
  The inner \<open>for\<close> loops copy the line from index \<open>i\<close> up to a space (they end with \<open>i\<close> on it), to a
  newline (the function returns) or to the end.
\<close>

datatype stop = At_space | At_newline | At_end

fun word_loop :: "string \<Rightarrow> string \<times> stop" where
  "word_loop [] = ([], At_end)"
| "word_loop (c # cs) =
     (if c = CHR '' '' then ([], At_space)
      else if c = LF then ([], At_newline)
      else (case word_loop cs of (w, e) \<Rightarrow> (c # w, e)))"

text \<open>
  Storing a word in \<open>pars[num]\<close>: only the first byte makes the code touch the array of 25 pointers,
  so an empty word in any position is harmless.
\<close>

definition set_par :: "string list \<Rightarrow> nat \<Rightarrow> string \<Rightarrow> string list res" where
  "set_par pars num w =
     (if w = [] then Inr pars
      else rbind (require (num < length pars) Overrun) (\<lambda>_. Inr (pars[num := w])))"

text \<open>
  The loop over the words.  It may never end: \<open>None\<close>.  An index behind the end of the line makes every
  round empty.
\<close>

partial_function (option) par_loop :: "string \<Rightarrow> nat \<Rightarrow> nat \<Rightarrow> string list \<Rightarrow> (nat \<times> string list) res option" where
  "par_loop buf i num pars =
     (if i = length buf then Some (Inr (num, pars))
      else case word_loop (drop i buf) of (w, e) \<Rightarrow>
        case set_par pars num w of
          Inl x \<Rightarrow> Some (Inl x)
        | Inr pars1 \<Rightarrow>
            if e = At_newline \<or> i + length w = length buf then Some (Inr (num, pars1))
            else par_loop buf (i + length w + 1) (num + 1) pars1)"

definition sp_cmd :: "string \<Rightarrow> string list \<Rightarrow> (string \<times> nat \<times> string list) res option" where
  "sp_cmd buf pars =
     (case word_loop buf of (cmd, e) \<Rightarrow>
        if 20 \<le> length cmd then Some (Inl Overrun)
        else if e = At_newline then Some (Inr (cmd, 0, pars))
        else map_option (\<lambda>r. rbind r (\<lambda>(num, ps). Inr (cmd, num, ps)))
               (par_loop buf (length cmd + 1) 0 pars))"

section \<open>\<open>shell_thread\<close>\<close>

record shell =
  sh_name :: string
  sh_in :: int
  sh_out :: int
  sh_curpath :: string
  sh_vfs :: vfs

definition shell_init :: "32 word \<Rightarrow> vfs \<Rightarrow> shell res" where
  "shell_init ttyid v =
     rbind (sprintf ''/dev/tty%ld'' [A_int ttyid]) (\<lambda>(_, name, _).
     rbind (path_buf name) (\<lambda>_.
     rbind (vfsopen v name O_RDONLY) (\<lambda>(i, v1).
     rbind (vfsopen v1 name O_WRONLY) (\<lambda>(out, v2).
     Inr \<lparr>sh_name = name, sh_in = i, sh_out = out, sh_curpath = ''~'', sh_vfs = v2\<rparr>))))"

definition help_text :: string where
  "help_text =
     concat (map (\<lambda>l. l @ [LF])
      [''Welcome to the jarvis'' @ CHR 0x27 # ''s shell and the CMDs:'',
       ''ls: list items in dir.'', ''cd: go into dir.'', ''cat: show the file on tty or into file.'',
       ''mkdir: create dir.'', ''rmdir: remove empty dir.'', ''rm: remove file.'', ''link: link files.'',
       ''unlink: unlink files.'', ''touch: create new file.'', ''echo: print something on tty or into file.'',
       ''mnt: mount fs(devfs and procfs).'', ''unmnt: unmount fs(devfs and procfs).''])"

definition keep_path :: "string \<Rightarrow> out res \<Rightarrow> (string \<times> out) res" where
  "keep_path curpath m = rbind m (\<lambda>o1. Inr (curpath, o1))"

text \<open>The chain of \<open>strcmp\<close>; the words behind the last one have been set to \<open>NULL\<close>.\<close>

definition dispatch ::
  "int \<Rightarrow> string \<Rightarrow> nat \<Rightarrow> string option list \<Rightarrow> string \<Rightarrow> out \<Rightarrow> (string \<times> out) res" where
  "dispatch stdout cmd num pars curpath o1 =
     (if cmd = ''ls'' then keep_path curpath (cmd_ls num pars curpath o1)
      else if cmd = ''cd'' then cmd_cd pars curpath o1
      else if cmd = ''cat'' then keep_path curpath (cmd_cat num pars curpath o1)
      else if cmd = ''mkdir'' then keep_path curpath (cmd_mkdir num pars curpath o1)
      else if cmd = ''rmdir'' then keep_path curpath (cmd_rmdir num pars curpath o1)
      else if cmd = ''rm'' \<or> cmd = ''unlink'' then keep_path curpath (cmd_rm num pars curpath o1)
      else if cmd = ''link'' then keep_path curpath (cmd_link num pars curpath o1)
      else if cmd = ''touch'' then keep_path curpath (cmd_touch num pars curpath o1)
      else if cmd = ''echo'' then keep_path curpath (cmd_echo num pars curpath o1)
      else if cmd = ''mnt'' then keep_path curpath (cmd_mnt pars o1)
      else if cmd = ''unmnt'' then keep_path curpath (cmd_unmnt pars o1)
      else if cmd = ''help'' then
        (case o1 of (buf, v) \<Rightarrow>
           rbind (vfswrite v stdout help_text) (\<lambda>(_, v1). Inr (curpath, buf, v1)))
      else
        (case o1 of (buf, v) \<Rightarrow>
           rbind (put_str buf 0 (''Unkown cmd '' @ cmd @ [LF])) (\<lambda>b. Inr (curpath, b, v))))"

definition the_pars :: "nat \<Rightarrow> string list \<Rightarrow> string option list" where
  "the_pars num ps = map (\<lambda>i. if i \<le> num then Some (ps ! i) else None) [0..<length ps]"

text \<open>What the loop does with a line that has been read.\<close>

definition run_line :: "string \<Rightarrow> shell \<Rightarrow> shell res option" where
  "run_line line s =
     (case sp_cmd line (replicate 25 []) of
        None \<Rightarrow> None
      | Some r \<Rightarrow> Some
          (rbind r (\<lambda>(cmd, num, ps).
           rbind (dispatch (sh_out s) cmd num (the_pars num ps) (sh_curpath s) (clear_buf, sh_vfs s))
             (\<lambda>(curpath, buf, v).
           rbind (blen buf) (\<lambda>n.
           rbind (vfswrite v (sh_out s) (take n buf)) (\<lambda>(_, v1).
           Inr (s\<lparr>sh_curpath := curpath, sh_vfs := v1\<rparr>)))))))"

definition shell_round :: "shell \<Rightarrow> shell res option" where
  "shell_round s =
     (case
        rbind (sprintf ''(%s) %s$ '' [A_str (Some (sh_name s)), A_str (Some (sh_curpath s))]) (\<lambda>(_, prompt, _).
        rbind (path_buf prompt) (\<lambda>_.
        rbind (vfswrite (sh_vfs s) (sh_out s) prompt) (\<lambda>(_, v1).
        rbind (vfsread v1 (sh_in s) 128) (\<lambda>(nread, bs, v2).
        rbind (blen (fill_buf clear_buf bs)) (\<lambda>_. Inr (nread, cstr (fill_buf clear_buf bs), s\<lparr>sh_vfs := v2\<rparr>))))))
      of
        Inl e \<Rightarrow> Some (Inl e)
      | Inr (nread, line, s1) \<Rightarrow> if 0 < nread then run_line line s1 else Some (Inr s1))"

end
