(* ===== verification/Shell_Props.thy ===== *)
theory Shell_Props
  imports Shell Vfs_Boot
begin

text \<open>
  What the shell does with a line: \<open>sp_cmd\<close> ends on every line that a terminal delivers and finds the
  words, and the commands change the directory tree as the words say.
\<close>

section \<open>Splitting a line\<close>

lemma word_loop_end:
  "word_loop s = (w, e) \<Longrightarrow> length w \<le> length s \<and> (e = At_end \<longleftrightarrow> length w = length s)"
  by (induction s arbitrary: w e) (auto split: prod.splits if_splits)

lemma word_loop_At_end: "snd (word_loop s) = At_end \<longleftrightarrow> CHR '' '' \<notin> set s \<and> LF \<notin> set s"
  by (induction s) (auto split: prod.splits)

lemma word_loop_word:
  "CHR '' '' \<notin> set w \<Longrightarrow> LF \<notin> set w \<Longrightarrow>
   word_loop (w @ CHR '' '' # r) = (w, At_space) \<and> word_loop (w @ LF # r) = (w, At_newline)"
  by (induction w) (auto simp: LF_def)

text \<open>From an index behind the end of the line the loop never returns; from any other one it does.\<close>

lemma par_loop_behind:
  assumes "par_loop buf i num pars = Some r"
  shows "i \<le> length buf"
  using assms
proof (rule par_loop.raw_induct [where P = "\<lambda>buf i num pars r. i \<le> length buf", rotated])
  fix f :: "string \<Rightarrow> nat \<Rightarrow> nat \<Rightarrow> string list \<Rightarrow> (nat \<times> string list) res option" and buf i num pars r
  assume IH: "\<And>buf i num pars r. f buf i num pars = Some r \<Longrightarrow> i \<le> length buf"
    and run: "(if i = length buf then Some (Inr (num, pars))
      else case word_loop (drop i buf) of (w, e) \<Rightarrow>
        case set_par pars num w of
          Inl x \<Rightarrow> Some (Inl x)
        | Inr pars1 \<Rightarrow>
            if e = At_newline \<or> i + length w = length buf then Some (Inr (num, pars1))
            else f buf (i + length w + 1) (num + 1) pars1) = Some r"
  show "i \<le> length buf"
  proof (rule ccontr)
    assume n: "\<not> i \<le> length buf"
    then have "f buf (i + 1) (num + 1) pars = Some r" using run by (simp add: set_par_def)
    with IH n show False by fastforce
  qed
qed

lemma par_loop_returns: "i \<le> length buf \<Longrightarrow> \<exists>r. par_loop buf i num pars = Some r"
proof (induction "length buf - i" arbitrary: i num pars rule: less_induct)
  case less
  obtain w e where w: "word_loop (drop i buf) = (w, e)" by fastforce
  have l: "length w \<le> length buf - i" using word_loop_end [OF w] by simp
  show ?case
  proof (cases "i = length buf \<or> e = At_newline \<or> i + length w = length buf")
    case True
    then show ?thesis by (subst par_loop.simps) (auto simp: w split: sum.splits)
  next
    case False
    have "\<exists>r. par_loop buf (i + length w + 1) (num + 1) ps = Some r" for ps
      by (rule less(1)) (use False less(2) l in auto)
    with False show ?thesis by (subst par_loop.simps) (auto simp: w split: sum.splits)
  qed
qed


text \<open>The words of a line and the line they are written in.\<close>

definition plain_word :: "string \<Rightarrow> bool" where
  "plain_word w \<longleftrightarrow> w \<noteq> [] \<and> CHR '' '' \<notin> set w \<and> LF \<notin> set w \<and> NUL \<notin> set w"

definition words_line :: "string list \<Rightarrow> string" where
  "words_line ws = concat (map (\<lambda>w. CHR '' '' # w) ws)"

lemma par_loop_words:
  assumes "\<forall>w \<in> set ws. plain_word w" and "plain_word w" and "num + length ws < length pars"
    and "drop i buf = w @ words_line ws @ [LF]" and "i \<le> length buf"
  shows "par_loop buf i num pars =
    Some (Inr (num + length ws, take num pars @ (w # ws) @ drop (num + length ws + 1) pars))"
  using assms
proof (induction ws arbitrary: w i num pars)
  case Nil
  have "i \<noteq> length buf" using Nil(4) by auto
  moreover have "word_loop (w @ [LF]) = (w, At_newline)"
    using word_loop_word [of w "[]"] Nil(2) by (simp add: plain_word_def)
  ultimately show ?case
    using Nil by (subst par_loop.simps) (simp add: words_line_def set_par_def plain_word_def upd_conv_take_nth_drop)
next
  case (Cons v ws)
  have ne: "i \<noteq> length buf" using Cons.prems(4) by auto
  have d: "drop i buf = w @ CHR '' '' # v @ words_line ws @ [LF]" using Cons.prems(4) by (simp add: words_line_def)
  then have "word_loop (drop i buf) = (w, At_space)"
    using word_loop_word [of w "v @ words_line ws @ [LF]"] Cons.prems(2) by (simp add: plain_word_def)
  moreover have "length (drop i buf) = length w + length v + length (words_line ws) + 2" by (simp only: d) simp
  then have l: "i + length w + 1 \<le> length buf" "i + length w \<noteq> length buf" by auto
  moreover have "drop (i + length w + 1) buf = v @ words_line ws @ [LF]"
  proof -
    have "drop (i + length w + 1) buf = drop (length w + 1) (drop i buf)" by (simp add: add_ac)
    then show ?thesis by (simp add: d)
  qed
  ultimately have "par_loop buf i num pars = par_loop buf (i + length w + 1) (num + 1) (pars[num := w])"
    using ne Cons.prems(2,3) by (subst par_loop.simps) (simp add: set_par_def plain_word_def)
  also have "\<dots> = Some (Inr (num + 1 + length ws,
      take (num + 1) (pars[num := w]) @ (v # ws) @ drop (num + 1 + length ws + 1) (pars[num := w])))"
    using Cons.prems(1,3) l(1) \<open>drop (i + length w + 1) buf = _\<close> by (intro Cons.IH) auto
  finally show ?case
    using Cons.prems(3) by (simp add: take_Suc_conv_app_nth)
qed

lemma sp_cmd_words:
  assumes "plain_word cmd" and "length cmd < 20" and "\<forall>w \<in> set ws. plain_word w" and "ws \<noteq> []"
    and "length ws \<le> 25"
  shows "sp_cmd (cmd @ words_line ws @ [LF]) (replicate 25 []) =
    Some (Inr (cmd, length ws - 1, ws @ replicate (25 - length ws) []))"
proof -
  obtain v vs where ws: "ws = v # vs" using assms(4) by (cases ws) auto
  let ?line = "cmd @ words_line ws @ [LF]"
  have "word_loop ?line = (cmd, At_space)"
    using word_loop_word [of cmd "v @ words_line vs @ [LF]"] assms(1) by (simp add: ws words_line_def plain_word_def)
  moreover have "par_loop ?line (length cmd + 1) 0 (replicate 25 []) =
      Some (Inr (0 + length vs, take 0 (replicate 25 []) @ (v # vs) @ drop (0 + length vs + 1) (replicate 25 [])))"
    using assms by (intro par_loop_words) (auto simp: ws words_line_def)
  ultimately show ?thesis using assms(2) by (simp add: sp_cmd_def ws)
qed

text \<open>
  A line of a command of fewer than 20 bytes and up to 25 words, each behind one space, is split
  into exactly these words; \<open>num\<close> is the index of the last one and the entries behind it stay empty.
\<close>

theorem sp_cmd_splits:
  assumes "plain_word cmd" and "length cmd < 20" and "\<forall>w \<in> set ws. plain_word w" and "ws \<noteq> []"
    and "length ws \<le> 25"
  shows "sp_cmd (cmd @ words_line ws @ [LF]) (replicate 25 []) =
    Some (Inr (cmd, length ws - 1, ws @ replicate (25 - length ws) []))"
  by (rule sp_cmd_words [OF assms])

lemma sp_cmd_splits_witness:
  "sp_cmd (''mkdir'' @ words_line [''a'', ''b''] @ [LF]) (replicate 25 []) =
    Some (Inr (''mkdir'', 2 - 1, [''a'', ''b''] @ replicate (25 - 2) []))"
  using sp_cmd_splits [of "''mkdir''" "[''a'', ''b'']"] by (simp add: plain_word_def LF_def)

section \<open>The current path\<close>

text \<open>The current path of the shell for the directory \<open>cs\<close>.\<close>

definition curpath_of :: "string list \<Rightarrow> string" where
  "curpath_of cs = CHR ''~'' # path_of cs"

lemma length_path_snoc: "length (path_of (cs @ [c])) = length (path_of cs) + length c + 1"
  by (simp add: path_of_append path_of_Cons)

lemma full_path_below:
  assumes "good_name c" and "length (path_of (cs @ [c])) \<le> 127"
  shows "full_path (curpath_of cs) c = Inr (path_of (cs @ [c]))"
proof -
  have "c \<noteq> []" "hd c \<noteq> CHR ''/''" using assms(1) by (auto simp: good_name_def) (metis hd_in_set)
  then show ?thesis
    using assms(2) by (simp add: full_path_def path_buf_def curpath_of_def path_of_append path_of_Cons)
qed

lemma parent_path_up:
  assumes "good_name c"
  shows "parent_path (curpath_of (cs @ [c])) = Inr (if cs = [] then ''/'' else path_of cs)"
proof -
  have cur: "curpath_of (cs @ [c]) = (CHR ''~'' # path_of cs) @ CHR ''/'' # c"
    by (simp add: curpath_of_def path_of_append path_of_Cons)
  have "last_idx (\<lambda>x. x = CHR ''/'') ((CHR ''~'' # path_of cs) @ CHR ''/'' # c) = Some (length (CHR ''~'' # path_of cs))"
    using assms by (intro last_idx_append) (auto simp: good_name_def)
  moreover have "path_of cs = [] \<longleftrightarrow> cs = []" by (cases cs) (simp_all add: path_of_Cons)
  ultimately show ?thesis by (simp add: parent_path_def cur Let_def)
qed

lemma par_0: "ps \<noteq> [] \<Longrightarrow> par (Some p # ps) 0 = Inr p"
  by (simp add: par_def)

text \<open>\<open>cd\<close> to an existing directory makes it the current one and leaves the buffer alone.\<close>

lemma cmd_cd_to:
  assumes "vfs_ok v D" and "par pars 0 = Inr p" and "cd_path cp p = Inr (path_of (cs @ [c]))" and "blk_path cs c"
    and "resolve (vtree v D) cs c True \<noteq> None" and "length (path_of (cs @ [c])) \<le> 126"
  shows "cmd_cd pars cp (buf, v) = Inr (curpath_of (cs @ [c]), buf, v)"
proof -
  have "vfsaccess v (path_of (cs @ [c])) DIR_OK = Inr (0, v)"
    using vfsaccess_run [OF assms(1,4), of DIR_OK] assms(5) by auto
  then show ?thesis
    using assms(2,3,6) path_not_root [OF assms(4)] by (simp add: cmd_cd_def path_buf_def curpath_of_def)
qed

lemma cmd_cd_root:
  "par pars 0 = Inr p \<Longrightarrow> cd_path cp p = Inr ''/'' \<Longrightarrow> cmd_cd pars cp (buf, v) = Inr (curpath_of [], buf, v)"
  by (simp add: cmd_cd_def vfsaccess_def curpath_of_def)

lemma blk_path_parent: "blk_path (cs @ [b]) c \<Longrightarrow> blk_path cs b"
  using good_path_parent by (cases cs) (auto simp: blk_path_def)

text \<open>
  Going into a directory and up again comes back: \<open>cd c\<close> for a directory below the current one makes
  that directory the current one, \<open>cd ..\<close> there restores the current path, and neither changes the
  file system.
\<close>

theorem cd_down_and_up:
  assumes "vfs_ok v D" and "blk_path cs c" and "resolve (vtree v D) cs c True \<noteq> None"
    and "length (path_of (cs @ [c])) \<le> 126" and "c \<noteq> ''..''"
    and "par pars 0 = Inr c" and "par ups 0 = Inr ''..''"
  shows "cmd_cd pars (curpath_of cs) (buf, v) = Inr (curpath_of (cs @ [c]), buf, v) \<and>
    cmd_cd ups (curpath_of (cs @ [c])) (buf, v) = Inr (curpath_of cs, buf, v)"
proof
  have c: "good_name c" using blk_good [OF assms(2)] good_pathD(2) by blast
  then have "c \<noteq> []" "\<not> dotdot c" using assms(5) by (auto simp: good_name_def dotdot_def)
  then have "cd_path (curpath_of cs) c = Inr (path_of (cs @ [c]))"
    using full_path_below [OF c] assms(4) by (simp add: cd_path_def)
  then show "cmd_cd pars (curpath_of cs) (buf, v) = Inr (curpath_of (cs @ [c]), buf, v)"
    using assms by (intro cmd_cd_to)
  have up: "cd_path (curpath_of (cs @ [c])) ''..'' = Inr (if cs = [] then ''/'' else path_of cs)"
    using parent_path_up [OF c] by (simp add: cd_path_def dotdot_def)
  show "cmd_cd ups (curpath_of (cs @ [c])) (buf, v) = Inr (curpath_of cs, buf, v)"
  proof (cases cs rule: rev_cases)
    case Nil
    with up assms(7) show ?thesis by (simp add: cmd_cd_root)
  next
    case (snoc ds b)
    obtain p where "twalk (vtree v D) 0 (ds @ [b]) = Some p"
      using assms(3) snoc by (auto simp: resolve_def split: option.splits)
    then have "resolve (vtree v D) ds b True \<noteq> None" using parent_resolve by simp
    moreover have "blk_path ds b" using blk_path_parent assms(2) snoc by blast
    moreover have "length (path_of (ds @ [b])) \<le> 126" using assms(4) by (simp only: length_path_snoc [of cs c] snoc [symmetric])
    ultimately show ?thesis
      using cmd_cd_to [OF assms(1,7), of "curpath_of (cs @ [c])" ds b] up snoc by simp
  qed
qed

lemma cd_down_and_up_witness:
  "\<exists>v. vfsinit demo_pre 4096 8192 12288 1 = Inr v \<and>
     cmd_cd [Some ''lyrics'', None] ''~/jarvis'' (clear_buf, v) = Inr (''~/jarvis/lyrics'', clear_buf, v) \<and>
     cmd_cd [Some ''..'', None] ''~/jarvis/lyrics'' (clear_buf, v) = Inr (''~/jarvis'', clear_buf, v)"
proof -
  obtain v where v: "vfsinit demo_pre 4096 8192 12288 1 = Inr v" "vfs_ok v {0, 1, 3, 6, 7}"
      "vtree v {0, 1, 3, 6, 7} = tree_boot"
    by (rule booted)
  have b: "blk_path [''jarvis''] ''lyrics''" by (simp add: blk_path_def good_path_def good_name_def path_of_Cons)
  have p: "par [Some ''lyrics'', None] 0 = Inr ''lyrics''" "par [Some ''..'', None] 0 = Inr ''..''"
    by (simp_all add: par_def)
  from cd_down_and_up [OF v(2) b _ _ _ p, of clear_buf] v(1,3) show ?thesis
    by (auto simp: resolve_def path_of_Cons curpath_of_def)
qed

section \<open>\<open>mkdir\<close> from the line to the tree\<close>

lemma the_pars_nth: "i \<le> num \<Longrightarrow> i < length ps \<Longrightarrow> par (the_pars num ps) i = Inr (ps ! i)"
  by (simp add: par_def the_pars_def)

text \<open>
  The line \<open>mkdir c\<close>: the shell finds the word, builds the path below the current directory, and
  exactly that directory is added to the tree; the file system stays well-formed, the answer is empty
  and the current path is kept.
\<close>

theorem mkdir_line_creates:
  assumes "vfs_ok v D" and "blk_path cs c" and "plain_word c" and "length (path_of (cs @ [c])) \<le> 127"
    and "twalk (vtree v D) 0 cs = Some p" and "vtree v D p c = None"
    and "find_idx (\<lambda>x. x = - 1) (inooff (bfs v)) = Some i"
    and "find_idx (\<lambda>e. e_valid e = 0) (entries (bfs v) (rd1_of v) p) = Some k"
  shows "\<exists>num ps v'. sp_cmd (''mkdir '' @ c @ [LF]) (replicate 25 []) = Some (Inr (''mkdir'', num, ps)) \<and>
    dispatch out ''mkdir'' num (the_pars num ps) (curpath_of cs) (clear_buf, v) =
      Inr (curpath_of cs, clear_buf, v') \<and>
    vfs_ok v' (insert i D) \<and> vtree v' (insert i D) = tree_add (vtree v D) p c True i"
proof -
  let ?ps = "[c] @ replicate 24 []"
  have "sp_cmd (''mkdir'' @ words_line [c] @ [LF]) (replicate 25 []) = Some (Inr (''mkdir'', 0, ?ps))"
    using sp_cmd_words [of "''mkdir''" "[c]"] assms(3) by (simp add: plain_word_def LF_def)
  then have sp: "sp_cmd (''mkdir '' @ c @ [LF]) (replicate 25 []) = Some (Inr (''mkdir'', 0, ?ps))"
    by (simp add: words_line_def)
  obtain v' where v': "vfsmkdir v (path_of (cs @ [c])) = Inr (0, v')" "vfs_ok v' (insert i D)"
    "vtree v' (insert i D) = tree_add (vtree v D) p c True i"
    using vfsmkdir_run [OF assms(1,2,5-8)] by blast
  have "good_name c" using blk_good [OF assms(2)] good_pathD(2) by blast
  then have "full_path (curpath_of cs) c = Inr (path_of (cs @ [c]))" using assms(4) by (rule full_path_below)
  moreover have "par (the_pars 0 ?ps) 0 = Inr c" by (subst the_pars_nth) simp_all
  ultimately have "cmd_mkdir 0 (the_pars 0 ?ps) (curpath_of cs) (clear_buf, v) = Inr (clear_buf, v')"
    using v'(1) by (simp add: cmd_mkdir_def each_path_def)
  then have "dispatch out ''mkdir'' 0 (the_pars 0 ?ps) (curpath_of cs) (clear_buf, v) = Inr (curpath_of cs, clear_buf, v')"
    by (simp add: dispatch_def keep_path_def)
  with sp v'(2,3) show ?thesis by blast
qed

lemma mkdir_line_creates_witness:
  "\<exists>v v'. vfsinit demo_pre 4096 8192 12288 1 = Inr v \<and>
     (\<exists>num ps. sp_cmd (''mkdir '' @ ''a'' @ [LF]) (replicate 25 []) = Some (Inr (''mkdir'', num, ps)) \<and>
       dispatch 1 ''mkdir'' num (the_pars num ps) ''~/jarvis'' (clear_buf, v) = Inr (''~/jarvis'', clear_buf, v')) \<and>
     vtree v' (insert 8 {0, 1, 3, 6, 7}) = tree_add tree_boot 1 ''a'' True 8"
proof -
  obtain v where v: "vfsinit demo_pre 4096 8192 12288 1 = Inr v" "vfs_ok v {0, 1, 3, 6, 7}"
      "packed v {0, 1, 3, 6, 7} 8 (boot_m 3 2 2)" "vtree v {0, 1, 3, 6, 7} = tree_boot"
    by (rule booted)
  have slot: "find_idx (\<lambda>e. e_valid e = 0) (entries (bfs v) (rd1_of v) 1) = Some 2"
    using packed_slot [OF v(3), of 1] by (simp add: boot_m_def)
  have w: "plain_word ''a''" by (simp add: plain_word_def LF_def)
  from mkdir_line_creates [OF v(2) blk_demo(1) w _ _ _ packed_ino [OF v(3)] slot, of 1] v(1,4)
  show ?thesis by (simp add: path_of_Cons curpath_of_def) metis
qed

section \<open>\<open>echo\<close> into a file and \<open>cat\<close>\<close>

text \<open>A buffer that holds a string and zeros behind it.\<close>

definition zbuf :: "string \<Rightarrow> char list" where
  "zbuf s = s @ replicate (128 - length s) NUL"

lemma zbuf_Nil: "zbuf [] = clear_buf"
  by (simp add: zbuf_def clear_buf_def)

lemma zbuf_NUL: "length s < 128 \<Longrightarrow> zbuf s = s @ NUL # replicate (127 - length s) NUL"
  by (simp add: zbuf_def Suc_diff_le flip: replicate_Suc)

lemma blen_zbuf: "NUL \<notin> set s \<Longrightarrow> length s < 128 \<Longrightarrow> blen (zbuf s) = Inr (length s)"
  by (simp add: blen_def zbuf_NUL)

lemma put_str_zbuf:
  assumes "length s + length t < 128"
  shows "put_str (zbuf s) (length s) t = Inr (zbuf (s @ t))"
proof -
  have "take (length s) (zbuf s) = s" by (simp add: zbuf_def)
  moreover have "drop (length s + length t + 1) (zbuf s) = replicate (127 - (length s + length t)) NUL"
    by (simp add: zbuf_def)
  moreover have "length (zbuf s) = 128" using assms by (simp add: zbuf_def)
  moreover have "zbuf (s @ t) = s @ t @ NUL # replicate (127 - (length s + length t)) NUL"
    using assms zbuf_NUL [of "s @ t"] by simp
  ultimately show ?thesis using assms by (simp add: put_str_def)
qed

lemma end_line_zbuf:
  assumes "NUL \<notin> set s" and "length s < 128"
  shows "end_line (zbuf s) = Inr (s @ LF # replicate (127 - length s) NUL)"
  using blen_zbuf [OF assms] by (simp add: end_line_def zbuf_NUL [OF assms(2)])

text \<open>The text that \<open>echo\<close> makes of its words.\<close>

definition echo_text :: "string list \<Rightarrow> string" where
  "echo_text ws = concat (map (\<lambda>w. w @ '' '') ws)"

lemma echo_text_simps [simp]: "echo_text [] = []" "echo_text (w # ws) = w @ CHR '' '' # echo_text ws"
  by (simp_all add: echo_text_def)

lemma echo_loop:
  assumes "list_all2 (\<lambda>k w. par pars k = Inr w \<and> k \<notin> skip) ks ws" and "\<forall>w \<in> set ws. NUL \<notin> set w"
    and "NUL \<notin> set s" and "length s + length (echo_text ws) < limit" and "limit \<le> 128"
  shows "echo_words limit pars skip (ks @ rest) (zbuf s) = echo_words limit pars skip rest (zbuf (s @ echo_text ws))"
  using assms
proof (induction arbitrary: s rule: list_all2_induct)
  case Nil
  then show ?case by simp
next
  case (Cons k ks w ws)
  have l: "length s + length w + 1 < limit" using Cons.prems(3) by simp
  have "echo_words limit pars skip (ks @ rest) (zbuf (s @ w @ '' '')) =
      echo_words limit pars skip rest (zbuf ((s @ w @ '' '') @ echo_text ws))"
    by (rule Cons.IH) (use Cons.prems in auto)
  then show ?case
    using Cons.hyps l Cons.prems(2,4) blen_zbuf [of s] put_str_zbuf [of s "w @ '' ''"]
    by (simp add: echo_words_def)
qed

lemma find_gt_first:
  assumes "\<forall>j. k \<le> j \<and> j < i \<longrightarrow> (\<exists>p. par pars j = Inr p \<and> p \<noteq> ''>'')" and "par pars i = Inr ''>''"
    and "k \<le> i" and "i < m"
  shows "find_gt pars n [k..<m] = Inr i"
  using assms
proof (induction "i - k" arbitrary: k)
  case 0
  then show ?case by (simp add: upt_conv_Cons)
next
  case (Suc d)
  then have "find_gt pars n [Suc k..<m] = Inr i" by (intro Suc.hyps(1)) auto
  moreover obtain p where "par pars k = Inr p" "p \<noteq> ''>''" using Suc by force
  moreover have "k < m" using Suc by simp
  ultimately show ?case by (simp add: upt_conv_Cons)
qed

text \<open>Writing an inode of a file with another size changes nothing but that size.\<close>

lemma file_size:
  assumes inv: "fs_inv E fs d D" and i: "used fs i" "i \<notin> D" and sz: "sz < 2 ^ 32"
  defines "d1 \<equiv> put_inode d (iaddr fs i) ((node fs d i)\<lparr>i_size := sz\<rparr>)"
  shows "fs_inv E fs d1 D" and "tree_of fs d1 D = tree_of fs d D"
proof -
  note g = fs_invD(1) [OF inv]
  have i80: "i < 80" using used_less [OF i(1)] .
  have ent: "entries fs d1 j = entries fs d j" for j
    using g i80 by (simp add: entries_def d1_def dir_put_ino)
  have "wf_inode ((node fs d i)\<lparr>i_size := sz\<rparr>)"
    using wf_get_inode [of d "iaddr fs i"] sz by (auto simp: wf_inode_def node_def)
  then have nod: "node fs d1 j = (if j = i then (node fs d i)\<lparr>i_size := sz\<rparr> else node fs d j)" for j
    by (simp add: node_def d1_def ino_put_ino)
  have nk: "node_ok E fs d1 j \<longleftrightarrow> node_ok E fs d j" for j
    using nod [of j] by (simp add: node_ok_def)
  have rc: "i_refcnt (node fs d1 j) = i_refcnt (node fs d j)" for j using nod [of j] by simp
  have refs: "refs fs d1 D = refs fs d D" using ent by (auto simp: refs_def fun_eq_iff)
  show "fs_inv E fs d1 D"
    using inv nk rc refs ent by (auto simp: fs_inv_def fs_struct_def dir_ok_def)
  show "tree_of fs d1 D = tree_of fs d D" using ent by (auto simp: tree_of_def fun_eq_iff)
qed

lemma rd_read_prefix:
  "length bs \<le> n \<Longrightarrow> rd_read (rd_write d off bs) off n = bs @ rd_read d (off + int (length bs)) (n - length bs)"
  by (rule nth_equalityI) (auto simp: rd_read_def rd_write_def nth_append)

lemma rd_read_inside:
  "k + n \<le> length bs \<Longrightarrow> rd_read (rd_write d off bs) (off + int k) n = take n (drop k bs)"
  by (rule nth_equalityI) (auto simp: rd_read_def rd_write_def nat_add_distrib)

text \<open>What \<open>echo\<close> makes of the disk.\<close>

definition echo_disk :: "vfs \<Rightarrow> nat \<Rightarrow> string \<Rightarrow> disk" where
  "echo_disk v n t =
     put_inode (rd_write (rd_write (rd1_of v) (blk_addr (bfs v) n) (replicate FILEBLOCK NUL)) (blk_addr (bfs v) n) t)
       (iaddr (bfs v) n) ((vnode v n)\<lparr>i_size := length t\<rparr>)"

lemma echo_disk_ok:
  assumes ok: "vfs_ok v D" and n: "used (bfs v) n" "n \<notin> D" and t: "length t \<le> 127"
  shows "vfs_ok (set_rd1 v (echo_disk v n t)) D" and "vtree (set_rd1 v (echo_disk v n t)) D = vtree v D"
    and "rd_read (echo_disk v n t) (blk_addr (bfs v) n) 127 = t @ replicate (127 - length t) NUL"
proof -
  let ?E = "env_of v" and ?fs = "bfs v" and ?d = "rd1_of v" and ?a = "blk_addr (bfs v) n"
  have inv: "fs_inv ?E ?fs ?d D" using ok by (simp add: vfs_ok_def)
  note g = fs_invD(1) [OF inv]
  have n80: "n < 80" using used_less [OF n(1)] .
  define d0 where "d0 = rd_write ?d ?a (replicate FILEBLOCK NUL)"
  define d1 where "d1 = rd_write d0 ?a t"
  have e0: "d0 = rd_write ?d (?a + int 0) (replicate FILEBLOCK NUL)" by (simp add: d0_def)
  have i0: "fs_inv ?E ?fs d0 D" "tree_of ?fs d0 D = tree_of ?fs ?d D"
    unfolding e0 using file_bytes [OF inv n80 n(2), of 0 "replicate FILEBLOCK NUL"] by (simp_all add: FILEBLOCK_def)
  have e1: "d1 = rd_write d0 (?a + int 0) t" by (simp add: d1_def)
  have i1: "fs_inv ?E ?fs d1 D" "tree_of ?fs d1 D = tree_of ?fs d0 D"
    unfolding e1 using file_bytes [OF i0(1) n80 n(2), of 0 t] t by simp_all
  have nd: "node ?fs d1 n = vnode v n"
    unfolding vnode_def node_def d1_def d0_def using t
    by (subst get_inode_write_other; (subst get_inode_write_other)?)
      (auto simp: blk_addr_geom [OF g] iaddr_def FILEBLOCK_def n80)
  have e2: "echo_disk v n t = put_inode d1 (iaddr ?fs n) ((node ?fs d1 n)\<lparr>i_size := length t\<rparr>)"
    by (simp add: echo_disk_def d1_def [symmetric] d0_def [symmetric] nd)
  have i2: "fs_inv ?E ?fs (echo_disk v n t) D" "tree_of ?fs (echo_disk v n t) D = tree_of ?fs d1 D"
    unfolding e2 using file_size [OF i1(1) n, of "length t"] t by simp_all
  then show "vfs_ok (set_rd1 v (echo_disk v n t)) D" "vtree (set_rd1 v (echo_disk v n t)) D = vtree v D"
    using ok i0 i1 by (simp_all add: vfs_ok_def vtree_def)
  have "rd_read (echo_disk v n t) ?a 127 = rd_read d1 ?a 127"
    unfolding e2 using n80 by (intro read_put_inode_other) (auto simp: blk_addr_geom [OF g] iaddr_def)
  also have "\<dots> = t @ rd_read d0 (?a + int (length t)) (127 - length t)"
    unfolding d1_def using t by (rule rd_read_prefix)
  also have "rd_read d0 (?a + int (length t)) (127 - length t) = replicate (127 - length t) NUL"
    unfolding d0_def using t by (subst rd_read_inside) (auto simp: FILEBLOCK_def)
  finally show "rd_read (echo_disk v n t) ?a 127 = t @ replicate (127 - length t) NUL" .
qed

lemma set_rd1_close:
  "fildes v ! i = None \<Longrightarrow> (set_rd1 (v\<lparr>fildes := (fildes v)[i := x]\<rparr>) d)\<lparr>fildes := (fildes v)[i := None]\<rparr> = set_rd1 v d"
  by (cases v) (simp add: set_rd1_def, metis list_update_id)

text \<open>Opening a file of the tree and reading where it lies, for any of the commands.\<close>

lemma open_file:
  assumes ok: "vfs_ok v D" and path: "blk_path cs c" "length (path_of (cs @ [c])) \<le> 127"
    and fl: "\<not> has flags O_CREAT" "\<not> has flags O_RM" "\<not> has flags O_DIR"
    and n: "resolve (vtree v D) cs c False = Some n" and fd: "length (fildes v) = NFILE" "None \<in> set (fildes v)"
  obtains k where "vfsopen v (path_of (cs @ [c])) flags = Inr (int k, v\<lparr>fildes := (fildes v)[k :=
      Some \<lparr>f_inode = Ino_own (vnode v n), f_offset = 0, f_name = path_of (cs @ [c])\<rparr>]\<rparr>)"
    and "k < 16" and "fildes v ! k = None"
proof -
  obtain k where "find_idx (\<lambda>f. f = None) (fildes v) = Some k"
    using fd(2) by (cases "find_idx (\<lambda>f. f = None) (fildes v)") (auto simp: find_idx_None)
  then have k: "k < length (fildes v)" "fildes v ! k = None" "\<forall>j < k. fildes v ! j \<noteq> None"
    unfolding find_idx_Some by blast+
  have r: "resolve (vtree v D) cs c (has flags O_DIR) = Some n" using n fl(3) by simp
  show thesis
    by (rule that [of k]) (use vfsopen_run [OF ok path(1) fl(1,2) r k path(2)] k fd(1) in \<open>simp_all add: NFILE_def\<close>)
qed

lemma file_node:
  assumes ok: "vfs_ok v D" and n: "resolve (vtree v D) cs c False = Some n"
  shows "used (bfs v) n" and "n \<notin> D" and "v_fs v (i_fs (vnode v n)) = bfs v" and "i_nblocks (vnode v n) = n"
    and "fsoff (bfs v) + i_offset (vnode v n) = iaddr (bfs v) n" and "fs_dev (bfs v) \<noteq> 0"
    and "resolve (vtree v D) cs c True = None"
proof -
  have inv: "fs_inv (env_of v) (bfs v) (rd1_of v) D" using ok by (simp add: vfs_ok_def)
  obtain p where p: "twalk (vtree v D) 0 cs = Some p" "vtree v D p c = Some (False, n)"
    using n by (auto simp: resolve_def split: option.splits prod.splits if_splits)
  then show u: "used (bfs v) n" and "n \<notin> D"
    using tree_target [OF fs_inv_struct [OF inv], of p c] by (auto simp: vtree_def)
  show "resolve (vtree v D) cs c True = None" using p by (simp add: resolve_def)
  have "node_ok (env_of v) (bfs v) (rd1_of v) n" using fs_invD(3) [OF inv u] .
  then show "v_fs v (i_fs (vnode v n)) = bfs v" "i_nblocks (vnode v n) = n"
    "fsoff (bfs v) + i_offset (vnode v n) = iaddr (bfs v) n"
    by (auto simp: node_ok_def vnode_def env_of_def bfs_def iaddr_def)
  show "fs_dev (bfs v) \<noteq> 0" by (rule vfs_dev [OF ok])
qed

lemma echo_file_run:
  assumes ok: "vfs_ok v D" and path: "blk_path cs c" "length (path_of (cs @ [c])) \<le> 127"
    and n: "resolve (vtree v D) cs c False = Some n" and fd: "length (fildes v) = NFILE" "None \<in> set (fildes v)"
    and words: "echo_words 128 pars {i, i + 1} [0..<Suc num] clear_buf = Inr (zbuf t)"
    and t: "NUL \<notin> set t" "length t \<le> 127"
  shows "echo_file num pars i (path_of (cs @ [c])) (clear_buf, v) = Inr (clear_buf, set_rd1 v (echo_disk v n t))"
proof -
  note F = file_node [OF ok n]
  have fl: "\<not> has O_RDWR O_CREAT" "\<not> has O_RDWR O_RM" "\<not> has O_RDWR O_DIR" by (simp_all add: has_def flag_defs)
  obtain k where k: "vfsopen v (path_of (cs @ [c])) O_RDWR = Inr (int k, v\<lparr>fildes := (fildes v)[k :=
      Some \<lparr>f_inode = Ino_own (vnode v n), f_offset = 0, f_name = path_of (cs @ [c])\<rparr>]\<rparr>)" "k < 16" "fildes v ! k = None"
    using open_file [OF ok path fl n fd] by blast
  have fne: "F_OK \<noteq> DIR_OK" by (simp add: F_OK_def DIR_OK_def)
  have acc: "vfsaccess v (path_of (cs @ [c])) DIR_OK = Inr (- 1, v)" "vfsaccess v (path_of (cs @ [c])) F_OK = Inr (0, v)"
    using vfsaccess_run [OF ok path(1), of DIR_OK] vfsaccess_run [OF ok path(1), of F_OK] n F(7) fne by simp_all
  have len: "length (fildes v) = 16" using fd(1) by (simp add: NFILE_def)
  define v3 where "v3 = v\<lparr>fildes := (fildes v)[k :=
      Some \<lparr>f_inode = Ino_own (vnode v n), f_offset = 0, f_name = path_of (cs @ [c])\<rparr>]\<rparr>"
  have v3: "fildes v3 ! k = Some \<lparr>f_inode = Ino_own (vnode v n), f_offset = 0, f_name = path_of (cs @ [c])\<rparr>"
    "rd1_of v3 = rd1_of v" "v_fs v3 = v_fs v" "length (fildes v3) = 16"
    using k(2) len by (simp_all add: v3_def)
  have ino: "fd_inode v3 (int k) = Inr (Ino_own (vnode v n))"
    using k(2) v3(1) by (simp add: fd_inode_def get_file_def NFILE_def)
  have b: "blen (zbuf t) = Inr (length t)" "take (length t) (zbuf t) = t"
    using blen_zbuf [OF t(1)] t(2) by (simp_all add: zbuf_def)
  have cl: "close_ok (set_rd1 v3 d) (int k) = Inr (set_rd1 v d)" for d
  proof -
    have "vfsclose (set_rd1 v3 d) (int k) = Inr (0, (set_rd1 v3 d)\<lparr>fildes := (fildes v3)[k := None]\<rparr>)"
      using k(2) v3(1) by (simp add: vfsclose_def NFILE_def set_rd1_def)
    moreover have "(set_rd1 v3 d)\<lparr>fildes := (fildes v3)[k := None]\<rparr> = set_rd1 v d"
      using set_rd1_close [OF k(3)] by (simp add: v3_def)
    ultimately show ?thesis by (simp add: close_ok_def)
  qed
  define d0 where "d0 = rd_write (rd1_of v) (blk_addr (bfs v) n) (replicate FILEBLOCK NUL)"
  have "echo_store num pars i (int k) (vnode v n) (clear_buf, set_rd1 v3 d0) = Inr (clear_buf, set_rd1 v (echo_disk v n t))"
  proof -
    have "set_rd1 (set_rd1 v3 d0) x = set_rd1 v3 x" for x by (simp add: set_rd1_def)
    moreover have "rd1_of (set_rd1 v3 d0) = d0" "v_fs (set_rd1 v3 d0) = v_fs v" using v3 by (simp_all add: set_rd1_def rd1_of_def)
    ultimately show ?thesis
      using words b F cl by (simp add: echo_store_def echo_disk_def d0_def Let_def)
  qed
  then show ?thesis
    using acc k(1) ino F v3 by (simp add: echo_file_def v3_def [symmetric] node_of_def d0_def Let_def)
qed

lemma cat_show_run:
  assumes ok: "vfs_ok v D" and path: "blk_path cs c" "length (path_of (cs @ [c])) \<le> 127"
    and n: "resolve (vtree v D) cs c False = Some n" and fd: "length (fildes v) = NFILE" "None \<in> set (fildes v)"
    and t: "rd_read (rd1_of v) (blk_addr (bfs v) n) 127 = t @ replicate (127 - length t) NUL" "NUL \<notin> set t" "length t \<le> 127"
  shows "cat_show (path_of (cs @ [c])) (clear_buf, v) = Inr (t @ LF # replicate (127 - length t) NUL, v)"
proof -
  note F = file_node [OF ok n]
  obtain k where k: "vfsopen v (path_of (cs @ [c])) O_CHECK = Inr (int k, v\<lparr>fildes := (fildes v)[k :=
      Some \<lparr>f_inode = Ino_own (vnode v n), f_offset = 0, f_name = path_of (cs @ [c])\<rparr>]\<rparr>)" "k < 16" "fildes v ! k = None"
    using open_file [OF ok path has_vfs_flags(5) has_vfs_flags(6) has_vfs_flags(4) n fd] by blast
  have len: "length (fildes v) = 16" using fd(1) by (simp add: NFILE_def)
  define v3 where "v3 = v\<lparr>fildes := (fildes v)[k :=
      Some \<lparr>f_inode = Ino_own (vnode v n), f_offset = 0, f_name = path_of (cs @ [c])\<rparr>]\<rparr>"
  have v3: "fildes v3 ! k = Some \<lparr>f_inode = Ino_own (vnode v n), f_offset = 0, f_name = path_of (cs @ [c])\<rparr>"
    using k(2) len by (simp add: v3_def)
  have ino: "fd_inode v3 (int k) = Inr (Ino_own (vnode v n))"
    using k(2) v3 by (simp add: fd_inode_def get_file_def NFILE_def)
  have cl: "close_ok v3 (int k) = Inr v"
  proof -
    have "vfsclose v3 (int k) = Inr (0, v3\<lparr>fildes := (fildes v3)[k := None]\<rparr>)"
      using k(2) v3 by (simp add: vfsclose_def NFILE_def)
    moreover have "v3\<lparr>fildes := (fildes v3)[k := None]\<rparr> = v"
      using k(3) by (cases v) (simp add: v3_def, metis list_update_id)
    ultimately show ?thesis by (simp add: close_ok_def)
  qed
  have "128 - length t = Suc (127 - length t)" using t(3) by simp
  then have "fill_buf clear_buf (t @ replicate (127 - length t) NUL) = zbuf t"
    using t(3) by (simp add: fill_buf_def clear_buf_def zbuf_def replicate_app_Cons_same)
  then show ?thesis
    using k(1) ino cl F t end_line_zbuf [of t] by (simp add: cat_show_def v3_def [symmetric] node_of_def)
qed

text \<open>The words of \<open>echo w1 ... wn > c\<close> as \<open>sp_cmd\<close> leaves them.\<close>

definition echo_pars :: "string list \<Rightarrow> string \<Rightarrow> string option list" where
  "echo_pars ws c = map Some (ws @ [''>'', c]) @ replicate (23 - length ws) None"

lemma par_echo:
  assumes "length ws \<le> 23"
  shows "j < length ws \<Longrightarrow> par (echo_pars ws c) j = Inr (ws ! j)"
    and "par (echo_pars ws c) (length ws) = Inr ''>''" and "par (echo_pars ws c) (Suc (length ws)) = Inr c"
  using assms by (simp_all add: par_def echo_pars_def nth_append)

lemma echo_words_run:
  assumes "length ws \<le> 23" and "\<forall>w \<in> set ws. NUL \<notin> set w" and "length (echo_text ws) \<le> 127"
  shows "echo_words 128 (echo_pars ws c) {length ws, length ws + 1} [0..<Suc (length ws + 1)] clear_buf =
    Inr (zbuf (echo_text ws))"
proof -
  have "list_all2 (\<lambda>k w. par (echo_pars ws c) k = Inr w \<and> k \<notin> {length ws, length ws + 1}) [0..<length ws] ws"
    using par_echo(1) [OF assms(1)] by (simp add: list_all2_conv_all_nth)
  then have "echo_words 128 (echo_pars ws c) {length ws, length ws + 1} ([0..<length ws] @ [length ws, length ws + 1]) (zbuf []) =
      echo_words 128 (echo_pars ws c) {length ws, length ws + 1} [length ws, length ws + 1] (zbuf ([] @ echo_text ws))"
    using assms(2,3) by (intro echo_loop) auto
  then show ?thesis by (simp add: zbuf_Nil echo_words_def)
qed

text \<open>
  C21. \<open>echo w1 ... wn > c\<close> followed by \<open>cat c\<close>, for an existing file below the current directory: the
  answer of \<open>cat\<close> is exactly the words with a space behind each and a newline, as long as they have at
  most 126 bytes; whatever the file held before is gone, and the directory tree and the well-formedness
  of the file system are as before.
\<close>

theorem echo_then_cat:
  assumes ok: "vfs_ok v D" and path: "blk_path cs c" "length (path_of (cs @ [c])) \<le> 127"
    and n: "resolve (vtree v D) cs c False = Some n" and fd: "length (fildes v) = NFILE" "None \<in> set (fildes v)"
    and ws: "\<forall>w \<in> set ws. plain_word w \<and> w \<noteq> ''>''" "length ws \<le> 23" "length (echo_text ws) \<le> 126"
    and c: "c \<noteq> ''>''" and cat: "par pars 0 = Inr c"
  shows "\<exists>v1. cmd_echo (length ws + 1) (echo_pars ws c) (curpath_of cs) (clear_buf, v) = Inr (clear_buf, v1) \<and>
    cmd_cat 0 pars (curpath_of cs) (clear_buf, v1) =
      Inr (echo_text ws @ LF # replicate (127 - length (echo_text ws)) NUL, v1) \<and>
    vfs_ok v1 D \<and> vtree v1 D = vtree v D"
proof -
  let ?t = "echo_text ws" and ?v1 = "set_rd1 v (echo_disk v n (echo_text ws))"
  have nul: "\<forall>w \<in> set ws. NUL \<notin> set w" using ws(1) by (simp add: plain_word_def)
  then have t: "NUL \<notin> set ?t" by (auto simp: echo_text_def)
  have l: "length ?t \<le> 127" using ws(3) by simp
  have g: "good_name c" using blk_good [OF path(1)] good_pathD(2) by blast
  note full = full_path_below [OF g path(2)]
  note P = par_echo [OF ws(2)]
  have gt: "find_gt (echo_pars ws c) (Suc (length ws + 1)) [0..<Suc (length ws + 1)] = Inr (length ws)"
    using P ws(1) by (intro find_gt_first) auto
  have echo: "cmd_echo (length ws + 1) (echo_pars ws c) (curpath_of cs) (clear_buf, v) = Inr (clear_buf, ?v1)"
    using gt P(3) full echo_file_run [OF ok path n fd echo_words_run [OF ws(2) nul l] t l]
    by (simp add: cmd_echo_def)
  note F = file_node [OF ok n]
  note E = echo_disk_ok [OF ok F(1,2) l]
  have "cat_show (path_of (cs @ [c])) (clear_buf, ?v1) = Inr (?t @ LF # replicate (127 - length ?t) NUL, ?v1)"
    by (rule cat_show_run [OF E(1) path]) (use E n fd t l in simp_all)
  then have "cmd_cat 0 pars (curpath_of cs) (clear_buf, ?v1) = Inr (?t @ LF # replicate (127 - length ?t) NUL, ?v1)"
    using cat c full by (simp add: cmd_cat_def)
  with echo E show ?thesis by blast
qed

lemma echo_then_cat_witness:
  "\<exists>v v1. vfs_ok v {0, 1, 3, 6, 7} \<and>
    cmd_echo (length [''hello'', ''world''] + 1) (echo_pars [''hello'', ''world''] ''test.c'') (curpath_of [''jarvis''])
      (clear_buf, v) = Inr (clear_buf, v1) \<and>
    cmd_cat 0 [Some ''test.c''] (curpath_of [''jarvis'']) (clear_buf, v1) =
      Inr (''hello world '' @ LF # replicate (127 - length (''hello world '')) NUL, v1)"
proof -
  obtain v where v: "vfs_ok v {0, 1, 3, 6, 7}" "vtree v {0, 1, 3, 6, 7} = tree_boot"
      "fildes v ! 0 = None" "length (fildes v) = 16"
    by (rule opened)
  have n: "resolve (vtree v {0, 1, 3, 6, 7}) [''jarvis''] ''test.c'' False = Some 2" using v(2) by (simp add: resolve_def)
  have "None \<in> set (fildes v)" using v(3,4) nth_mem [of 0 "fildes v"] by simp
  moreover have "par [Some ''test.c''] 0 = Inr ''test.c''" by (simp add: par_def)
  moreover have "echo_text [''hello'', ''world''] = ''hello world ''" by simp
  ultimately show ?thesis
    using echo_then_cat [OF v(1) blk_demo(3) _ n, of "[''hello'', ''world'']" "[Some ''test.c'']"] v(1,4)
    by (simp only: NFILE_def) (auto simp: path_of_Cons plain_word_def LF_def)
qed

section \<open>Lines the shell does not survive\<close>

text \<open>\<open>link\<close> with one word reads through the \<open>NULL\<close> behind it.\<close>

lemma link_one_word_faults:
  assumes "full_path curpath p = Inr path" and "1 < length ps" and "ps ! 0 = p"
  shows "cmd_link 0 (the_pars 0 ps) curpath (buf, v) = Inl Null_deref"
proof -
  have "par (the_pars 0 ps) 0 = Inr p" using assms(2,3) by (subst the_pars_nth) auto
  moreover have "par (the_pars 0 ps) 1 = Inl Null_deref" using assms(2) by (simp add: par_def the_pars_def)
  ultimately show ?thesis using assms(1) by (simp add: cmd_link_def)
qed

text \<open>\<open>cat > f\<close> takes the missing third word as the file to read.\<close>

lemma cat_without_source_faults:
  assumes "full_path curpath p = Inr path" and "2 < length ps" and "ps ! 0 = ''>''" and "ps ! 1 = p"
  shows "cmd_cat 1 (the_pars 1 ps) curpath (buf, v) = Inl Null_deref"
proof -
  have "par (the_pars 1 ps) 0 = Inr ''>''" using assms(2,3) by (subst the_pars_nth) auto
  moreover have "par (the_pars 1 ps) 1 = Inr p" using assms(2,4) by (subst the_pars_nth) auto
  moreover have "par (the_pars 1 ps) 2 = Inl Null_deref" using assms(2) by (simp add: par_def the_pars_def)
  moreover have "from_num 0 = 2" by code_simp
  moreover have "[0..<Suc 1] = [0, 1]" by (simp add: upt_rec)
  ultimately show ?thesis using assms(1) by (simp add: cmd_cat_def del: upt_Suc)
qed

text \<open>After \<open>cat\<close> of a file with 127 bytes other than NUL the buffer has no terminator.\<close>

lemma cat_fills_buffer:
  assumes "NUL \<notin> set s" and "length s = 127"
  shows "end_line (fill_buf clear_buf s) = Inr (s @ [LF]) \<and> blen (s @ [LF]) = Inl Overrun"
proof -
  have "fill_buf clear_buf s = zbuf s" using assms(2) by (simp add: fill_buf_def clear_buf_def zbuf_def)
  moreover have "NUL \<noteq> LF" by (simp add: LF_def)
  ultimately show ?thesis using end_line_zbuf [OF assms(1)] assms by (simp add: blen_def)
qed

text \<open>Spaces count as words: behind 26 of them the word index is outside the array.\<close>

lemma spaces_overrun:
  "sp_cmd (''ls'' @ replicate 27 CHR '' '' @ [LF]) (replicate 25 []) = Some (Inr (''ls'', 26, replicate 25 []))"
proof -
  have r: "replicate 27 c = [c, c, c, c, c, c, c, c, c, c, c, c, c, c, c, c, c, c, c, c, c, c, c, c, c, c, c]" for c :: char
    by (simp add: numeral_eq_Suc)
  show ?thesis
    unfolding r by (simp add: sp_cmd_def LF_def) (simp add: par_loop.simps set_par_def LF_def)
qed

lemma par_outside: "length pars \<le> i \<Longrightarrow> par pars i = Inl Overrun"
  by (simp add: par_def)

end
