(* ===== verification/Kvdb.thy ===== *)
theory Kvdb
  imports Prelude
begin

unbundle bit_operations_syntax

text \<open>
  The key-value store of \<open>libkvdb/kvdb.c\<close>: a data file of fixed-size slots and a journal.  Files and
  descriptors of the host are explicit.  A call runs under \<open>db->lock\<close> and the file locks, so it is one
  step; \<open>malloc\<close> does not fail.  A local that the code reads although \<open>read\<close> stored nothing in it
  (\<open>oldlevel\<close>, \<open>check\<close>) keeps its last value, first the value \<open>u\<close> found on the stack.
\<close>

section \<open>Files of the host\<close>

record hfile =
  f_bytes :: "char list"
  f_mode :: int

text \<open>\<open>h_refused\<close> are the names that \<open>open\<close> fails for; a descriptor is a name and an offset.\<close>

record host =
  h_file :: "string \<Rightarrow> hfile option"
  h_fd :: "(string \<times> nat) option list"
  h_umask :: int
  h_refused :: "string \<Rightarrow> bool"

text \<open>An open file while a function works on it: bytes and offset.\<close>

type_synonym handle = "char list \<times> nat"

definition seek_set :: "nat \<Rightarrow> handle \<Rightarrow> handle" where
  "seek_set n h = (fst h, n)"

text \<open>\<open>lseek(fd, d, SEEK_CUR)\<close> fails when the offset would be negative; the code does not look.\<close>

definition seek_cur :: "int \<Rightarrow> handle \<Rightarrow> handle" where
  "seek_cur d h = (if int (snd h) + d < 0 then h else (fst h, nat (int (snd h) + d)))"

definition fwrite :: "char list \<Rightarrow> handle \<Rightarrow> handle" where
  "fwrite w = (\<lambda>(bs, p).
     if w = [] then (bs, p)
     else (take p bs @ replicate (p - length bs) NUL @ w @ drop (p + length w) bs, p + length w))"

definition read1 :: "handle \<Rightarrow> (char \<times> handle) option" where
  "read1 = (\<lambda>(bs, p). if p < length bs then Some (bs ! p, (bs, p + 1)) else None)"

text \<open>\<open>read(fd, &x, 1)\<close> into a byte variable with the value \<open>x\<close>.\<close>

definition read_byte :: "nat \<Rightarrow> handle \<Rightarrow> nat \<times> handle" where
  "read_byte x h = (case read1 h of None \<Rightarrow> (x, h) | Some (c, h') \<Rightarrow> (of_char c, h'))"

definition fd_ok :: "host \<Rightarrow> int \<Rightarrow> bool" where
  "fd_ok h fd \<longleftrightarrow> 0 \<le> fd \<and> nat fd < length (h_fd h) \<and> h_fd h ! nat fd \<noteq> None"

definition fd_name :: "host \<Rightarrow> int \<Rightarrow> string" where
  "fd_name h fd = (case h_fd h ! nat fd of Some (nm, p) \<Rightarrow> nm | None \<Rightarrow> [])"

definition fd_file :: "host \<Rightarrow> int \<Rightarrow> hfile" where
  "fd_file h fd = (case h_file h (fd_name h fd) of Some f \<Rightarrow> f | None \<Rightarrow> \<lparr>f_bytes = [], f_mode = 0\<rparr>)"

definition get_handle :: "host \<Rightarrow> int \<Rightarrow> handle" where
  "get_handle h fd = (f_bytes (fd_file h fd), case h_fd h ! nat fd of Some (nm, p) \<Rightarrow> p | None \<Rightarrow> 0)"

definition put_handle :: "int \<Rightarrow> handle \<Rightarrow> host \<Rightarrow> host" where
  "put_handle fd = (\<lambda>(bs, p) h.
     h\<lparr>h_file := (h_file h)(fd_name h fd \<mapsto> (fd_file h fd)\<lparr>f_bytes := bs\<rparr>),
       h_fd := (h_fd h)[nat fd := Some (fd_name h fd, p)]\<rparr>)"

text \<open>\<open>open(name, O_CREAT | O_RDWR, 0666)\<close>: the smallest free descriptor.\<close>

definition open_rw :: "host \<Rightarrow> string \<Rightarrow> int \<times> host" where
  "open_rw h nm =
     (if h_refused h nm then (- 1, h)
      else
        let h1 = (if h_file h nm = None
                  then h\<lparr>h_file := (h_file h)(nm \<mapsto> \<lparr>f_bytes = [], f_mode = 438 AND NOT (h_umask h)\<rparr>)\<rparr> else h)
        in case find_idx (\<lambda>d. d = None) (h_fd h) of
             Some i \<Rightarrow> (int i, h1\<lparr>h_fd := (h_fd h)[i := Some (nm, 0)]\<rparr>)
           | None \<Rightarrow> (int (length (h_fd h)), h1\<lparr>h_fd := h_fd h @ [Some (nm, 0)]\<rparr>))"

definition close_fd :: "host \<Rightarrow> int \<Rightarrow> int \<times> host" where
  "close_fd h fd = (if fd_ok h fd then (0, h\<lparr>h_fd := (h_fd h)[nat fd := None]\<rparr>) else (- 1, h))"

section \<open>Slots\<close>

definition MDLK :: nat where "MDLK = 130"
definition MDLV :: nat where "MDLV = 16 * 2 ^ 20"
definition DATA :: nat where "DATA = 0"

definition DLV :: "nat list" where
  "DLV = [0, 2 ^ 6, 2 ^ 8, 2 ^ 10, 2 ^ 11, 2 ^ 12, 2 ^ 14, 2 ^ 15, 2 ^ 16, 2 ^ 17, 2 ^ 18, 2 ^ 19, 2 ^ 20, 2 ^ 21,
     2 ^ 22, 2 ^ 23, 2 ^ 24, 2 ^ 24 + 16]"

definition dlv :: "nat \<Rightarrow> nat res" where
  "dlv lev = (if lev < length DLV then Inr (DLV ! lev) else Inl Overrun)"

abbreviation KEY_END :: char where "KEY_END \<equiv> CHR 0x0b"
abbreviation VAL_END :: char where "VAL_END \<equiv> CHR 0x0a"
abbreviation DELETED :: nat where "DELETED \<equiv> 229"
abbreviation COMMIT :: nat where "COMMIT \<equiv> 15"

text \<open>The loop of \<open>read_key\<close> and \<open>read_val\<close>: the bytes stored, and how many were read.\<close>

fun read_field :: "char \<Rightarrow> char list \<Rightarrow> char list \<times> nat" where
  "read_field t [] = ([], 0)"
| "read_field t (c # cs) =
     (if c = t \<or> c = NUL then ([], 1) else (case read_field t cs of (k, n) \<Rightarrow> (c # k, n + 1)))"

text \<open>The buffer has \<open>sz\<close> bytes, which the loop does not check.\<close>

definition read_key :: "nat \<Rightarrow> handle \<Rightarrow> (string \<times> handle) res" where
  "read_key sz = (\<lambda>(bs, p). case read_field KEY_END (drop p bs) of (k, n) \<Rightarrow>
     rbind (require (length k < sz) Overrun) (\<lambda>_. Inr (k, (bs, p + n))))"

definition read_val :: "nat \<Rightarrow> handle \<Rightarrow> (string \<times> handle) res" where
  "read_val sz = (\<lambda>(bs, p). case read_field VAL_END (drop p bs) of (v, n) \<Rightarrow>
     rbind (require (length v < sz) Overrun) (\<lambda>_. Inr (v, (bs, p + n))))"

section \<open>Storing an entry\<close>

text \<open>\<open>while(strlen(value)+2 > DLV[level]) level++\<close>\<close>

fun level_loop :: "nat \<Rightarrow> nat \<Rightarrow> nat list \<Rightarrow> nat res" where
  "level_loop n l [] = Inl Overrun"
| "level_loop n l (d # ds) = (if n + 2 > d then level_loop n (l + 1) ds else Inr l)"

definition level_of :: "string \<Rightarrow> nat res" where
  "level_of v = level_loop (length v) 1 (drop 1 DLV)"

text \<open>The slot and the NUL behind it: into an empty file, and at the end of the slots.\<close>

definition store_first :: "nat \<Rightarrow> string \<Rightarrow> string \<Rightarrow> nat \<Rightarrow> handle \<Rightarrow> handle" where
  "store_first d k v level h =
     (let h1 = fwrite [KEY_END] (fwrite k (seek_set DATA h));
          h2 = fwrite [char_of level] (seek_set (DATA + MDLK) h1);
          h3 = fwrite [VAL_END] (fwrite v h2)
      in fwrite [NUL] (seek_cur (int d - int (length v) - 2) h3))"

definition store_last :: "nat \<Rightarrow> string \<Rightarrow> string \<Rightarrow> nat \<Rightarrow> handle \<Rightarrow> handle" where
  "store_last d k v level h =
     (let h1 = fwrite [KEY_END] (fwrite k (seek_cur (- 1) h));
          h2 = fwrite [char_of level] (seek_cur (int MDLK - int (length k) - 1) h1);
          h3 = fwrite [VAL_END] (fwrite v h2)
      in fwrite [NUL] (seek_cur (int d - int (length v) - 2) h3))"

text \<open>
  The loop over the slots, \<open>None\<close> when it does not end: \<open>True\<close> when the value was written over the old
  one (\<open>flag\<close>), \<open>False\<close> when the end of the slots was reached.
\<close>

partial_function (option) store_loop ::
    "string \<Rightarrow> string \<Rightarrow> nat \<Rightarrow> nat \<Rightarrow> handle \<Rightarrow> (bool \<times> handle) res option" where
  "store_loop key v level lv h =
     (case read_byte lv h of (lv1, h1) \<Rightarrow>
      if lv1 = DELETED then
        (case read_byte lv1 (seek_cur (int MDLK - 1) h1) of (lv2, h2) \<Rightarrow>
         case dlv lv2 of Inl e \<Rightarrow> Some (Inl e)
         | Inr d \<Rightarrow> store_loop key v level lv2 (seek_cur (int d - 1) h2))
      else
        (case read_key MDLK (seek_cur (- 1) h1) of Inl e \<Rightarrow> Some (Inl e)
         | Inr (oldkey, h2) \<Rightarrow>
           if oldkey = [] then Some (Inr (False, fwrite [NUL] (seek_cur (- 1) h2)))
           else if oldkey = key then
             (case read_byte lv1 (seek_cur (int MDLK - int (length key) - 1) h2) of (lv2, h3) \<Rightarrow>
              case dlv lv2 of Inl e \<Rightarrow> Some (Inl e)
              | Inr d \<Rightarrow>
                if lv2 \<ge> level
                then Some (Inr (True, seek_cur (int d - int (length v) - 1) (fwrite [VAL_END] (fwrite v h3))))
                else
                  (let h4 = fwrite [char_of DELETED] (seek_cur (- int MDLK) (seek_cur (- 1) h3))
                   in store_loop key v level lv2 (seek_cur (int d) (seek_cur (int MDLK - 1) h4))))
           else
             (case read_byte lv1 (seek_cur (int MDLK - int (length oldkey) - 1) h2) of (lv2, h3) \<Rightarrow>
              case dlv lv2 of Inl e \<Rightarrow> Some (Inl e)
              | Inr d \<Rightarrow> store_loop key v level lv2 (seek_cur (int d - 1) h3))))"

definition store_data :: "nat \<Rightarrow> string \<Rightarrow> string \<Rightarrow> nat \<Rightarrow> handle \<Rightarrow> handle res option" where
  "store_data u k v level h =
     (case dlv level of Inl e \<Rightarrow> Some (Inl e)
      | Inr d \<Rightarrow>
        if length (fst h) \<le> DATA then Some (Inr (store_first d k v level h))
        else
          (case store_loop k v level u (seek_set DATA h) of None \<Rightarrow> None
           | Some (Inl e) \<Rightarrow> Some (Inl e)
           | Some (Inr (flag, h1)) \<Rightarrow> Some (Inr (if flag then h1 else store_last d k v level h1))))"

section \<open>The journal\<close>

text \<open>The bytes of one entry.\<close>

definition journal_entry :: "string \<Rightarrow> string \<Rightarrow> nat \<Rightarrow> char list" where
  "journal_entry k v lev = k @ [KEY_END, char_of lev] @ v @ [VAL_END, char_of COMMIT]"

definition journal_write :: "string \<Rightarrow> string \<Rightarrow> nat \<Rightarrow> handle \<Rightarrow> handle" where
  "journal_write k v lev h =
     fwrite [char_of COMMIT] (fwrite [VAL_END] (fwrite v (fwrite [char_of lev] (fwrite [KEY_END] (fwrite k h)))))"

text \<open>Read and write permission of the owner and nothing else.\<close>

definition owner_rw :: "int \<Rightarrow> bool" where
  "owner_rw mode \<longleftrightarrow> mode AND 448 = 384"

definition rec_put :: "nat \<Rightarrow> int \<Rightarrow> string \<Rightarrow> string \<Rightarrow> nat \<Rightarrow> handle \<Rightarrow> handle res option" where
  "rec_put u mode k v level h = (if \<not> owner_rw mode then Some (Inr h) else store_data u k v level h)"

partial_function (option) recovery_loop ::
    "nat \<Rightarrow> int \<Rightarrow> nat \<Rightarrow> handle \<Rightarrow> handle \<Rightarrow> (handle \<times> handle) res option" where
  "recovery_loop u mode ck lg h =
     (case read_key MDLK lg of Inl e \<Rightarrow> Some (Inl e)
      | Inr (k, lg1) \<Rightarrow>
        if k = [] then Some (Inr (lg1, h))
        else
          (case read1 lg1 of None \<Rightarrow> Some (Inr (lg1, h))
           | Some (lev, lg2) \<Rightarrow>
             (case dlv (of_char lev) of Inl e \<Rightarrow> Some (Inl e)
              | Inr d \<Rightarrow>
                (case read_val d lg2 of Inl e \<Rightarrow> Some (Inl e)
                 | Inr (v, lg3) \<Rightarrow>
                   if v = [] then Some (Inr (lg3, h))
                   else
                     (case read_byte ck lg3 of (ck1, lg4) \<Rightarrow>
                      if ck1 = COMMIT then
                        (case rec_put u mode k v (of_char lev) h of None \<Rightarrow> None
                         | Some (Inl e) \<Rightarrow> Some (Inl e)
                         | Some (Inr h1) \<Rightarrow> recovery_loop u mode ck1 lg4 h1)
                      else Some (Inr (lg4, h)))))))"

section \<open>The interface\<close>

record kvdb =
  k_logfd :: int
  k_fd :: int

definition kvdb_open :: "nat \<Rightarrow> nat \<Rightarrow> host \<Rightarrow> kvdb \<Rightarrow> string \<Rightarrow> (int \<times> host \<times> kvdb) res option" where
  "kvdb_open u ck h db filename =
     (if fd_ok h (k_fd db) \<and> k_fd db \<noteq> 0 \<and> k_fd db \<noteq> 1 \<and> k_fd db \<noteq> 2 then Some (Inr (0, h, db))
      else
        (case open_rw h filename of (fd, h1) \<Rightarrow>
         if fd = - 1 then Some (Inr (- 1, h1, db))
         else
           (case open_rw h1 (filename @ ''.log'') of (logfd, h2) \<Rightarrow>
            if logfd = - 1 then Some (Inl Assert_fail)
            else
              (let db1 = db\<lparr>k_fd := fd, k_logfd := logfd\<rparr>;
                   done = (\<lambda>h3. Some (Inr (0, put_handle logfd ([], 0) h3, db1)))
               in if f_bytes (fd_file h2 logfd) = [] then done h2
                  else
                    (case recovery_loop u (f_mode (fd_file h2 fd)) ck (seek_set 0 (get_handle h2 logfd))
                          (get_handle h2 fd) of None \<Rightarrow> None
                     | Some (Inl e) \<Rightarrow> Some (Inl e)
                     | Some (Inr (lg, g)) \<Rightarrow> done (put_handle logfd lg (put_handle fd g h2)))))))"

definition kvdb_close :: "host \<Rightarrow> kvdb \<Rightarrow> int \<times> host \<times> kvdb" where
  "kvdb_close h db =
     (if k_fd db = - 1 then (- 1, h, db)
      else
        (case close_fd h (k_fd db) of (ret, h1) \<Rightarrow>
         case close_fd h1 (k_logfd db) of (_, h2) \<Rightarrow> (ret, h2, db\<lparr>k_fd := - 1, k_logfd := - 1\<rparr>)))"

definition kvdb_put :: "nat \<Rightarrow> host \<Rightarrow> kvdb \<Rightarrow> string \<Rightarrow> string \<Rightarrow> (int \<times> host) res option" where
  "kvdb_put u h db key v =
     (if \<not> fd_ok h (k_fd db) then Some (Inr (- 1, h))
      else if \<not> owner_rw (f_mode (fd_file h (k_fd db))) then Some (Inr (- 1, h))
      else if length key \<ge> MDLK \<or> length v > MDLV then Some (Inr (- 1, h))
      else
        (case level_of v of Inl e \<Rightarrow> Some (Inl e)
         | Inr level \<Rightarrow>
           if \<not> fd_ok h (k_logfd db) then Some (Inl Assert_fail)
           else
             (let h1 = put_handle (k_logfd db) (journal_write key v level (get_handle h (k_logfd db))) h
              in case store_data u key v level (get_handle h1 (k_fd db)) of None \<Rightarrow> None
                 | Some (Inl e) \<Rightarrow> Some (Inl e)
                 | Some (Inr g) \<Rightarrow> Some (Inr (0, put_handle (k_fd db) g h1)))))"

text \<open>The loop of \<open>kvdb_get\<close>; the value buffer has \<open>MDLV\<close> bytes.  \<open>None\<close> inside is \<open>NULL\<close>.\<close>

partial_function (option) get_loop :: "string \<Rightarrow> nat \<Rightarrow> handle \<Rightarrow> (string option \<times> handle) res option" where
  "get_loop key lv h =
     (case read_byte lv h of (lv1, h1) \<Rightarrow>
      if lv1 = DELETED then
        (case read_byte lv1 (seek_cur (int MDLK - 1) h1) of (lv2, h2) \<Rightarrow>
         case dlv lv2 of Inl e \<Rightarrow> Some (Inl e)
         | Inr d \<Rightarrow> get_loop key lv2 (seek_cur (int d - 1) h2))
      else
        (case read_key MDLK (seek_cur (- 1) h1) of Inl e \<Rightarrow> Some (Inl e)
         | Inr (oldkey, h2) \<Rightarrow>
           if oldkey = [] then Some (Inr (None, h2))
           else if oldkey = key then
             (case read_byte lv1 (seek_cur (int MDLK - int (length key) - 1) h2) of (lv2, h3) \<Rightarrow>
              case dlv lv2 of Inl e \<Rightarrow> Some (Inl e)
              | Inr d \<Rightarrow>
                (case read_val MDLV h3 of Inl e \<Rightarrow> Some (Inl e)
                 | Inr (v, h4) \<Rightarrow> Some (Inr (if v = [] then None else Some v, h4))))
           else
             (case read_byte lv1 (seek_cur (int MDLK - int (length oldkey) - 1) h2) of (lv2, h3) \<Rightarrow>
              case dlv lv2 of Inl e \<Rightarrow> Some (Inl e)
              | Inr d \<Rightarrow> get_loop key lv2 (seek_cur (int d - 1) h3))))"

definition kvdb_get :: "nat \<Rightarrow> host \<Rightarrow> kvdb \<Rightarrow> string \<Rightarrow> (string option \<times> host) res option" where
  "kvdb_get u h db key =
     (if \<not> fd_ok h (k_fd db) then Some (Inr (None, h))
      else if \<not> owner_rw (f_mode (fd_file h (k_fd db))) then Some (Inr (None, h))
      else
        (case get_loop key u (seek_set DATA (get_handle h (k_fd db))) of None \<Rightarrow> None
         | Some (Inl e) \<Rightarrow> Some (Inl e)
         | Some (Inr (ret, g)) \<Rightarrow> Some (Inr (ret, put_handle (k_fd db) g h))))"

end
