(* ===== verification/Kvdb_Props.thy ===== *)
theory Kvdb_Props
  imports Kvdb
begin

text \<open>
  What the key-value store promises: the data file stands for a map from keys to values, \<open>kvdb_put\<close>
  updates it and \<open>kvdb_get\<close> reads it, and \<open>kvdb_open\<close> brings every journaled entry into the file.  The
  last part shows the inputs and crashes for which the code does not keep this promise.
\<close>

section \<open>Reading and writing at a place of the file\<close>

lemma read_byte_in: "p < length bs \<Longrightarrow> read_byte x (bs, p) = (of_char (bs ! p), bs, p + 1)"
  by (simp add: read_byte_def read1_def)

lemma read_byte_eof: "length bs \<le> p \<Longrightarrow> read_byte x (bs, p) = (x, bs, p)"
  by (simp add: read_byte_def read1_def)

lemma seek_cur_back [simp]: "seek_cur (- 1) (bs, Suc p) = (bs, p)"
  by (simp add: seek_cur_def)

lemma seek_cur_to: "int p + d = int q \<Longrightarrow> seek_cur d (bs, p) = (bs, q)"
  by (simp add: seek_cur_def)

lemma fwrite_in: "length mid = length w \<Longrightarrow> p = length pre \<Longrightarrow>
    fwrite w (pre @ mid @ post, p) = (pre @ w @ post, p + length w)"
  by (cases "w = []") (simp_all add: fwrite_def)

lemma fwrite_end: "p = length pre \<Longrightarrow> fwrite w (pre, p) = (pre @ w, p + length w)"
  by (simp add: fwrite_def)

lemma fwrite_gap: "w \<noteq> [] \<Longrightarrow> p = length pre + n \<Longrightarrow>
    fwrite w (pre, p) = (pre @ replicate n NUL @ w, p + length w)"
  by (simp add: fwrite_def)

lemma read_field_end: "t \<notin> set k \<Longrightarrow> NUL \<notin> set k \<Longrightarrow> read_field t (k @ t # r) = (k, length k + 1)"
  by (induction k) auto

lemma read_field_eof: "t \<notin> set k \<Longrightarrow> NUL \<notin> set k \<Longrightarrow> read_field t k = (k, length k)"
  by (induction k) auto

lemma read_key_at:
  assumes "KEY_END \<notin> set k" and "NUL \<notin> set k" and "length k < sz" and "p = length pre"
  shows "read_key sz (pre @ k @ KEY_END # r, p) = Inr (k, (pre @ k @ KEY_END # r, p + length k + 1))"
  using assms by (simp add: read_key_def read_field_end)

lemma read_val_at:
  assumes "VAL_END \<notin> set v" and "NUL \<notin> set v" and "length v < sz" and "p = length pre"
  shows "read_val sz (pre @ v @ VAL_END # r, p) = Inr (v, (pre @ v @ VAL_END # r, p + length v + 1))"
  using assms by (simp add: read_val_def read_field_end)

section \<open>Levels\<close>

lemma length_DLV [simp]: "length DLV = 18"
  by (simp add: DLV_def)

lemma dlv_ok: "lev \<le> 17 \<Longrightarrow> dlv lev = Inr (DLV ! lev)"
  by (simp add: dlv_def)

lemma DLV_ge:
  assumes "1 \<le> lev" and "lev \<le> 17"
  shows "64 \<le> DLV ! lev"
proof -
  have "\<forall>d \<in> set (drop 1 DLV). 64 \<le> d" by (simp add: DLV_def)
  moreover have "DLV ! lev = drop 1 DLV ! (lev - 1)" "lev - 1 < length (drop 1 DLV)" using assms by simp_all
  ultimately show ?thesis by (metis nth_mem)
qed

lemma level_loop_some:
  assumes "level_loop n l ds = Inr r"
  shows "l \<le> r \<and> r < l + length ds \<and> n + 2 \<le> ds ! (r - l) \<and> (\<forall>i < r - l. ds ! i < n + 2)"
  using assms
proof (induction n l ds rule: level_loop.induct)
  case (2 n l d ds)
  show ?case
  proof (cases "n + 2 > d")
    case True
    with 2 have IH: "Suc l \<le> r" "r < Suc l + length ds" "n + 2 \<le> ds ! (r - Suc l)" "\<forall>i < r - Suc l. ds ! i < n + 2"
      by auto
    then have "r - l = Suc (r - Suc l)" by simp
    with IH True show ?thesis by (auto simp: nth_Cons' less_Suc_eq_0_disj)
  qed (use 2 in auto)
qed simp

lemma level_loop_ends: "\<exists>d \<in> set ds. n + 2 \<le> d \<Longrightarrow> \<exists>r. level_loop n l ds = Inr r"
  by (induction n l ds rule: level_loop.induct) auto

text \<open>The level is the smallest one with room for the value, its end mark and the level byte.\<close>

lemma level_of_ok:
  assumes "length v \<le> MDLV"
  shows "\<exists>l. level_of v = Inr l \<and> 1 \<le> l \<and> l \<le> 17 \<and> length v + 2 \<le> DLV ! l"
proof -
  have "last (drop 1 DLV) = 2 ^ 24 + 16" "drop 1 DLV \<noteq> []" by (simp_all add: DLV_def)
  then have "2 ^ 24 + 16 \<in> set (drop 1 DLV)" by (metis last_in_set)
  then have "\<exists>d \<in> set (drop 1 DLV). length v + 2 \<le> d" using assms by (intro bexI [of _ "2 ^ 24 + 16"]) (simp_all add: MDLV_def)
  then obtain l where l: "level_of v = Inr l" using level_loop_ends unfolding level_of_def by blast
  have "1 \<le> l \<and> l < 1 + length (drop 1 DLV) \<and> length v + 2 \<le> drop 1 DLV ! (l - 1)"
    using level_loop_some [OF l [unfolded level_of_def]] by blast
  moreover have "drop 1 DLV ! (l - 1) = DLV ! l" if "1 \<le> l" "l \<le> 17" using that by simp
  ultimately show ?thesis using l by auto
qed

section \<open>The slots of the data file\<close>

record slot =
  s_live :: bool
  s_key :: string
  s_lev :: nat
  s_val :: string

text \<open>The keys and values that the file can hold: no end mark, no NUL, no deletion mark in front.\<close>

definition key_ok :: "string \<Rightarrow> bool" where
  "key_ok k \<longleftrightarrow> k \<noteq> [] \<and> hd k \<noteq> char_of DELETED \<and> KEY_END \<notin> set k \<and> NUL \<notin> set k \<and> length k < MDLK"

definition val_ok :: "string \<Rightarrow> bool" where
  "val_ok v \<longleftrightarrow> VAL_END \<notin> set v \<and> NUL \<notin> set v \<and> length v < MDLV"

definition slot_at :: "slot \<Rightarrow> char list \<Rightarrow> bool" where
  "slot_at s b \<longleftrightarrow> 1 \<le> s_lev s \<and> s_lev s \<le> 17 \<and>
     (\<exists>kp vp. b = kp @ char_of (s_lev s) # vp \<and> length kp = MDLK \<and> length vp + 1 = DLV ! s_lev s \<and>
       (if s_live s then key_ok (s_key s) \<and> (\<exists>r. kp = s_key s @ KEY_END # r) \<and>
          val_ok (s_val s) \<and> (\<exists>r. vp = s_val s @ VAL_END # r)
        else hd kp = char_of DELETED))"

lemma slot_at_length: "slot_at s b \<Longrightarrow> length b = MDLK + DLV ! s_lev s"
  by (auto simp: slot_at_def)

lemma of_char_level: "l \<le> 17 \<Longrightarrow> of_char (char_of l) = (l :: nat)"
  by (simp add: of_char_of)

lemma dead_slot:
  assumes "slot_at s b" and "\<not> s_live s"
  obtains kt vp where "b = char_of DELETED # kt @ char_of (s_lev s) # vp" and "length kt = 129"
    and "length vp + 1 = DLV ! s_lev s" and "s_lev s \<le> 17"
proof -
  obtain kp vp where *: "b = kp @ char_of (s_lev s) # vp" "length kp = MDLK" "length vp + 1 = DLV ! s_lev s"
      "hd kp = char_of DELETED" "s_lev s \<le> 17"
    using assms by (auto simp: slot_at_def)
  then obtain kt where "kp = char_of DELETED # kt" by (cases kp) (auto simp: MDLK_def)
  with * show ?thesis using that [of kt vp] by (simp add: MDLK_def)
qed

lemma live_slot:
  assumes "slot_at s b" and "s_live s"
  obtains kr vp where "b = s_key s @ KEY_END # kr @ char_of (s_lev s) # vp"
    and "length (s_key s) + 1 + length kr = 130" and "length vp + 1 = DLV ! s_lev s" and "1 \<le> s_lev s" and "s_lev s \<le> 17"
    and "key_ok (s_key s)" and "val_ok (s_val s)" and "\<exists>r. vp = s_val s @ VAL_END # r"
  using assms by (auto simp: slot_at_def MDLK_def)

text \<open>What the loops read at the start of a slot, and how far it reaches.\<close>

lemma dead_reads:
  assumes s: "slot_at s b" "\<not> s_live s" and bs: "bs = pre @ b @ post" "p = length pre"
  shows "read_byte x (bs, p) = (DELETED, bs, p + 1)" and "read_byte x (bs, p + 130) = (s_lev s, bs, p + 131)"
    and "dlv (s_lev s) = Inr (DLV ! s_lev s)" and "seek_cur (int MDLK - 1) (bs, p + 1) = (bs, p + 130)"
    and "seek_cur (int (DLV ! s_lev s) - 1) (bs, p + 131) = (bs, p + length b)"
proof -
  obtain kt vp where b: "b = char_of DELETED # kt @ char_of (s_lev s) # vp" "length kt = 129" "s_lev s \<le> 17"
    using s by (rule dead_slot)
  show "read_byte x (bs, p) = (DELETED, bs, p + 1)" "read_byte x (bs, p + 130) = (s_lev s, bs, p + 131)"
    using b bs by (simp_all add: read_byte_in nth_append of_char_level)
  show "dlv (s_lev s) = Inr (DLV ! s_lev s)" "seek_cur (int MDLK - 1) (bs, p + 1) = (bs, p + 130)"
    "seek_cur (int (DLV ! s_lev s) - 1) (bs, p + 131) = (bs, p + length b)"
    using b(3) slot_at_length [OF s(1)] by (simp_all add: dlv_ok MDLK_def seek_cur_to)
qed

lemma live_reads:
  assumes s: "slot_at s b" "s_live s" and bs: "bs = pre @ b @ post" "p = length pre"
  shows "\<exists>c. c \<noteq> DELETED \<and> read_byte x (bs, p) = (c, bs, p + 1)"
    and "read_key MDLK (bs, p) = Inr (s_key s, (bs, p + length (s_key s) + 1))"
    and "read_byte x (bs, p + 130) = (s_lev s, bs, p + 131)"
    and "dlv (s_lev s) = Inr (DLV ! s_lev s)" and "s_key s \<noteq> []" and "seek_cur (- 1) (bs, p + 1) = (bs, p)"
    and "seek_cur (int MDLK - int (length (s_key s)) - 1) (bs, p + length (s_key s) + 1) = (bs, p + 130)"
    and "seek_cur (int (DLV ! s_lev s) - 1) (bs, p + 131) = (bs, p + length b)"
proof -
  obtain kr vp where b: "b = s_key s @ KEY_END # kr @ char_of (s_lev s) # vp" "length (s_key s) + 1 + length kr = 130"
      "length vp + 1 = DLV ! s_lev s" "1 \<le> s_lev s" "s_lev s \<le> 17" "key_ok (s_key s)"
    using s by (rule live_slot)
  obtain c k where k: "s_key s = c # k" "c \<noteq> char_of DELETED"
    using b(6) by (cases "s_key s") (auto simp: key_ok_def)
  have "of_char c \<noteq> DELETED" using k(2) by (metis char_of_char)
  then show "\<exists>c. c \<noteq> DELETED \<and> read_byte x (bs, p) = (c, bs, p + 1)"
    using b(1) bs k(1) by (simp add: read_byte_in nth_append)
  show "read_key MDLK (bs, p) = Inr (s_key s, (bs, p + length (s_key s) + 1))"
    using b(6) unfolding bs b(1) append_assoc append_Cons
    by (intro read_key_at) (simp_all add: key_ok_def)
  have "bs = (pre @ s_key s @ KEY_END # kr) @ char_of (s_lev s) # vp @ post"
    "p + 130 = length (pre @ s_key s @ KEY_END # kr)" using b(1,2) bs by simp_all
  then have "bs ! (p + 130) = char_of (s_lev s)" "p + 130 < length bs" by (simp_all only: nth_append_length) simp
  then show "read_byte x (bs, p + 130) = (s_lev s, bs, p + 131)"
    using b(5) by (simp add: read_byte_in of_char_level)
  have "64 \<le> DLV ! s_lev s" using b(4,5) by (rule DLV_ge)
  then show "seek_cur (int (DLV ! s_lev s) - 1) (bs, p + 131) = (bs, p + length b)"
    using slot_at_length [OF s(1)] by (simp add: MDLK_def seek_cur_to)
  show "seek_cur (- 1) (bs, p + 1) = (bs, p)"
    "seek_cur (int MDLK - int (length (s_key s)) - 1) (bs, p + length (s_key s) + 1) = (bs, p + 130)"
    using b(2) by (simp_all add: MDLK_def seek_cur_to)
  show "dlv (s_lev s) = Inr (DLV ! s_lev s)" "s_key s \<noteq> []" using b(5) k by (simp_all add: dlv_ok)
qed

text \<open>Where the loops are after a slot that is not the one they look for.\<close>

lemma store_step:
  assumes s: "slot_at s b" and other: "\<not> (s_live s \<and> s_key s = key)"
  shows "store_loop key v level lv (pre @ b @ post, length pre) =
    store_loop key v level (s_lev s) (pre @ b @ post, length pre + length b)"
proof (cases "s_live s")
  case False
  note R = dead_reads [where pre = pre and post = post, OF s False refl refl]
  show ?thesis by (subst store_loop.simps) (simp only: R prod.case sum.case if_True refl)
next
  case True
  note R = live_reads [where pre = pre and post = post, OF s True refl refl]
  obtain c where c: "c \<noteq> DELETED" "read_byte lv (pre @ b @ post, length pre) = (c, pre @ b @ post, length pre + 1)"
    using R(1) by blast
  have "s_key s \<noteq> key" using True other by blast
  then show ?thesis by (subst store_loop.simps) (simp only: R(2-) c prod.case sum.case if_False)
qed

lemma get_step:
  assumes s: "slot_at s b" and other: "\<not> (s_live s \<and> s_key s = key)"
  shows "get_loop key lv (pre @ b @ post, length pre) =
    get_loop key (s_lev s) (pre @ b @ post, length pre + length b)"
proof (cases "s_live s")
  case False
  note R = dead_reads [where pre = pre and post = post, OF s False refl refl]
  show ?thesis by (subst get_loop.simps) (simp only: R prod.case sum.case if_True refl)
next
  case True
  note R = live_reads [where pre = pre and post = post, OF s True refl refl]
  obtain c where c: "c \<noteq> DELETED" "read_byte lv (pre @ b @ post, length pre) = (c, pre @ b @ post, length pre + 1)"
    using R(1) by blast
  have "s_key s \<noteq> key" using True other by blast
  then show ?thesis by (subst get_loop.simps) (simp only: R(2-) c prod.case sum.case if_False)
qed


lemma store_skip:
  assumes "list_all2 slot_at ss bls" and "\<forall>s \<in> set ss. \<not> (s_live s \<and> s_key s = key)"
  shows "\<exists>lv'. store_loop key v level lv (pre @ concat bls @ post, length pre) =
    store_loop key v level lv' (pre @ concat bls @ post, length (pre @ concat bls))"
  using assms
proof (induction ss bls arbitrary: lv pre rule: list_all2_induct)
  case Nil
  then show ?case by auto
next
  case (Cons s ss b bls)
  then have "store_loop key v level lv (pre @ b @ (concat bls @ post), length pre) =
      store_loop key v level (s_lev s) ((pre @ b) @ concat bls @ post, length (pre @ b))"
    using store_step [of s b key v level lv pre "concat bls @ post"] by simp
  with Cons.IH [of "s_lev s" "pre @ b"] Cons.prems show ?case by simp
qed

lemma get_skip:
  assumes "list_all2 slot_at ss bls" and "\<forall>s \<in> set ss. \<not> (s_live s \<and> s_key s = key)"
  shows "\<exists>lv'. get_loop key lv (pre @ concat bls @ post, length pre) =
    get_loop key lv' (pre @ concat bls @ post, length (pre @ concat bls))"
  using assms
proof (induction ss bls arbitrary: lv pre rule: list_all2_induct)
  case Nil
  then show ?case by auto
next
  case (Cons s ss b bls)
  then have "get_loop key lv (pre @ b @ (concat bls @ post), length pre) =
      get_loop key (s_lev s) ((pre @ b) @ concat bls @ post, length (pre @ b))"
    using get_step [of s b key lv pre "concat bls @ post"] by simp
  with Cons.IH [of "s_lev s" "pre @ b"] Cons.prems show ?case by simp
qed


section \<open>Finding the end or the key\<close>

text \<open>The bytes of a slot that has just been written behind the others.\<close>

definition new_slot :: "string \<Rightarrow> string \<Rightarrow> nat \<Rightarrow> char list" where
  "new_slot k v lev = k @ KEY_END # replicate (129 - length k) NUL @ char_of lev # v @ VAL_END #
     replicate (DLV ! lev - length v - 2) NUL"

lemma new_slot_at:
  assumes "key_ok k" and "val_ok v" and "1 \<le> lev" "lev \<le> 17" and "length v + 2 \<le> DLV ! lev"
  shows "slot_at \<lparr>s_live = True, s_key = k, s_lev = lev, s_val = v\<rparr> (new_slot k v lev)"
proof -
  let ?kp = "k @ KEY_END # replicate (129 - length k) NUL"
  let ?vp = "v @ VAL_END # replicate (DLV ! lev - length v - 2) NUL"
  have "new_slot k v lev = ?kp @ char_of lev # ?vp" by (simp add: new_slot_def)
  moreover have "length ?kp = MDLK" "length ?vp + 1 = DLV ! lev"
    using assms by (simp_all add: key_ok_def MDLK_def)
  ultimately show ?thesis
    unfolding slot_at_def using assms by (intro conjI exI [of _ ?kp] exI [of _ ?vp]) auto
qed

lemma get_end: "get_loop key lv (pre @ [NUL], length pre) = Some (Inr (None, (pre @ [NUL], length pre + 1)))"
  by (subst get_loop.simps) (simp add: read_byte_in read_key_def MDLK_def)

lemma store_end:
  "store_loop key v level lv (pre @ [NUL], length pre) = Some (Inr (False, (pre @ [NUL], length pre + 1)))"
  by (subst store_loop.simps) (simp add: read_byte_in read_key_def MDLK_def fwrite_def)

lemma get_hit:
  assumes s: "slot_at s b" "s_live s"
  shows "\<exists>h. get_loop (s_key s) lv (pre @ b @ post, length pre) =
    Some (Inr (if s_val s = [] then None else Some (s_val s), (pre @ b @ post, h)))"
proof -
  note R = live_reads [where pre = pre and post = post, OF s refl refl]
  obtain c where c: "c \<noteq> DELETED" "read_byte lv (pre @ b @ post, length pre) = (c, pre @ b @ post, length pre + 1)"
    using R(1) by blast
  obtain kr vp where b: "b = s_key s @ KEY_END # kr @ char_of (s_lev s) # vp" "length (s_key s) + 1 + length kr = 130"
      "val_ok (s_val s)" "\<exists>r. vp = s_val s @ VAL_END # r"
    using s by (rule live_slot)
  obtain r where r: "vp = s_val s @ VAL_END # r" using b(4) by blast
  let ?pre = "pre @ s_key s @ KEY_END # kr @ [char_of (s_lev s)]"
  have "pre @ b @ post = ?pre @ s_val s @ VAL_END # (r @ post)" "length pre + 131 = length ?pre"
    using b(1,2) r by simp_all
  then have v: "\<exists>q. read_val MDLV (pre @ b @ post, length pre + 131) = Inr (s_val s, (pre @ b @ post, q))"
    using read_val_at [of "s_val s" MDLV "length ?pre" ?pre "r @ post"] b(3) by (simp add: val_ok_def)
  then show ?thesis
    by (elim exE) (subst get_loop.simps, simp only: R(2-) c prod.case sum.case if_False if_True refl, blast)
qed

lemma store_hit:
  assumes s: "slot_at s b" "s_live s" and v: "val_ok v" "length v + 2 \<le> DLV ! level"
    and lv: "level \<le> s_lev s" "DLV ! level \<le> DLV ! s_lev s"
  shows "\<exists>b' q. store_loop (s_key s) v level lv (pre @ b @ post, length pre) = Some (Inr (True, (pre @ b' @ post, q))) \<and>
    slot_at (s\<lparr>s_val := v\<rparr>) b'"
proof -
  note R = live_reads [where pre = pre and post = post, OF s refl refl]
  obtain c where c: "c \<noteq> DELETED" "read_byte lv (pre @ b @ post, length pre) = (c, pre @ b @ post, length pre + 1)"
    using R(1) by blast
  obtain kr vp where b: "b = s_key s @ KEY_END # kr @ char_of (s_lev s) # vp" "length (s_key s) + 1 + length kr = 130"
      "length vp + 1 = DLV ! s_lev s" "1 \<le> s_lev s" "s_lev s \<le> 17" "key_ok (s_key s)"
    using s by (rule live_slot)
  have "length v + 1 \<le> length vp" using b(3) v lv by linarith
  then obtain mid m r where vp: "vp = mid @ m # r" "length mid = length v"
    by (metis id_take_nth_drop length_take min.absorb2 Suc_eq_plus1 Suc_le_eq order_less_imp_le)
  let ?pre = "pre @ s_key s @ KEY_END # kr @ [char_of (s_lev s)]"
  let ?b = "s_key s @ KEY_END # kr @ char_of (s_lev s) # v @ VAL_END # r"
  have bs: "pre @ b @ post = ?pre @ mid @ m # r @ post" "length pre + 131 = length ?pre"
    using b(1,2) vp by simp_all
  have w1: "fwrite v (?pre @ mid @ m # r @ post, length ?pre) = (?pre @ v @ m # r @ post, length ?pre + length v)"
    using fwrite_in [of mid v "length ?pre" ?pre "m # r @ post"] vp(2) by simp
  have w2: "fwrite [VAL_END] (?pre @ v @ m # r @ post, length ?pre + length v) =
      (?pre @ v @ VAL_END # r @ post, length ?pre + length v + 1)"
    using fwrite_in [of "[m]" "[VAL_END]" "length ?pre + length v" "?pre @ v" "r @ post"] by simp
  have w: "fwrite [VAL_END] (fwrite v (pre @ b @ post, length pre + 131)) =
      (pre @ ?b @ post, length ?pre + length v + 1)"
    unfolding bs w1 w2 by simp
  obtain q where q: "seek_cur (int (DLV ! s_lev s) - int (length v) - 1) (pre @ ?b @ post, length ?pre + length v + 1) =
      (pre @ ?b @ post, q)" by (auto simp: seek_cur_def)
  have "store_loop (s_key s) v level lv (pre @ b @ post, length pre) = Some (Inr (True, (pre @ ?b @ post, q)))"
    by (subst store_loop.simps) (simp only: R(2-) c w q lv prod.case sum.case if_False if_True refl)
  moreover have "slot_at (s\<lparr>s_val := v\<rparr>) ?b"
    unfolding slot_at_def using b s(2) v(1) vp
    by (intro conjI exI [of _ "s_key s @ KEY_END # kr"] exI [of _ "v @ VAL_END # r"]) (auto simp: MDLK_def)
  ultimately show ?thesis by blast
qed

lemma store_delete:
  assumes s: "slot_at s b" "s_live s" and lv: "s_lev s < level"
  shows "\<exists>b'. store_loop (s_key s) v level lv (pre @ b @ post, length pre) =
      store_loop (s_key s) v level (s_lev s) (pre @ b' @ post, length (pre @ b')) \<and> slot_at (s\<lparr>s_live := False\<rparr>) b'"
proof -
  note R = live_reads [where pre = pre and post = post, OF s refl refl]
  obtain c where c: "c \<noteq> DELETED" "read_byte lv (pre @ b @ post, length pre) = (c, pre @ b @ post, length pre + 1)"
    using R(1) by blast
  obtain kr vp where b: "b = s_key s @ KEY_END # kr @ char_of (s_lev s) # vp" "length (s_key s) + 1 + length kr = 130"
      "length vp + 1 = DLV ! s_lev s" "1 \<le> s_lev s" "s_lev s \<le> 17" "key_ok (s_key s)"
    using s by (rule live_slot)
  obtain x k where k: "s_key s = x # k" using b(6) by (cases "s_key s") (auto simp: key_ok_def)
  let ?b = "char_of DELETED # k @ KEY_END # kr @ char_of (s_lev s) # vp"
  have sk: "seek_cur (- int MDLK) (seek_cur (- 1) (pre @ b @ post, length pre + 131)) = (pre @ b @ post, length pre)"
    "seek_cur (int (DLV ! s_lev s)) (seek_cur (int MDLK - 1) (pre @ ?b @ post, length pre + 1)) =
      (pre @ ?b @ post, length (pre @ ?b))"
    using b(2,3) k by (simp_all add: seek_cur_def MDLK_def)
  have w: "fwrite [char_of DELETED] (pre @ b @ post, length pre) = (pre @ ?b @ post, length pre + 1)"
    using fwrite_in [of "[x]" "[char_of DELETED]" "length pre" pre "tl b @ post"] b(1) k by simp
  have n: "\<not> level \<le> s_lev s" using lv by simp
  have "store_loop (s_key s) v level lv (pre @ b @ post, length pre) =
      store_loop (s_key s) v level (s_lev s) (pre @ ?b @ post, length (pre @ ?b))"
    by (subst store_loop.simps) (simp only: R(2-) c sk w n Let_def prod.case sum.case if_False if_True refl)
  moreover have "slot_at (s\<lparr>s_live := False\<rparr>) ?b"
    unfolding slot_at_def using b k
    by (intro conjI exI [of _ "char_of DELETED # k @ KEY_END # kr"] exI [of _ vp]) (auto simp: MDLK_def)
  ultimately show ?thesis by blast
qed

lemma fwrite_NUL: "length (pre :: char list) + 1 \<le> p + length w \<Longrightarrow> w \<noteq> [] \<Longrightarrow> p = length pre \<Longrightarrow>
    fwrite w (pre @ [NUL], p) = (pre @ w, p + length w)"
  by (simp add: fwrite_def)

lemma store_last_eq:
  assumes k: "key_ok k" and v: "length v + 2 \<le> DLV ! level"
  shows "\<exists>q. store_last (DLV ! level) k v level (pre @ [NUL], length pre + 1) = (pre @ new_slot k v level @ [NUL], q)"
proof -
  have kk: "k \<noteq> []" "length k \<le> 129" using k by (auto simp: key_ok_def MDLK_def)
  let ?p1 = "pre @ k @ [KEY_END]"
  let ?p2 = "?p1 @ replicate (129 - length k) NUL @ char_of level # v @ [VAL_END]"
  have w1: "fwrite [KEY_END] (fwrite k (seek_cur (- 1) (pre @ [NUL], length pre + 1))) = (?p1, length ?p1)"
  proof -
    have "1 \<le> length k" using kk(1) by (cases k) auto
    then show ?thesis using kk fwrite_NUL [of pre "length pre" k] by (simp add: fwrite_end)
  qed
  have w2: "fwrite [char_of level] (seek_cur (int MDLK - int (length k) - 1) (?p1, length ?p1)) =
      (?p1 @ replicate (129 - length k) NUL @ [char_of level], length pre + 131)"
    using kk fwrite_gap [of "[char_of level]" "length pre + 130" ?p1 "129 - length k"]
    by (simp add: seek_cur_to [where q = "length pre + 130"] MDLK_def)
  have w3: "fwrite [VAL_END] (fwrite v (?p1 @ replicate (129 - length k) NUL @ [char_of level], length pre + 131)) =
      (?p2, length pre + 132 + length v)"
    using kk by (simp add: fwrite_end)
  have w4: "fwrite [NUL] (seek_cur (int (DLV ! level) - int (length v) - 2) (?p2, length pre + 132 + length v)) =
      (?p2 @ replicate (DLV ! level - length v - 2) NUL @ [NUL], length pre + DLV ! level + 131)"
    using kk v fwrite_gap [of "[NUL]" "length pre + DLV ! level + 130" ?p2 "DLV ! level - length v - 2"]
    by (simp add: seek_cur_to [where q = "length pre + DLV ! level + 130"])
  show ?thesis
    unfolding store_last_def Let_def w1 w2 w3 w4 by (simp add: new_slot_def)
qed

lemma store_first_eq:
  assumes k: "key_ok k" and v: "length v + 2 \<le> DLV ! level"
  shows "\<exists>q. store_first (DLV ! level) k v level ([], p) = (new_slot k v level @ [NUL], q)"
proof -
  have kk: "k \<noteq> []" "length k \<le> 129" using k by (auto simp: key_ok_def MDLK_def)
  let ?p1 = "k @ [KEY_END]"
  let ?p2 = "?p1 @ replicate (129 - length k) NUL @ char_of level # v @ [VAL_END]"
  have w1: "fwrite [KEY_END] (fwrite k (seek_set DATA ([], p))) = (?p1, length ?p1)"
    using kk fwrite_end [of 0 "[]" k] by (simp add: fwrite_end seek_set_def DATA_def)
  have w2: "fwrite [char_of level] (seek_set (DATA + MDLK) (?p1, length ?p1)) =
      (?p1 @ replicate (129 - length k) NUL @ [char_of level], 131)"
    using kk fwrite_gap [of "[char_of level]" 130 ?p1 "129 - length k"] by (simp add: MDLK_def DATA_def seek_set_def)
  have w3: "fwrite [VAL_END] (fwrite v (?p1 @ replicate (129 - length k) NUL @ [char_of level], 131)) =
      (?p2, 132 + length v)"
    using kk by (simp add: fwrite_end)
  have w4: "fwrite [NUL] (seek_cur (int (DLV ! level) - int (length v) - 2) (?p2, 132 + length v)) =
      (?p2 @ replicate (DLV ! level - length v - 2) NUL @ [NUL], DLV ! level + 131)"
    using kk v fwrite_gap [of "[NUL]" "DLV ! level + 130" ?p2 "DLV ! level - length v - 2"]
    by (simp add: seek_cur_to [where q = "DLV ! level + 130"])
  show ?thesis
    unfolding store_first_def Let_def w1 w2 w3 w4 by (simp add: new_slot_def)
qed


section \<open>The map that the data file stands for\<close>

definition live_keys :: "slot list \<Rightarrow> string list" where
  "live_keys ss = map s_key (filter s_live ss)"

definition kv_map :: "slot list \<Rightarrow> string \<rightharpoonup> string" where
  "kv_map ss = map_of (map (\<lambda>s. (s_key s, s_val s)) (filter s_live ss))"

definition file_rep :: "char list \<Rightarrow> (string \<rightharpoonup> string) \<Rightarrow> bool" where
  "file_rep bs m \<longleftrightarrow> (bs = [] \<and> m = Map.empty) \<or>
     (\<exists>ss bls. list_all2 slot_at ss bls \<and> bs = concat bls @ [NUL] \<and> distinct (live_keys ss) \<and> m = kv_map ss)"

lemma live_keys_simps [simp]:
  "live_keys [] = []" "live_keys (s # ss) = (if s_live s then s_key s # live_keys ss else live_keys ss)"
  "live_keys (ss @ ts) = live_keys ss @ live_keys ts"
  by (simp_all add: live_keys_def)

lemma kv_map_simps [simp]:
  "kv_map [] = Map.empty"
  "kv_map (s # ss) = (if s_live s then (kv_map ss)(s_key s \<mapsto> s_val s) else kv_map ss)"
  "kv_map (ss @ ts) = kv_map ts ++ kv_map ss"
  by (simp_all add: kv_map_def)

lemma dom_kv_map: "dom (kv_map ss) = set (live_keys ss)"
  by (auto simp: kv_map_def live_keys_def dom_map_of_conv_image_fst image_image)

lemma no_live: "k \<notin> set (live_keys ss) \<Longrightarrow> s \<in> set ss \<Longrightarrow> \<not> (s_live s \<and> s_key s = k)"
  by (auto simp: live_keys_def)

lemma live_split:
  assumes "k \<in> set (live_keys ss)" and "distinct (live_keys ss)"
  obtains ss1 s ss2 where "ss = ss1 @ s # ss2" and "s_live s" and "s_key s = k"
    and "k \<notin> set (live_keys ss1)" and "k \<notin> set (live_keys ss2)"
proof -
  obtain s where "s \<in> set ss" "s_live s" "s_key s = k" using assms(1) by (auto simp: live_keys_def)
  then obtain ss1 ss2 where "ss = ss1 @ s # ss2" by (metis split_list)
  moreover from this \<open>s_live s\<close> \<open>s_key s = k\<close> have "k \<notin> set (live_keys ss1)" "k \<notin> set (live_keys ss2)"
    using assms(2) by auto
  ultimately show ?thesis using that \<open>s_live s\<close> \<open>s_key s = k\<close> by blast
qed

lemma slots_split:
  assumes "list_all2 slot_at (ss1 @ s # ss2) bls"
  obtains b1 b b2 where "bls = b1 @ b # b2" and "list_all2 slot_at ss1 b1" and "slot_at s b" and "list_all2 slot_at ss2 b2"
  using assms by (auto simp: list_all2_append1 list_all2_Cons1)

lemma get_loop_finds:
  assumes "file_rep bs m" and "u \<noteq> DELETED"
  shows "\<exists>q. get_loop k u (bs, 0) =
    Some (Inr (case m k of None \<Rightarrow> None | Some v \<Rightarrow> if v = [] then None else Some v, (bs, q)))"
proof (cases "bs = []")
  case True
  then have "m = Map.empty" using assms(1) by (auto simp: file_rep_def)
  moreover have "get_loop k u ([], 0) = Some (Inr (None, ([], 0)))"
    by (subst get_loop.simps) (use assms(2) in \<open>simp add: read_byte_eof read_key_def MDLK_def seek_cur_def\<close>)
  ultimately show ?thesis using True by simp
next
  case False
  then obtain ss bls where F: "list_all2 slot_at ss bls" "bs = concat bls @ [NUL]" "distinct (live_keys ss)" "m = kv_map ss"
    using assms(1) by (auto simp: file_rep_def)
  show ?thesis
  proof (cases "k \<in> set (live_keys ss)")
    case True
    then obtain ss1 s ss2 where S: "ss = ss1 @ s # ss2" "s_live s" "s_key s = k" "k \<notin> set (live_keys ss1)"
      using F(3) by (rule live_split)
    obtain b1 b b2 where B: "bls = b1 @ b # b2" "list_all2 slot_at ss1 b1" "slot_at s b"
      using F(1) unfolding S(1) by (rule slots_split)
    have bs: "bs = concat b1 @ b @ concat b2 @ [NUL]" using F(2) B(1) by simp
    obtain lv where lv: "get_loop k u (bs, 0) = get_loop k lv (bs, length (concat b1))"
      using get_skip [OF B(2), of k u "[]" "b @ concat b2 @ [NUL]"] no_live [OF S(4)] bs by auto
    have "m k = Some (s_val s)" using F(4) S by (auto simp: map_add_dom_app_simps dom_kv_map)
    then show ?thesis
      using lv get_hit [OF B(3) S(2), of lv "concat b1" "concat b2 @ [NUL]"] bs S(3) by auto
  next
    case False
    then obtain lv where "get_loop k u (bs, 0) = get_loop k lv (bs, length (concat bls))"
      using get_skip [OF F(1), of k u "[]" "[NUL]"] no_live [OF False] F(2) by auto
    moreover have "m k = None" using False F(4) dom_kv_map by (metis domIff)
    ultimately show ?thesis using get_end [of k lv "concat bls"] F(2) by auto
  qed
qed

lemma DLV_mono: "l \<le> l' \<Longrightarrow> l' \<le> 17 \<Longrightarrow> DLV ! l \<le> DLV ! l'"
proof -
  have "sorted DLV" by (simp add: DLV_def)
  then show "l \<le> l' \<Longrightarrow> l' \<le> 17 \<Longrightarrow> DLV ! l \<le> DLV ! l'" using sorted_nth_mono by force
qed

text \<open>Storing under a new key appends a slot; an old value is written over or its slot is deleted.\<close>

definition store_end_of :: "string \<Rightarrow> string \<Rightarrow> nat \<Rightarrow> (bool \<times> handle) res option \<Rightarrow> handle res option" where
  "store_end_of k v l r = (case r of None \<Rightarrow> None | Some (Inl e) \<Rightarrow> Some (Inl e)
     | Some (Inr (flag, h1)) \<Rightarrow> Some (Inr (if flag then h1 else store_last (DLV ! l) k v l h1)))"

lemma store_data_run:
  assumes "bs \<noteq> []" and "l \<le> 17"
  shows "store_data u k v l (bs, p) = store_end_of k v l (store_loop k v l u (bs, 0))"
  using assms by (simp add: store_data_def dlv_ok DATA_def seek_set_def store_end_of_def)

lemma store_appends:
  assumes "key_ok k" and "length v + 2 \<le> DLV ! l"
  shows "\<exists>q. store_end_of k v l (store_loop k v l lv (concat bls @ [NUL], length (concat bls))) =
    Some (Inr (concat bls @ new_slot k v l @ [NUL], q))"
  using store_end [of k v l lv "concat bls"] store_last_eq [OF assms, of "concat bls"]
  by (auto simp: store_end_of_def)

lemma file_repI:
  "list_all2 slot_at ss bls \<Longrightarrow> distinct (live_keys ss) \<Longrightarrow> m = kv_map ss \<Longrightarrow> bs = concat bls @ [NUL] \<Longrightarrow> file_rep bs m"
  unfolding file_rep_def by blast

lemma store_present:
  assumes F: "list_all2 slot_at ss bls" "distinct (live_keys ss)" and k: "key_ok k" "k \<in> set (live_keys ss)"
    and v: "val_ok v" and l: "1 \<le> l" "l \<le> 17" "length v + 2 \<le> DLV ! l"
  shows "\<exists>bs' q. store_end_of k v l (store_loop k v l u (concat bls @ [NUL], 0)) = Some (Inr (bs', q)) \<and>
    file_rep bs' ((kv_map ss)(k \<mapsto> v))"
proof -
  let ?new = "\<lparr>s_live = True, s_key = k, s_lev = l, s_val = v\<rparr>"
  obtain ss1 s ss2 where S: "ss = ss1 @ s # ss2" "s_live s" "s_key s = k" "k \<notin> set (live_keys ss1)"
      "k \<notin> set (live_keys ss2)"
    using k(2) F(2) by (rule live_split)
  obtain b1 b b2 where B: "bls = b1 @ b # b2" "list_all2 slot_at ss1 b1" "slot_at s b" "list_all2 slot_at ss2 b2"
    using F(1) unfolding S(1) by (rule slots_split)
  obtain lv where lv: "store_loop k v l u (concat bls @ [NUL], 0) =
      store_loop k v l lv (concat b1 @ b @ concat b2 @ [NUL], length (concat b1))"
    using store_skip [OF B(2), of k v l u "[]" "b @ concat b2 @ [NUL]"] no_live [OF S(4)] B(1) by auto
  have m: "(kv_map ss)(k \<mapsto> v) = (kv_map ss2 ++ kv_map ss1)(k \<mapsto> v)"
    using S by (simp add: map_add_upd_left dom_kv_map)
  show ?thesis
  proof (cases "l \<le> s_lev s")
    case True
    have "s_lev s \<le> 17" using B(3) by (simp add: slot_at_def)
    with True have "DLV ! l \<le> DLV ! s_lev s" by (rule DLV_mono)
    then obtain b' q where b': "store_loop k v l u (concat bls @ [NUL], 0) =
        Some (Inr (True, (concat b1 @ b' @ concat b2 @ [NUL], q)))" "slot_at (s\<lparr>s_val := v\<rparr>) b'"
      using store_hit [OF B(3) S(2) v l(3) True, of lv "concat b1" "concat b2 @ [NUL]"] lv S(3) by auto
    have "file_rep (concat b1 @ b' @ concat b2 @ [NUL]) ((kv_map ss)(k \<mapsto> v))"
      using B b'(2) F(2) S m
      by (intro file_repI [of "ss1 @ s\<lparr>s_val := v\<rparr> # ss2" "b1 @ b' # b2"])
        (simp_all add: list_all2_appendI map_add_upd_left dom_kv_map)
    then show ?thesis unfolding b'(1) by (auto simp: store_end_of_def)
  next
    case False
    then obtain b' where b': "store_loop k v l u (concat bls @ [NUL], 0) =
        store_loop k v l (s_lev s) (concat b1 @ b' @ concat b2 @ [NUL], length (concat b1 @ b'))"
        "slot_at (s\<lparr>s_live := False\<rparr>) b'"
      using store_delete [OF B(3) S(2), of l v lv "concat b1" "concat b2 @ [NUL]"] lv S(3) by auto
    let ?bls = "b1 @ b' # b2"
    obtain lv2 where lv2: "store_loop k v l u (concat bls @ [NUL], 0) =
        store_loop k v l lv2 (concat ?bls @ [NUL], length (concat ?bls))"
      using store_skip [OF B(4), of k v l "s_lev s" "concat b1 @ b'" "[NUL]"] no_live [OF S(5)] b'(1) by auto
    have "file_rep (concat ?bls @ new_slot k v l @ [NUL]) ((kv_map ss)(k \<mapsto> v))"
      using B b'(2) new_slot_at [OF k(1) v l] F(2) S m
      by (intro file_repI [of "ss1 @ s\<lparr>s_live := False\<rparr> # ss2 @ [?new]" "?bls @ [new_slot k v l]"])
        (auto simp: list_all2_appendI map_add_upd_left dom_kv_map)
    then show ?thesis using store_appends [OF k(1) l(3), of lv2 ?bls] unfolding lv2 by blast
  qed
qed

lemma store_absent:
  assumes F: "list_all2 slot_at ss bls" "distinct (live_keys ss)" and k: "key_ok k" "k \<notin> set (live_keys ss)"
    and v: "val_ok v" and l: "1 \<le> l" "l \<le> 17" "length v + 2 \<le> DLV ! l"
  shows "\<exists>bs' q. store_end_of k v l (store_loop k v l u (concat bls @ [NUL], 0)) = Some (Inr (bs', q)) \<and>
    file_rep bs' ((kv_map ss)(k \<mapsto> v))"
proof -
  let ?new = "\<lparr>s_live = True, s_key = k, s_lev = l, s_val = v\<rparr>"
  obtain lv where lv: "store_loop k v l u (concat bls @ [NUL], 0) =
      store_loop k v l lv (concat bls @ [NUL], length (concat bls))"
    using store_skip [OF F(1), of k v l u "[]" "[NUL]"] no_live [OF k(2)] by auto
  have "file_rep (concat bls @ new_slot k v l @ [NUL]) ((kv_map ss)(k \<mapsto> v))"
    using F new_slot_at [OF k(1) v l] k(2)
    by (intro file_repI [of "ss @ [?new]" "bls @ [new_slot k v l]"])
      (simp_all add: list_all2_appendI map_add_upd_left dom_kv_map)
  then show ?thesis using store_appends [OF k(1) l(3), of lv bls] unfolding lv by blast
qed

lemma store_data_updates:
  assumes rep: "file_rep bs m" and k: "key_ok k" and v: "val_ok v"
    and l: "1 \<le> l" "l \<le> 17" "length v + 2 \<le> DLV ! l"
  shows "\<exists>bs' q. store_data u k v l (bs, p) = Some (Inr (bs', q)) \<and> file_rep bs' (m(k \<mapsto> v))"
proof (cases "bs = []")
  case True
  then have "m = Map.empty" using rep by (auto simp: file_rep_def)
  moreover have "file_rep (new_slot k v l @ [NUL]) [k \<mapsto> v]"
    using new_slot_at [OF k v l]
    by (intro file_repI [of "[\<lparr>s_live = True, s_key = k, s_lev = l, s_val = v\<rparr>]" "[new_slot k v l]"]) simp_all
  ultimately show ?thesis
    using True store_first_eq [OF k l(3), of p] l(2) by (auto simp: store_data_def dlv_ok DATA_def)
next
  case False
  then obtain ss bls where F: "list_all2 slot_at ss bls" "distinct (live_keys ss)" "bs = concat bls @ [NUL]" "m = kv_map ss"
    using rep by (auto simp: file_rep_def)
  have "store_data u k v l (bs, p) = store_end_of k v l (store_loop k v l u (concat bls @ [NUL], 0))"
    using store_data_run [OF False l(2)] F(3) by simp
  then show ?thesis using store_present [OF F(1,2) k _ v l] store_absent [OF F(1,2) k _ v l] F(4) by metis
qed


section \<open>The journal\<close>

type_synonym entry = "string \<times> string"

definition entry_bytes :: "entry \<Rightarrow> char list" where
  "entry_bytes = (\<lambda>(k, v). case level_of v of Inr l \<Rightarrow> journal_entry k v l | Inl _ \<Rightarrow> [])"

definition journal :: "entry list \<Rightarrow> char list" where
  "journal L = concat (map entry_bytes L)"

definition entry_ok :: "entry \<Rightarrow> bool" where
  "entry_ok e \<longleftrightarrow> key_ok (fst e) \<and> val_ok (snd e) \<and> snd e \<noteq> []"

text \<open>The map after the entries of a journal.\<close>

definition upds :: "(string \<rightharpoonup> string) \<Rightarrow> entry list \<Rightarrow> (string \<rightharpoonup> string)" where
  "upds m L = m ++ map_of (rev L)"

lemma upds_simps [simp]:
  "upds m [] = m" "upds m ((k, v) # L) = upds (m(k \<mapsto> v)) L" "upds m (L @ [(k, v)]) = (upds m L)(k \<mapsto> v)"
  by (simp_all add: upds_def)

text \<open>Repeating a journal over a file that has some of it already makes no difference.\<close>

lemma upds_again: "upds (upds m (take j L)) L = upds m L"
proof -
  have "a ++ (a ++ b) = a ++ b" for a b :: "string \<rightharpoonup> string" by (rule ext) (simp add: map_add_def split: option.split)
  then have "map_of (rev (take j L)) ++ map_of (rev (take j L @ drop j L)) = map_of (rev (take j L @ drop j L))"
    unfolding rev_append map_of_append by blast
  then show ?thesis by (simp add: upds_def flip: map_add_assoc)
qed

lemma val_len: "val_ok v \<Longrightarrow> length v \<le> MDLV"
  by (simp add: val_ok_def)

lemma journal_write_appends:
  "journal_write k v l (pre, length pre) = (pre @ journal_entry k v l, length (pre @ journal_entry k v l))"
  unfolding journal_write_def journal_entry_def by (simp add: fwrite_end)

lemma journal_last:
  "level_of v = Inr l \<Longrightarrow> journal (L @ [(k, v)]) = journal L @ journal_entry k v l"
  by (simp add: journal_def entry_bytes_def)

text \<open>One complete entry.\<close>

lemma recovery_step:
  assumes e: "key_ok k" "val_ok v" "v \<noteq> []" and l: "1 \<le> l" "l \<le> 17" "length v + 2 \<le> DLV ! l"
    and mode: "owner_rw mode" and rep: "file_rep (fst h) m"
  shows "\<exists>h'. recovery_loop u mode ck (pre @ journal_entry k v l @ post, length pre) h =
      recovery_loop u mode COMMIT (pre @ journal_entry k v l @ post, length (pre @ journal_entry k v l)) h' \<and>
    file_rep (fst h') (m(k \<mapsto> v))"
proof -
  let ?bs = "pre @ journal_entry k v l @ post"
  have k: "KEY_END \<notin> set k" "NUL \<notin> set k" "length k < MDLK" "k \<noteq> []" using e(1) by (auto simp: key_ok_def)
  have vv: "VAL_END \<notin> set v" "NUL \<notin> set v" "length v < DLV ! l" using e(2) l(3) by (auto simp: val_ok_def)
  have r1: "read_key MDLK (?bs, length pre) = Inr (k, (?bs, length pre + length k + 1))"
    using read_key_at [OF k(1-3), of "length pre" pre] by (simp add: journal_entry_def)
  have r2: "read1 (?bs, length pre + length k + 1) = Some (char_of l, (?bs, length pre + length k + 2))"
    by (simp add: read1_def journal_entry_def nth_append)
  have r3: "read_val (DLV ! l) (?bs, length pre + length k + 2) = Inr (v, (?bs, length pre + length k + length v + 3))"
    using read_val_at [OF vv, of "length pre + length k + 2" "pre @ k @ [KEY_END, char_of l]"]
    by (simp add: journal_entry_def add_ac)
  have r4: "read_byte ck (?bs, length pre + length k + length v + 3) =
      (COMMIT, ?bs, length (pre @ journal_entry k v l))"
    by (simp add: read_byte_in journal_entry_def nth_append)
  obtain bs p where h: "h = (bs, p)" by (cases h)
  obtain bs' q where s: "store_data u k v l (bs, p) = Some (Inr (bs', q))" "file_rep bs' (m(k \<mapsto> v))"
    using store_data_updates [OF _ e(1,2) l, of bs m u p] rep h by auto
  have "recovery_loop u mode ck (?bs, length pre) h =
      recovery_loop u mode COMMIT (?bs, length (pre @ journal_entry k v l)) (bs', q)"
    by (subst recovery_loop.simps)
      (simp only: r1 r2 r3 r4 k(4) e(3) of_char_level [OF l(2)] dlv_ok [OF l(2)] rec_put_def mode h s(1)
        sum.case option.case prod.case if_True if_False not_True_eq_False refl)
  then show ?thesis using s(2) by auto
qed

lemma recovery_all:
  assumes "\<forall>e \<in> set L. entry_ok e" and "owner_rw mode" and "file_rep (fst h) m"
  shows "\<exists>h' ck'. recovery_loop u mode ck (pre @ journal L @ post, length pre) h =
      recovery_loop u mode ck' (pre @ journal L @ post, length (pre @ journal L)) h' \<and>
    file_rep (fst h') (upds m L) \<and> (L \<noteq> [] \<longrightarrow> ck' = COMMIT)"
  using assms
proof (induction L arbitrary: ck pre h m)
  case Nil
  then show ?case by (intro exI [of _ h] exI [of _ ck]) (simp add: journal_def)
next
  case (Cons e L)
  obtain k v where e: "e = (k, v)" by (cases e)
  then have ok: "key_ok k" "val_ok v" "v \<noteq> []" using Cons.prems(1) by (auto simp: entry_ok_def)
  obtain l where l: "level_of v = Inr l" "1 \<le> l" "l \<le> 17" "length v + 2 \<le> DLV ! l"
    using level_of_ok [OF val_len [OF ok(2)]] by blast
  have j: "journal (e # L) = journal_entry k v l @ journal L" using e l(1) by (simp add: journal_def entry_bytes_def)
  obtain h1 where h1: "recovery_loop u mode ck (pre @ journal_entry k v l @ (journal L @ post), length pre) h =
      recovery_loop u mode COMMIT ((pre @ journal_entry k v l) @ journal L @ post, length (pre @ journal_entry k v l)) h1"
      "file_rep (fst h1) (m(k \<mapsto> v))"
    using recovery_step [OF ok l(2-4) Cons.prems(2,3), of u ck pre "journal L @ post"] by auto
  have "\<forall>e \<in> set L. entry_ok e" using Cons.prems(1) by simp
  from Cons.IH [OF this Cons.prems(2) h1(2), of COMMIT "pre @ journal_entry k v l"]
  obtain h' ck' where h': "recovery_loop u mode COMMIT ((pre @ journal_entry k v l) @ journal L @ post, length (pre @ journal_entry k v l)) h1 =
      recovery_loop u mode ck' ((pre @ journal_entry k v l) @ journal L @ post, length ((pre @ journal_entry k v l) @ journal L)) h'"
      "file_rep (fst h') (upds (m(k \<mapsto> v)) L)" "L \<noteq> [] \<longrightarrow> ck' = COMMIT" by blast
  show ?case
  proof (cases "L = []")
    case True
    then show ?thesis using h1 j e by (intro exI [of _ h1] exI [of _ COMMIT]) (simp add: journal_def fun_upd_def)
  next
    case False
    then show ?thesis using h1(1) h' j e by (intro exI [of _ h'] exI [of _ ck']) simp
  qed
qed

text \<open>An entry of which not one byte of the value was written is not seen.\<close>

lemma recovery_torn:
  assumes k: "key_ok k" and l: "1 \<le> l" "l \<le> 17" and n: "n \<le> length k + 2"
  shows "\<exists>lg. recovery_loop u mode ck (pre @ take n (journal_entry k v l), length pre) h = Some (Inr (lg, h))"
proof -
  have kk: "KEY_END \<notin> set k" "NUL \<notin> set k" "length k < MDLK" "k \<noteq> []" using k by (auto simp: key_ok_def)
  consider "n \<le> length k" | "n = length k + 1" | "n = length k + 2" using n by linarith
  then show ?thesis
  proof cases
    case 1
    have "KEY_END \<notin> set (take n k)" "NUL \<notin> set (take n k)" using kk by (auto dest: in_set_takeD)
    then have "read_key MDLK (pre @ take n k, length pre) = Inr (take n k, (pre @ take n k, length pre + n))"
      using kk(3) 1 by (simp add: read_key_def read_field_eof)
    moreover have "take n (journal_entry k v l) = take n k" using 1 by (simp add: journal_entry_def)
    moreover have "read1 (pre @ take n k, length pre + n) = None" using 1 by (simp add: read1_def)
    ultimately show ?thesis by (subst recovery_loop.simps) simp
  next
    case 2
    then have t: "take n (journal_entry k v l) = k @ [KEY_END]" by (simp add: journal_entry_def)
    then show ?thesis
      using read_key_at [OF kk(1-3) refl, of pre "[]"] kk(4)
      by (subst recovery_loop.simps) (simp add: read1_def)
  next
    case 3
    then have t: "take n (journal_entry k v l) = k @ KEY_END # [char_of l]" by (simp add: journal_entry_def)
    let ?bs = "pre @ k @ KEY_END # [char_of l]"
    have "read1 (?bs, length pre + length k + 1) = Some (char_of l, (?bs, length pre + length k + 2))"
      by (simp add: read1_def nth_append)
    moreover have "read_val (DLV ! l) (?bs, length pre + length k + 2) = Inr ([], (?bs, length pre + length k + 2)) \<or>
        (\<exists>e. read_val (DLV ! l) (?bs, length pre + length k + 2) = Inl e \<and> DLV ! l = 0)"
      by (auto simp: read_val_def require_def)
    moreover have "DLV ! l \<noteq> 0" using DLV_ge [OF l] by simp
    ultimately show ?thesis
      unfolding t using read_key_at [OF kk(1-3) refl, of pre "[char_of l]"] kk(4) l(2)
      by (subst recovery_loop.simps) (auto simp: dlv_ok of_char_level)
  qed
qed


section \<open>The store on the host\<close>

text \<open>
  The database \<open>nm\<close> is open, holds the map \<open>m\<close>, and its journal the entries \<open>L\<close>, with the journal's
  offset at its end.
\<close>

definition db_rep :: "host \<Rightarrow> kvdb \<Rightarrow> string \<Rightarrow> (string \<rightharpoonup> string) \<Rightarrow> entry list \<Rightarrow> bool" where
  "db_rep h db nm m L \<longleftrightarrow> (\<exists>i j p f g. k_fd db = int i \<and> k_logfd db = int j \<and> i \<noteq> j \<and>
     i < length (h_fd h) \<and> j < length (h_fd h) \<and>
     h_fd h ! i = Some (nm, p) \<and> h_fd h ! j = Some (nm @ ''.log'', length (journal L)) \<and>
     h_file h nm = Some f \<and> h_file h (nm @ ''.log'') = Some g \<and>
     owner_rw (f_mode f) \<and> file_rep (f_bytes f) m \<and> f_bytes g = journal L)"

lemma put_handle_at:
  assumes "h_fd h ! i = Some (nm, p)" and "h_file h nm = Some f"
  shows "put_handle (int i) (bs, q) h =
    h\<lparr>h_file := (h_file h)(nm \<mapsto> f\<lparr>f_bytes := bs\<rparr>), h_fd := (h_fd h)[i := Some (nm, q)]\<rparr>"
  using assms by (simp add: put_handle_def fd_name_def fd_file_def)

lemma get_handle_at:
  assumes "h_fd h ! i = Some (nm, p)" and "h_file h nm = Some f"
  shows "get_handle h (int i) = (f_bytes f, p)" and "fd_file h (int i) = f"
  using assms by (simp_all add: get_handle_def fd_name_def fd_file_def)

lemma kvdb_put_run:
  assumes rep: "db_rep h db nm m L" and k: "key_ok k" and v: "val_ok v"
  shows "\<exists>h'. kvdb_put u h db k v = Some (Inr (0, h')) \<and> db_rep h' db nm (m(k \<mapsto> v)) (L @ [(k, v)])"
proof -
  obtain i j p f g where D: "k_fd db = int i" "k_logfd db = int j" "i \<noteq> j" "i < length (h_fd h)" "j < length (h_fd h)"
      "h_fd h ! i = Some (nm, p)" "h_fd h ! j = Some (nm @ ''.log'', length (journal L))" "h_file h nm = Some f"
      "h_file h (nm @ ''.log'') = Some g" "owner_rw (f_mode f)" "file_rep (f_bytes f) m" "f_bytes g = journal L"
    using rep unfolding db_rep_def by blast
  obtain l where l: "level_of v = Inr l" "1 \<le> l" "l \<le> 17" "length v + 2 \<le> DLV ! l"
    using level_of_ok [OF val_len [OF v]] by blast
  let ?J = "journal (L @ [(k, v)])"
  let ?h1 = "h\<lparr>h_file := (h_file h)(nm @ ''.log'' \<mapsto> g\<lparr>f_bytes := ?J\<rparr>), h_fd := (h_fd h)[j := Some (nm @ ''.log'', length ?J)]\<rparr>"
  have h1: "put_handle (int j) (journal_write k v l (get_handle h (int j))) h = ?h1"
    using get_handle_at [OF D(7,9)] put_handle_at [OF D(7,9)] D(12) journal_last [OF l(1), of L k]
      journal_write_appends [of k v l "journal L"] by simp
  have d1: "h_fd ?h1 ! i = Some (nm, p)" "h_file ?h1 nm = Some f" using D(3,6,8) by simp_all
  obtain bs' q where s: "store_data u k v l (f_bytes f, p) = Some (Inr (bs', q))" "file_rep bs' (m(k \<mapsto> v))"
    using store_data_updates [OF D(11) k v l(2-4), of u p] by blast
  let ?h2 = "put_handle (int i) (bs', q) ?h1"
  have "kvdb_put u h db k v = Some (Inr (0, ?h2))"
    using D(4-6,7,10) get_handle_at [OF D(6,8)] l(1) h1 get_handle_at [OF d1] s(1) k val_len [OF v]
    by (simp add: kvdb_put_def fd_ok_def D(1,2) key_ok_def Let_def)
  moreover have "db_rep ?h2 db nm (m(k \<mapsto> v)) (L @ [(k, v)])"
    unfolding put_handle_at [OF d1] db_rep_def using D(1-5,10) s(2)
    by (intro exI [of _ i] exI [of _ j] exI [of _ q] exI [of _ "f\<lparr>f_bytes := bs'\<rparr>"] exI [of _ "g\<lparr>f_bytes := ?J\<rparr>"]) simp
  ultimately show ?thesis by blast
qed

lemma kvdb_get_run:
  assumes rep: "db_rep h db nm m L" and u: "u \<noteq> DELETED"
  shows "\<exists>h'. kvdb_get u h db k = Some (Inr (case m k of None \<Rightarrow> None | Some v \<Rightarrow> if v = [] then None else Some v, h')) \<and>
    db_rep h' db nm m L"
proof -
  obtain i j p f g where D: "k_fd db = int i" "k_logfd db = int j" "i \<noteq> j" "i < length (h_fd h)" "j < length (h_fd h)"
      "h_fd h ! i = Some (nm, p)" "h_fd h ! j = Some (nm @ ''.log'', length (journal L))" "h_file h nm = Some f"
      "h_file h (nm @ ''.log'') = Some g" "owner_rw (f_mode f)" "file_rep (f_bytes f) m" "f_bytes g = journal L"
    using rep unfolding db_rep_def by blast
  obtain q where q: "get_loop k u (f_bytes f, 0) =
      Some (Inr (case m k of None \<Rightarrow> None | Some v \<Rightarrow> if v = [] then None else Some v, (f_bytes f, q)))"
    using get_loop_finds [OF D(11) u] by blast
  let ?h = "put_handle (int i) (f_bytes f, q) h"
  have "kvdb_get u h db k = Some (Inr (case m k of None \<Rightarrow> None | Some v \<Rightarrow> if v = [] then None else Some v, ?h))"
    using D(4,6,10) get_handle_at [OF D(6,8)] q by (simp add: kvdb_get_def fd_ok_def D(1) seek_set_def DATA_def)
  moreover have "db_rep ?h db nm m L"
    unfolding put_handle_at [OF D(6,8)] db_rep_def using D
    by (intro exI [of _ i] exI [of _ j] exI [of _ q] exI [of _ f] exI [of _ g]) simp
  ultimately show ?thesis by blast
qed

text \<open>Opening a file that exists.\<close>

lemma open_rw_old:
  assumes "\<not> h_refused h nm" and "h_file h nm = Some f"
  shows "\<exists>i fds. open_rw h nm = (int i, h\<lparr>h_fd := fds\<rparr>) \<and> i < length fds \<and> fds ! i = Some (nm, 0) \<and>
    (\<forall>j < length (h_fd h). h_fd h ! j \<noteq> None \<longrightarrow> j \<noteq> i \<and> j < length fds \<and> fds ! j = h_fd h ! j)"
proof (cases "find_idx (\<lambda>d. d = None) (h_fd h)")
  case None
  then show ?thesis
    using assms by (intro exI [of _ "length (h_fd h)"] exI [of _ "h_fd h @ [Some (nm, 0)]"])
      (auto simp: open_rw_def nth_append)
next
  case (Some i)
  then have "i < length (h_fd h)" "h_fd h ! i = None" by (auto simp: find_idx_Some)
  then show ?thesis
    using Some assms by (intro exI [of _ i] exI [of _ "(h_fd h)[i := Some (nm, 0)]"])
      (auto simp: open_rw_def nth_list_update)
qed

lemma truncated_log:
  assumes "h_fd h ! i = Some (nm, q)" "h_fd h ! l = Some (nm @ ''.log'', q')" "i \<noteq> l" "i < length (h_fd h)"
    "l < length (h_fd h)" and "h_file h nm = Some f" "h_file h (nm @ ''.log'') = Some g" "owner_rw (f_mode f)"
    "file_rep (f_bytes f) m"
  shows "db_rep (put_handle (int l) ([], 0) h) (db\<lparr>k_fd := int i, k_logfd := int l\<rparr>) nm m []"
  unfolding db_rep_def put_handle_at [OF assms(2,7)] using assms
  by (intro exI [of _ i] exI [of _ l] exI [of _ q] exI [of _ f] exI [of _ "g\<lparr>f_bytes := []\<rparr>"]) (simp add: journal_def)

lemma journal_empty: "\<forall>e \<in> set L. entry_ok e \<Longrightarrow> journal L = [] \<Longrightarrow> L = []"
proof (rule ccontr)
  assume L: "\<forall>e \<in> set L. entry_ok e" "journal L = []" "L \<noteq> []"
  then obtain k v L' where "L = (k, v) # L'" by (cases L) auto
  moreover from this have "val_ok v" using L(1) by (simp add: entry_ok_def)
  moreover from this obtain lev where "level_of v = Inr lev" using level_of_ok [OF val_len] by blast
  ultimately show False using L(2) by (simp add: journal_def entry_bytes_def journal_entry_def)
qed

text \<open>The loop over a journal whose last entry may be torn.\<close>

lemma recovery_run:
  assumes "owner_rw mode" and "file_rep bs (upds m (take j L))"
    and ok: "\<forall>e \<in> set L. entry_ok e" "entry_ok e" "n \<le> length (fst e) + 2"
  shows "\<exists>lg b. recovery_loop u mode ck (journal L @ take n (entry_bytes e), 0) (bs, 0) = Some (Inr (lg, b)) \<and>
    file_rep (fst b) (upds m L)"
proof -
  obtain k v where e: "e = (k, v)" by (cases e)
  have ev: "key_ok k" "val_ok v" using ok(2) e by (auto simp: entry_ok_def)
  obtain lev where lev: "level_of v = Inr lev" "1 \<le> lev" "lev \<le> 17" using level_of_ok [OF val_len [OF ev(2)]] by blast
  let ?t = "take n (journal_entry k v lev)"
  have t: "take n (entry_bytes e) = ?t" using e lev(1) by (simp add: entry_bytes_def)
  have X: "file_rep (fst (bs, 0 :: nat)) (upds m (take j L))" using assms(2) by simp
  obtain b ck' where r: "recovery_loop u mode ck ([] @ journal L @ ?t, length ([] :: char list)) (bs, 0) =
      recovery_loop u mode ck' ([] @ journal L @ ?t, length ([] @ journal L)) b"
      "file_rep (fst b) (upds (upds m (take j L)) L)"
    using recovery_all [OF ok(1) assms(1) X, of u ck "[]" ?t] by blast
  obtain lg where "recovery_loop u mode ck' (journal L @ ?t, length (journal L)) b = Some (Inr (lg, b))"
    using recovery_torn [OF ev(1) lev(2,3), of n u mode ck' "journal L" v b] ok(3) e by auto
  then show ?thesis using r unfolding t upds_again by auto
qed

lemma kvdb_open_run:
  assumes names: "\<not> h_refused h nm" "\<not> h_refused h (nm @ ''.log'')" and closed: "\<not> fd_ok h (k_fd db)"
    and data: "h_file h nm = Some f" "owner_rw (f_mode f)" "file_rep (f_bytes f) (upds m (take j L))"
    and log: "h_file h (nm @ ''.log'') = Some g" "f_bytes g = journal L @ take n (entry_bytes e)"
    and ok: "\<forall>e \<in> set L. entry_ok e" "entry_ok e" "n \<le> length (fst e) + 2"
  shows "\<exists>h' db'. kvdb_open u ck h db nm = Some (Inr (0, h', db')) \<and> db_rep h' db' nm (upds m L) []"
proof -
  obtain i fds where o1: "open_rw h nm = (int i, h\<lparr>h_fd := fds\<rparr>)" "i < length fds" "fds ! i = Some (nm, 0)"
    using open_rw_old [OF names(1) data(1)] by blast
  let ?h1 = "h\<lparr>h_fd := fds\<rparr>"
  have "\<not> h_refused ?h1 (nm @ ''.log'')" "h_file ?h1 (nm @ ''.log'') = Some g" using names log by simp_all
  from open_rw_old [OF this] o1 obtain l fds2 where o2: "open_rw ?h1 (nm @ ''.log'') = (int l, h\<lparr>h_fd := fds2\<rparr>)"
      "l < length fds2" "fds2 ! l = Some (nm @ ''.log'', 0)" "i \<noteq> l" "i < length fds2" "fds2 ! i = Some (nm, 0)"
    by auto
  let ?h2 = "h\<lparr>h_fd := fds2\<rparr>" and ?db = "db\<lparr>k_fd := int i, k_logfd := int l\<rparr>"
  have fd: "h_fd ?h2 ! i = Some (nm, 0)" "h_file ?h2 nm = Some f" "h_fd ?h2 ! l = Some (nm @ ''.log'', 0)"
      "h_file ?h2 (nm @ ''.log'') = Some g" using o2 data log by simp_all
  show ?thesis
  proof (cases "f_bytes g = []")
    case True
    then have "L = []" using journal_empty [OF ok(1)] log(2) by simp
    then have "db_rep (put_handle (int l) ([], 0) ?h2) ?db nm (upds m L) []"
      using data o2 fd by (intro truncated_log [where f = f and g = g]) simp_all
    moreover have "kvdb_open u ck h db nm = Some (Inr (0, put_handle (int l) ([], 0) ?h2, ?db))"
      using True closed o1(1) o2(1) get_handle_at [OF fd(3,4)] by (simp add: kvdb_open_def Let_def)
    ultimately show ?thesis by blast
  next
    case False
    obtain lg b where r: "recovery_loop u (f_mode f) ck (f_bytes g, 0) (f_bytes f, 0) = Some (Inr (lg, b))"
        "file_rep (fst b) (upds m L)"
      unfolding log(2) using recovery_run [OF data(2,3) ok, of u ck] by blast
    obtain b1 b2 l1 l2 where bl: "b = (b1, b2)" "lg = (l1, l2)" by (cases b; cases lg)
    let ?h3 = "put_handle (int l) lg (put_handle (int i) b ?h2)"
    have h3: "?h3 = ?h2\<lparr>h_file := (h_file h)(nm \<mapsto> f\<lparr>f_bytes := b1\<rparr>, nm @ ''.log'' \<mapsto> g\<lparr>f_bytes := l1\<rparr>),
        h_fd := fds2[i := Some (nm, b2), l := Some (nm @ ''.log'', l2)]\<rparr>"
      unfolding bl put_handle_at [OF fd(1,2)] using o2 log(1)
      by (subst put_handle_at [where nm = "nm @ ''.log''" and p = 0 and f = g]) simp_all
    have "db_rep (put_handle (int l) ([], 0) ?h3) ?db nm (upds m L) []"
      unfolding h3 using data(2) o2 r(2) bl(1)
      by (intro truncated_log [where q = b2 and q' = l2 and f = "f\<lparr>f_bytes := b1\<rparr>" and g = "g\<lparr>f_bytes := l1\<rparr>"]) simp_all
    moreover have "kvdb_open u ck h db nm = Some (Inr (0, put_handle (int l) ([], 0) ?h3, ?db))"
      using False closed o1(1) o2(1) get_handle_at [OF fd(3,4)] get_handle_at [OF fd(1,2)] r(1)
      by (simp add: kvdb_open_def Let_def seek_set_def)
    ultimately show ?thesis by blast
  qed
qed


section \<open>The promises\<close>

text \<open>
  C31. \<open>kvdb_put\<close> of a key and a value that the file can hold returns 0, and the open database then
  stands for the updated map, whichever way the slot is written: into an empty file, behind the other
  slots, over the old value, or, when the new value needs a larger slot, behind the others with the old
  slot deleted.  The entry is at the end of the journal.
\<close>

theorem kvdb_put_updates:
  assumes "db_rep h db nm m L" and "key_ok k" and "val_ok v"
  shows "\<exists>h'. kvdb_put u h db k v = Some (Inr (0, h')) \<and> db_rep h' db nm (m(k \<mapsto> v)) (L @ [(k, v)])"
  by (rule kvdb_put_run [OF assms])

text \<open>
  \<open>kvdb_get\<close> of any string returns the value of the map and \<open>NULL\<close> for a key that is not in it
  (and for an empty value), and leaves the database as it is.
\<close>

theorem kvdb_get_answers:
  assumes "db_rep h db nm m L" and "u \<noteq> DELETED"
  shows "\<exists>h'. kvdb_get u h db k = Some (Inr (case m k of None \<Rightarrow> None | Some v \<Rightarrow> if v = [] then None else Some v, h')) \<and>
    db_rep h' db nm m L"
  by (rule kvdb_get_run [OF assms])


text \<open>A sequence of puts, and a crash, which closes all descriptors.\<close>

fun put_all :: "nat \<Rightarrow> host \<Rightarrow> kvdb \<Rightarrow> entry list \<Rightarrow> host res option" where
  "put_all u h db [] = Some (Inr h)"
| "put_all u h db ((k, v) # L) = (case kvdb_put u h db k v of None \<Rightarrow> None | Some (Inl e) \<Rightarrow> Some (Inl e)
     | Some (Inr (r, h')) \<Rightarrow> put_all u h' db L)"

definition crash :: "host \<Rightarrow> host" where
  "crash h = h\<lparr>h_fd := []\<rparr>"

lemma kvdb_put_refused:
  "kvdb_put u h db k v = Some (Inr (r, h')) \<Longrightarrow> h_refused h' = h_refused h"
  by (auto simp: kvdb_put_def Let_def put_handle_def split: if_splits sum.splits option.splits prod.splits)

lemma put_all_run:
  assumes "db_rep h db nm m L0" and "\<forall>e \<in> set L. entry_ok e"
  shows "\<exists>h'. put_all u h db L = Some (Inr h') \<and> db_rep h' db nm (upds m L) (L0 @ L) \<and> h_refused h' = h_refused h"
  using assms
proof (induction L arbitrary: h m L0)
  case (Cons e L)
  obtain k v where e: "e = (k, v)" by (cases e)
  then have kv: "key_ok k" "val_ok v" using Cons.prems(2) by (auto simp: entry_ok_def)
  obtain h1 where h1: "kvdb_put u h db k v = Some (Inr (0, h1))" "db_rep h1 db nm (m(k \<mapsto> v)) (L0 @ [(k, v)])"
    using kvdb_put_run [OF Cons.prems(1) kv] by blast
  have "\<forall>e \<in> set L. entry_ok e" using Cons.prems(2) by simp
  from Cons.IH [OF h1(2) this] kvdb_put_refused [OF h1(1)] show ?case using h1(1) e by (simp add: fun_upd_def)
qed simp

text \<open>
  C33. What was put survives a crash: after any number of puts into an open database with an empty
  journal, losing all descriptors and opening the file again give a database that holds the last value
  of every key, so that \<open>kvdb_get\<close> answers from the map with all the puts.
\<close>

theorem kvdb_survives_crash:
  assumes "db_rep h db nm m []" and "\<forall>e \<in> set L. entry_ok e"
    and "\<not> h_refused h nm" "\<not> h_refused h (nm @ ''.log'')" and "u \<noteq> DELETED"
  shows "\<exists>h1 h2 db2 h3. put_all u h db L = Some (Inr h1) \<and> kvdb_open u ck (crash h1) db nm = Some (Inr (0, h2, db2)) \<and>
    kvdb_get u h2 db2 k =
      Some (Inr (case upds m L k of None \<Rightarrow> None | Some v \<Rightarrow> if v = [] then None else Some v, h3))"
proof -
  obtain h1 where h1: "put_all u h db L = Some (Inr h1)" "db_rep h1 db nm (upds m L) L" "h_refused h1 = h_refused h"
    using put_all_run [OF assms(1,2), of u] by auto
  obtain f g where fg: "h_file h1 nm = Some f" "owner_rw (f_mode f)" "file_rep (f_bytes f) (upds m L)"
      "h_file h1 (nm @ ''.log'') = Some g" "f_bytes g = journal L"
    using h1(2) unfolding db_rep_def by blast
  have "entry_ok (''a'', ''b'')" by (simp add: entry_ok_def key_ok_def val_ok_def MDLK_def MDLV_def char_of_def)
  with fg assms h1(3) obtain h2 db2 where "kvdb_open u ck (crash h1) db nm = Some (Inr (0, h2, db2))"
      "db_rep h2 db2 nm (upds m L) []"
    using kvdb_open_run [of "crash h1" nm db f m "length L" L g 0 "(''a'', ''b'')" u ck]
    by (auto simp: crash_def fd_ok_def)
  with h1(1) show ?thesis using kvdb_get_run [of h2 db2 nm "upds m L" "[]" u k] assms(5) by blast
qed

section \<open>Examples\<close>

definition demo_host :: host where
  "demo_host = \<lparr>h_file = [''db'' \<mapsto> \<lparr>f_bytes = [], f_mode = 420\<rparr>, ''db.log'' \<mapsto> \<lparr>f_bytes = [], f_mode = 420\<rparr>],
     h_fd = [Some (''db'', 0), Some (''db.log'', 0)], h_umask = 18, h_refused = (\<lambda>_. False)\<rparr>"

definition demo_db :: kvdb where
  "demo_db = \<lparr>k_logfd = 1, k_fd = 0\<rparr>"

lemma demo_rep: "db_rep demo_host demo_db ''db'' Map.empty []"
  unfolding db_rep_def
  by (intro exI [of _ "0 :: nat"] exI [of _ "1 :: nat"] exI [of _ "\<lparr>f_bytes = [], f_mode = 420\<rparr>"])
    (simp add: demo_host_def demo_db_def owner_rw_def file_rep_def journal_def)

lemma demo_ok: "key_ok ''a''" "val_ok ''1''" "entry_ok (''a'', ''1'')" "entry_ok (''a'', ''22'')"
  by (simp_all add: entry_ok_def key_ok_def val_ok_def MDLK_def MDLV_def char_of_def)

lemma kvdb_put_updates_witness:
  "\<exists>h'. kvdb_put 0 demo_host demo_db ''a'' ''1'' = Some (Inr (0, h')) \<and>
     db_rep h' demo_db ''db'' [''a'' \<mapsto> ''1''] ([] @ [(''a'', ''1'')])"
  using kvdb_put_updates [OF demo_rep demo_ok(1,2)] .

lemma kvdb_get_answers_witness:
  "\<exists>h'. kvdb_get 0 demo_host demo_db ''a'' = Some (Inr (None, h'))"
  using kvdb_get_answers [OF demo_rep, of 0 "''a''"] by auto

lemma kvdb_survives_crash_witness:
  "\<exists>h1 h2 db2 h3. put_all 0 demo_host demo_db [(''a'', ''1''), (''a'', ''22'')] = Some (Inr h1) \<and>
     kvdb_open 0 0 (crash h1) demo_db ''db'' = Some (Inr (0, h2, db2)) \<and>
     kvdb_get 0 h2 db2 ''a'' = Some (Inr (Some ''22'', h3))"
  using kvdb_survives_crash [OF demo_rep, of "[(''a'', ''1''), (''a'', ''22'')]" 0 0 "''a''"] demo_ok
  by (simp add: demo_host_def upds_def)

text \<open>A crash while the second entry was being written to the journal and the first to the data file.\<close>

definition demo_crashed :: host where
  "demo_crashed = demo_host\<lparr>h_fd := [], h_file := (h_file demo_host)
     (''db.log'' \<mapsto> \<lparr>f_bytes = journal [(''a'', ''1'')] @ take 2 (entry_bytes (''a'', ''22'')), f_mode = 420\<rparr>)\<rparr>"


section \<open>Where the promise is not kept\<close>

text \<open>
  A torn value: \<open>check\<close> still holds the mark of the entry before, so the part of the value that reached
  the journal is stored.
\<close>

lemma torn_value_is_stored:
  assumes k: "key_ok k" and v: "val_ok v" "v \<noteq> []" and l: "1 \<le> l" "l \<le> 17" "length v + 2 \<le> DLV ! l"
    and mode: "owner_rw mode" and rep: "file_rep (fst h) m"
  shows "\<exists>lg h'. recovery_loop u mode COMMIT (pre @ k @ [KEY_END, char_of l] @ v, length pre) h = Some (Inr (lg, h')) \<and>
    file_rep (fst h') (m(k \<mapsto> v))"
proof -
  let ?bs = "pre @ k @ KEY_END # char_of l # v"
  have kk: "KEY_END \<notin> set k" "NUL \<notin> set k" "length k < MDLK" "k \<noteq> []" using k by (auto simp: key_ok_def)
  have r1: "read_key MDLK (?bs, length pre) = Inr (k, (?bs, length pre + length k + 1))"
    using read_key_at [OF kk(1-3) refl] by blast
  have r2: "read1 (?bs, length pre + length k + 1) = Some (char_of l, (?bs, length pre + length k + 2))"
    by (simp add: read1_def nth_append)
  have r3: "read_val (DLV ! l) (?bs, length pre + length k + 2) = Inr (v, (?bs, length ?bs))"
    using v l(3) by (simp add: read_val_def read_field_eof val_ok_def)
  have r4: "read_byte COMMIT (?bs, length ?bs) = (COMMIT, ?bs, length ?bs)" by (rule read_byte_eof) simp
  obtain bs p where h: "h = (bs, p)" by (cases h)
  obtain bs' q where s: "store_data u k v l (bs, p) = Some (Inr (bs', q))" "file_rep bs' (m(k \<mapsto> v))"
    using store_data_updates [OF _ k v(1) l, of bs m u p] rep h by auto
  have "recovery_loop u mode COMMIT (?bs, length pre) h = recovery_loop u mode COMMIT (?bs, length ?bs) (bs', q)"
    by (subst recovery_loop.simps)
      (simp only: r1 r2 r3 r4 kk(4) v(2) of_char_level [OF l(2)] dlv_ok [OF l(2)] rec_put_def mode h s(1)
        sum.case option.case prod.case if_True if_False not_True_eq_False refl)
  moreover have "recovery_loop u mode COMMIT (?bs, length ?bs) (bs', q) = Some (Inr ((?bs, length ?bs), (bs', q)))"
    by (subst recovery_loop.simps) (simp add: read_key_def MDLK_def)
  ultimately show ?thesis using s(2) by auto
qed

text \<open>An entry with an empty value ends the recovery: the entries behind it are lost.\<close>

lemma empty_value_ends_recovery:
  assumes k: "key_ok k"
  shows "\<exists>lg. recovery_loop u mode ck (pre @ journal_entry k [] 1 @ post, length pre) h = Some (Inr (lg, h))"
proof -
  let ?bs = "pre @ k @ KEY_END # char_of (1 :: nat) # VAL_END # char_of COMMIT # post"
  have kk: "KEY_END \<notin> set k" "NUL \<notin> set k" "length k < MDLK" "k \<noteq> []" using k by (auto simp: key_ok_def)
  have r1: "read_key MDLK (?bs, length pre) = Inr (k, (?bs, length pre + length k + 1))"
    using read_key_at [OF kk(1-3) refl] by blast
  have r2: "read1 (?bs, length pre + length k + 1) = Some (char_of (1 :: nat), (?bs, length pre + length k + 2))"
    by (simp add: read1_def nth_append)
  have r3: "read_val (DLV ! 1) (?bs, length pre + length k + 2) = Inr ([], (?bs, length pre + length k + 3))"
    by (simp add: read_val_def DLV_def)
  have r4: "of_char (char_of (1 :: nat)) = (1 :: nat)" "dlv 1 = Inr (DLV ! 1)" by (simp_all add: of_char_level dlv_ok)
  have bs: "pre @ journal_entry k [] 1 @ post = ?bs" by (simp add: journal_entry_def)
  have "recovery_loop u mode ck (?bs, length pre) h = Some (Inr ((?bs, length pre + length k + 3), h))"
    by (subst recovery_loop.simps)
      (simp only: r1 r2 r3 r4 kk(4) sum.case option.case prod.case if_True if_False refl)
  then show ?thesis unfolding bs by blast
qed

text \<open>
  A crash after the first byte of a key: the rest of the record is missing, and the level is the byte of
  the key that the first \<open>read\<close> stored, an index far outside \<open>DLV\<close>.
\<close>

lemma torn_record_faults: "store_data u ''b'' ''1'' 1 (''a'', 0) = Some (Inl Overrun)"
  by (simp add: store_data_def dlv_def DATA_def seek_set_def, subst store_loop.simps)
    (simp add: read_byte_def read1_def read_key_def seek_cur_def MDLK_def dlv_def)

text \<open>A key that starts with the byte \<open>0xe5\<close>, as many Chinese characters do, is never found.\<close>

lemma key_e5_lost:
  assumes "key = char_of DELETED # k" and "length key \<le> 129" and "v = ''1''"
  shows "get_loop key u (new_slot key v 1 @ [NUL], 0) = Some (Inr (None, (new_slot key v 1 @ [NUL], 195)))"
proof -
  let ?s = "\<lparr>s_live = False, s_key = key, s_lev = 1, s_val = v\<rparr>" and ?b = "new_slot key v 1"
  have len: "length ?b = 194" using assms by (simp add: new_slot_def DLV_def)
  have s: "slot_at ?s ?b"
    unfolding slot_at_def new_slot_def using assms
    by (intro conjI exI [of _ "key @ KEY_END # replicate (129 - length key) NUL"]
        exI [of _ "v @ VAL_END # replicate (DLV ! 1 - length v - 2) NUL"]) (simp_all add: MDLK_def DLV_def)
  show ?thesis using get_step [OF s, of key u "[]" "[NUL]"] get_end [of key 1 ?b] len by simp
qed

lemma get_empty_faults: "get_loop k DELETED ([], 0) = Some (Inl Overrun)"
  by (subst get_loop.simps) (simp add: read_byte_def read1_def seek_cur_def MDLK_def dlv_def)

lemma full_value_overruns:
  "VAL_END \<notin> set v \<Longrightarrow> NUL \<notin> set v \<Longrightarrow> length v = MDLV \<Longrightarrow>
    read_val MDLV (pre @ v @ VAL_END # r, length pre) = Inl Overrun"
  by (simp add: read_val_def read_field_end)

end
