(* ===== verification/Game.thy ===== *)
theory Game
  imports Prelude
begin

unbundle bit_operations_syntax

text \<open>
  The Gomoku game (\<open>amgame/src/game.c\<close>): board, cursors and turn, what a key does, the search for five
  in a row, and the rectangles that are drawn.  A round of the inner loop of \<open>main\<close> is a function of the
  key event and the time; messages are left out.
\<close>

section \<open>State\<close>

definition WHITE :: int where "WHITE = 1"
definition BLACK :: int where "BLACK = 2"
definition GRAY :: int where "GRAY = 0"
definition wins :: nat where "wins = 4"

record cursor =
  cx :: int
  cy :: int
  color :: int
  chess :: int

text \<open>\<open>chess_color\<close> by its two indices, and \<open>cur\<close> by its index; \<open>gw\<close> and \<open>gh\<close> are \<open>w\<close> and \<open>h\<close>.\<close>

record game =
  chess_color :: "int \<Rightarrow> int \<Rightarrow> int"
  cur :: "int \<Rightarrow> cursor"
  turn :: int
  begins :: bool
  flag :: int
  SIDE :: int
  cntchess :: int
  sum_seats :: int
  gw :: int
  gh :: int
  stop :: bool
  R_key :: bool

text \<open>Reading \<open>chess_color[x][y]\<close>, an array of 240 by 240.\<close>

definition in_array :: "int \<Rightarrow> int \<Rightarrow> bool" where
  "in_array x y \<longleftrightarrow> 0 \<le> x \<and> x < 240 \<and> 0 \<le> y \<and> y < 240"

definition cell :: "game \<Rightarrow> int \<Rightarrow> int \<Rightarrow> int res" where
  "cell g x y = rbind (require (in_array x y) Overrun) (\<lambda>_. Inr (chess_color g x y))"

abbreviation cols :: "game \<Rightarrow> int" where "cols g \<equiv> gw g div SIDE g"
abbreviation rows :: "game \<Rightarrow> int" where "rows g \<equiv> gh g div SIDE g"

section \<open>Starting a game\<close>

definition init_screen :: "int \<Rightarrow> int \<Rightarrow> game \<Rightarrow> game" where
  "init_screen width height g =
     (let g1 = g\<lparr>gw := width, gh := height, SIDE := 20\<rparr>
      in case find_idx (\<lambda>i. width mod int i = 0 \<and> height mod int i = 0) [21..<33] of
           None \<Rightarrow> g1
         | Some k \<Rightarrow> let i = int ([21..<33] ! k) in g1\<lparr>SIDE := i, sum_seats := (width div i) * (height div i)\<rparr>)"

definition init_cursor :: "game \<Rightarrow> game" where
  "init_cursor g = g\<lparr>cur := (cur g)(0 := \<lparr>cx = 0, cy = 0, color = WHITE, chess = WHITE\<rparr>,
       1 := \<lparr>cx = 0, cy = 0, color = BLACK, chess = BLACK\<rparr>),
     turn := 0, begins := False, flag := 0, cntchess := 0, stop := False, R_key := False\<rparr>"

section \<open>Drawing\<close>

definition gray :: "32 word" where "gray = 0x9d8f86"
definition line :: "32 word" where "line = 0x9d8f86 XOR 0xffffff"

text \<open>The pixel \<open>i\<close> of a rectangle of \<open>pw\<close> by \<open>ph\<close>: a diamond on gray, with lines at the right and below.\<close>

definition rect_pixel :: "int \<Rightarrow> int \<Rightarrow> 32 word \<Rightarrow> int \<Rightarrow> 32 word" where
  "rect_pixel pw ph col i =
     (let t = i div pw;
          p = (if t > 0 then
                 if i \<ge> t * pw + pw div 2 - t \<and> i \<le> t * pw + pw div 2 + t - 2 \<and> i < pw * (ph div 2 + 1) then col
                 else if i \<ge> pw * (ph div 2 + 1) \<and> i \<ge> t * pw - pw div 2 + t \<and> i \<le> t * pw + 3 * pw div 2 - t - 3 then col
                 else gray
               else gray)
      in if (i + 1) mod pw = 0 \<or> i > (ph - 1) * pw - 1 then line else p)"

type_synonym rect = "int \<times> int \<times> int \<times> int \<times> 32 word list"

definition draw_rects :: "int \<Rightarrow> int \<Rightarrow> int \<Rightarrow> int \<Rightarrow> 32 word \<Rightarrow> rect" where
  "draw_rects x y pw ph col = (x, y, pw, ph, map (rect_pixel pw ph col) [0..pw * ph - 1])"

text \<open>The squares of the two loops, \<open>x * SIDE <= w\<close> and \<open>y * SIDE <= h\<close>.\<close>

definition squares :: "game \<Rightarrow> (int \<times> int) list" where
  "squares g = concat (map (\<lambda>x. map (\<lambda>y. (x, y)) [0..rows g]) [0..cols g])"

definition splash :: "game \<Rightarrow> rect list \<times> game" where
  "splash g =
     (map (\<lambda>(x, y). draw_rects (x * SIDE g) (y * SIDE g) (SIDE g) (SIDE g) 0x9d8f86) (squares g),
      g\<lparr>chess_color := \<lambda>_ _. GRAY\<rparr>)"

definition draw_color :: "game \<Rightarrow> int \<Rightarrow> int \<Rightarrow> int \<Rightarrow> rect list" where
  "draw_color g x y c =
     (let d = draw_rects (x * SIDE g) (y * SIDE g) (SIDE g) (SIDE g)
      in if c = GRAY then [d 0x9d8f86] else if c = WHITE then [d 0xffffff] else if c = BLACK then [d 0x000000] else [])"

definition draw_square :: "game \<Rightarrow> int \<Rightarrow> int \<Rightarrow> rect list res" where
  "draw_square g x y =
     (let c = cur g (turn g)
      in if x \<noteq> cx c \<or> y \<noteq> cy c then rbind (cell g x y) (\<lambda>v. Inr (draw_color g x y v))
         else Inr (draw_color g x y (color c)))"

fun draw_all :: "game \<Rightarrow> (int \<times> int) list \<Rightarrow> rect list res" where
  "draw_all g [] = Inr []"
| "draw_all g ((x, y) # ps) = rbind (draw_square g x y) (\<lambda>r. rbind (draw_all g ps) (\<lambda>rs. Inr (r @ rs)))"

definition update_screen :: "game \<Rightarrow> rect list res" where
  "update_screen g = draw_all g (squares g)"

section \<open>Keys\<close>

text \<open>\<open>cur[turn]\<close> with its coordinates changed.\<close>

definition move_cursor :: "game \<Rightarrow> int \<Rightarrow> int \<Rightarrow> game" where
  "move_cursor g x y = g\<lparr>cur := (cur g)(turn g := (cur g (turn g))\<lparr>cx := x, cy := y\<rparr>)\<rparr>"

definition put_chess :: "game \<Rightarrow> game res" where
  "put_chess g =
     (let c = cur g (turn g)
      in rbind (cell g (cx c) (cy c)) (\<lambda>v.
         if v = GRAY
         then Inr (g\<lparr>chess_color := (chess_color g)(cx c := (chess_color g (cx c))(cy c := chess c)),
                cntchess := cntchess g + 1, turn := (if turn g = 0 then 1 else 0)\<rparr>)
         else Inr g))"

definition do_key :: "int \<Rightarrow> game \<Rightarrow> game res" where
  "do_key k g =
     (let c = cur g (turn g)
      in if \<not> begins g then Inr (if k \<noteq> 70 then g else g\<lparr>begins := True\<rparr>)
         else if k = 32 then Inr (if stop g then g\<lparr>R_key := True\<rparr> else g)
         else if k = 73 then Inr (move_cursor g (cx c) (cy c - (if cy c = 0 then 0 else 1)))
         else if k = 74 then Inr (move_cursor g (cx c) (cy c + (if cy c = rows g - 1 then 0 else 1)))
         else if k = 75 then Inr (move_cursor g (cx c - (if cx c = 0 then 0 else 1)) (cy c))
         else if k = 76 then Inr (move_cursor g (cx c + (if cx c = cols g - 1 then 0 else 1)) (cy c))
         else if k = 70 then put_chess g
         else Inr g)"

record key_event =
  keycode :: int
  keydown :: bool

definition read_keys :: "key_event \<Rightarrow> game \<Rightarrow> game res" where
  "read_keys e g = (if keycode e \<noteq> 0 \<and> keydown e then do_key (keycode e) g else Inr g)"

section \<open>The search for a winner\<close>

definition dx :: "int list" where "dx = [0, 0, - 1, 1, - 1, 1, 1, - 1]"
definition dy :: "int list" where "dy = [- 1, 1, 0, 0, - 1, 1, - 1, 1]"

text \<open>The inner loop: how many squares in direction \<open>(a, b)\<close> have color \<open>c\<close>, at most \<open>n\<close>.\<close>

fun run_len :: "game \<Rightarrow> int \<Rightarrow> int \<Rightarrow> int \<Rightarrow> int \<Rightarrow> int \<Rightarrow> nat \<Rightarrow> nat res" where
  "run_len g c a b tx ty 0 = Inr 0"
| "run_len g c a b tx ty (Suc n) =
     (let x = tx + a; y = ty + b
      in if x < 0 \<or> x > cols g - 1 \<or> y < 0 \<or> y > rows g - 1 then Inr 0
         else rbind (cell g x y) (\<lambda>v. if v = c then rbind (run_len g c a b x y n) (\<lambda>m. Inr (m + 1)) else Inr 0))"

text \<open>The loop over the directions \<open>i\<close>; \<open>prev\<close> is \<open>wcnt[i-1]\<close>.\<close>

fun check_loop :: "game \<Rightarrow> cursor \<Rightarrow> nat \<Rightarrow> nat list \<Rightarrow> bool res" where
  "check_loop g c prev [] = Inr False"
| "check_loop g c prev (i # is) =
     rbind (run_len g (chess c) (dx ! i) (dy ! i) (cx c) (cy c) wins) (\<lambda>n.
     if n = wins then Inr True
     else if i mod 2 = 1 \<and> n + prev \<ge> wins then Inr True
     else check_loop g c n is)"

definition check :: "game \<Rightarrow> game res" where
  "check g =
     (let c = cur g (turn g XOR 1)
      in rbind (check_loop g c 0 [0..<8]) (\<lambda>w. Inr (if w then g\<lparr>flag := if chess c = WHITE then 1 else 2\<rparr> else g)))"

section \<open>The loops of \<open>main\<close>\<close>

text \<open>The color of the cursor changes every half second; \<open>lst\<close> (\<open>last\<close> in the code) is the time of the lst change.\<close>

definition twinkle :: "64 word \<Rightarrow> 64 word \<Rightarrow> game \<Rightarrow> 64 word \<times> game" where
  "twinkle now lst g =
     (if now - lst > 500 then
        let c = cur g (turn g);
            col = (if turn g = 0 then if color c = WHITE then GRAY else WHITE
                   else if turn g = 1 then if color c = BLACK then GRAY else BLACK else color c)
        in (now, g\<lparr>cur := (cur g)(turn g := c\<lparr>color := col\<rparr>)\<rparr>)
      else (lst, g))"

definition end_round :: "game \<Rightarrow> game" where
  "end_round g =
     (let g1 = (if flag g = 1 \<or> flag g = 2 then g\<lparr>stop := True\<rparr> else g)
      in if cntchess g1 = sum_seats g1 \<and> flag g1 = 0 then g1\<lparr>stop := True\<rparr> else g1)"

text \<open>One round of the inner loop: \<open>False\<close> when it is left to start a new game.\<close>

definition game_round :: "key_event \<Rightarrow> 64 word \<Rightarrow> 64 word \<times> game \<Rightarrow> (bool \<times> rect list \<times> 64 word \<times> game) res" where
  "game_round e now = (\<lambda>(lst, g).
     rbind (read_keys e g) (\<lambda>g1.
     if \<not> begins g1 then Inr (True, [], lst, g1)
     else if stop g1 then Inr (\<not> R_key g1, [], lst, g1)
     else
       (case twinkle now lst g1 of (lst', g2) \<Rightarrow>
        rbind (update_screen g2) (\<lambda>rs. rbind (check g2) (\<lambda>g3. Inr (True, rs, lst', end_round g3))))))"

text \<open>The start of the outer loop.\<close>

definition new_game :: "int \<Rightarrow> int \<Rightarrow> game \<Rightarrow> rect list \<times> 64 word \<times> game" where
  "new_game width height g = (case splash (init_screen width height g) of (rs, g1) \<Rightarrow> (rs, 0, init_cursor g1))"

end
