(* ===== verification/Game_Props.thy ===== *)
theory Game_Props
  imports Game
begin

text \<open>
  The Gomoku game stops exactly when it should: in every state that the loop of \<open>main\<close> reaches, all
  accesses of the board are inside the array, and a round finds five stones of a color in a row,
  anywhere on the board, by looking only at the lines through the last stone.
\<close>

section \<open>Five in a row\<close>

definition on_board :: "game \<Rightarrow> int \<Rightarrow> int \<Rightarrow> bool" where
  "on_board g x y \<longleftrightarrow> 0 \<le> x \<and> x < cols g \<and> 0 \<le> y \<and> y < rows g"

definition stone :: "game \<Rightarrow> int \<Rightarrow> int \<Rightarrow> int \<Rightarrow> bool" where
  "stone g c x y \<longleftrightarrow> on_board g x y \<and> chess_color g x y = c"

definition line5 :: "game \<Rightarrow> int \<Rightarrow> int \<Rightarrow> int \<Rightarrow> int \<Rightarrow> int \<Rightarrow> bool" where
  "line5 g c x y a b \<longleftrightarrow> (\<forall>k \<in> {0..4}. stone g c (x + k * a) (y + k * b))"

definition axes :: "(int \<times> int) set" where
  "axes = {(0, 1), (1, 0), (1, 1), (1, - 1)}"

definition five :: "game \<Rightarrow> int \<Rightarrow> bool" where
  "five g c \<longleftrightarrow> (\<exists>x y. \<exists>(a, b) \<in> axes. line5 g c x y a b)"

text \<open>The size of the board for a screen of less than 4800 pixels each way.\<close>

definition sized :: "game \<Rightarrow> bool" where
  "sized g \<longleftrightarrow> 0 < cols g \<and> cols g < 240 \<and> 0 < rows g \<and> rows g < 240"

lemma cell_on_board: "sized g \<Longrightarrow> on_board g x y \<Longrightarrow> cell g x y = Inr (chess_color g x y)"
  by (simp add: cell_def sized_def on_board_def in_array_def)

section \<open>The search\<close>

text \<open>The length of the run of stones from \<open>(x, y)\<close> in direction \<open>(a, b)\<close>, as far as 4.\<close>

definition reach :: "game \<Rightarrow> int \<Rightarrow> int \<Rightarrow> int \<Rightarrow> int \<Rightarrow> int \<Rightarrow> int \<Rightarrow> bool" where
  "reach g c x y a b j \<longleftrightarrow> (\<forall>k \<in> {1..j}. stone g c (x + k * a) (y + k * b))"

lemma reach_0 [simp]: "reach g c x y a b 0"
  by (simp add: reach_def)

lemma ball_from_1: "0 \<le> n \<Longrightarrow> (\<forall>k \<in> {1..1 + n :: int}. P k) \<longleftrightarrow> P 1 \<and> (\<forall>k \<in> {1..n}. P (k + 1))"
  by (auto simp: Ball_def) (metis add_le_cancel_left diff_add_cancel diff_ge_0_iff_ge le_less zle_diff1_eq add.commute zless_add1_eq)

lemma reach_Suc:
  "reach g c x y a b (int (Suc j)) \<longleftrightarrow> stone g c (x + a) (y + b) \<and> reach g c (x + a) (y + b) a b (int j)"
proof -
  have "x + (k + 1) * a = x + a + k * a" "y + (k + 1) * b = y + b + k * b" for k by (simp_all add: algebra_simps)
  moreover have "int (Suc j) = 1 + int j" by simp
  ultimately show ?thesis by (simp only: reach_def ball_from_1 of_nat_0_le_iff) simp
qed

lemma run_len_reach:
  assumes "sized g"
  shows "\<exists>m. run_len g c a b x y n = Inr m \<and> m \<le> n \<and> (\<forall>j \<le> n. j \<le> m \<longleftrightarrow> reach g c x y a b (int j))"
proof (induction n arbitrary: x y)
  case 0
  then show ?case by simp
next
  case (Suc n)
  show ?case
  proof (cases "stone g c (x + a) (y + b)")
    case True
    then have on: "on_board g (x + a) (y + b)" "chess_color g (x + a) (y + b) = c" by (simp_all add: stone_def)
    obtain m where m: "run_len g c a b (x + a) (y + b) n = Inr m" "m \<le> n"
        "\<forall>j \<le> n. j \<le> m \<longleftrightarrow> reach g c (x + a) (y + b) a b (int j)"
      using Suc by blast
    have "run_len g c a b x y (Suc n) = Inr (m + 1)"
      using on m(1) cell_on_board [OF assms on(1)] by (simp add: on_board_def)
    moreover have "j \<le> m + 1 \<longleftrightarrow> reach g c x y a b (int j)" if "j \<le> Suc n" for j
      using that m(3) True by (cases j) (simp_all add: reach_Suc del: of_nat_Suc)
    ultimately show ?thesis using m(2) by (intro exI [of _ "m + 1"]) simp
  next
    case False
    then have "run_len g c a b x y (Suc n) = Inr 0"
      using cell_on_board [OF assms, of "x + a" "y + b"] by (auto simp: stone_def on_board_def Let_def)
    moreover have "j \<le> 0 \<longleftrightarrow> reach g c x y a b (int j)" if "j \<le> Suc n" for j
      using False by (cases j) (simp_all add: reach_Suc del: of_nat_Suc)
    ultimately show ?thesis by (intro exI [of _ 0]) simp
  qed
qed

text \<open>Two opposite runs that reach four together make five with the stone in the middle.\<close>

lemma runs_make_five:
  assumes mid: "stone g c x y" and A: "m \<le> 4" "\<forall>j \<le> 4. j \<le> m \<longleftrightarrow> reach g c x y a b (int j)"
    and B: "n \<le> 4" "\<forall>j \<le> 4. j \<le> n \<longleftrightarrow> reach g c x y (- a) (- b) (int j)"
  shows "(4 :: nat) \<le> m + n \<longleftrightarrow> (\<exists>s \<in> {0..4}. line5 g c (x - s * a) (y - s * b) a b)"
proof
  assume le: "4 \<le> m + n"
  have "line5 g c (x - int n * a) (y - int n * b) a b"
    unfolding line5_def
  proof
    fix k :: int
    assume k: "k \<in> {0..4}"
    have rA: "reach g c x y a b (int m)" "reach g c x y (- a) (- b) (int n)" using A B by auto
    consider "k = int n" | "k - int n \<in> {1..int m}" | "int n - k \<in> {1..int n}" using k le by fastforce
    then show "stone g c (x - int n * a + k * a) (y - int n * b + k * b)"
    proof cases
      case 1
      then show ?thesis using mid by simp
    next
      case 2
      with rA(1) have "stone g c (x + (k - int n) * a) (y + (k - int n) * b)" unfolding reach_def by blast
      then show ?thesis by (simp add: algebra_simps)
    next
      case 3
      with rA(2) have "stone g c (x + (int n - k) * - a) (y + (int n - k) * - b)" unfolding reach_def by blast
      then show ?thesis by (simp add: algebra_simps)
    qed
  qed
  then show "\<exists>s \<in> {0..4}. line5 g c (x - s * a) (y - s * b) a b" using B(1) by (intro bexI [of _ "int n"]) auto
next
  assume "\<exists>s \<in> {0..4}. line5 g c (x - s * a) (y - s * b) a b"
  then obtain s where s: "s \<in> {0..4}" "line5 g c (x - s * a) (y - s * b) a b" by blast
  have st: "stone g c (x + (k - s) * a) (y + (k - s) * b)" if "k \<in> {0..4}" for k
  proof -
    have "x - s * a + k * a = x + (k - s) * a" "y - s * b + k * b = y + (k - s) * b" by (simp_all add: algebra_simps)
    then show ?thesis using s(2) that unfolding line5_def by metis
  qed
  have "reach g c x y a b (4 - s)"
    unfolding reach_def using st [of "_ + s"] s(1) by force
  moreover have "reach g c x y (- a) (- b) s"
    unfolding reach_def using st [of "s - _"] s(1) by (force simp: algebra_simps)
  ultimately have "reach g c x y a b (int (nat (4 - s)))" "reach g c x y (- a) (- b) (int (nat s))" using s(1) by simp_all
  moreover have "nat (4 - s) \<le> 4" "nat s \<le> 4" using s(1) by auto
  ultimately have "nat (4 - s) \<le> m" "nat s \<le> n" using A(2) B(2) by blast+
  then show "4 \<le> m + n" using s(1) by auto
qed


lemma dirs: "[0..<8] = [0, 1, 2, 3, 4, 5, 6, 7 :: nat]"
  by (simp add: upt_rec)

lemma check_loop_runs:
  assumes "\<And>i. i < 8 \<Longrightarrow> run_len g (chess c) (dx ! i) (dy ! i) (cx c) (cy c) wins = Inr (r i)"
    and "\<And>i. i < 8 \<Longrightarrow> r i \<le> 4"
  shows "check_loop g c 0 [0..<8] = Inr (4 \<le> r 1 + r 0 \<or> 4 \<le> r 3 + r 2 \<or> 4 \<le> r 5 + r 4 \<or> 4 \<le> r 6 + r 7)"
proof -
  have R: "run_len g (chess c) (dx ! i) (dy ! i) (cx c) (cy c) 4 = Inr (r i)" if "i < 8" for i
    using assms(1) [OF that] by (simp add: wins_def)
  have L: "r 0 \<le> 4" "r 1 \<le> 4" "r 2 \<le> 4" "r 3 \<le> 4" "r 4 \<le> 4" "r 5 \<le> 4" "r 6 \<le> 4" "r 7 \<le> 4"
    using assms(2) by simp_all
  have W: "wins = 4" by (simp add: wins_def)
  show ?thesis
    unfolding dirs check_loop.simps by (use L in \<open>simp add: R W\<close>)
qed

text \<open>On the last stone of a color, the search finds exactly the fives through it.\<close>

lemma check_loop_five:
  assumes g: "sized g" and mid: "stone g (chess c) (cx c) (cy c)"
  shows "check_loop g c 0 [0..<8] =
    Inr (\<exists>(a, b) \<in> axes. \<exists>s \<in> {0..4}. line5 g (chess c) (cx c - s * a) (cy c - s * b) a b)"
proof -
  have "\<forall>i. \<exists>m. run_len g (chess c) (dx ! i) (dy ! i) (cx c) (cy c) 4 = Inr m \<and> m \<le> 4 \<and>
      (\<forall>j \<le> 4. j \<le> m \<longleftrightarrow> reach g (chess c) (cx c) (cy c) (dx ! i) (dy ! i) (int j))"
    using run_len_reach [OF g] by blast
  then obtain r where r: "\<And>i. run_len g (chess c) (dx ! i) (dy ! i) (cx c) (cy c) 4 = Inr (r i)" "\<And>i. r i \<le> 4"
      "\<And>i. \<forall>j \<le> 4. j \<le> r i \<longleftrightarrow> reach g (chess c) (cx c) (cy c) (dx ! i) (dy ! i) (int j)"
    by metis
  have two: "4 \<le> r i + r j \<longleftrightarrow> (\<exists>s \<in> {0..4}. line5 g (chess c) (cx c - s * dx ! i) (cy c - s * dy ! i) (dx ! i) (dy ! i))"
    if "dx ! j = - (dx ! i)" "dy ! j = - (dy ! i)" for i j
    using runs_make_five [OF mid r(2) [of i] r(3) [of i] r(2) [of j]] r(3) [of j] unfolding that by simp
  have "check_loop g c 0 [0..<8] = Inr (4 \<le> r 1 + r 0 \<or> 4 \<le> r 3 + r 2 \<or> 4 \<le> r 5 + r 4 \<or> 4 \<le> r 6 + r 7)"
    using r(1,2) by (intro check_loop_runs) (simp_all add: wins_def)
  also have "\<dots> = Inr (\<exists>(a, b) \<in> axes. \<exists>s \<in> {0..4}. line5 g (chess c) (cx c - s * a) (cy c - s * b) a b)"
    using two [of 0 1] two [of 2 3] two [of 4 5] two [of 7 6] by (simp add: dx_def dy_def axes_def)
  finally show ?thesis .
qed

lemma check_loop_none:
  assumes g: "sized g" and none: "\<forall>x y. \<not> stone g (chess c) x y"
  shows "check_loop g c 0 [0..<8] = Inr False"
proof -
  have "run_len g (chess c) (dx ! i) (dy ! i) (cx c) (cy c) wins = Inr 0" for i
  proof -
    obtain m where m: "run_len g (chess c) (dx ! i) (dy ! i) (cx c) (cy c) wins = Inr m"
        "\<forall>j \<le> wins. j \<le> m \<longleftrightarrow> reach g (chess c) (cx c) (cy c) (dx ! i) (dy ! i) (int j)"
      using run_len_reach [OF g] by blast
    have "\<not> reach g (chess c) (cx c) (cy c) (dx ! i) (dy ! i) (int (Suc 0))" using none by (simp only: reach_Suc) simp
    then have "\<not> Suc 0 \<le> m" using m(2) by (simp add: wins_def)
    then show ?thesis using m(1) by simp
  qed
  then show ?thesis using check_loop_runs [of g c "\<lambda>_. 0"] by simp
qed


section \<open>The states of a game\<close>

text \<open>\<open>mover\<close> is the cursor of the player who placed the last stone.\<close>

abbreviation mover :: "game \<Rightarrow> cursor" where "mover g \<equiv> cur g (1 - turn g)"

definition empty_board :: "game \<Rightarrow> bool" where
  "empty_board g \<longleftrightarrow> (\<forall>x y. chess_color g x y = GRAY)"

definition wf_game :: "game \<Rightarrow> bool" where
  "wf_game g \<longleftrightarrow> sized g \<and> turn g \<in> {0, 1} \<and>
     on_board g (cx (cur g 0)) (cy (cur g 0)) \<and> on_board g (cx (cur g 1)) (cy (cur g 1)) \<and>
     chess (cur g 0) = WHITE \<and> chess (cur g 1) = BLACK \<and>
     (\<forall>x y. chess_color g x y \<in> {GRAY, WHITE, BLACK}) \<and>
     (stone g (chess (mover g)) (cx (mover g)) (cy (mover g)) \<or> (\<forall>x y. \<not> stone g (chess (mover g)) x y)) \<and>
     (\<not> begins g \<longrightarrow> empty_board g \<and> \<not> stop g \<and> flag g = 0)"

definition judged :: "game \<Rightarrow> bool" where
  "judged g \<longleftrightarrow> (\<not> stop g \<longrightarrow> flag g = 0 \<and> \<not> five g WHITE \<and> \<not> five g BLACK) \<and>
     (flag g = 1 \<longrightarrow> five g WHITE) \<and> (flag g = 2 \<longrightarrow> five g BLACK)"

text \<open>Fives can only be new, through the last stone.\<close>

definition pending :: "game \<Rightarrow> bool" where
  "pending g \<longleftrightarrow> (\<forall>c \<in> {WHITE, BLACK}. \<forall>x y. \<forall>(a, b) \<in> axes. line5 g c x y a b \<longrightarrow>
     c = chess (mover g) \<and> (\<exists>s \<in> {0..4}. x = cx (mover g) - s * a \<and> y = cy (mover g) - s * b))"

text \<open>What a key leaves alone.\<close>

definition keeps :: "game \<Rightarrow> game \<Rightarrow> bool" where
  "keeps g g' \<longleftrightarrow> gw g' = gw g \<and> gh g' = gh g \<and> SIDE g' = SIDE g \<and> sum_seats g' = sum_seats g \<and>
     flag g' = flag g \<and> stop g' = stop g \<and> (begins g \<longrightarrow> begins g') \<and>
     (\<forall>c x y. c \<noteq> GRAY \<longrightarrow> stone g c x y \<longrightarrow> stone g' c x y)"

lemmas colors = WHITE_def BLACK_def GRAY_def

lemma keeps_refl [simp]: "keeps g g"
  by (simp add: keeps_def)

lemma keeps_five: "keeps g g' \<Longrightarrow> c \<noteq> GRAY \<Longrightarrow> five g c \<Longrightarrow> five g' c"
  unfolding five_def line5_def keeps_def by fast

lemma no_five_pending: "\<not> five g WHITE \<Longrightarrow> \<not> five g BLACK \<Longrightarrow> pending g"
  unfolding pending_def five_def by fast

lemma turn_xor: "turn g \<in> {0, 1} \<Longrightarrow> cur g (turn g XOR 1) = mover g"
  by auto

lemma stone_same: "chess_color g' = chess_color g \<Longrightarrow> gw g' = gw g \<Longrightarrow> gh g' = gh g \<Longrightarrow> SIDE g' = SIDE g \<Longrightarrow>
    stone g' = stone g \<and> five g' = five g \<and> on_board g' = on_board g \<and> line5 g' = line5 g"
  by (simp add: fun_eq_iff stone_def on_board_def five_def line5_def)

lemma move_cursor_ok:
  assumes g: "wf_game g" and xy: "on_board g x y"
  shows "wf_game (move_cursor g x y) \<and> keeps g (move_cursor g x y) \<and> five (move_cursor g x y) = five g"
proof -
  let ?g = "move_cursor g x y"
  have S: "stone ?g = stone g \<and> five ?g = five g \<and> on_board ?g = on_board g \<and> line5 ?g = line5 g"
    by (rule stone_same) (simp_all add: move_cursor_def)
  have "turn g = 0 \<or> turn g = 1" using g by (simp add: wf_game_def)
  then have "wf_game ?g"
    using g xy S unfolding wf_game_def by (auto simp: move_cursor_def sized_def empty_board_def)
  then show ?thesis using S by (simp add: keeps_def move_cursor_def)
qed

lemma put_chess_ok:
  assumes g: "wf_game g" "begins g"
  shows "\<exists>g'. put_chess g = Inr g' \<and> wf_game g' \<and> keeps g g' \<and>
    (\<not> five g WHITE \<longrightarrow> \<not> five g BLACK \<longrightarrow> pending g')"
proof -
  let ?c = "cur g (turn g)"
  have t: "turn g = 0 \<or> turn g = 1" using g by (simp add: wf_game_def)
  have on: "on_board g (cx ?c) (cy ?c)" using g t by (auto simp: wf_game_def)
  have sz: "sized g" using g by (simp add: wf_game_def)
  have v: "cell g (cx ?c) (cy ?c) = Inr (chess_color g (cx ?c) (cy ?c))" using cell_on_board [OF sz on] .
  show ?thesis
  proof (cases "chess_color g (cx ?c) (cy ?c) = GRAY")
    case False
    then have "put_chess g = Inr g" using v by (simp add: put_chess_def Let_def)
    then show ?thesis using g no_five_pending by auto
  next
    case True
    define g' where "g' = g\<lparr>chess_color := (chess_color g)(cx ?c := (chess_color g (cx ?c))(cy ?c := chess ?c)),
        cntchess := cntchess g + 1, turn := (if turn g = 0 then 1 else 0)\<rparr>"
    have run: "put_chess g = Inr g'" using v True by (simp add: put_chess_def Let_def g'_def)
    have cc: "chess ?c \<in> {WHITE, BLACK}" using g t by (auto simp: wf_game_def)
    have mv: "mover g' = ?c" using t by (auto simp: g'_def)
    have ob: "on_board g' = on_board g" by (simp add: fun_eq_iff on_board_def g'_def)
    have st: "stone g' c x y \<longleftrightarrow> (if x = cx ?c \<and> y = cy ?c then c = chess ?c else stone g c x y)" for c x y
      using on ob by (auto simp: stone_def) (auto simp: g'_def split: if_splits)
    have "wf_game g'"
    proof -
      have "stone g' (chess (mover g')) (cx (mover g')) (cy (mover g'))" unfolding mv st by simp
      moreover have "\<forall>x y. chess_color g' x y \<in> {GRAY, WHITE, BLACK}" using g cc by (auto simp: g'_def wf_game_def)
      moreover have "sized g'" "turn g' \<in> {0, 1}" "cur g' = cur g" "begins g'" using sz t g(2) by (auto simp: g'_def sized_def)
      ultimately show ?thesis using g(1) ob unfolding wf_game_def by simp
    qed
    moreover have "keeps g g'"
    proof -
      have "stone g' c x y" if "c \<noteq> GRAY" "stone g c x y" for c x y
        using that True st [of c x y] by (auto simp: stone_def)
      then show ?thesis by (simp add: keeps_def) (simp add: g'_def)
    qed
    moreover have "pending g'" if no: "\<not> five g WHITE" "\<not> five g BLACK"
      unfolding pending_def
    proof (intro ballI allI, clarify)
      fix c x y a b
      assume c: "c \<in> {WHITE, BLACK}" and ab: "(a, b) \<in> axes" and l: "line5 g' c x y a b"
      have "\<not> line5 g c x y a b" using no c ab unfolding five_def by fast
      then obtain k where k: "k \<in> {0..4}" "\<not> stone g c (x + k * a) (y + k * b)" by (auto simp: line5_def)
      moreover have "stone g' c (x + k * a) (y + k * b)" using l k(1) by (simp add: line5_def)
      ultimately have "x + k * a = cx ?c \<and> y + k * b = cy ?c \<and> c = chess ?c" using st by metis
      then show "c = chess (mover g') \<and> (\<exists>s \<in> {0..4}. x = cx (mover g') - s * a \<and> y = cy (mover g') - s * b)"
        unfolding mv using k(1) by (intro conjI bexI [of _ k]) auto
    qed
    ultimately show ?thesis using run by blast
  qed
qed

lemma same_board:
  assumes g: "wf_game g" and same: "chess_color g' = chess_color g" "turn g' = turn g" "gw g' = gw g" "gh g' = gh g"
      "SIDE g' = SIDE g" "flag g' = flag g" "stop g' = stop g" "sum_seats g' = sum_seats g" "begins g \<longrightarrow> begins g'"
    and cur: "\<forall>i. cx (cur g' i) = cx (cur g i) \<and> cy (cur g' i) = cy (cur g i) \<and> chess (cur g' i) = chess (cur g i)"
  shows "wf_game g'" and "keeps g g'" and "five g' = five g" and "pending g \<Longrightarrow> pending g'"
proof -
  have S: "stone g' = stone g \<and> five g' = five g \<and> on_board g' = on_board g \<and> line5 g' = line5 g"
    using same by (intro stone_same) simp_all
  moreover have m: "chess (mover g') = chess (mover g)" "cx (mover g') = cx (mover g)" "cy (mover g') = cy (mover g)"
    "sized g' = sized g" "empty_board g' = empty_board g" using same cur by (simp_all add: sized_def empty_board_def)
  moreover have "\<not> begins g' \<longrightarrow> empty_board g \<and> \<not> stop g \<and> flag g = 0" using g same(9) unfolding wf_game_def by blast
  ultimately show "wf_game g'" using g same(1-8) cur unfolding wf_game_def by (simp only:) blast
  show "keeps g g'" "five g' = five g" "pending g \<Longrightarrow> pending g'"
    using S same cur by (simp_all add: keeps_def pending_def)
qed

lemma do_key_ok:
  assumes g: "wf_game g"
  shows "\<exists>g'. do_key k g = Inr g' \<and> wf_game g' \<and> keeps g g' \<and> (\<not> five g WHITE \<longrightarrow> \<not> five g BLACK \<longrightarrow> pending g')"
proof -
  let ?c = "cur g (turn g)"
  have t: "turn g = 0 \<or> turn g = 1" using g by (simp add: wf_game_def)
  have on: "on_board g (cx ?c) (cy ?c)" using g t by (auto simp: wf_game_def)
  have ok: ?thesis if "do_key k g = Inr g'" "wf_game g'" "keeps g g'" "five g' = five g" for g'
    using that no_five_pending [of g'] by auto
  show ?thesis
  proof (cases "begins g")
    case False
    then have "do_key k g = Inr g \<or> do_key k g = Inr (g\<lparr>begins := True\<rparr>)" by (simp add: do_key_def)
    then show ?thesis
    proof
      assume d: "do_key k g = Inr g"
      show ?thesis using g by (intro ok [OF d]) simp_all
    next
      assume d: "do_key k g = Inr (g\<lparr>begins := True\<rparr>)"
      show ?thesis by (intro ok [OF d] same_board [OF g]) simp_all
    qed
  next
    case True
    have mv: ?thesis if "do_key k g = Inr (move_cursor g x y)" "on_board g x y" for x y
      using move_cursor_ok [OF g that(2)] by (intro ok [OF that(1)]) simp_all
    consider "k = 32" | "k = 73" | "k = 74" | "k = 75" | "k = 76" | "k = 70" | "k \<notin> {32, 70, 73, 74, 75, 76}" by blast
    then show ?thesis
    proof cases
      case 1
      then have "do_key k g = Inr g \<or> do_key k g = Inr (g\<lparr>R_key := True\<rparr>)" using True by (simp add: do_key_def)
      then show ?thesis
      proof
        assume d: "do_key k g = Inr g"
        show ?thesis using g by (intro ok [OF d]) simp_all
      next
        assume d: "do_key k g = Inr (g\<lparr>R_key := True\<rparr>)"
        show ?thesis by (intro ok [OF d] same_board [OF g]) simp_all
      qed
    next
      case 2
      then show ?thesis using True on by (intro mv [of "cx ?c" "cy ?c - (if cy ?c = 0 then 0 else 1)"])
          (auto simp: do_key_def Let_def on_board_def)
    next
      case 3
      then show ?thesis using True on by (intro mv [of "cx ?c" "cy ?c + (if cy ?c = rows g - 1 then 0 else 1)"])
          (auto simp: do_key_def Let_def on_board_def)
    next
      case 4
      then show ?thesis using True on by (intro mv [of "cx ?c - (if cx ?c = 0 then 0 else 1)" "cy ?c"])
          (auto simp: do_key_def Let_def on_board_def)
    next
      case 5
      then show ?thesis using True on by (intro mv [of "cx ?c + (if cx ?c = cols g - 1 then 0 else 1)" "cy ?c"])
          (auto simp: do_key_def Let_def on_board_def)
    next
      case 6
      then show ?thesis using True put_chess_ok [OF g True] by (simp add: do_key_def)
    next
      case 7
      then have "do_key k g = Inr g" using True by (simp add: do_key_def Let_def)
      then show ?thesis using g by (intro ok) simp_all
    qed
  qed
qed

section \<open>A round\<close>

lemma draw_all_ok: "\<forall>(x, y) \<in> set ps. in_array x y \<Longrightarrow> \<exists>rs. draw_all g ps = Inr rs"
proof (induction ps)
  case (Cons p ps)
  obtain x y where p: "p = (x, y)" by (cases p)
  then have "\<exists>r. draw_square g x y = Inr r" using Cons.prems by (auto simp: draw_square_def cell_def Let_def)
  with Cons p show ?case by auto
qed simp

lemma update_screen_ok:
  assumes "sized g"
  shows "\<exists>rs. update_screen g = Inr rs"
proof -
  have "\<forall>(x, y) \<in> set (squares g). in_array x y" using assms by (auto simp: squares_def sized_def in_array_def)
  then show ?thesis unfolding update_screen_def by (rule draw_all_ok)
qed

lemma read_keys_ok:
  assumes "wf_game g"
  shows "\<exists>g'. read_keys e g = Inr g' \<and> wf_game g' \<and> keeps g g' \<and> (\<not> five g WHITE \<longrightarrow> \<not> five g BLACK \<longrightarrow> pending g')"
  using do_key_ok [OF assms] assms no_five_pending by (auto simp: read_keys_def)

definition winner :: "game \<Rightarrow> int" where
  "winner g = (if five g WHITE then 1 else if five g BLACK then 2 else 0)"

lemma check_ok:
  assumes g: "wf_game g" "pending g" "flag g = 0"
  shows "check g = Inr (g\<lparr>flag := winner g\<rparr>)"
proof -
  let ?c = "mover g"
  have t: "turn g \<in> {0, 1}" and sz: "sized g" using g(1) by (auto simp: wf_game_def)
  have ch: "chess ?c = WHITE \<or> chess ?c = BLACK" using g(1) t by (auto simp: wf_game_def)
  have other: "\<not> five g c" if "c \<in> {WHITE, BLACK}" "c \<noteq> chess ?c" for c
    using g(2) that unfolding pending_def five_def by fast
  have "check_loop g ?c 0 [0..<8] = Inr (five g (chess ?c))"
  proof (cases "stone g (chess ?c) (cx ?c) (cy ?c)")
    case True
    have "five g (chess ?c) \<longleftrightarrow> (\<exists>(a, b) \<in> axes. \<exists>s \<in> {0..4}. line5 g (chess ?c) (cx ?c - s * a) (cy ?c - s * b) a b)"
    proof
      assume "five g (chess ?c)"
      then obtain x y a b where l: "(a, b) \<in> axes" "line5 g (chess ?c) x y a b" unfolding five_def by blast
      moreover from l ch g(2) have "\<exists>s \<in> {0..4}. x = cx ?c - s * a \<and> y = cy ?c - s * b" unfolding pending_def by blast
      ultimately show "\<exists>(a, b) \<in> axes. \<exists>s \<in> {0..4}. line5 g (chess ?c) (cx ?c - s * a) (cy ?c - s * b) a b" by blast
    qed (auto simp: five_def)
    then show ?thesis using check_loop_five [OF sz True] by simp
  next
    case False
    then have none: "\<forall>x y. \<not> stone g (chess ?c) x y" using g(1) by (simp add: wf_game_def)
    have "\<not> five g (chess ?c)"
    proof
      assume "five g (chess ?c)"
      then obtain x y a b where "line5 g (chess ?c) x y a b" unfolding five_def by blast
      then have "stone g (chess ?c) (x + 0 * a) (y + 0 * b)" unfolding line5_def by (rule bspec) simp
      then show False using none by blast
    qed
    then show ?thesis using check_loop_none [OF sz none] by simp
  qed
  then have run: "check g = Inr (if five g (chess ?c) then g\<lparr>flag := if chess ?c = WHITE then 1 else 2\<rparr> else g)"
    using turn_xor [OF t] by (simp add: check_def Let_def)
  have "g\<lparr>flag := 0\<rparr> = g" using g(3) by simp
  then show ?thesis using run ch other by (auto simp: winner_def colors)
qed

lemma twinkle_ok:
  assumes g: "wf_game g" "twinkle now lst g = (lst', g')"
  shows "wf_game g'" and "keeps g g'" and "five g' = five g" and "pending g \<Longrightarrow> pending g'"
    and "begins g' = begins g" and "cntchess g' = cntchess g"
proof -
  have eq: "chess_color g' = chess_color g" "turn g' = turn g" "gw g' = gw g" "gh g' = gh g" "SIDE g' = SIDE g"
    "flag g' = flag g" "stop g' = stop g" "sum_seats g' = sum_seats g" "begins g' = begins g" "cntchess g' = cntchess g"
    "\<forall>i. cx (cur g' i) = cx (cur g i) \<and> cy (cur g' i) = cy (cur g i) \<and> chess (cur g' i) = chess (cur g i)"
    using g(2) by (auto simp: twinkle_def Let_def split: if_splits)
  then show "wf_game g'" "keeps g g'" "five g' = five g" "pending g \<Longrightarrow> pending g'"
    using same_board [OF g(1), of g'] by simp_all
  show "begins g' = begins g" "cntchess g' = cntchess g" by (rule eq)+
qed

text \<open>What a round does to the verdict, from a state that is still open.\<close>

lemma game_round_open:
  assumes g: "wf_game g" "judged g" "\<not> stop g"
  shows "\<exists>rs lst' g'. game_round e now (lst, g) = Inr (True, rs, lst', g') \<and> wf_game g' \<and> judged g' \<and>
    flag g' = winner g' \<and> (stop g' \<longleftrightarrow> begins g' \<and> (flag g' \<noteq> 0 \<or> cntchess g' = sum_seats g'))"
proof -
  have no: "flag g = 0" "\<not> five g WHITE" "\<not> five g BLACK" using g by (auto simp: judged_def)
  obtain g1 where g1: "read_keys e g = Inr g1" "wf_game g1" "keeps g g1" "pending g1"
    using read_keys_ok [OF g(1)] no by blast
  have f1: "flag g1 = 0" "\<not> stop g1" using g1(3) no(1) g(3) by (simp_all add: keeps_def)
  show ?thesis
  proof (cases "begins g1")
    case False
    then have "empty_board g1" using g1(2) by (simp add: wf_game_def)
    have "\<not> five g1 c" if "c \<noteq> GRAY" for c
    proof
      assume "five g1 c"
      then obtain x y a b where "line5 g1 c x y a b" unfolding five_def by blast
      then have "stone g1 c (x + 0 * a) (y + 0 * b)" unfolding line5_def by (rule bspec) simp
      then show False using \<open>empty_board g1\<close> that by (simp add: stone_def empty_board_def)
    qed
    then have "\<not> five g1 WHITE" "\<not> five g1 BLACK" by (simp_all add: colors)
    then have "judged g1" "flag g1 = winner g1" using f1 by (simp_all add: judged_def winner_def)
    then show ?thesis using g1 f1 False by (simp add: game_round_def)
  next
    case True
    obtain lst' g2 where tw: "twinkle now lst g1 = (lst', g2)" by (cases "twinkle now lst g1")
    note T = twinkle_ok [OF g1(2) tw]
    obtain rs where rs: "update_screen g2 = Inr rs" using update_screen_ok [of g2] T(1) unfolding wf_game_def by blast
    have f2: "flag g2 = 0" "\<not> stop g2" using T(2) f1 by (simp_all add: keeps_def)
    obtain w where w: "winner g2 = w" "w \<in> {0, 1, 2}" by (simp add: winner_def)
    define g4 where "g4 = end_round (g2\<lparr>flag := w\<rparr>)"
    have e4: "g4 = g2\<lparr>flag := w, stop := (w \<noteq> 0 \<or> cntchess g2 = sum_seats g2)\<rparr>"
      using w(2) f2 by (auto simp: g4_def end_round_def Let_def)
    have run: "game_round e now (lst, g) = Inr (True, rs, lst', g4)"
      using g1(1) True f1(2) tw rs check_ok [OF T(1) T(4) [OF g1(4)] f2(1)] w(1) by (simp add: game_round_def g4_def)
    have S: "stone g4 = stone g2 \<and> five g4 = five g2 \<and> on_board g4 = on_board g2 \<and> line5 g4 = line5 g2"
      unfolding e4 by (rule stone_same) simp_all
    have b: "begins g2" using T(5) True by simp
    have v: "five g4 = five g2" using S by blast
    have wn: "winner g4 = w" using w(1) unfolding winner_def v .
    have F: "flag g4 = w" "stop g4 = (w \<noteq> 0 \<or> cntchess g2 = sum_seats g2)" by (simp_all add: e4)
    have "wf_game g4" using T(1) S b unfolding wf_game_def e4 by (auto simp: sized_def empty_board_def)
    moreover have "judged g4" using w(1) unfolding judged_def F v by (auto simp: winner_def split: if_splits)
    moreover have "flag g4 = winner g4" unfolding wn by (rule F(1))
    moreover have "stop g4 \<longleftrightarrow> begins g4 \<and> (flag g4 \<noteq> 0 \<or> cntchess g4 = sum_seats g4)" using b by (simp add: e4)
    ultimately show ?thesis using run by blast
  qed
qed

lemma game_round_stopped:
  assumes g: "wf_game g" "judged g" "stop g"
  shows "\<exists>r lst' g'. game_round e now (lst, g) = Inr (r, [], lst', g') \<and> wf_game g' \<and> judged g' \<and> flag g' = flag g"
proof -
  obtain g1 where g1: "read_keys e g = Inr g1" "wf_game g1" "keeps g g1" using read_keys_ok [OF g(1)] by blast
  have "stop g1" "flag g1 = flag g" using g1(3) g(3) by (simp_all add: keeps_def)
  moreover from this have "begins g1" using g1(2) by (auto simp: wf_game_def)
  moreover have "judged g1"
    using g(2,3) g1(3) keeps_five [OF g1(3)] by (auto simp: judged_def colors keeps_def)
  ultimately show ?thesis using g1 by (simp add: game_round_def)
qed

section \<open>The states that are reached\<close>

inductive plays :: "int \<Rightarrow> int \<Rightarrow> 64 word \<times> game \<Rightarrow> bool" for sw sh where
  start: "plays sw sh (snd (new_game sw sh g))"
| round: "plays sw sh s \<Longrightarrow> game_round e now s = Inr (True, rs, s') \<Longrightarrow> plays sw sh s'"

lemma init_screen_side:
  "SIDE (init_screen sw sh g) \<in> {20..32}" "gw (init_screen sw sh g) = sw" "gh (init_screen sw sh g) = sh"
proof -
  have "int ([21..<33] ! k) \<in> {20..32}" if "k < 12" for k using that by (subst nth_upt) simp_all
  then show "SIDE (init_screen sw sh g) \<in> {20..32}"
    by (auto simp: init_screen_def Let_def split: option.split dest!: find_idx_SomeD(1))
  show "gw (init_screen sw sh g) = sw" "gh (init_screen sw sh g) = sh"
    by (simp_all add: init_screen_def Let_def split: option.split)
qed

lemma div_side:
  assumes "s \<in> {20..32 :: int}" and "32 \<le> w" "w < 4800"
  shows "0 < w div s \<and> w div s < 240"
proof
  have "1 * s \<le> w" using assms by simp
  then show "0 < w div s" using assms by (simp add: pos_imp_zdiv_pos_iff)
  show "w div s < 240"
  proof (rule ccontr)
    assume "\<not> w div s < 240"
    then have "240 * s \<le> w div s * s" using assms by (simp add: mult_right_mono)
    moreover have "w div s * s + w mod s = w" "0 \<le> w mod s" using assms by simp_all
    ultimately show False using assms unfolding atLeastAtMost_iff by linarith
  qed
qed

lemma new_game_ok:
  assumes "32 \<le> sw" "sw < 4800" "32 \<le> sh" "sh < 4800" and "new_game sw sh g0 = (rs, lst, g)"
  shows "wf_game g \<and> judged g"
proof -
  let ?i = "init_screen sw sh g0"
  have g: "g = init_cursor (?i\<lparr>chess_color := \<lambda>_ _. GRAY\<rparr>)" using assms(5) by (simp add: new_game_def splash_def)
  have sz: "0 < sw div SIDE ?i" "sw div SIDE ?i < 240" "0 < sh div SIDE ?i" "sh div SIDE ?i < 240"
    using div_side [OF init_screen_side(1) [of sw sh g0]] assms by blast+
  have st: "\<not> stone g c x y" if "c \<noteq> GRAY" for c x y using that by (auto simp: stone_def g init_cursor_def)
  have "wf_game g"
    using st [of WHITE] st [of BLACK] sz unfolding wf_game_def
    by (simp add: g init_cursor_def sized_def on_board_def init_screen_side(2,3) empty_board_def colors)
  moreover have "\<not> five g c" if "c \<noteq> GRAY" for c
  proof
    assume "five g c"
    then obtain x y a b where "line5 g c x y a b" unfolding five_def by blast
    then have "stone g c (x + 0 * a) (y + 0 * b)" unfolding line5_def by (rule bspec) simp
    then show False using st [OF that] by blast
  qed
  then have "judged g" by (simp add: judged_def g init_cursor_def colors)
  ultimately show ?thesis by blast
qed

lemma plays_ok:
  assumes "plays sw sh s" and size: "32 \<le> sw" "sw < 4800" "32 \<le> sh" "sh < 4800"
  shows "wf_game (snd s) \<and> judged (snd s)"
  using assms(1)
proof induction
  case (start g)
  then show ?case using new_game_ok [OF size] by (metis prod.collapse)
next
  case (round s e now rs s')
  obtain lst g where s: "s = (lst, g)" by (cases s)
  show ?case
  proof (cases "stop g")
    case True
    then show ?thesis using game_round_stopped [of g e now lst] round s by auto
  next
    case False
    then show ?thesis using game_round_open [of g e now lst] round s by auto
  qed
qed


text \<open>
  C35. Every reachable state of the game is well-formed (both cursors on the board and of their color, the
  turn 0 or 1, the board with the three colors only, the last stone where its cursor is), and no round
  from it, with any key at any time, reads or writes outside the array of the board.
\<close>

theorem game_stays_well_formed:
  assumes "plays sw sh (lst, g)" and "32 \<le> sw" "sw < 4800" "32 \<le> sh" "sh < 4800"
  shows "wf_game g \<and> (\<exists>r rs s'. game_round e now (lst, g) = Inr (r, rs, s') \<and> wf_game (snd s'))"
  using game_round_open [of g e now lst] game_round_stopped [of g e now lst] plays_ok [OF assms]
  by (cases "stop g") fastforce+


text \<open>A game on a screen of 640 by 480 pixels, before the first key and after the space key.\<close>

definition old_game :: game where
  "old_game = \<lparr>chess_color = \<lambda>_ _. 0, cur = \<lambda>_. \<lparr>cx = 0, cy = 0, color = 0, chess = 0\<rparr>, turn = 0, begins = False,
     flag = 0, SIDE = 0, cntchess = 0, sum_seats = 0, gw = 0, gh = 0, stop = False, R_key = False\<rparr>"

definition fresh_game :: "int \<Rightarrow> int \<Rightarrow> game" where
  "fresh_game sw sh = snd (snd (new_game sw sh old_game))"

lemma fresh_plays: "plays sw sh (0, fresh_game sw sh)"
  using plays.start [of sw sh old_game] by (simp add: fresh_game_def new_game_def splash_def)

lemma fresh_open: "\<not> stop (fresh_game sw sh)"
  by (simp add: fresh_game_def new_game_def splash_def init_cursor_def)


lemma game_stays_well_formed_witness:
  "wf_game (fresh_game 640 480)"
  using game_stays_well_formed [OF fresh_plays [of 640 480]] by simp

text \<open>
  On a screen whose sides have no common divisor from 21 to 32, \<open>sum\<close> is not set: the first round after
  the space key finds as many stones as squares, none, and stops.
\<close>

lemma no_square_size_stops:
  "\<exists>rs lst' g'. game_round \<lparr>keycode = 70, keydown = True\<rparr> now (0, fresh_game 320 200) = Inr (True, rs, lst', g') \<and>
     stop g' \<and> flag g' = 0 \<and> cntchess g' = 0"
proof -
  let ?e = "\<lparr>keycode = 70, keydown = True\<rparr>"
  have i: "init_screen 320 200 old_game = old_game\<lparr>gw := 320, gh := 200, SIDE := 20\<rparr>"
    by (simp add: init_screen_def Let_def upt_rec)
  let ?g = "fresh_game 320 200" and ?h = "fresh_game 320 200\<lparr>begins := True\<rparr>"
  have f: "sum_seats ?g = 0" "cntchess ?g = 0" "\<not> begins ?g" "flag ?g = 0"
    unfolding fresh_game_def new_game_def splash_def i by (simp_all add: init_cursor_def old_game_def)
  have k: "read_keys ?e ?g = Inr ?h" using f(3) by (simp add: read_keys_def do_key_def)
  have g: "wf_game ?g" "judged ?g" using plays_ok [OF fresh_plays, of 320 200] by simp_all
  then have no: "\<not> five ?g WHITE" "\<not> five ?g BLACK" using fresh_open by (simp_all add: judged_def)
  have h: "wf_game ?h" "pending ?h" using read_keys_ok [OF g(1), of ?e] k no by auto
  have vh: "five ?h = five ?g" using stone_same [of ?h ?g] by simp
  obtain lst' g2 where tw: "twinkle now 0 ?h = (lst', g2)" by (cases "twinkle now 0 ?h")
  note T = twinkle_ok [OF h(1) tw]
  obtain rs where rs: "update_screen g2 = Inr rs" using update_screen_ok [of g2] T(1) unfolding wf_game_def by blast
  have f2: "flag g2 = 0" "sum_seats g2 = 0" "cntchess g2 = 0" using T(2,6) f by (simp_all add: keeps_def)
  have "winner g2 = 0" using T(3) vh no by (simp add: winner_def)
  then have "check g2 = Inr g2" using check_ok [OF T(1) T(4) [OF h(2)] f2(1)] f2(1) by simp
  then have "game_round ?e now (0, ?g) = Inr (True, rs, lst', end_round g2)"
    using k tw rs fresh_open by (simp add: game_round_def)
  then show ?thesis using f2 by (simp add: end_round_def Let_def)
qed

end
