(* ===== verification/Pstree.thy ===== *)
theory Pstree
  imports Prelude "HOL-Library.Char_ord" "HOL-Library.List_Lexorder"
begin

text \<open>
  The process tree (\<open>pstree/pstree.c\<close>): the array \<open>nodes\<close> with its lists of siblings, linked by
  pointers into the array, and the drawing of the tree.  What the program reads from \<open>/proc\<close> is an
  argument: the directory entries in the order of \<open>readdir\<close>, each with the fields of its status file.
\<close>

section \<open>The array of nodes\<close>

text \<open>A pointer into \<open>nodes\<close> is an index.\<close>

record proc =
  p_name :: string
  p_pid :: nat
  khead :: "nat option"
  ktail :: "nat option"
  p_next :: "nat option"

type_synonym nodes = "nat \<Rightarrow> proc"

definition no_nodes :: nodes where
  "no_nodes = (\<lambda>_. \<lparr>p_name = [], p_pid = 0, khead = None, ktail = None, p_next = None\<rparr>)"

definition in_nodes :: "nat \<Rightarrow> bool" where "in_nodes i \<longleftrightarrow> i < 400000"

text \<open>\<open>strcmp(a, b) <= 0\<close> is the order of strings of unsigned bytes.\<close>

abbreviation strcmp_le :: "string \<Rightarrow> string \<Rightarrow> bool" where "strcmp_le a b \<equiv> a \<le> b"

section \<open>Entering a process below its parent\<close>

definition set_proc :: "nat \<Rightarrow> string \<Rightarrow> nodes \<Rightarrow> nodes res" where
  "set_proc i nm N =
     rbind (require (in_nodes i \<and> length nm < 20) Overrun) (\<lambda>_. Inr (N(i := (N i)\<lparr>p_name := nm, p_pid := i\<rparr>)))"

text \<open>The loop without \<open>-n\<close>, from the sibling \<open>ind\<close>; \<open>None\<close> when it does not end.\<close>

partial_function (option) insert_loop :: "nat \<Rightarrow> nat \<Rightarrow> nat option \<Rightarrow> nodes \<Rightarrow> nodes option" where
  "insert_loop pid ppid ind N =
     (case ind of None \<Rightarrow> Some N
      | Some i \<Rightarrow>
        (case p_next (N i) of
           Some j \<Rightarrow>
             if strcmp_le (p_name (N i)) (p_name (N pid)) \<and> strcmp_le (p_name (N pid)) (p_name (N j))
             then Some (let N1 = N(pid := (N pid)\<lparr>p_next := p_next (N i)\<rparr>) in N1(i := (N1 i)\<lparr>p_next := Some pid\<rparr>))
             else insert_loop pid ppid (p_next (N i)) N
         | None \<Rightarrow>
             if strcmp_le (p_name (N i)) (p_name (N pid))
             then Some (let N1 = N(pid := (N pid)\<lparr>p_next := p_next (N i)\<rparr>);
                            N2 = N1(i := (N1 i)\<lparr>p_next := Some pid\<rparr>)
                        in N2(ppid := (N2 ppid)\<lparr>ktail := Some pid\<rparr>))
             else Some (let N1 = N(pid := (N pid)\<lparr>p_next := Some i\<rparr>)
                        in N1(ppid := (N1 ppid)\<lparr>khead := Some pid\<rparr>))))"

text \<open>With \<open>-n\<close> the process goes behind the last sibling.\<close>

definition append_kid :: "nat \<Rightarrow> nat \<Rightarrow> nodes \<Rightarrow> nodes res" where
  "append_kid pid ppid N =
     (case ktail (N ppid) of None \<Rightarrow> Inl Null_deref
      | Some t \<Rightarrow>
          let N1 = N(t := (N t)\<lparr>p_next := Some pid\<rparr>)
          in Inr (N1(ppid := (N1 ppid)\<lparr>ktail := Some pid\<rparr>)))"

definition link_kid :: "bool \<Rightarrow> nat \<Rightarrow> nat \<Rightarrow> nodes \<Rightarrow> nodes res option" where
  "link_kid sel pid ppid N =
     (if \<not> in_nodes ppid then Some (Inl Overrun)
      else if khead (N ppid) = None
      then Some (Inr (N(ppid := (N ppid)\<lparr>khead := Some pid, ktail := Some pid\<rparr>)))
      else if sel then Some (append_kid pid ppid N)
      else map_option Inr (insert_loop pid ppid (khead (N ppid)) N))"

section \<open>Reading the processes\<close>

text \<open>\<open>d_status\<close> is \<open>None\<close> when the status file cannot be opened; tasks likewise.\<close>

record task_entry =
  t_dname :: string
  t_status :: "string option"

record dirent =
  d_isdir :: bool
  d_dname :: string
  d_status :: "(string \<times> nat \<times> int) option"
  d_tasks :: "task_entry list option"

definition digit_char :: "char \<Rightarrow> bool" where
  "digit_char c \<longleftrightarrow> CHR ''0'' \<le> c \<and> c \<le> CHR ''9''"

definition atoi :: "string \<Rightarrow> nat" where
  "atoi s = foldl (\<lambda>n c. 10 * n + (of_char c - 48)) 0 (takeWhile digit_char s)"

fun read_tasks :: "bool \<Rightarrow> string \<Rightarrow> task_entry list \<Rightarrow> nodes \<Rightarrow> nodes res option" where
  "read_tasks sel d [] N = Some (Inr N)"
| "read_tasks sel d (t # ts) N =
     (if t_dname t = ''.'' \<or> t_dname t = ''..'' \<or> t_dname t = d then read_tasks sel d ts N
      else
        (case t_status t of None \<Rightarrow> read_tasks sel d ts N
         | Some nm \<Rightarrow>
           (case set_proc (atoi (t_dname t)) (''{'' @ nm @ ''}'') N of Inl e \<Rightarrow> Some (Inl e)
            | Inr N1 \<Rightarrow>
              (case link_kid sel (atoi (t_dname t)) (atoi d) N1 of None \<Rightarrow> None
               | Some (Inl e) \<Rightarrow> Some (Inl e)
               | Some (Inr N2) \<Rightarrow> read_tasks sel d ts N2))))"

definition read_entry :: "bool \<Rightarrow> dirent \<Rightarrow> nodes \<Rightarrow> nodes res option" where
  "read_entry sel e N =
     (if \<not> d_isdir e \<or> d_dname e = ''.'' \<or> d_dname e = ''..'' \<or> \<not> list_all digit_char (d_dname e) then Some (Inr N)
      else
        (case d_status e of None \<Rightarrow> Some (Inr N)
         | Some (nm, pid, ppid) \<Rightarrow>
           (case set_proc pid nm N of Inl e \<Rightarrow> Some (Inl e)
            | Inr N1 \<Rightarrow>
              if ppid \<le> 0 then Some (Inr N1)
              else
                (case link_kid sel pid (nat ppid) N1 of None \<Rightarrow> None
                 | Some (Inl e) \<Rightarrow> Some (Inl e)
                 | Some (Inr N2) \<Rightarrow>
                   (case d_tasks e of None \<Rightarrow> Some (Inr N2) | Some ts \<Rightarrow> read_tasks sel (d_dname e) ts N2)))))"

fun read_all :: "bool \<Rightarrow> dirent list \<Rightarrow> nodes \<Rightarrow> nodes res option" where
  "read_all sel [] N = Some (Inr N)"
| "read_all sel (e # es) N =
     (case read_entry sel e N of None \<Rightarrow> None | Some (Inl e) \<Rightarrow> Some (Inl e) | Some (Inr N1) \<Rightarrow> read_all sel es N1)"

section \<open>The options\<close>

record options =
  o_sel :: bool
  o_show :: bool
  o_ver :: bool

fun parse_args :: "string list \<Rightarrow> options \<Rightarrow> options" where
  "parse_args [] o1 = o1"
| "parse_args (a # as) o1 =
     (let o2 = (if a = ''-n'' \<or> a = ''--numeric-sort'' then o1\<lparr>o_sel := True\<rparr> else o1);
          o3 = (if a = ''-p'' \<or> a = ''--show-pids'' then o2\<lparr>o_show := True\<rparr> else o2)
      in parse_args as (if a = ''-V'' \<or> a = ''--version'' then o3\<lparr>o_ver := True\<rparr> else o3))"

section \<open>Drawing\<close>

text \<open>The dash that the program draws is three bytes in UTF-8.\<close>

definition dash :: string where "dash = [CHR 0xe2, CHR 0x80, CHR 0x94]"

fun pid_str :: "nat \<Rightarrow> string" where
  "pid_str n = (if n < 10 then [char_of (48 + n)] else pid_str (n div 10) @ [char_of (48 + n mod 10)])"

declare pid_str.simps [simp del]

text \<open>What is printed for the name, and its length, the sum of the results of \<open>printf\<close>.\<close>

definition label :: "bool \<Rightarrow> nodes \<Rightarrow> nat \<Rightarrow> string" where
  "label shw N p = p_name (N p) @ (if shw then CHR ''('' # pid_str p @ '')'' else [])"

text \<open>
  The part of \<open>do_print\<close> before the new prefix: the output, and \<open>blank\<close>, which belongs to the caller and
  gets a space at its end when \<open>p\<close> has no brother.
\<close>

definition print_node :: "bool \<Rightarrow> nodes \<Rightarrow> nat \<Rightarrow> bool \<Rightarrow> string \<Rightarrow> (string \<times> string) res" where
  "print_node shw N p whe blank =
     (let pre = (if whe then [] else take (length blank - 1) blank);
          lab = label shw N p @ (if khead (N p) = None then [CHR 0x0a] else [])
      in if p = 1 then Inr (pre @ lab, blank)
         else if p_next (N p) = None then
           rbind (require (blank \<noteq> []) Overrun) (\<lambda>_.
           Inr (pre @ (if whe then dash @ dash @ dash else ''|__'') @ lab, blank[length blank - 1 := CHR '' '']))
         else Inr (pre @ (if whe then dash @ ''|'' @ dash else ''|'' @ dash @ dash) @ lab, blank))"

text \<open>\<open>NB[500]\<close>, with \<open>tem[100]\<close> behind a copy of \<open>blank\<close>.\<close>

definition new_blank :: "string \<Rightarrow> nat \<Rightarrow> string res" where
  "new_blank blank len =
     rbind (require (len + 3 < 100 \<and> length blank + len + 3 < 500) Overrun) (\<lambda>_.
     Inr (blank @ replicate (len + 2) (CHR '' '') @ ''|''))"

text \<open>\<open>n\<close> bounds the depth of the recursion and the lengths of the lists of siblings.\<close>

fun do_print :: "nat \<Rightarrow> bool \<Rightarrow> nodes \<Rightarrow> nat \<Rightarrow> bool \<Rightarrow> string \<Rightarrow> (string \<times> string) res"
  and print_kids :: "nat \<Rightarrow> bool \<Rightarrow> nodes \<Rightarrow> nat option \<Rightarrow> nat option \<Rightarrow> string \<Rightarrow> (string \<times> string) res" where
  "do_print 0 shw N p whe blank = Inl Diverge"
| "do_print (Suc n) shw N p whe blank =
     rbind (print_node shw N p whe blank) (\<lambda>(out1, blank1).
     rbind (new_blank blank1 (length (label shw N p))) (\<lambda>NB.
     rbind (print_kids n shw N (khead (N p)) (khead (N p)) NB) (\<lambda>(out2, _). Inr (out1 @ out2, blank1))))"
| "print_kids n shw N kh None NB = Inr ([], NB)"
| "print_kids 0 shw N kh (Some q) NB = Inl Diverge"
| "print_kids (Suc n) shw N kh (Some q) NB =
     rbind (do_print n shw N (p_pid (N q)) (Some q = kh) NB) (\<lambda>(out1, NB1).
     rbind (print_kids n shw N kh (p_next (N q)) NB1) (\<lambda>(out2, NB2). Inr (out1 @ out2, NB2)))"

text \<open>\<open>do_pstree\<close> on what \<open>/proc\<close> holds; the text of \<open>-V\<close> is left out.\<close>

definition do_pstree :: "nat \<Rightarrow> options \<Rightarrow> dirent list \<Rightarrow> string res option" where
  "do_pstree n o1 es =
     (if o_ver o1 then Some (Inr [])
      else
        (case read_all (o_sel o1) es no_nodes of None \<Rightarrow> None
         | Some (Inl e) \<Rightarrow> Some (Inl e)
         | Some (Inr N) \<Rightarrow> Some (rbind (do_print n (o_show o1) N 1 True []) (\<lambda>(out, _). Inr out))))"

end
