(* ===== verification/Pstree_Props.thy ===== *)
theory Pstree_Props
  imports Pstree
begin

text \<open>
  The lists of siblings that the pointers of \<open>nodes\<close> spell out: with \<open>-n\<close> they hold the processes in the
  order of reading; without it a process is inserted by name, except that a name below all others loses
  siblings.  The drawing with its shared, overwritten prefix buffers is the drawing of the tree.
\<close>

section \<open>Lists of siblings\<close>

fun chain :: "nodes \<Rightarrow> nat option \<Rightarrow> nat list \<Rightarrow> bool" where
  "chain N q [] \<longleftrightarrow> q = None"
| "chain N q (x # xs) \<longleftrightarrow> q = Some x \<and> chain N (p_next (N x)) xs"

definition kids :: "nodes \<Rightarrow> nat \<Rightarrow> nat list \<Rightarrow> bool" where
  "kids N p xs \<longleftrightarrow> chain N (khead (N p)) xs \<and> distinct xs \<and> ktail (N p) = (if xs = [] then None else Some (last xs))"

text \<open>Changes of nodes outside a list, or that leave its links, do not matter.\<close>

lemma kin_chain_cong: "chain N q xs \<Longrightarrow> \<forall>x \<in> set xs. p_next (N' x) = p_next (N x) \<Longrightarrow> chain N' q xs"
  by (induction xs arbitrary: q) auto

lemma kids_cong:
  "kids N p xs \<Longrightarrow> \<forall>x \<in> set xs. p_next (N' x) = p_next (N x) \<Longrightarrow> khead (N' p) = khead (N p) \<Longrightarrow>
   ktail (N' p) = ktail (N p) \<Longrightarrow> kids N' p xs"
  unfolding kids_def by (auto intro: kin_chain_cong)


lemma chain_last: "chain N q xs \<Longrightarrow> xs \<noteq> [] \<Longrightarrow> p_next (N (last xs)) = None"
  by (induction xs arbitrary: q) auto

lemma chain_snoc:
  assumes "chain N q xs" and "xs \<noteq> []" and "distinct xs" and "p_next (N' (last xs)) = Some y" and "p_next (N' y) = None"
    and "\<forall>x \<in> set (butlast xs). p_next (N' x) = p_next (N x)"
  shows "chain N' q (xs @ [y])"
  using assms
proof (induction xs arbitrary: q)
  case (Cons x xs)
  then show ?case by (cases xs) auto
qed simp

section \<open>Entering behind the last sibling\<close>

text \<open>The children of every node, and that no node is in two lists.\<close>

definition forest :: "nodes \<Rightarrow> (nat \<Rightarrow> nat list) \<Rightarrow> bool" where
  "forest N F \<longleftrightarrow> (\<forall>p. kids N p (F p)) \<and> (\<forall>p q. p \<noteq> q \<longrightarrow> set (F p) \<inter> set (F q) = {}) \<and>
     (\<forall>i. (\<forall>p. i \<notin> set (F p)) \<longrightarrow> p_next (N i) = None)"

lemma set_proc_forest:
  assumes "forest N F" and "in_nodes i" and "length nm < 20"
  shows "\<exists>N'. set_proc i nm N = Inr N' \<and> forest N' F \<and> N' = N(i := (N i)\<lparr>p_name := nm, p_pid := i\<rparr>)"
proof -
  define N' where "N' = N(i := (N i)\<lparr>p_name := nm, p_pid := i\<rparr>)"
  have same: "p_next (N' x) = p_next (N x)" "khead (N' x) = khead (N x)" "ktail (N' x) = ktail (N x)" for x
    by (simp_all add: N'_def)
  have k: "kids N' p (F p)" for p
  proof -
    have "kids N p (F p)" using assms(1) unfolding forest_def by blast
    then show ?thesis by (rule kids_cong) (simp_all add: same)
  qed
  have "forest N' F" using assms(1) k unfolding forest_def same(1) by blast
  then show ?thesis using assms(2,3) by (simp add: set_proc_def N'_def)
qed

lemma link_kid_forest:
  assumes F: "forest N F" and new: "\<forall>q. pid \<notin> set (F q)" and pp: "in_nodes ppid"
  shows "\<exists>N'. link_kid True pid ppid N = Some (Inr N') \<and> forest N' (F(ppid := F ppid @ [pid])) \<and>
    (\<forall>i. p_name (N' i) = p_name (N i) \<and> p_pid (N' i) = p_pid (N i))"
proof -
  have k: "kids N p (F p)" for p using F unfolding forest_def by blast
  have nx: "p_next (N pid) = None" using F new by (simp add: forest_def)
  have dj: "set (F p) \<inter> set (F q) = {}" if "p \<noteq> q" for p q using F that unfolding forest_def by blast
  have free: "p_next (N i) = None" if "\<forall>p. i \<notin> set (F p)" for i using F that by (simp add: forest_def)
  show ?thesis
  proof (cases "F ppid = []")
    case True
    define N' where "N' = N(ppid := (N ppid)\<lparr>khead := Some pid, ktail := Some pid\<rparr>)"
    have N': "p_next (N' x) = p_next (N x)" "khead (N' x) = (if x = ppid then Some pid else khead (N x))"
      "ktail (N' x) = (if x = ppid then Some pid else ktail (N x))" "p_name (N' x) = p_name (N x)" "p_pid (N' x) = p_pid (N x)" for x
      by (simp_all add: N'_def)
    have "khead (N ppid) = None" using k [of ppid] True by (simp add: kids_def)
    then have run: "link_kid True pid ppid N = Some (Inr N')" using pp by (simp add: link_kid_def N'_def)
    have "kids N' p ((F(ppid := F ppid @ [pid])) p)" for p
    proof (cases "p = ppid")
      case True
      then show ?thesis using \<open>F ppid = []\<close> nx by (simp add: kids_def N')
    next
      case False
      then show ?thesis using kids_cong [OF k [of p], of N'] False by (simp add: N')
    qed
    moreover have "p_next (N' i) = None" if "\<forall>p. i \<notin> set ((F(ppid := F ppid @ [pid])) p)" for i
    proof -
      have "i \<notin> set (F p)" for p using that by (cases "p = ppid") (auto dest: spec [of _ p])
      then show ?thesis using free unfolding N' by blast
    qed
    ultimately have "forest N' (F(ppid := F ppid @ [pid]))" using new dj unfolding forest_def by auto
    then show ?thesis using run N' by blast
  next
    case False
    let ?t = "last (F ppid)"
    let ?N1 = "N(?t := (N ?t)\<lparr>p_next := Some pid\<rparr>)"
    define N' where "N' = ?N1(ppid := (?N1 ppid)\<lparr>ktail := Some pid\<rparr>)"
    obtain y where tl: "ktail (N ppid) = Some ?t" "khead (N ppid) = Some y"
      using k [of ppid] False by (cases "F ppid") (auto simp: kids_def)
    then have run: "link_kid True pid ppid N = Some (Inr N')" using pp by (simp add: link_kid_def append_kid_def Let_def N'_def)
    have N: "p_next (N' x) = (if x = ?t then Some pid else p_next (N x))" "khead (N' x) = khead (N x)"
      "ktail (N' x) = (if x = ppid then Some pid else ktail (N x))" "p_name (N' x) = p_name (N x)" "p_pid (N' x) = p_pid (N x)"
      for x by (simp_all add: N'_def)
    have tin: "?t \<in> set (F ppid)" using False by simp
    have "kids N' p ((F(ppid := F ppid @ [pid])) p)" for p
    proof (cases "p = ppid")
      case True
      have d: "distinct (F ppid)" using k [of ppid] by (simp add: kids_def)
      then have "?t \<notin> set (butlast (F ppid))" using False by (metis append_butlast_last_id distinct_butlast not_distinct_conv_prefix)
      moreover have "pid \<noteq> ?t" using new tin by metis
      ultimately have "chain N' (khead (N ppid)) (F ppid @ [pid])"
        using k [of ppid] False d nx new tin by (intro chain_snoc [of N]) (auto simp: kids_def N)
      then show ?thesis using True new d by (simp add: kids_def N)
    next
      case False
      have "?t \<notin> set (F p)" using dj [OF False] tin by blast
      then show ?thesis using kids_cong [OF k [of p], of N'] False by (auto simp: N)
    qed
    moreover have "p_next (N' i) = None" if "\<forall>p. i \<notin> set ((F(ppid := F ppid @ [pid])) p)" for i
    proof -
      have "i \<notin> set (F p)" for p using that by (cases "p = ppid") (auto dest: spec [of _ p])
      then show ?thesis using free tin unfolding N by auto
    qed
    ultimately have "forest N' (F(ppid := F ppid @ [pid]))" using new dj unfolding forest_def by auto
    then show ?thesis using run N by blast
  qed
qed


section \<open>Reading with \<open>-n\<close>\<close>

text \<open>The links, child and parent, that an entry asks for, in order.\<close>

definition task_links :: "string \<Rightarrow> task_entry list \<Rightarrow> (nat \<times> nat) list" where
  "task_links d ts = map (\<lambda>t. (atoi (t_dname t), atoi d))
     (filter (\<lambda>t. t_dname t \<noteq> ''.'' \<and> t_dname t \<noteq> ''..'' \<and> t_dname t \<noteq> d \<and> t_status t \<noteq> None) ts)"

definition entry_links :: "dirent \<Rightarrow> (nat \<times> nat) list" where
  "entry_links e =
     (if \<not> d_isdir e \<or> d_dname e = ''.'' \<or> d_dname e = ''..'' \<or> \<not> list_all digit_char (d_dname e) then []
      else case d_status e of None \<Rightarrow> []
        | Some (nm, pid, ppid) \<Rightarrow>
            if ppid \<le> 0 then []
            else (pid, nat ppid) # (case d_tasks e of None \<Rightarrow> [] | Some ts \<Rightarrow> task_links (d_dname e) ts))"

definition add_links :: "(nat \<Rightarrow> nat list) \<Rightarrow> (nat \<times> nat) list \<Rightarrow> nat \<Rightarrow> nat list" where
  "add_links F ls = (\<lambda>p. F p @ map fst (filter (\<lambda>l. snd l = p) ls))"

text \<open>What fits into the array and the names; Linux limits both far below.\<close>

definition task_ok :: "task_entry \<Rightarrow> bool" where
  "task_ok t \<longleftrightarrow> in_nodes (atoi (t_dname t)) \<and> (\<forall>nm. t_status t = Some nm \<longrightarrow> length nm < 18)"

definition entry_ok :: "dirent \<Rightarrow> bool" where
  "entry_ok e \<longleftrightarrow> in_nodes (atoi (d_dname e)) \<and>
     (\<forall>nm pid ppid. d_status e = Some (nm, pid, ppid) \<longrightarrow> length nm < 20 \<and> in_nodes pid \<and> in_nodes (nat ppid)) \<and>
     (\<forall>ts. d_tasks e = Some ts \<longrightarrow> (\<forall>t \<in> set ts. task_ok t))"

lemma add_links_simps [simp]:
  "add_links F [] = F" "add_links F ((c, p) # ls) = add_links (F(p := F p @ [c])) ls"
  "add_links F (ls @ ms) = add_links (add_links F ls) ms"
  by (auto simp: add_links_def)

lemma add_links_set: "x \<in> set (add_links F ls p) \<longleftrightarrow> x \<in> set (F p) \<or> (x, p) \<in> set ls"
  by (force simp: add_links_def)

definition fresh :: "(nat \<Rightarrow> nat list) \<Rightarrow> nat list \<Rightarrow> bool" where
  "fresh F xs \<longleftrightarrow> distinct xs \<and> (\<forall>x \<in> set xs. \<forall>q. x \<notin> set (F q))"

lemma fresh_Cons: "fresh F (x # xs) \<longleftrightarrow> (\<forall>q. x \<notin> set (F q)) \<and> fresh (F(p := F p @ [x])) xs \<and> x \<notin> set xs"
  by (auto simp: fresh_def)

lemma fresh_append: "fresh F (map fst ls @ ys) \<Longrightarrow> fresh F (map fst ls) \<and> fresh (add_links F ls) ys"
  by (force simp: fresh_def add_links_set)

lemma set_and_link:
  assumes F: "forest N F" and new: "\<forall>q. pid \<notin> set (F q)" and ok: "in_nodes pid" "length nm < 20" "in_nodes ppid"
  obtains N1 N2 where "set_proc pid nm N = Inr N1" and "link_kid True pid ppid N1 = Some (Inr N2)"
    and "forest N1 F" and "forest N2 (F(ppid := F ppid @ [pid]))"
  using set_proc_forest [OF F ok(1,2)] link_kid_forest [OF _ new ok(3)] that by blast

lemma read_tasks_forest:
  assumes "forest N F" and "fresh F (map fst (task_links d ts))" and "\<forall>t \<in> set ts. task_ok t" and "in_nodes (atoi d)"
  shows "\<exists>N'. read_tasks True d ts N = Some (Inr N') \<and> forest N' (add_links F (task_links d ts))"
  using assms
proof (induction ts arbitrary: N F)
  case (Cons t ts)
  show ?case
  proof (cases "t_dname t = ''.'' \<or> t_dname t = ''..'' \<or> t_dname t = d \<or> t_status t = None")
    case True
    then have "task_links d (t # ts) = task_links d ts" "read_tasks True d (t # ts) N = read_tasks True d ts N"
      by (auto simp: task_links_def)
    with Cons show ?thesis by simp
  next
    case False
    then obtain nm where nm: "t_status t = Some nm" by auto
    let ?i = "atoi (t_dname t)" and ?p = "atoi d"
    have links: "task_links d (t # ts) = (?i, ?p) # task_links d ts" using False nm by (simp add: task_links_def)
    have i: "in_nodes ?i" "length (''{'' @ nm @ ''}'') < 20" "\<forall>q. ?i \<notin> set (F q)"
      "fresh (F(?p := F ?p @ [?i])) (map fst (task_links d ts))"
      using Cons.prems(2,3) nm unfolding links by (simp_all add: task_ok_def fresh_Cons [of F ?i _ ?p])
    obtain N1 N2 where n: "set_proc ?i (''{'' @ nm @ ''}'') N = Inr N1" "link_kid True ?i ?p N1 = Some (Inr N2)"
        "forest N2 (F(?p := F ?p @ [?i]))"
      using set_and_link [OF Cons.prems(1) i(3,1,2) Cons.prems(4)] by metis
    have run: "read_tasks True d (t # ts) N = read_tasks True d ts N2" using False nm n by simp
    have "\<forall>t \<in> set ts. task_ok t" using Cons.prems(3) by simp
    then show ?thesis unfolding run links add_links_simps(2) by (rule Cons.IH [OF n(3) i(4) _ Cons.prems(4)])
  qed
qed (simp add: task_links_def)

lemma read_entry_forest:
  assumes F: "forest N F" and new: "fresh F (map fst (entry_links e))" and ok: "entry_ok e"
  shows "\<exists>N'. read_entry True e N = Some (Inr N') \<and> forest N' (add_links F (entry_links e))"
proof (cases "\<not> d_isdir e \<or> d_dname e = ''.'' \<or> d_dname e = ''..'' \<or> \<not> list_all digit_char (d_dname e) \<or> d_status e = None")
  case True
  then have "entry_links e = []" "read_entry True e N = Some (Inr N)" by (auto simp: entry_links_def read_entry_def)
  with F show ?thesis by simp
next
  case False
  then obtain nm pid ppid where st: "d_status e = Some (nm, pid, ppid)" by (cases "d_status e") auto
  then have ok1: "length nm < 20" "in_nodes pid" "in_nodes (nat ppid)" using ok by (auto simp: entry_ok_def)
  show ?thesis
  proof (cases "ppid \<le> 0")
    case True
    then have "entry_links e = []" using st by (simp add: entry_links_def)
    then show ?thesis using False st True set_proc_forest [OF F ok1(2,1)] by (auto simp: read_entry_def)
  next
    case pos: False
    let ?p = "nat ppid" and ?ts = "case d_tasks e of None \<Rightarrow> [] | Some ts \<Rightarrow> task_links (d_dname e) ts"
    have links: "entry_links e = (pid, ?p) # ?ts" using False st pos by (simp add: entry_links_def)
    have i: "\<forall>q. pid \<notin> set (F q)" "fresh (F(?p := F ?p @ [pid])) (map fst ?ts)"
      using new unfolding links by (simp_all add: fresh_Cons [of F pid _ ?p])
    obtain N1 N2 where n: "set_proc pid nm N = Inr N1" "link_kid True pid ?p N1 = Some (Inr N2)"
        "forest N2 (F(?p := F ?p @ [pid]))"
      using set_and_link [OF F i(1) ok1(2,1,3)] by metis
    show ?thesis
    proof (cases "d_tasks e")
      case None
      then show ?thesis using False st pos n links by (auto simp: read_entry_def)
    next
      case (Some ts)
      then have "\<forall>t \<in> set ts. task_ok t" "in_nodes (atoi (d_dname e))" using ok by (auto simp: entry_ok_def)
      with read_tasks_forest [OF n(3), of "d_dname e" ts] i(2) Some show ?thesis
        using False st pos n links by (auto simp: read_entry_def)
    qed
  qed
qed

lemma read_all_forest:
  assumes "forest N F" and "fresh F (map fst (concat (map entry_links es)))" and "\<forall>e \<in> set es. entry_ok e"
  shows "\<exists>N'. read_all True es N = Some (Inr N') \<and> forest N' (add_links F (concat (map entry_links es)))"
  using assms
proof (induction es arbitrary: N F)
  case (Cons e es)
  have f: "fresh F (map fst (entry_links e))" "fresh (add_links F (entry_links e)) (map fst (concat (map entry_links es)))"
    using fresh_append [of F "entry_links e"] Cons.prems(2) by simp_all
  obtain N1 where N1: "read_entry True e N = Some (Inr N1)" "forest N1 (add_links F (entry_links e))"
    using read_entry_forest [OF Cons.prems(1) f(1)] Cons.prems(3) by auto
  from Cons.IH [OF N1(2) f(2)] Cons.prems(3) N1(1) show ?case by auto
qed simp

text \<open>
  With \<open>-n\<close>, after reading the processes (with different numbers that the array can hold), the list of
  children of every number \<open>p\<close> is exactly the processes and threads whose parent is \<open>p\<close>, in the order in
  which they were read, and the reading neither faults nor loops.
\<close>

theorem read_all_numeric:
  assumes "\<forall>e \<in> set es. entry_ok e" and "distinct (map fst (concat (map entry_links es)))"
  shows "\<exists>N. read_all True es no_nodes = Some (Inr N) \<and>
    (\<forall>p. kids N p (map fst (filter (\<lambda>l. snd l = p) (concat (map entry_links es)))))"
proof -
  have "forest no_nodes (\<lambda>_. [])" by (simp add: forest_def kids_def no_nodes_def)
  moreover have "fresh (\<lambda>_. []) (map fst (concat (map entry_links es)))" using assms(2) by (simp add: fresh_def)
  ultimately obtain N where "read_all True es no_nodes = Some (Inr N)"
      "forest N (add_links (\<lambda>_. []) (concat (map entry_links es)))"
    using read_all_forest assms(1) by blast
  then show ?thesis by (auto simp: forest_def add_links_def)
qed


section \<open>Inserting by name\<close>

lemma chain_rest: "chain N q (xs @ ys) \<Longrightarrow> xs \<noteq> [] \<Longrightarrow> chain N (p_next (N (last xs))) ys"
  by (induction xs arbitrary: q) auto

lemma chain_join:
  assumes "chain N q (xs @ ys)" and "xs \<noteq> []" and "distinct xs" and "\<forall>x \<in> set (butlast xs). p_next (N' x) = p_next (N x)"
    and "chain N' (p_next (N' (last xs))) zs"
  shows "chain N' q (xs @ zs)"
  using assms
proof (induction xs arbitrary: q)
  case (Cons x xs)
  then show ?case by (cases "xs = []") auto
qed simp

text \<open>What one insertion behind \<open>zs1\<close> changes.\<close>

definition inserted :: "nodes \<Rightarrow> nat \<Rightarrow> nat \<Rightarrow> nat list \<Rightarrow> nat list \<Rightarrow> nodes \<Rightarrow> bool" where
  "inserted N pid ppid zs1 zs2 N' \<longleftrightarrow>
     (\<forall>x. p_next (N' x) = (if x = last zs1 then Some pid else if x = pid then (if zs2 = [] then None else Some (hd zs2)) else p_next (N x)) \<and>
       khead (N' x) = khead (N x) \<and> ktail (N' x) = (if x = ppid \<and> zs2 = [] then Some pid else ktail (N x)) \<and>
       p_name (N' x) = p_name (N x))"

lemma insert_loop_inside:
  assumes "chain N (Some i) (i # zs)" and "distinct (i # zs)" and "pid \<notin> set (i # zs)"
    and "sorted (map (\<lambda>x. p_name (N x)) (i # zs))" and "p_name (N i) \<le> p_name (N pid)"
  shows "\<exists>zs1 zs2 N'. i # zs = zs1 @ zs2 \<and> zs1 \<noteq> [] \<and> p_name (N (last zs1)) \<le> p_name (N pid) \<and>
    (zs2 \<noteq> [] \<longrightarrow> p_name (N pid) \<le> p_name (N (hd zs2))) \<and>
    insert_loop pid ppid (Some i) N = Some N' \<and> inserted N pid ppid zs1 zs2 N'"
  using assms
proof (induction zs arbitrary: i)
  case Nil
  then have nx: "p_next (N i) = None" "i \<noteq> pid" by auto
  have "\<exists>N'. insert_loop pid ppid (Some i) N = Some N' \<and> inserted N pid ppid [i] [] N'"
    using nx Nil.prems(5) by (subst insert_loop.simps) (auto simp: inserted_def Let_def)
  then show ?case by (intro exI [of _ "[i]"] exI [of _ "[]"]) (use Nil.prems(5) in simp)
next
  case (Cons j zs)
  then have nx: "p_next (N i) = Some j" "i \<noteq> pid" "j \<noteq> pid" by auto
  show ?case
  proof (cases "p_name (N pid) \<le> p_name (N j)")
    case True
    have "\<exists>N'. insert_loop pid ppid (Some i) N = Some N' \<and> inserted N pid ppid [i] (j # zs) N'"
      using nx True Cons.prems(5) by (subst insert_loop.simps) (auto simp: inserted_def Let_def)
    then show ?thesis by (intro exI [of _ "[i]"] exI [of _ "j # zs"]) (use True Cons.prems(5) in simp)
  next
    case False
    then have run: "insert_loop pid ppid (Some i) N = insert_loop pid ppid (Some j) N"
      using nx by (subst insert_loop.simps) simp
    have "chain N (Some j) (j # zs)" "distinct (j # zs)" "pid \<notin> set (j # zs)"
      "sorted (map (\<lambda>x. p_name (N x)) (j # zs))" "p_name (N j) \<le> p_name (N pid)"
      using Cons.prems nx False by auto
    from Cons.IH [OF this] obtain zs1 zs2 N' where r: "j # zs = zs1 @ zs2" "zs1 \<noteq> []" "p_name (N (last zs1)) \<le> p_name (N pid)"
        "zs2 \<noteq> [] \<longrightarrow> p_name (N pid) \<le> p_name (N (hd zs2))" "insert_loop pid ppid (Some j) N = Some N'"
        "inserted N pid ppid zs1 zs2 N'" by blast
    then show ?thesis unfolding run by (intro exI [of _ "i # zs1"] exI [of _ zs2] exI [of _ N']) (simp add: inserted_def)
  qed
qed

lemma inserted_kids:
  assumes k: "kids N ppid (zs1 @ zs2)" and ins: "inserted N pid ppid zs1 zs2 N'" and r: "zs1 \<noteq> []" and new: "pid \<notin> set (zs1 @ zs2)"
  shows "kids N' ppid (zs1 @ pid # zs2)"
proof -
  have N': "p_next (N' x) = (if x = last zs1 then Some pid else if x = pid then (if zs2 = [] then None else Some (hd zs2)) else p_next (N x))"
    "khead (N' x) = khead (N x)" "ktail (N' x) = (if x = ppid \<and> zs2 = [] then Some pid else ktail (N x))" for x
    using ins by (simp_all add: inserted_def)
  have c: "chain N (khead (N ppid)) (zs1 @ zs2)" "ktail (N ppid) = Some (last (zs1 @ zs2))" and d: "distinct (zs1 @ zs2)"
    using k r by (simp_all add: kids_def)
  have lz: "last zs1 \<in> set zs1" "last zs1 \<notin> set zs2" "last zs1 \<noteq> pid"
    using last_in_set [OF r] d new by auto
  have "chain N (if zs2 = [] then None else Some (hd zs2)) zs2"
    using chain_rest [OF c(1) r] by (cases zs2) auto
  then have "chain N' (if zs2 = [] then None else Some (hd zs2)) zs2"
    by (rule kin_chain_cong) (use lz d new in \<open>auto simp: N'\<close>)
  then have X1: "chain N' (p_next (N' (last zs1))) (pid # zs2)" using lz by (simp add: N')
  have "last zs1 \<notin> set (butlast zs1)"
    using d r by (metis append_butlast_last_id distinct_append distinct_butlast not_distinct_conv_prefix)
  then have X2: "\<forall>x \<in> set (butlast zs1). p_next (N' x) = p_next (N x)"
    using new by (auto simp: N' dest: in_set_butlastD)
  have "chain N' (khead (N ppid)) (zs1 @ pid # zs2)"
    by (rule chain_join [OF c(1) r _ X2 X1]) (use d in simp)
  then have "chain N' (khead (N' ppid)) (zs1 @ pid # zs2)" unfolding N'(2) .
  moreover have "distinct (zs1 @ pid # zs2)" using d new by auto
  moreover have "last (zs1 @ pid # zs2) = (if zs2 = [] then pid else last (zs1 @ zs2))" by simp
  then have "ktail (N' ppid) = Some (last (zs1 @ pid # zs2))" using c(2) unfolding N' by simp
  ultimately show ?thesis unfolding kids_def by simp
qed

text \<open>A name below all siblings walks to the last one, which becomes the only brother.\<close>

lemma insert_loop_below:
  assumes "chain N (Some i) (i # zs)" and "\<forall>x \<in> set (i # zs). \<not> p_name (N x) \<le> p_name (N pid)"
  shows "insert_loop pid ppid (Some i) N =
    Some (let N1 = N(pid := (N pid)\<lparr>p_next := Some (last (i # zs))\<rparr>) in N1(ppid := (N1 ppid)\<lparr>khead := Some pid\<rparr>))"
  using assms
proof (induction zs arbitrary: i)
  case Nil
  then show ?case by (subst insert_loop.simps) simp
next
  case (Cons j zs)
  then have "insert_loop pid ppid (Some i) N = insert_loop pid ppid (Some j) N" by (subst insert_loop.simps) simp
  also have "\<dots> = Some (let N1 = N(pid := (N pid)\<lparr>p_next := Some (last (j # zs))\<rparr>) in N1(ppid := (N1 ppid)\<lparr>khead := Some pid\<rparr>))"
    using Cons.prems by (intro Cons.IH) auto
  finally have run: "insert_loop pid ppid (Some i) N = \<dots>" .
  have "last (i # j # zs) = last (j # zs)" by simp
  then show ?case unfolding run by (simp only:)
qed

text \<open>
  Without \<open>-n\<close>, entering a process below a parent whose children are sorted by name gives a sorted list
  again.  No child is lost if the first one is not above the new name; otherwise only the last child
  stays, behind the new one.
\<close>

theorem link_kid_sorted:
  assumes k: "kids N ppid xs" "xs \<noteq> []" "sorted (map (\<lambda>x. p_name (N x)) xs)" and new: "pid \<notin> set xs" and pp: "in_nodes ppid"
  shows "\<exists>N' ys. link_kid False pid ppid N = Some (Inr N') \<and> kids N' ppid ys \<and>
    sorted (map (\<lambda>x. p_name (N' x)) ys) \<and>
    set ys = (if p_name (N (hd xs)) \<le> p_name (N pid) then insert pid (set xs) else {pid, last xs})"
proof -
  obtain i zs where xs: "xs = i # zs" using k(2) by (cases xs) auto
  have c: "chain N (Some i) (i # zs)" "khead (N ppid) = Some i" "distinct (i # zs)" "ktail (N ppid) = Some (last (i # zs))"
    using k(1) unfolding xs by (auto simp: kids_def)
  have run: "link_kid False pid ppid N = map_option Inr (insert_loop pid ppid (Some i) N)"
    using c(2) pp by (simp add: link_kid_def)
  show ?thesis
  proof (cases "p_name (N i) \<le> p_name (N pid)")
    case True
    obtain zs1 zs2 N' where r: "i # zs = zs1 @ zs2" "zs1 \<noteq> []" "p_name (N (last zs1)) \<le> p_name (N pid)"
        "zs2 \<noteq> [] \<longrightarrow> p_name (N pid) \<le> p_name (N (hd zs2))" "insert_loop pid ppid (Some i) N = Some N'"
        "inserted N pid ppid zs1 zs2 N'"
      using insert_loop_inside [OF c(1,3) new [unfolded xs] k(3) [unfolded xs] True] by blast
    have N': "p_name (N' x) = p_name (N x)" for x using r(6) by (simp add: inserted_def)
    have "kids N' ppid (zs1 @ pid # zs2)"
      using inserted_kids [OF _ r(6,2)] k(1) new unfolding xs r(1) by blast
    moreover have "sorted (map (\<lambda>x. p_name (N' x)) (zs1 @ pid # zs2))"
    proof -
      have s: "sorted (map (\<lambda>x. p_name (N x)) (zs1 @ zs2))" using k(3) xs r(1) by simp
      have "p_name (N x) \<le> p_name (N (last zs1))" if "x \<in> set zs1" for x
        using s that r(2) by (induction zs1) (auto simp: sorted_append split: if_splits)
      moreover have "p_name (N (hd zs2)) \<le> p_name (N x)" if "x \<in> set zs2" for x
        using s that by (cases zs2) (auto simp: sorted_append)
      ultimately show ?thesis using s r(3,4) unfolding N' by (auto simp: sorted_append) (meson order_trans list.set_cases)+
    qed
    moreover have "set (zs1 @ pid # zs2) = insert pid (set xs)" using xs r(1) by auto
    ultimately show ?thesis using run r(5) True xs by auto
  next
    case False
    have "\<forall>x \<in> set (i # zs). \<not> p_name (N x) \<le> p_name (N pid)"
      using False k(3) xs by (auto simp: not_le intro: less_le_trans)
    note L = insert_loop_below [OF c(1) this, of ppid]
    let ?l = "last (i # zs)"
    define N' where "N' = (let N1 = N(pid := (N pid)\<lparr>p_next := Some ?l\<rparr>) in N1(ppid := (N1 ppid)\<lparr>khead := Some pid\<rparr>))"
    have N': "p_next (N' x) = (if x = pid then Some ?l else p_next (N x))" "khead (N' x) = (if x = ppid then Some pid else khead (N x))"
      "ktail (N' x) = ktail (N x)" "p_name (N' x) = p_name (N x)" for x by (simp_all add: N'_def Let_def)
    have l: "?l \<in> set xs" "?l \<noteq> pid" using new xs by (metis last_in_set list.discI)+
    have "p_next (N ?l) = None" using chain_last [OF c(1)] by simp
    then have "kids N' ppid [pid, ?l]" using c(4) l by (simp add: kids_def N')
    moreover have "p_name (N' pid) \<le> p_name (N' ?l)" using \<open>\<forall>x \<in> set (i # zs). _ x\<close> l(1) xs unfolding N' by fastforce
    ultimately show ?thesis using run L False xs by (intro exI [of _ N'] exI [of _ "[pid, ?l]"]) (simp add: N'_def)
  qed
qed


section \<open>Drawing\<close>

datatype ptree = Proc (root: nat) (pname: string) (sons: "ptree list")

text \<open>The tree that the pointers below \<open>p\<close> spell out.\<close>

fun is_tree :: "nodes \<Rightarrow> ptree \<Rightarrow> bool" where
  "is_tree N (Proc p nm ts) \<longleftrightarrow> p_name (N p) = nm \<and> p_pid (N p) = p \<and> chain N (khead (N p)) (map root ts) \<and>
     distinct (map root ts) \<and> (\<forall>t \<in> set ts. is_tree N t)"

definition tlabel :: "bool \<Rightarrow> nat \<Rightarrow> string \<Rightarrow> string" where
  "tlabel shw p nm = nm @ (if shw then CHR ''('' # pid_str p @ '')'' else [])"

text \<open>
  The drawing of a tree behind a prefix that nobody changes: \<open>whe\<close> for the first child, which stays in the
  line of its father, \<open>lst\<close> for the last.
\<close>

fun draw :: "bool \<Rightarrow> bool \<Rightarrow> bool \<Rightarrow> string \<Rightarrow> ptree \<Rightarrow> string"
  and draw_sons :: "bool \<Rightarrow> bool \<Rightarrow> string \<Rightarrow> ptree list \<Rightarrow> string" where
  "draw shw whe lst pfx (Proc p nm ts) =
     (if whe then [] else butlast pfx) @
     (if p = 1 then [] else if lst then if whe then dash @ dash @ dash else ''|__''
      else if whe then dash @ ''|'' @ dash else ''|'' @ dash @ dash) @
     tlabel shw p nm @ (if ts = [] then [CHR 0x0a] else []) @
     draw_sons shw True ((if p \<noteq> 1 \<and> lst then butlast pfx @ '' '' else pfx) @
       replicate (length (tlabel shw p nm) + 2) (CHR '' '') @ ''|'') ts"
| "draw_sons shw whe pfx [] = []"
| "draw_sons shw whe pfx (t # ts) = draw shw whe (ts = []) pfx t @ draw_sons shw False pfx ts"

text \<open>The tree fits into the buffers, and how much fuel its drawing takes.\<close>

fun fits :: "bool \<Rightarrow> nat \<Rightarrow> ptree \<Rightarrow> bool" where
  "fits shw n (Proc p nm ts) \<longleftrightarrow> length (tlabel shw p nm) + 3 < 100 \<and> n + length (tlabel shw p nm) + 3 < 500 \<and>
     (\<forall>t \<in> set ts. fits shw (n + length (tlabel shw p nm) + 3) t)"

fun need :: "ptree \<Rightarrow> nat" and need_sons :: "ptree list \<Rightarrow> nat" where
  "need (Proc p nm ts) = Suc (need_sons ts)"
| "need_sons [] = 0"
| "need_sons (t # ts) = Suc (max (need t) (need_sons ts))"

definition spoiled :: "nat \<Rightarrow> bool \<Rightarrow> string \<Rightarrow> string" where
  "spoiled p lst pfx = (if p \<noteq> 1 \<and> lst then butlast pfx @ '' '' else pfx)"

lemma length_spoiled [simp]: "pfx \<noteq> [] \<or> p = 1 \<Longrightarrow> length (spoiled p lst pfx) = length pfx"
  by (cases pfx rule: rev_cases) (auto simp: spoiled_def)

lemma update_last: "pfx \<noteq> [] \<Longrightarrow> pfx[length pfx - Suc 0 := c] = butlast pfx @ [c]"
  by (cases pfx rule: rev_cases) auto

lemma print_node_draws:
  assumes "pfx \<noteq> [] \<or> p = 1" and "p \<noteq> 1 \<longrightarrow> (p_next (N p) = None \<longleftrightarrow> lst)" and "khead (N p) = None \<longleftrightarrow> ts = []"
    and "p_name (N p) = nm"
  shows "print_node shw N p whe pfx = Inr ((if whe then [] else butlast pfx) @
     (if p = 1 then [] else if lst then if whe then dash @ dash @ dash else ''|__''
      else if whe then dash @ ''|'' @ dash else ''|'' @ dash @ dash) @
     tlabel shw p nm @ (if ts = [] then [CHR 0x0a] else []), spoiled p lst pfx)"
  using assms by (auto simp: print_node_def label_def tlabel_def Let_def spoiled_def butlast_conv_take update_last)

lemma print_draws:
  "is_tree N t \<Longrightarrow> fits shw (length pfx) t \<Longrightarrow> need t \<le> n \<Longrightarrow> pfx \<noteq> [] \<or> root t = 1 \<Longrightarrow>
     root t \<noteq> 1 \<longrightarrow> (p_next (N (root t)) = None \<longleftrightarrow> lst) \<Longrightarrow>
     do_print n shw N (root t) whe pfx = Inr (draw shw whe lst pfx t, spoiled (root t) lst pfx)"
  "chain N q (map root ts) \<Longrightarrow> distinct (map root ts) \<Longrightarrow> \<forall>t \<in> set ts. is_tree N t \<and> fits shw (length pfx) t \<Longrightarrow>
     need_sons ts \<le> n \<Longrightarrow> pfx \<noteq> [] \<Longrightarrow> whe \<longrightarrow> q = kh \<Longrightarrow> \<not> whe \<longrightarrow> kh \<notin> Some ` set (map root ts) \<Longrightarrow>
     \<exists>pfx'. print_kids n shw N kh q pfx = Inr (draw_sons shw whe pfx ts, pfx')"
proof (induction shw whe lst pfx t and shw whe pfx ts arbitrary: n and n q kh rule: draw_draw_sons.induct)
  case (1 shw whe lst pfx p nm ts)
  obtain m where n: "n = Suc m" "need_sons ts \<le> m" using 1 by (cases n) auto
  let ?len = "length (tlabel shw p nm)"
  let ?NB = "spoiled p lst pfx @ replicate (?len + 2) (CHR '' '') @ ''|''"
  have lab: "label shw N p = tlabel shw p nm" using 1 by (simp add: label_def tlabel_def)
  have kh: "khead (N p) = None \<longleftrightarrow> ts = []" using 1 by (cases ts) auto
  have NB: "new_blank (spoiled p lst pfx) ?len = Inr ?NB" "length ?NB = length pfx + ?len + 3"
    using 1 by (simp_all add: new_blank_def)
  have "\<exists>pfx'. print_kids m shw N (khead (N p)) (khead (N p)) ?NB = Inr (draw_sons shw True ?NB ts, pfx')"
  proof (rule "1.IH" [folded spoiled_def])
    show "\<forall>t \<in> set ts. is_tree N t \<and> fits shw (length ?NB) t" unfolding NB(2) using 1 by auto
  qed (use 1 n(2) in auto)
  then show ?case
    using print_node_draws [of pfx p N lst ts nm shw whe] 1 kh NB(1) lab n(1) by (auto simp: spoiled_def)
next
  case (2 shw whe pfx)
  then show ?case by (cases n) auto
next
  case (3 shw whe pfx t ts)
  obtain m where n: "n = Suc m" "need t \<le> m" "need_sons ts \<le> m" using 3 by (cases n) auto
  have q: "q = Some (root t)" "chain N (p_next (N (root t))) (map root ts)" using 3 by auto
  have pid: "p_pid (N (root t)) = root t" using 3 by (cases t) auto
  have nx: "p_next (N (root t)) = None \<longleftrightarrow> ts = []" using q(2) by (cases ts) auto
  have first: "(Some (root t) = kh) = whe" using 3 q(1) by auto
  have d: "do_print m shw N (root t) whe pfx = Inr (draw shw whe (ts = []) pfx t, spoiled (root t) (ts = []) pfx)"
    using 3 n(2) nx by (intro "3.IH"(1)) auto
  show ?case
  proof (cases "ts = []")
    case True
    then show ?thesis using n(1) q d pid first nx by (cases m) auto
  next
    case False
    then have sp: "spoiled (root t) (ts = []) pfx = pfx" by (simp add: spoiled_def)
    have "kh \<notin> Some ` set (map root ts)" using 3 q(1) by (cases whe) auto
    then have "\<exists>pfx'. print_kids m shw N kh (p_next (N (root t))) pfx = Inr (draw_sons shw False pfx ts, pfx')"
      using 3 q(2) n(3) by (intro "3.IH"(2)) auto
    then show ?thesis using n(1) q(1) d pid first sp by auto
  qed
qed

text \<open>
  C36. Drawing from the root, with buffers that are passed down, overwritten by the last brother and
  shared by all, prints exactly the drawing of the tree that the pointers spell out, for every tree that
  fits into the buffers, and the recursion ends.
\<close>

theorem do_print_draws_tree:
  assumes "is_tree N t" and "root t = 1" and "fits shw 0 t" and "need t \<le> n"
  shows "do_print n shw N 1 True [] = Inr (draw shw True True [] t, [])"
  using print_draws(1) [of N t shw "[]" n True True] assms by (simp add: spoiled_def)


section \<open>Examples\<close>

definition demo_entries :: "dirent list" where
  "demo_entries = [
     \<lparr>d_isdir = True, d_dname = ''1'', d_status = Some (''init'', 1, 0), d_tasks = None\<rparr>,
     \<lparr>d_isdir = True, d_dname = ''7'', d_status = Some (''sh'', 7, 1),
       d_tasks = Some [\<lparr>t_dname = ''7'', t_status = Some ''sh''\<rparr>, \<lparr>t_dname = ''9'', t_status = Some ''w''\<rparr>]\<rparr>,
     \<lparr>d_isdir = True, d_dname = ''8'', d_status = Some (''ls'', 8, 1), d_tasks = None\<rparr>]"

lemma demo_links: "concat (map entry_links demo_entries) = [(7, 1), (9, 7), (8, 1)]"
  by (simp add: demo_entries_def entry_links_def task_links_def atoi_def digit_char_def less_eq_char_def)

lemma read_all_numeric_witness:
  "\<exists>N. read_all True demo_entries no_nodes = Some (Inr N) \<and> kids N 1 [7, 8] \<and> kids N 7 [9]"
proof -
  have "\<forall>e \<in> set demo_entries. entry_ok e"
    by (simp add: demo_entries_def entry_ok_def task_ok_def in_nodes_def atoi_def digit_char_def less_eq_char_def)
  then obtain N where "read_all True demo_entries no_nodes = Some (Inr N)"
      "\<forall>p. kids N p (map fst (filter (\<lambda>l. snd l = p) [(7, 1), (9, 7), (8, 1)]))"
    using read_all_numeric [of demo_entries] unfolding demo_links by auto
  then show ?thesis by (auto dest: spec [of _ 1] spec [of _ 7])
qed

definition demo_nodes :: nodes where
  "demo_nodes = no_nodes(1 := \<lparr>p_name = ''init'', p_pid = 1, khead = Some 5, ktail = Some 3, p_next = None\<rparr>,
     5 := \<lparr>p_name = ''cat'', p_pid = 5, khead = None, ktail = None, p_next = Some 3\<rparr>,
     3 := \<lparr>p_name = ''sh'', p_pid = 3, khead = None, ktail = None, p_next = None\<rparr>,
     9 := \<lparr>p_name = ''as'', p_pid = 9, khead = None, ktail = None, p_next = None\<rparr>)"

text \<open>\<open>cat\<close> is lost when \<open>as\<close> is entered before it.\<close>

lemma link_kid_sorted_witness:
  "\<exists>N' ys. link_kid False 9 1 demo_nodes = Some (Inr N') \<and> kids N' 1 ys \<and> set ys = {9, 3}"
proof -
  have "kids demo_nodes 1 [5, 3]" "sorted (map (\<lambda>x. p_name (demo_nodes x)) [5, 3])"
    by (simp_all add: demo_nodes_def kids_def less_eq_char_def less_char_def)
  moreover have "\<not> p_name (demo_nodes 5) \<le> p_name (demo_nodes 9)"
    by (simp add: demo_nodes_def less_eq_char_def less_char_def)
  ultimately show ?thesis using link_kid_sorted [of demo_nodes 1 "[5, 3]" 9] by (auto simp: in_nodes_def)
qed

lemma do_print_draws_tree_witness:
  "do_print 5 True demo_nodes 1 True [] =
    Inr (draw True True True [] (Proc 1 ''init'' [Proc 5 ''cat'' [], Proc 3 ''sh'' []]), [])"
  by (rule do_print_draws_tree)
    (simp_all add: demo_nodes_def no_nodes_def tlabel_def pid_str.simps)

end
