(* ===== verification/Co.thy ===== *)
theory Co
  imports Prelude
begin

text \<open>
  The co-routine library \<open>libco/co.c\<close>: the table of co-routines, the second table of the contexts they
  return to, and the operations on them.  A saved context (\<open>ucontext_t\<close>) is a value: what runs when it is
  resumed.  The program that uses the library is a parameter: \<open>code k m\<close> runs from the point \<open>k\<close> on the
  memory \<open>m\<close> up to the next call of the library or the end of its function.
\<close>

section \<open>Contexts and tables\<close>

text \<open>
  A context belongs to a stack: that of \<open>main\<close> (\<open>None\<close>) or that of a slot of the table.  \<open>Entry\<close> is what
  \<open>makecontext\<close> prepares, \<open>Back\<close> a call of \<open>co_start\<close> or \<open>co_yield\<close> that has nothing left to do but to
  return to its caller, \<open>Waiting\<close> a call of \<open>co_wait\<close> that still has to free the slot.  \<open>No_ctx\<close> is a
  context never written; resuming it jumps to a wild address.  The contexts that \<open>getcontext\<close> stores are
  overwritten before they are resumed and are left out.
\<close>

datatype 'k ctx =
    No_ctx
  | Entry nat 'k
  | Back "nat option" 'k
  | Waiting "nat option" 'k

datatype state = FREE | RUNNING | SUSPEND | ABLE

record 'k co =
  uctx :: "'k ctx"
  cname :: string
  cstate :: state
  cnt :: "16 word"

record 'k lib =
  coroutines :: "'k co list"
  dual :: "'k co list"
  current :: int
  tt :: nat

definition MAX_CO :: nat where
  "MAX_CO = 20"

definition no_co :: "'k co" where
  "no_co = \<lparr>uctx = No_ctx, cname = '''', cstate = FREE, cnt = 0\<rparr>"

definition lib0 :: "'k lib" where
  "lib0 = \<lparr>coroutines = replicate MAX_CO no_co, dual = replicate MAX_CO no_co, current = 0, tt = 0\<rparr>"

text \<open>\<open>coroutines[i].f = v\<close> and \<open>dual[i].f = v\<close>.\<close>

definition set_co :: "nat \<Rightarrow> ('k co \<Rightarrow> 'k co) \<Rightarrow> 'k lib \<Rightarrow> 'k lib" where
  "set_co i f L = L\<lparr>coroutines := (coroutines L)[i := f (coroutines L ! i)]\<rparr>"

definition set_dual :: "nat \<Rightarrow> ('k co \<Rightarrow> 'k co) \<Rightarrow> 'k lib \<Rightarrow> 'k lib" where
  "set_dual i f L = L\<lparr>dual := (dual L)[i := f (dual L ! i)]\<rparr>"

definition co_init :: "'k lib \<Rightarrow> 'k lib" where
  "co_init L =
     L\<lparr>current := -1,
       coroutines := map (\<lambda>c. c\<lparr>cstate := FREE, cnt := 0\<rparr>) (coroutines L),
       dual := map (\<lambda>c. c\<lparr>cstate := FREE\<rparr>) (dual L)\<rparr>"

section \<open>Operations\<close>

text \<open>
  Each operation gets the stack \<open>me\<close> it is called on and the point \<open>k\<close> of its caller, and returns the
  context that runs next: that of \<open>swapcontext\<close>, or the caller's own.  A name of 16 characters or more is
  copied over the end of its array.
\<close>

definition co_start :: "string \<Rightarrow> 'k \<Rightarrow> nat option \<Rightarrow> (nat \<Rightarrow> 'k) \<Rightarrow> 'k lib \<Rightarrow> ('k lib \<times> 'k ctx) res" where
  "co_start nm func me k L =
     (case find_idx (\<lambda>c. cstate c = FREE) (coroutines L) of
        None \<Rightarrow> Inl Assert_fail
      | Some i \<Rightarrow>
          if 16 \<le> length nm then Inl Overrun
          else
            let L1 = set_dual i (\<lambda>c. c\<lparr>cstate := ABLE\<rparr>)
                       (set_co i (\<lambda>c. c\<lparr>cname := nm, cstate := ABLE, cnt := 0\<rparr>) L);
                L2 = set_co i (\<lambda>c. c\<lparr>uctx := Entry i func, cstate := RUNNING\<rparr>) L1\<lparr>current := int i\<rparr>;
                L3 = set_dual i (\<lambda>c. c\<lparr>uctx := Back me (k i)\<rparr>) L2
            in Inr (L3, uctx (coroutines L3 ! i)))"

text \<open>The turn: the first \<open>ABLE\<close> slot behind \<open>ind\<close>, cyclically; the counter \<open>i\<close> of the loop counts down.\<close>

fun turn :: "'k co list \<Rightarrow> nat \<Rightarrow> nat \<Rightarrow> nat" where
  "turn cs ind 0 = ind"
| "turn cs ind (Suc i) =
     (let ind1 = if ind = MAX_CO - 1 then 0 else ind + 1
      in if cstate (cs ! ind1) = ABLE then ind1 else turn cs ind1 i)"

definition co_yield :: "nat option \<Rightarrow> 'k \<Rightarrow> 'k lib \<Rightarrow> ('k lib \<times> 'k ctx) res" where
  "co_yield me k L =
     (if current L < 0 then Inl Overrun
      else
        let tem = nat (current L)
        in if cnt (coroutines L ! tem) = 0 then
             let L1 = set_co tem (\<lambda>c. c\<lparr>cstate := ABLE, cnt := cnt c + 1\<rparr>) L\<lparr>current := -1\<rparr>;
                 L2 = set_co tem (\<lambda>c. c\<lparr>uctx := Back me k\<rparr>) L1
             in Inr (L2, uctx (dual L2 ! tem))
           else
             let L1 = set_co tem (\<lambda>c. c\<lparr>cstate := ABLE\<rparr>) L;
                 ind = turn (coroutines L1) tem MAX_CO;
                 L2 = set_co ind (\<lambda>c. c\<lparr>cstate := RUNNING\<rparr>) L1\<lparr>current := int ind\<rparr>
             in if ind = tem then Inr (L2, Back me k)
                else
                  let L3 = set_co tem (\<lambda>c. c\<lparr>uctx := Back me k\<rparr>) L2
                  in Inr (L3, uctx (coroutines L3 ! ind)))"

text \<open>The end of \<open>co_wait\<close>, behind the \<open>swapcontext\<close>.\<close>

definition wait_end :: "'k lib \<Rightarrow> 'k lib" where
  "wait_end L =
     set_dual (tt L) (\<lambda>c. c\<lparr>cstate := FREE\<rparr>) (set_co (tt L) (\<lambda>c. c\<lparr>cstate := FREE\<rparr>) L)\<lparr>current := -1\<rparr>"

definition co_wait :: "nat \<Rightarrow> nat option \<Rightarrow> 'k \<Rightarrow> 'k lib \<Rightarrow> ('k lib \<times> 'k ctx) res" where
  "co_wait thd me k L =
     (case find_idx (\<lambda>c. cname c = cname (coroutines L ! thd)) (coroutines L) of
        None \<Rightarrow> Inl Overrun
      | Some t \<Rightarrow>
          let L1 = L\<lparr>tt := t\<rparr>
          in if current L = -1 then
               let L2 = set_dual t (\<lambda>c. c\<lparr>cstate := SUSPEND, uctx := Waiting me k\<rparr>)
                          (set_co t (\<lambda>c. c\<lparr>cstate := RUNNING\<rparr>) L1\<lparr>current := int t\<rparr>)
               in Inr (L2, uctx (coroutines L2 ! t))
             else Inr (wait_end L1, Back me k))"

section \<open>The machine\<close>

text \<open>
  The calls of the program; a point that returns from a co-routine's function continues with the context
  \<open>uc_link\<close> of its stack, which is \<open>dual[i].uctx\<close>; \<open>main\<close> returning ends the program.
\<close>

datatype 'k call = Start string 'k "nat \<Rightarrow> 'k" | Yield 'k | Wait nat 'k | Return

datatype ('k, 'm) cfg = Running "'k lib" "nat option" 'k 'm | Exited "'k lib" 'm

definition resume :: "'k ctx \<Rightarrow> 'k lib \<Rightarrow> 'm \<Rightarrow> ('k, 'm) cfg res" where
  "resume x L m =
     (case x of
        No_ctx \<Rightarrow> Inl Wild_ptr
      | Entry i f \<Rightarrow> Inr (Running L (Some i) f m)
      | Back me k \<Rightarrow> Inr (Running L me k m)
      | Waiting me k \<Rightarrow> Inr (Running (wait_end L) me k m))"

definition switch_to :: "('k lib \<times> 'k ctx) res \<Rightarrow> 'm \<Rightarrow> ('k, 'm) cfg res" where
  "switch_to r m = rbind r (\<lambda>(L, x). resume x L m)"

fun co_step :: "('k \<Rightarrow> 'm \<Rightarrow> 'm \<times> 'k call) \<Rightarrow> ('k, 'm) cfg \<Rightarrow> ('k, 'm) cfg res" where
  "co_step code (Exited L m) = Inr (Exited L m)"
| "co_step code (Running L me k m) =
     (let (m1, c) = code k m
      in case c of
           Start nm f k1 \<Rightarrow> switch_to (co_start nm f me k1 L) m1
         | Yield k1 \<Rightarrow> switch_to (co_yield me k1 L) m1
         | Wait thd k1 \<Rightarrow> switch_to (co_wait thd me k1 L) m1
         | Return \<Rightarrow>
             (case me of
                None \<Rightarrow> Inr (Exited L m1)
              | Some i \<Rightarrow> switch_to (Inr (L, uctx (dual L ! i))) m1))"

partial_function (option) co_run ::
  "('k \<Rightarrow> 'm \<Rightarrow> 'm \<times> 'k call) \<Rightarrow> ('k, 'm) cfg \<Rightarrow> ('k lib \<times> 'm) res option"
where
  "co_run code s =
     (case co_step code s of
        Inl e \<Rightarrow> Some (Inl e)
      | Inr s1 \<Rightarrow> (case s1 of Exited L m \<Rightarrow> Some (Inr (L, m)) | Running L me k m \<Rightarrow> co_run code s1))"

end
