(* ===== verification/Co_Props.thy ===== *)
theory Co_Props
  imports Co
begin

text \<open>
  The library as a round-robin scheduler: a program that starts co-routines, each a list of pieces between
  its yields, and waits for them in the order of starting runs the pieces as a queue of co-routines would.
  Then two programs for which the library does something else.
\<close>

section \<open>Programs and the queue\<close>

text \<open>
  A co-routine runs its pieces on the shared memory and yields between them; \<open>main\<close> starts the given
  co-routines, keeps the pointers it gets, and waits for them.
\<close>

datatype 'm script =
    Body "('m \<Rightarrow> 'm) list"
  | Main "(string \<times> ('m \<Rightarrow> 'm) list) list" "nat list"

fun script_code :: "'m script \<Rightarrow> 'm \<Rightarrow> 'm \<times> 'm script call" where
  "script_code (Body []) m = (m, Return)"
| "script_code (Body (f # fs)) m = (f m, if fs = [] then Return else Yield (Body fs))"
| "script_code (Main ((nm, b) # ss) hs) m = (m, Start nm (Body b) (\<lambda>h. Main ss (hs @ [h])))"
| "script_code (Main [] []) m = (m, Return)"
| "script_code (Main [] (h # hs)) m = (m, Wait h (Main [] hs))"

text \<open>The abstract scheduler: a queue of the pieces that are left, with the next one to run in front.\<close>

function ring :: "('m \<Rightarrow> 'm) list list \<Rightarrow> 'm \<Rightarrow> 'm" where
  "ring [] m = m"
| "ring ([] # q) m = ring q m"
| "ring ([f] # q) m = ring q (f m)"
| "ring ((f # g # fs) # q) m = ring (q @ [g # fs]) (f m)"
  by pat_completeness auto
termination
  by (relation "measure (\<lambda>(q, m). length q + length (concat q))") auto

text \<open>No slot is in use and \<open>main\<close> runs.\<close>

definition all_free :: "'k lib \<Rightarrow> bool" where
  "all_free L \<longleftrightarrow> (\<forall>c \<in> set (coroutines L). cstate c = FREE) \<and> current L = -1"

section \<open>Turns\<close>

lemma turn_hit:
  assumes "cstate (cs ! j) = ABLE" and "\<And>p. i < p \<Longrightarrow> p < j \<Longrightarrow> cstate (cs ! p) \<noteq> ABLE"
    and "i < j" and "j < MAX_CO" and "j - i \<le> k"
  shows "turn cs i k = j"
  using assms
proof (induction k arbitrary: i)
  case 0
  then show ?case by simp
next
  case (Suc k)
  have i: "i \<noteq> MAX_CO - 1" using Suc.prems(3,4) by simp
  show ?case
  proof (cases "j = i + 1")
    case True
    then show ?thesis using i Suc.prems(1) by (simp add: Let_def)
  next
    case False
    then have "cstate (cs ! (i + 1)) \<noteq> ABLE" using Suc.prems(2,3) by simp
    moreover have "turn cs (i + 1) k = j"
      by (rule Suc.IH) (use Suc.prems False in auto)
    ultimately show ?thesis using i by (simp add: Let_def)
  qed
qed

lemma turn_wrap:
  assumes "cstate (cs ! j) = ABLE" and "\<And>p. i < p \<Longrightarrow> p < MAX_CO \<Longrightarrow> cstate (cs ! p) \<noteq> ABLE"
    and "\<And>p. p < j \<Longrightarrow> cstate (cs ! p) \<noteq> ABLE" and "j \<le> i" and "i < MAX_CO" and "MAX_CO - i + j \<le> k"
  shows "turn cs i k = j"
  using assms
proof (induction k arbitrary: i)
  case 0
  then show ?case by simp
next
  case (Suc k)
  show ?case
  proof (cases "i = MAX_CO - 1")
    case True
    show ?thesis
    proof (cases "j = 0")
      case True
      then show ?thesis using \<open>i = MAX_CO - 1\<close> Suc.prems(1) by (simp add: Let_def)
    next
      case False
      have "turn cs 0 k = j"
        by (rule turn_hit) (use Suc.prems False True in auto)
      then show ?thesis using Suc.prems(3) [of 0] False True by (simp add: Let_def)
    qed
  next
    case False
    then have "cstate (cs ! (i + 1)) \<noteq> ABLE" using Suc.prems(2,5) by simp
    moreover have "turn cs (i + 1) k = j"
      by (rule Suc.IH) (use Suc.prems False in auto)
    ultimately show ?thesis using False by (simp add: Let_def)
  qed
qed


section \<open>States of the library\<close>

text \<open>
  The co-routines \<open>ns\<close> were started, those before \<open>w\<close> are done; \<open>rem p\<close> is what is left of co-routine
  \<open>p\<close>.  In \<open>idle\<close> states \<open>main\<close> runs, in \<open>busy\<close> states co-routine \<open>i\<close> does while \<open>main\<close> waits for \<open>w\<close>.
\<close>

definition slots :: "'k lib \<Rightarrow> string list \<Rightarrow> nat \<Rightarrow> bool" where
  "slots L ns w \<longleftrightarrow>
     length (coroutines L) = MAX_CO \<and> length (dual L) = MAX_CO \<and> length ns \<le> MAX_CO \<and>
     (\<forall>p < length ns. cname (coroutines L ! p) = ns ! p) \<and>
     (\<forall>p < MAX_CO. p < w \<or> length ns \<le> p \<longrightarrow> cstate (coroutines L ! p) = FREE)"

definition ready :: "'m script lib \<Rightarrow> (nat \<Rightarrow> ('m \<Rightarrow> 'm) list) \<Rightarrow> nat \<Rightarrow> bool" where
  "ready L rem p \<longleftrightarrow>
     cstate (coroutines L ! p) = ABLE \<and> cnt (coroutines L ! p) \<noteq> 0 \<and>
     uctx (coroutines L ! p) = Back (Some p) (Body (rem p))"

definition idle :: "'m script lib \<Rightarrow> string list \<Rightarrow> nat \<Rightarrow> (nat \<Rightarrow> ('m \<Rightarrow> 'm) list) \<Rightarrow> bool" where
  "idle L ns w rem \<longleftrightarrow>
     slots L ns w \<and> current L = -1 \<and> (\<forall>p. w \<le> p \<longrightarrow> p < length ns \<longrightarrow> ready L rem p)"

definition busy ::
  "'m script lib \<Rightarrow> string list \<Rightarrow> nat \<Rightarrow> nat \<Rightarrow> (nat \<Rightarrow> ('m \<Rightarrow> 'm) list) \<Rightarrow> 'm script \<Rightarrow> bool"
where
  "busy L ns w i rem k \<longleftrightarrow>
     slots L ns w \<and> w \<le> i \<and> i < length ns \<and> current L = int i \<and> tt L = w \<and>
     uctx (dual L ! w) = Waiting None k \<and>
     cstate (coroutines L ! i) = RUNNING \<and> cnt (coroutines L ! i) \<noteq> 0 \<and>
     (\<forall>p. w \<le> p \<longrightarrow> p < length ns \<longrightarrow> p \<noteq> i \<longrightarrow> ready L rem p)"

lemmas lib_states = slots_def ready_def idle_def busy_def

lemma set_co_simps [simp]:
  "coroutines (set_co i f L) = (coroutines L)[i := f (coroutines L ! i)]"
  "dual (set_co i f L) = dual L" "current (set_co i f L) = current L" "tt (set_co i f L) = tt L"
  by (simp_all add: set_co_def)

lemma set_dual_simps [simp]:
  "dual (set_dual i f L) = (dual L)[i := f (dual L ! i)]"
  "coroutines (set_dual i f L) = coroutines L" "current (set_dual i f L) = current L"
  "tt (set_dual i f L) = tt L"
  by (simp_all add: set_dual_def)

lemma wait_end_simps [simp]:
  "coroutines (wait_end L) = (coroutines L)[tt L := (coroutines L ! tt L)\<lparr>cstate := FREE\<rparr>]"
  "length (dual (wait_end L)) = length (dual L)" "current (wait_end L) = -1"
  by (simp_all add: wait_end_def)

lemma first_free:
  assumes "idle L ns 0 rem" and "length ns < MAX_CO"
  shows "find_idx (\<lambda>c. cstate c = FREE) (coroutines L) = Some (length ns)"
  using assms by (auto simp: find_idx_Some lib_states)

text \<open>A start and the first piece: the co-routine comes back to \<open>main\<close> at its first yield.\<close>

lemma start_step:
  assumes idle: "idle L ns 0 rem" and room: "length ns < MAX_CO" and nm: "length nm < 16"
  shows "\<exists>L1. co_start nm f None k L = Inr (L1, Entry (length ns) f) \<and>
    (\<exists>L2. co_yield (Some (length ns)) (Body fs) L1 = Inr (L2, Back None (k (length ns))) \<and>
      idle L2 (ns @ [nm]) 0 (rem(length ns := fs)))"
proof -
  let ?n = "length ns"
  let ?x = "(coroutines L ! ?n)\<lparr>cname := nm, cnt := 0, uctx := Entry ?n f, cstate := RUNNING\<rparr>"
  note defs = idle [unfolded lib_states]
  define L1 where "L1 = fst (projr (co_start nm f None k L))"
  have start: "co_start nm f None k L = Inr (L1, Entry ?n f)"
    and L1: "coroutines L1 = (coroutines L)[?n := ?x]" "length (dual L1) = MAX_CO" "current L1 = int ?n"
      "uctx (dual L1 ! ?n) = Back None (k ?n)"
    using first_free [OF idle room] nm room defs by (simp_all add: L1_def co_start_def Let_def)
  have len: "length (coroutines L) = MAX_CO" using defs by simp
  define L2 where "L2 = fst (projr (co_yield (Some ?n) (Body fs) L1))"
  have yield: "co_yield (Some ?n) (Body fs) L1 = Inr (L2, Back None (k ?n))"
    and L2: "coroutines L2 = (coroutines L)[?n := ?x\<lparr>cstate := ABLE, cnt := 1, uctx := Back (Some ?n) (Body fs)\<rparr>]"
      "length (dual L2) = MAX_CO" "current L2 = -1"
    using L1 room len by (simp_all add: L2_def co_yield_def Let_def)
  have "idle L2 (ns @ [nm]) 0 (rem(?n := fs))"
    using defs room L2 by (auto simp: lib_states nth_list_update nth_append less_Suc_eq)
  then show ?thesis using start yield by blast
qed

lemma wait_step:
  assumes idle: "idle L ns w rem" and w: "w < length ns" and ns: "distinct ns"
  shows "\<exists>L1. co_wait w None k L = Inr (L1, Back (Some w) (Body (rem w))) \<and> busy L1 ns w w rem k"
proof -
  note defs = idle [unfolded lib_states]
  have at: "w < MAX_CO" "cname (coroutines L ! w) = ns ! w" "length (coroutines L) = MAX_CO"
    and r: "ready L rem w"
    using defs w idle by (auto simp: idle_def)
  have "find_idx (\<lambda>c. cname c = cname (coroutines L ! w)) (coroutines L) = Some w"
    using defs w ns by (auto simp: find_idx_Some nth_eq_iff_index_eq)
  note found = this [unfolded at(2)]
  define L1 where "L1 = fst (projr (co_wait w None k L))"
  have wait: "co_wait w None k L = Inr (L1, Back (Some w) (Body (rem w)))"
    and L1: "coroutines L1 = (coroutines L)[w := (coroutines L ! w)\<lparr>cstate := RUNNING\<rparr>]"
      "length (dual L1) = MAX_CO" "uctx (dual L1 ! w) = Waiting None k" "current L1 = int w" "tt L1 = w"
    using defs r at by (simp_all add: L1_def co_wait_def Let_def found ready_def)
  have "busy L1 ns w w rem k"
    using defs w r L1 at by (auto simp: lib_states nth_list_update)
  with wait show ?thesis by blast
qed

lemma finish_step:
  assumes "busy L ns w w rem k"
  shows "idle (wait_end L) ns (w + 1) rem"
  using assms by (auto simp: lib_states nth_list_update)

lemma yield_step:
  assumes busy: "busy L ns w i rem k" and j: "j = (if i + 1 < length ns then i + 1 else w)"
  shows "\<exists>L1. co_yield (Some i) (Body fs) L = Inr (L1, Back (Some j) (Body ((rem(i := fs)) j))) \<and>
    busy L1 ns w j (rem(i := fs)) k"
proof -
  note defs = busy [unfolded lib_states]
  have i: "i < MAX_CO" "w \<le> i" "i < length ns" "length ns \<le> MAX_CO" "length (coroutines L) = MAX_CO"
    using defs by auto
  have jr: "w \<le> j" "j < length ns" using i by (auto simp: j)
  define cs where "cs = (coroutines L)[i := (coroutines L ! i)\<lparr>cstate := ABLE\<rparr>]"
  have able: "cstate (cs ! p) = (if w \<le> p \<and> p < length ns then ABLE else FREE)" if "p < MAX_CO" for p
    using defs that by (auto simp: cs_def nth_list_update)
  have turn: "turn cs i MAX_CO = j"
  proof (cases "i + 1 < length ns")
    case True
    show ?thesis
      by (rule turn_hit) (use True i in \<open>auto simp: j able\<close>)
  next
    case False
    show ?thesis
      by (rule turn_wrap) (use False i in \<open>auto simp: j able\<close>)
  qed
  show ?thesis
  proof (cases "j = i")
    case True
    define L1 where "L1 = fst (projr (co_yield (Some i) (Body fs) L))"
    have yield: "co_yield (Some i) (Body fs) L = Inr (L1, Back (Some i) (Body fs))"
      and L1: "coroutines L1 = (coroutines L)[i := (coroutines L ! i)\<lparr>cstate := RUNNING\<rparr>]"
        "dual L1 = dual L" "current L1 = int i" "tt L1 = tt L"
      using defs turn True i by (simp_all add: L1_def co_yield_def Let_def cs_def)
    have "busy L1 ns w j (rem(i := fs)) k"
      using defs L1 True by (auto simp: lib_states nth_list_update)
    with yield show ?thesis using True by auto
  next
    case False
    have r: "ready L rem j" using defs False jr by (simp add: ready_def)
    define L1 where "L1 = fst (projr (co_yield (Some i) (Body fs) L))"
    have yield: "co_yield (Some i) (Body fs) L = Inr (L1, Back (Some j) (Body (rem j)))"
      and L1: "coroutines L1 = (cs[j := (cs ! j)\<lparr>cstate := RUNNING\<rparr>])
          [i := (cs ! i)\<lparr>uctx := Back (Some i) (Body fs)\<rparr>]"
        "dual L1 = dual L" "current L1 = int j" "tt L1 = tt L"
      using defs turn r False i jr by (simp_all add: L1_def co_yield_def Let_def ready_def cs_def)
    have "busy L1 ns w j (rem(i := fs)) k"
      using defs L1 False i jr by (auto simp: lib_states nth_list_update cs_def)
    with yield show ?thesis using False by auto
  qed
qed


section \<open>Runs\<close>

lemma run_on: "co_step code s = Inr (Running L me k m) \<Longrightarrow> co_run code s = co_run code (Running L me k m)"
  by (subst co_run.simps) simp

lemma run_end: "co_step code s = Inr (Exited L m) \<Longrightarrow> co_run code s = Some (Inr (L, m))"
  by (subst co_run.simps) simp

text \<open>
  The co-routine that ends first is the one waited for: none of those behind it has fewer pieces left,
  and those that had their turn in this round are one piece ahead.
\<close>

definition in_order :: "nat \<Rightarrow> nat \<Rightarrow> nat \<Rightarrow> (nat \<Rightarrow> 'a list) \<Rightarrow> bool" where
  "in_order w i n rem \<longleftrightarrow>
     (\<forall>p. w \<le> p \<longrightarrow> p < n \<longrightarrow> rem p \<noteq> []) \<and>
     (\<forall>p q. w \<le> p \<longrightarrow> p < q \<longrightarrow> q < n \<longrightarrow>
        length (rem p) + (if p < i \<and> i \<le> q then 1 else 0) \<le> length (rem q))"

lemma in_order_last:
  assumes "in_order w i n rem" and "rem i = [f]" and "w \<le> i" and "i < n"
  shows "i = w"
proof (rule ccontr)
  assume "i \<noteq> w"
  then have w: "w < i" using assms(3) by simp
  then have "rem w \<noteq> []" using assms(1,4) by (simp add: in_order_def)
  moreover have "length (rem w) + 1 \<le> length (rem i)"
    using assms(1) w assms(4) unfolding in_order_def by fastforce
  ultimately show False using assms(2) by simp
qed

lemma in_order_yield:
  assumes "in_order w i n rem" and "rem i = f # fs" and "fs \<noteq> []" and "w \<le> i" and "i < n"
  shows "in_order w (if i + 1 < n then i + 1 else w) n (rem(i := fs))"
proof -
  have ne: "rem p \<noteq> []" if "w \<le> p" "p < n" for p
    using assms(1) that by (simp add: in_order_def)
  have le: "length (rem p) + (if p < i \<and> i \<le> q then 1 else 0) \<le> length (rem q)"
    if "w \<le> p" "p < q" "q < n" for p q
    using assms(1) that by (simp add: in_order_def)
  have "length ((rem(i := fs)) p) + (if p < j \<and> j \<le> q then 1 else 0) \<le> length ((rem(i := fs)) q)"
    if pq: "w \<le> p" "p < q" "q < n" and j: "j = (if i + 1 < n then i + 1 else w)" for p q j
    using le [OF pq] assms(2) pq j by (cases "q = i") (auto split: if_splits)
  then show ?thesis using ne assms(3) unfolding in_order_def by (simp del: fun_upd_apply) simp
qed

lemma in_order_finish: "in_order w w n rem \<Longrightarrow> in_order (w + 1) (w + 1) n rem"
  by (auto simp: in_order_def)

lemma idle_run:
  assumes "idle L ns w rem" and "w = length ns"
  shows "co_run script_code (Running L None (Main [] [w..<length ns]) m) = Some (Inr (L, m)) \<and> all_free L"
proof
  show "co_run script_code (Running L None (Main [] [w..<length ns]) m) = Some (Inr (L, m))"
    by (rule run_end) (simp add: assms(2))
  show "all_free L"
    using assms by (auto simp: all_free_def idle_def slots_def in_set_conv_nth) (metis not_less)
qed

lemma wait_run:
  assumes "idle L ns w rem" and "w < length ns" and "distinct ns"
  shows "\<exists>L1. co_run script_code (Running L None (Main [] [w..<length ns]) m) =
      co_run script_code (Running L1 (Some w) (Body (rem w)) m) \<and>
    busy L1 ns w w rem (Main [] [w + 1..<length ns])"
proof -
  from wait_step [OF assms] obtain L1
    where L1: "co_wait w None (Main [] [w + 1..<length ns]) L = Inr (L1, Back (Some w) (Body (rem w)))"
      and busy: "busy L1 ns w w rem (Main [] [w + 1..<length ns])" by blast
  have "co_step script_code (Running L None (Main [] [w..<length ns]) m) =
      Inr (Running L1 (Some w) (Body (rem w)) m)"
    using assms(2) L1 by (simp add: upt_conv_Cons switch_to_def resume_def)
  from run_on [OF this] busy show ?thesis by blast
qed

lemma busy_run:
  assumes "busy L ns w i rem (Main [] [w + 1..<length ns])" and "distinct ns"
    and "in_order w i (length ns) rem"
  shows "\<exists>L1. co_run script_code (Running L (Some i) (Body (rem i)) m) =
      Some (Inr (L1, ring (map rem ([i..<length ns] @ [w..<i])) m)) \<and> all_free L1"
  using assms
proof (induction "\<Sum>p\<leftarrow>[w..<length ns]. length (rem p)" arbitrary: L w i rem m rule: less_induct)
  case less
  let ?n = "length ns"
  note busy = less.prems(1)
  have wi: "w \<le> i" "i < ?n" using busy by (auto simp: busy_def)
  then obtain f fs where r: "rem i = f # fs"
    using less.prems(3) by (cases "rem i") (auto simp: in_order_def)
  show ?case
  proof (cases "fs = []")
    case True
    have i: "i = w" using in_order_last [OF less.prems(3)] r True wi by simp
    have link: "uctx (dual L ! w) = Waiting None (Main [] [w + 1..<?n])" using busy by (simp add: busy_def)
    have "co_step script_code (Running L (Some i) (Body (rem i)) m) =
        Inr (Running (wait_end L) None (Main [] [w + 1..<?n]) (f m))"
      using link r [unfolded i] True by (simp add: i switch_to_def resume_def)
    note step = run_on [OF this]
    have idle: "idle (wait_end L) ns (w + 1) rem" using finish_step busy i by blast
    have ring: "ring (map rem ([i..<?n] @ [w..<i])) m = ring (map rem [w + 1..<?n]) (f m)"
      using wi(2) r [unfolded i] True by (simp add: i upt_conv_Cons)
    show ?thesis
    proof (cases "w + 1 < ?n")
      case False
      then have "w + 1 = ?n" using wi i by simp
      from idle_run [OF idle this] this show ?thesis unfolding step ring by auto
    next
      case True
      from wait_run [OF idle True less.prems(2)] obtain L1
        where run: "co_run script_code (Running (wait_end L) None (Main [] [w + 1..<?n]) (f m)) =
            co_run script_code (Running L1 (Some (w + 1)) (Body (rem (w + 1))) (f m))"
          and L1: "busy L1 ns (w + 1) (w + 1) rem (Main [] [w + 1 + 1..<?n])" by blast
      have ord: "in_order (w + 1) (w + 1) ?n rem" using in_order_finish less.prems(3) i by blast
      have "(\<Sum>p\<leftarrow>[w + 1..<?n]. length (rem p)) < (\<Sum>p\<leftarrow>[w..<?n]. length (rem p))"
        using wi(2) r [unfolded i] by (simp add: i upt_conv_Cons [of w])
      from less.hyps [OF this L1 less.prems(2) ord, of "f m"] show ?thesis
        unfolding step ring run by simp
    qed
  next
    case False
    define j where "j = (if i + 1 < ?n then i + 1 else w)"
    from yield_step [OF busy j_def, of fs] obtain L1
      where yield: "co_yield (Some i) (Body fs) L = Inr (L1, Back (Some j) (Body ((rem(i := fs)) j)))"
        and L1: "busy L1 ns w j (rem(i := fs)) (Main [] [w + 1..<?n])" by blast
    have "co_step script_code (Running L (Some i) (Body (rem i)) m) =
        Inr (Running L1 (Some j) (Body ((rem(i := fs)) j)) (f m))"
      using yield False by (simp add: r switch_to_def resume_def)
    note step = run_on [OF this]
    have ord: "in_order w j ?n (rem(i := fs))"
      using in_order_yield [OF less.prems(3) r False wi] by (simp add: j_def)
    have split: "[w..<?n] = [w..<i] @ i # [i + 1..<?n]"
      using wi by (metis upt_add_eq_append upt_conv_Cons le_add_diff_inverse less_imp_le_nat Suc_eq_plus1)
    have other: "map (rem(i := fs)) [w..<i] = map rem [w..<i]"
      "map (rem(i := fs)) [i + 1..<?n] = map rem [i + 1..<?n]" by auto
    have "(\<Sum>p\<leftarrow>[w..<?n]. length ((rem(i := fs)) p)) < (\<Sum>p\<leftarrow>[w..<?n]. length (rem p))"
    proof -
      define h where "h = (\<lambda>p. length ((rem(i := fs)) p))"
      have e: "map h [w..<i] = map (\<lambda>p. length (rem p)) [w..<i]"
        "map h [i + 1..<?n] = map (\<lambda>p. length (rem p)) [i + 1..<?n]" and lt: "h i < length (rem i)"
        using r by (auto simp: h_def)
      have "(\<Sum>p\<leftarrow>[w..<?n]. h p) < (\<Sum>p\<leftarrow>[w..<?n]. length (rem p))"
        unfolding split map_append list.map sum_list_append sum_list.Cons e using lt by linarith
      then show ?thesis by (simp add: h_def)
    qed
    note IH = less.hyps [OF this L1 less.prems(2) ord, of "f m"]
    have ring: "ring (map rem ([i..<?n] @ [w..<i])) m = ring (map (rem(i := fs)) ([j..<?n] @ [w..<j])) (f m)"
    proof -
      obtain g gs where fs: "fs = g # gs" using False by (cases fs) auto
      have "ring (map rem ([i..<?n] @ [w..<i])) m = ring (map rem ([i + 1..<?n] @ [w..<i]) @ [fs]) (f m)"
        using wi r fs by (simp add: upt_conv_Cons)
      moreover have "map rem ([i + 1..<?n] @ [w..<i]) @ [fs] = map (rem(i := fs)) ([j..<?n] @ [w..<j])"
      proof (cases "i + 1 < ?n")
        case True
        then show ?thesis using other wi by (simp add: j_def)
      next
        case False
        then have "i + 1 = ?n" using wi by simp
        then show ?thesis using other wi by (simp add: j_def split)
      qed
      ultimately show ?thesis by simp
    qed
    from IH show ?thesis unfolding step ring .
  qed
qed


text \<open>The starts, each up to the first yield of the co-routine.\<close>

lemma start_run:
  assumes "idle L ns 0 (\<lambda>p. tl (snd (bs ! p)))" and "bs = map (\<lambda>p. bs ! p) [0..<length ns] @ ss"
    and "\<And>nm b. (nm, b) \<in> set ss \<Longrightarrow> length nm < 16 \<and> 2 \<le> length b" and "length bs \<le> MAX_CO"
  shows "\<exists>L1 m1. co_run script_code (Running L None (Main ss [0..<length ns]) m) =
      co_run script_code (Running L1 None (Main [] [0..<length bs]) m1) \<and>
    idle L1 (ns @ map fst ss) 0 (\<lambda>p. tl (snd (bs ! p))) \<and>
    ring (map snd ss @ map (\<lambda>p. tl (snd (bs ! p))) [0..<length ns]) m =
      ring (map (\<lambda>p. tl (snd (bs ! p))) [0..<length bs]) m1"
  using assms
proof (induction ss arbitrary: L ns m)
  case Nil
  have "length bs = length ns" using arg_cong [OF Nil.prems(2), of length] by simp
  then show ?case using Nil.prems(1) by auto
next
  case (Cons s ss)
  let ?rem = "\<lambda>p. tl (snd (bs ! p))" and ?n = "length ns"
  obtain nm b where s: "s = (nm, b)" by (cases s)
  have nm: "length nm < 16" and b: "2 \<le> length b" using Cons.prems(3) s by auto
  obtain f fs where f: "b = f # fs" "fs \<noteq> []" using b by (cases b; cases "tl b") auto
  have "length bs = ?n + 1 + length ss" using arg_cong [OF Cons.prems(2), of length] by simp
  then have room: "?n < MAX_CO" using Cons.prems(4) by simp
  have at: "bs ! ?n = (nm, b)" using Cons.prems(2) s by (metis length_map length_upt minus_nat.diff_0 nth_append_length)
  from start_step [OF Cons.prems(1) room nm, where k = "\<lambda>h. Main ss ([0..<?n] @ [h])" and f = "Body b" and fs = fs]
  obtain L1 L2 where
    L1: "co_start nm (Body b) None (\<lambda>h. Main ss ([0..<?n] @ [h])) L = Inr (L1, Entry ?n (Body b))" and
    L2: "co_yield (Some ?n) (Body fs) L1 = Inr (L2, Back None (Main ss ([0..<?n] @ [?n])))" and
    idle: "idle L2 (ns @ [nm]) 0 (?rem(?n := fs))" by blast
  have rem: "?rem(?n := fs) = ?rem" using at f by (simp add: fun_eq_iff)
  have s1: "co_step script_code (Running L None (Main (s # ss) [0..<?n]) m) =
      Inr (Running L1 (Some ?n) (Body b) m)"
    using L1 by (simp add: s switch_to_def resume_def)
  have s2: "co_step script_code (Running L1 (Some ?n) (Body b) m) =
      Inr (Running L2 None (Main ss [0..<length (ns @ [nm])]) (f m))"
    using L2 f by (simp add: switch_to_def resume_def)
  have "bs = map (\<lambda>p. bs ! p) [0..<length (ns @ [nm])] @ ss"
    using Cons.prems(2) at s by simp
  from Cons.IH [OF idle [unfolded rem] this _ Cons.prems(4), of "f m"] Cons.prems(3)
  obtain L3 m3 where
    run: "co_run script_code (Running L2 None (Main ss [0..<length (ns @ [nm])]) (f m)) =
      co_run script_code (Running L3 None (Main [] [0..<length bs]) m3)" and
    i3: "idle L3 ((ns @ [nm]) @ map fst ss) 0 ?rem" and
    r3: "ring (map snd ss @ map ?rem [0..<length (ns @ [nm])]) (f m) = ring (map ?rem [0..<length bs]) m3"
    by auto
  obtain g gs where fs: "fs = g # gs" using f(2) by (cases fs) auto
  have "ring (map snd (s # ss) @ map ?rem [0..<?n]) m = ring (map snd ss @ map ?rem [0..<length (ns @ [nm])]) (f m)"
    using at f(1) by (simp add: s fs)
  with r3 i3 show ?case unfolding run_on [OF s1] run_on [OF s2] run by (auto simp: s)
qed

lemma init_idle:
  assumes "length (coroutines L) = MAX_CO" and "length (dual L) = MAX_CO"
  shows "idle (co_init L) [] 0 rem"
  using assms by (simp add: lib_states co_init_def)




section \<open>Programs the library runs wrongly\<close>

text \<open>A run of at most \<open>n\<close> steps, evaluated.\<close>

fun co_out :: "('k \<Rightarrow> 'm \<Rightarrow> 'm \<times> 'k call) \<Rightarrow> nat \<Rightarrow> ('k, 'm) cfg \<Rightarrow> 'm res option" where
  "co_out code 0 s = None"
| "co_out code (Suc n) s =
     (case co_step code s of
        Inl e \<Rightarrow> Some (Inl e)
      | Inr s1 \<Rightarrow> (case s1 of Exited L m \<Rightarrow> Some (Inr m) | Running L me k m \<Rightarrow> co_out code n s1))"

lemma co_out_run: "co_out code n s = Some (Inr m) \<Longrightarrow> \<exists>L. co_run code s = Some (Inr (L, m))"
proof (induction n arbitrary: s)
  case 0
  then show ?case by simp
next
  case (Suc n)
  then show ?case
    by (subst co_run.simps) (auto split: sum.splits cfg.splits)
qed

text \<open>
  A co-routine that ends while \<open>main\<close> waits for another one returns through the context saved at its
  start: \<open>main\<close> comes back from that \<open>co_start\<close> a second time.  Here the last piece of the first
  co-routine never runs and that of the second runs twice; the queue would give \<open>1x2y3\<close>.
\<close>

lemma shorter_second_runs_wrong:
  "\<exists>L1. co_run script_code (Running (co_init lib0) None
      (Main [(''a'', [\<lambda>m. m @ ''1'', \<lambda>m. m @ ''2'', \<lambda>m. m @ ''3'']),
             (''b'', [\<lambda>m. m @ ''x'', \<lambda>m. m @ ''y''])] []) []) = Some (Inr (L1, ''1x2yy''))"
  by (rule co_out_run [where n = 12]) code_simp

text \<open>A co-routine that ends without a yield leaves \<open>current\<close> at its slot; the second of two runs twice.\<close>

lemma no_yield_runs_twice:
  "\<exists>L1. co_run script_code (Running (co_init lib0) None
      (Main [(''a'', [\<lambda>m. m @ ''1'']), (''b'', [\<lambda>m. m @ ''x''])] []) []) = Some (Inr (L1, ''1xx''))"
  by (rule co_out_run [where n = 12]) code_simp

text \<open>A yield of \<open>main\<close> reads in front of the table.\<close>

lemma main_yield_faults: "co_yield me k (co_init L) = Inl Overrun"
  by (simp add: co_yield_def co_init_def)

end
