(* ===== verification/Frecov.thy ===== *)
theory Frecov
  imports Prelude Ramdisk
begin

text \<open>
  The picture recovery \<open>frecov/frecov.c\<close>: the walk over the directory entries of a mapped FAT32 image, the
  long names in front of a \<open>BMP\<close> entry, and the bytes of the picture.  A position is an offset from
  \<open>fhead\<close>.  The program that gets the bytes (\<open>sha1sum\<close>, behind two pipes) is outside: a report is the
  bytes written to it and the name printed.
\<close>

section \<open>Reading the image\<close>

text \<open>
  \<open>mmap\<close> maps whole pages; the rest of the last page behind the file reads as zero, and an access outside
  the pages is a fault.
\<close>

definition PAGE :: nat where
  "PAGE = 4096"

definition mmap_file :: "char list \<Rightarrow> char list" where
  "mmap_file f = f @ replicate ((PAGE - length f mod PAGE) mod PAGE) NUL"

definition fetch :: "char list \<Rightarrow> int \<Rightarrow> nat \<Rightarrow> nat res" where
  "fetch img p k =
     (if 0 \<le> p \<and> nat p + k \<le> length img then Inr (dec_le (take k (drop (nat p) img))) else Inl Overrun)"

text \<open>\<open>*(short*)p\<close>, \<open>*(uint8_t*)p\<close>, \<open>*(int*)p\<close>.\<close>

definition fetch_short :: "char list \<Rightarrow> int \<Rightarrow> int res" where
  "fetch_short img p = rbind (fetch img p 2) (\<lambda>n. Inr (sint (word_of_nat n :: 16 word)))"

definition fetch_int :: "char list \<Rightarrow> int \<Rightarrow> int res" where
  "fetch_int img p = rbind (fetch img p 4) (\<lambda>n. Inr (sint (word_of_nat n :: 32 word)))"

record fat =
  BPS :: int
  threecu :: int

definition read_header :: "char list \<Rightarrow> fat res" where
  "read_header img =
     rbind (fetch_short img 0xB) (\<lambda>bps.
     rbind (fetch_short img 0xE) (\<lambda>rs.
     rbind (fetch_int img 0x24) (\<lambda>spf.
       let FAT1 = rs * bps; FAT2 = FAT1 + spf * bps; dhead = FAT2 + spf * bps
       in Inr \<lparr>BPS = bps, threecu = dhead + bps\<rparr>)))"

section \<open>Long names\<close>

text \<open>
  One of the three parts of an entry of a long name: \<open>n\<close> characters of 16 bits, of which the low bytes
  are kept; a zero ends the name (\<open>flag\<close>).  The buffer has 50 bytes.
\<close>

fun name_part :: "char list \<Rightarrow> int \<Rightarrow> nat \<Rightarrow> string \<Rightarrow> (bool \<times> string) res" where
  "name_part img p 0 nm = Inr (False, nm)"
| "name_part img p (Suc n) nm =
     rbind (fetch img p 2) (\<lambda>u.
       if u = 0 then Inr (True, nm)
       else if 50 \<le> length nm then Inl Overrun
       else name_part img (p + 2) n (nm @ [char_of u]))"

text \<open>The entry at \<open>e\<close> and those in front of it, as long as their attribute says that they hold a name.\<close>

function long_name :: "char list \<Rightarrow> int \<Rightarrow> string \<Rightarrow> string res" where
  "long_name img e nm =
     (if e < -0xB then Inl Overrun
      else
        rbind (fetch img (e + 0xB) 1) (\<lambda>attr.
        if attr \<noteq> 0x0F then Inr nm
        else
          rbind (name_part img (e + 1) 5 nm) (\<lambda>(flag, nm).
          if flag then Inr nm
          else
            rbind (name_part img (e + 0xE) 6 nm) (\<lambda>(flag, nm).
            if flag then Inr nm
            else
              rbind (name_part img (e + 0x1C) 2 nm) (\<lambda>(flag, nm).
              if flag then Inr nm else long_name img (e - 0x20) nm)))))"
  by pat_completeness auto
termination
  by (relation "measure (\<lambda>(img, e, nm). nat (e + 44))") auto

section \<open>Entries\<close>

text \<open>The last four characters; a name with fewer reads in front of its buffer.\<close>

definition is_bmp :: "string \<Rightarrow> bool res" where
  "is_bmp nm = (if length nm < 4 then Inl Overrun else Inr (cstr (drop (length nm - 4) nm) = ''.bmp''))"

definition cluster_of :: "nat \<Rightarrow> nat \<Rightarrow> 32 word" where
  "cluster_of hc lc = push_bit 16 (word_of_int (sint (word_of_nat hc :: 16 word))) + word_of_nat lc"

definition cluster_pos :: "fat \<Rightarrow> 32 word \<Rightarrow> int" where
  "cluster_pos F clus = uint ((clus - 3) * word_of_int (BPS F)) + threecu F"

type_synonym report = "char list \<times> string"

text \<open>
  The picture of a name: \<open>write\<close> takes what is mapped of the \<open>psize\<close> bytes; a name that fills its buffer
  has no end and \<open>printf\<close> reads on.
\<close>

definition recover :: "char list \<Rightarrow> fat \<Rightarrow> 32 word \<Rightarrow> string \<Rightarrow> report option res" where
  "recover img F clus nm =
     (if clus = 0 then Inr None
      else
        let phead = cluster_pos F clus
        in rbind (fetch img phead 2) (\<lambda>magic.
           rbind (require (magic = 0x4D42) Assert_fail) (\<lambda>_.
           rbind (fetch img (phead + 2) 4) (\<lambda>psize.
           rbind (require (length nm < 50) Overrun) (\<lambda>_.
             Inr (Some (take psize (drop (nat phead) img), cstr nm)))))))"

definition scan_entry :: "char list \<Rightarrow> fat \<Rightarrow> int \<Rightarrow> report option res" where
  "scan_entry img F p =
     rbind (fetch img p 2) (\<lambda>w.
     if w = 0x202E \<or> w = 0x2E2E then Inr None
     else
       rbind (fetch img (p + 8) 2) (\<lambda>x.
       if x \<noteq> 0x4D42 then Inr None
       else
         rbind (fetch img (p + 0xA) 1) (\<lambda>y.
         if y \<noteq> 0x50 then Inr None
         else
           rbind (long_name img (p - 0x20) []) (\<lambda>nm.
           rbind (fetch img (p + 0x14) 2) (\<lambda>hc.
           rbind (fetch img (p + 0x1A) 2) (\<lambda>lc.
           rbind (is_bmp nm) (\<lambda>b.
             if b then recover img F (cluster_of hc lc) nm else Inr None)))))))"

text \<open>
  The loop of \<open>main\<close>, from \<open>threecu\<close> to \<open>fend\<close> inclusive: the reports made, and the fault it stops at.
\<close>

function scan_from :: "char list \<Rightarrow> fat \<Rightarrow> int \<Rightarrow> int \<Rightarrow> report list \<times> fault option" where
  "scan_from img F fend p =
     (if p \<le> fend then
        case scan_entry img F p of
          Inl e \<Rightarrow> ([], Some e)
        | Inr r \<Rightarrow>
            let (rs, e) = scan_from img F fend (p + 0x20)
            in (case r of None \<Rightarrow> rs | Some x \<Rightarrow> x # rs, e)
      else ([], None))"
  by pat_completeness auto
termination
  by (relation "measure (\<lambda>(img, F, fend, p). nat (fend - p + 1))") auto

definition frecov :: "char list \<Rightarrow> report list \<times> fault option" where
  "frecov f =
     (let img = mmap_file f
      in case read_header img of
           Inl e \<Rightarrow> ([], Some e)
         | Inr F \<Rightarrow> scan_from img F (int (length f)) (threecu F))"

end
