(* ===== verification/Frecov_Props.thy ===== *)
theory Frecov_Props
  imports Frecov
begin

text \<open>
  The recovery against the layout of a FAT32 directory: what the entries of the image say is what is
  reported.  Then the images on which the walk does something else.
\<close>

section \<open>Entries of a directory\<close>

text \<open>
  The name \<open>nm\<close> in entries of 13 characters of 16 bits each: the \<open>j\<close>-th character, the zero behind the
  name and the filler behind the zero.  Part \<open>k\<close> of the name is in the \<open>k\<close>-th entry in front of the short
  one.
\<close>

definition name_unit :: "string \<Rightarrow> nat \<Rightarrow> nat" where
  "name_unit nm j = (if j < length nm then of_char (nm ! j) else if j = length nm then 0 else 0xFFFF)"

definition lfn_off :: "nat \<Rightarrow> int" where
  "lfn_off i =
     (if i < 5 then 1 + 2 * int i else if i < 11 then 0xE + 2 * int (i - 5) else 0x1C + 2 * int (i - 11))"

definition lfn_at :: "char list \<Rightarrow> int \<Rightarrow> string \<Rightarrow> nat \<Rightarrow> bool" where
  "lfn_at img e nm k \<longleftrightarrow>
     fetch img (e + 0xB) 1 = Inr 0x0F \<and>
     (\<forall>i < 13. fetch img (e + lfn_off i) 2 = Inr (name_unit nm (13 * k + i)))"

text \<open>
  The short entry at \<open>p\<close>: the extension, the two halves of the cluster number, and the long name.  A name
  that fills its last entry has no zero, there the entry in front must not be one of a long name.
\<close>

definition bmp_at :: "char list \<Rightarrow> int \<Rightarrow> string \<Rightarrow> 32 word \<Rightarrow> bool" where
  "bmp_at img p nm clus \<longleftrightarrow>
     (\<exists>w. fetch img p 2 = Inr w \<and> w \<noteq> 0x202E \<and> w \<noteq> 0x2E2E) \<and>
     fetch img (p + 8) 2 = Inr 0x4D42 \<and> fetch img (p + 0xA) 1 = Inr 0x50 \<and>
     fetch img (p + 0x14) 2 = Inr (unat clus div 2 ^ 16) \<and>
     fetch img (p + 0x1A) 2 = Inr (unat clus mod 2 ^ 16) \<and>
     4 \<le> length nm \<and> length nm < 50 \<and> NUL \<notin> set nm \<and>
     (\<forall>k < (length nm + 12) div 13. lfn_at img (p - 0x20 - 0x20 * int k) nm k) \<and>
     (13 dvd length nm \<longrightarrow>
        (\<exists>a. fetch img (p - 0x20 - 0x20 * int (length nm div 13) + 0xB) 1 = Inr a \<and> a \<noteq> 0x0F))"

definition quiet_at :: "char list \<Rightarrow> int \<Rightarrow> bool" where
  "quiet_at img p \<longleftrightarrow>
     (\<exists>w. fetch img p 2 = Inr w \<and>
        (w = 0x202E \<or> w = 0x2E2E \<or>
         (\<exists>x. fetch img (p + 8) 2 = Inr x \<and>
            (x \<noteq> 0x4D42 \<or> (\<exists>y. fetch img (p + 0xA) 1 = Inr y \<and> y \<noteq> 0x50)))))"

text \<open>The bytes of a picture: the magic number and its own length in front.\<close>

definition picture_at :: "char list \<Rightarrow> int \<Rightarrow> char list \<Rightarrow> bool" where
  "picture_at img q bytes \<longleftrightarrow>
     0 \<le> q \<and> nat q + 6 \<le> length img \<and> fetch img q 2 = Inr 0x4D42 \<and>
     fetch img (q + 2) 4 = Inr (length bytes) \<and> take (length bytes) (drop (nat q) img) = bytes"

definition wanted :: "string \<Rightarrow> 32 word \<Rightarrow> bool" where
  "wanted nm clus \<longleftrightarrow> drop (length nm - 4) nm = ''.bmp'' \<and> clus \<noteq> 0"

type_synonym slot = "(string \<times> 32 word \<times> char list) option"

fun slot_at :: "char list \<Rightarrow> fat \<Rightarrow> int \<Rightarrow> slot \<Rightarrow> bool" where
  "slot_at img F p None = quiet_at img p"
| "slot_at img F p (Some (nm, clus, bytes)) =
     (bmp_at img p nm clus \<and> (wanted nm clus \<longrightarrow> picture_at img (cluster_pos F clus) bytes))"

fun slot_report :: "slot \<Rightarrow> report list" where
  "slot_report None = []"
| "slot_report (Some (nm, clus, bytes)) = (if wanted nm clus then [(bytes, nm)] else [])"

section \<open>Long names\<close>

lemma of_char_neq_0: "c \<noteq> NUL \<Longrightarrow> (of_char c :: nat) \<noteq> 0"
  using of_char_eq_iff [of c NUL, where ?'a = nat] by simp

lemma name_part_reads:
  assumes "\<And>i. i < n \<Longrightarrow> fetch img (p + 2 * int i) 2 = Inr (name_unit nm (c + i))"
    and "NUL \<notin> set nm" and "length nm \<le> 50" and "c \<le> length nm"
  shows "name_part img p n (take c nm) =
    (if c + n \<le> length nm then Inr (False, take (c + n) nm) else Inr (True, nm))"
  using assms
proof (induction n arbitrary: p c)
  case 0
  then show ?case by simp
next
  case (Suc n)
  have u: "fetch img p 2 = Inr (name_unit nm c)" using Suc.prems(1) [of 0] by simp
  show ?case
  proof (cases "c = length nm")
    case True
    then show ?thesis using u by (simp add: name_unit_def)
  next
    case False
    then have c: "c < length nm" using Suc.prems(4) by simp
    then have ne: "nm ! c \<noteq> NUL" using Suc.prems(2) by (metis nth_mem)
    have "name_part img (p + 2) n (take (Suc c) nm) =
        (if Suc c + n \<le> length nm then Inr (False, take (Suc c + n) nm) else Inr (True, nm))"
    proof (rule Suc.IH)
      fix i assume "i < n"
      then show "fetch img (p + 2 + 2 * int i) 2 = Inr (name_unit nm (Suc c + i))"
        using Suc.prems(1) [of "Suc i"] by (simp add: algebra_simps)
    qed (use Suc.prems c in auto)
    then show ?thesis
      using u c ne Suc.prems(3) of_char_neq_0 [OF ne]
      by (simp add: name_unit_def take_Suc_conv_app_nth)
  qed
qed


lemma lfn_parts:
  assumes "lfn_at img e nm k"
  shows "\<And>i. i < 5 \<Longrightarrow> fetch img (e + 1 + 2 * int i) 2 = Inr (name_unit nm (13 * k + i))"
    and "\<And>i. i < 6 \<Longrightarrow> fetch img (e + 0xE + 2 * int i) 2 = Inr (name_unit nm (13 * k + 5 + i))"
    and "\<And>i. i < 2 \<Longrightarrow> fetch img (e + 0x1C + 2 * int i) 2 = Inr (name_unit nm (13 * k + 11 + i))"
proof -
  have at: "fetch img (e + lfn_off i) 2 = Inr (name_unit nm (13 * k + i))" if "i < 13" for i
    using assms that by (simp add: lfn_at_def)
  show "fetch img (e + 1 + 2 * int i) 2 = Inr (name_unit nm (13 * k + i))" if "i < 5" for i
    using at [of i] that by (simp add: lfn_off_def algebra_simps)
  show "fetch img (e + 0xE + 2 * int i) 2 = Inr (name_unit nm (13 * k + 5 + i))" if "i < 6" for i
    using at [of "5 + i"] that by (simp add: lfn_off_def algebra_simps)
  show "fetch img (e + 0x1C + 2 * int i) 2 = Inr (name_unit nm (13 * k + 11 + i))" if "i < 2" for i
    using at [of "11 + i"] that by (simp add: lfn_off_def algebra_simps)
qed

declare long_name.simps [simp del]

lemma fetch_nonneg: "fetch img p k = Inr n \<Longrightarrow> 0 \<le> p"
  by (simp add: fetch_def split: if_splits)

lemma long_name_reads:
  assumes "\<And>j. j < (length nm + 12) div 13 \<Longrightarrow> lfn_at img (e0 - 0x20 * int j) nm j"
    and "13 dvd length nm \<Longrightarrow> \<exists>a. fetch img (e0 - 0x20 * int (length nm div 13) + 0xB) 1 = Inr a \<and> a \<noteq> 0x0F"
    and "NUL \<notin> set nm" and "length nm \<le> 50" and "13 * k \<le> length nm"
    and "e = e0 - 0x20 * int k"
  shows "long_name img e (take (13 * k) nm) = Inr nm"
  using assms(5,6)
proof (induction "length nm - 13 * k" arbitrary: k e rule: less_induct)
  case less
  show ?case
  proof (cases "13 * k = length nm")
    case True
    then have "13 dvd length nm" "length nm div 13 = k" by (metis dvd_triv_left, simp)
    with assms(2) obtain a where "fetch img (e + 0xB) 1 = Inr a" "a \<noteq> 0x0F"
      using less.prems(2) by auto
    moreover from this fetch_nonneg have "\<not> e < -0xB" by fastforce
    ultimately show ?thesis using True by (subst long_name.simps) simp
  next
    case False
    then have lt: "13 * k < length nm" using less.prems(1) by simp
    then have "Suc k \<le> (length nm + 12) div 13" by (simp add: less_eq_div_iff_mult_less_eq)
    then have "k < (length nm + 12) div 13" by simp
    from assms(1) [OF this] have at: "lfn_at img e nm k" using less.prems(2) by simp
    then have attr: "fetch img (e + 0xB) 1 = Inr 0x0F" by (simp add: lfn_at_def)
    with fetch_nonneg have e: "\<not> e < -0xB" by fastforce
    note parts = lfn_parts [OF at]
    have p1: "name_part img (e + 1) 5 (take (13 * k) nm) =
        (if 13 * k + 5 \<le> length nm then Inr (False, take (13 * k + 5) nm) else Inr (True, nm))"
      by (rule name_part_reads [OF parts(1) assms(3,4)]) (use lt in auto)
    have p2: "name_part img (e + 0xE) 6 (take (13 * k + 5) nm) =
        (if 13 * k + 5 + 6 \<le> length nm then Inr (False, take (13 * k + 5 + 6) nm) else Inr (True, nm))"
      if "13 * k + 5 \<le> length nm"
      by (rule name_part_reads [OF parts(2) assms(3,4) that]) auto
    have p3: "name_part img (e + 0x1C) 2 (take (13 * k + 11) nm) =
        (if 13 * k + 11 + 2 \<le> length nm then Inr (False, take (13 * k + 11 + 2) nm) else Inr (True, nm))"
      if "13 * k + 11 \<le> length nm"
      by (rule name_part_reads [OF parts(3) assms(3,4) that]) auto
    have next_part: "long_name img (e - 0x20) (take (13 * k + 13) nm) = Inr nm" if "13 * k + 13 \<le> length nm"
    proof -
      have "length nm - 13 * (k + 1) < length nm - 13 * k" "13 * (k + 1) \<le> length nm"
        using lt that by simp_all
      moreover have "e - 0x20 = e0 - 0x20 * int (k + 1)" using less.prems(2) by simp
      ultimately have "long_name img (e - 0x20) (take (13 * (k + 1)) nm) = Inr nm" by (rule less.hyps)
      moreover have "13 * (k + 1) = 13 * k + 13" by simp
      ultimately show ?thesis by (simp only:)
    qed
    note unfold = long_name.simps [of img e]
    consider "\<not> 13 * k + 5 \<le> length nm"
      | "13 * k + 5 \<le> length nm" "\<not> 13 * k + 11 \<le> length nm"
      | "13 * k + 11 \<le> length nm" "\<not> 13 * k + 13 \<le> length nm"
      | "13 * k + 13 \<le> length nm" by linarith
    then show ?thesis
    proof cases
      case 1
      then show ?thesis using e p1 by (simp only: unfold attr) simp
    next
      case 2
      then show ?thesis using e p1 p2 by (simp only: unfold attr) simp
    next
      case 3
      then show ?thesis using e p1 p2 p3 by (simp only: unfold attr) (simp add: add.commute)
    next
      case 4
      then have "13 * k + 5 \<le> length nm" "13 * k + 11 \<le> length nm" by linarith+
      with 4 have "name_part img (e + 1) 5 (take (13 * k) nm) = Inr (False, take (13 * k + 5) nm)"
        "name_part img (e + 0xE) 6 (take (13 * k + 5) nm) = Inr (False, take (13 * k + 11) nm)"
        "name_part img (e + 0x1C) 2 (take (13 * k + 11) nm) = Inr (False, take (13 * k + 13) nm)"
        using p1 p2 p3 by (simp_all add: add.commute)
      then show ?thesis using e next_part [OF 4] by (simp only: unfold attr) simp
    qed
  qed
qed

lemma high_half: "push_bit 16 (scast (x :: 16 word) :: 32 word) = push_bit 16 (ucast x)"
proof (rule bit_word_eqI)
  fix n assume "n < LENGTH(32)"
  then consider "n - 16 = 15" | "n - 16 < 15" by fastforce
  then show "bit (push_bit 16 (scast x :: 32 word)) n = bit (push_bit 16 (ucast x :: 32 word)) n"
    by cases (auto simp: bit_push_bit_iff bit_signed_iff bit_unsigned_iff)
qed

lemma cluster_of_halves: "cluster_of (unat clus div 2 ^ 16) (unat clus mod 2 ^ 16) = clus"
proof -
  let ?h = "unat clus div 2 ^ 16"
  have "unat clus < 2 ^ 32" using unsigned_less [of clus, where ?'a = nat] by simp
  then have "?h < 2 ^ 16" by (simp add: less_mult_imp_div_less)
  then have "ucast (word_of_nat ?h :: 16 word) = (word_of_nat ?h :: 32 word)"
    by (simp add: unsigned_of_nat take_bit_nat_eq_self)
  then have "cluster_of ?h (unat clus mod 2 ^ 16) = push_bit 16 (word_of_nat ?h) + word_of_nat (unat clus mod 2 ^ 16)"
    by (simp add: cluster_of_def high_half)
  also have "\<dots> = word_of_nat (?h * 2 ^ 16 + unat clus mod 2 ^ 16)"
    by (simp only: push_bit_eq_mult of_nat_add of_nat_mult of_nat_power of_nat_numeral)
  also have "?h * 2 ^ 16 + unat clus mod 2 ^ 16 = unat clus" by (rule div_mult_mod_eq)
  also have "word_of_nat (unat clus) = clus" by simp
  finally show ?thesis .
qed


section \<open>Reports\<close>

lemma cstr_id: "NUL \<notin> set s \<Longrightarrow> cstr s = s"
  by (simp add: cstr_def takeWhile_eq_all_conv) (metis)

lemma is_bmp_name:
  assumes "4 \<le> length nm" and "NUL \<notin> set nm"
  shows "is_bmp nm = Inr (drop (length nm - 4) nm = ''.bmp'')"
proof -
  have "NUL \<notin> set (drop (length nm - 4) nm)" using assms(2) by (meson in_set_dropD)
  then show ?thesis using assms(1) by (simp add: is_bmp_def cstr_id)
qed

lemma bmp_scanned:
  assumes "bmp_at img p nm clus" and "wanted nm clus \<Longrightarrow> picture_at img (cluster_pos F clus) bytes"
  shows "scan_entry img F p = Inr (if wanted nm clus then Some (bytes, nm) else None)"
proof -
  note bmp = assms(1) [unfolded bmp_at_def]
  have "long_name img (p - 0x20) (take (13 * 0) nm) = Inr nm"
    by (rule long_name_reads [where ?e0.0 = "p - 0x20"]) (use bmp in auto)
  then have nm: "long_name img (p - 0x20) [] = Inr nm" by simp
  have rec: "recover img F clus nm = Inr (Some (bytes, nm))" if "wanted nm clus"
    using assms(2) [OF that] that bmp
    by (simp add: recover_def picture_at_def wanted_def Let_def cstr_id)
  obtain w where w: "fetch img p 2 = Inr w" "w \<noteq> 0x202E" "w \<noteq> 0x2E2E" using bmp by blast
  have reads: "fetch img (p + 8) 2 = Inr 0x4D42" "fetch img (p + 0xA) 1 = Inr 0x50"
      "fetch img (p + 0x14) 2 = Inr (unat clus div 2 ^ 16)" "fetch img (p + 0x1A) 2 = Inr (unat clus mod 2 ^ 16)"
    and ends: "is_bmp nm = Inr (drop (length nm - 4) nm = ''.bmp'')"
    using bmp is_bmp_name by auto
  have "scan_entry img F p =
      (if drop (length nm - 4) nm = ''.bmp'' then recover img F clus nm else Inr None)"
    unfolding scan_entry_def w reads rbind_Inr nm ends cluster_of_halves using w by simp
  moreover have "recover img F 0 nm = Inr None" by (simp add: recover_def)
  ultimately show ?thesis using rec by (auto simp: wanted_def)
qed

lemma quiet_scanned: "quiet_at img p \<Longrightarrow> scan_entry img F p = Inr None"
  by (auto simp: quiet_at_def scan_entry_def)

lemma slot_scanned:
  assumes "slot_at img F p s"
  shows "\<exists>r. scan_entry img F p = Inr r \<and> slot_report s = (case r of None \<Rightarrow> [] | Some x \<Rightarrow> [x])"
proof (cases s)
  case None
  then show ?thesis using assms quiet_scanned by auto
next
  case (Some t)
  obtain nm clus bytes where t: "t = (nm, clus, bytes)" by (cases t)
  from bmp_scanned [of img p nm clus F bytes] assms show ?thesis by (auto simp: Some t)
qed

declare scan_from.simps [simp del]

lemma scan_from_slots:
  assumes "\<And>i. i < length ss \<Longrightarrow> slot_at img F (p + 0x20 * int i) (ss ! i)"
    and "\<And>i. i < length ss \<Longrightarrow> p + 0x20 * int i \<le> fend" and "fend < p + 0x20 * int (length ss)"
  shows "scan_from img F fend p = (concat (map slot_report ss), None)"
  using assms
proof (induction ss arbitrary: p)
  case Nil
  then show ?case by (simp add: scan_from.simps)
next
  case (Cons s ss)
  have "slot_at img F p s" using Cons.prems(1) [of 0] by simp
  then obtain r where r: "scan_entry img F p = Inr r"
    and rep: "slot_report s = (case r of None \<Rightarrow> [] | Some x \<Rightarrow> [x])"
    using slot_scanned by blast
  have "scan_from img F fend (p + 0x20) = (concat (map slot_report ss), None)"
  proof (rule Cons.IH)
    fix i assume i: "i < length ss"
    show "slot_at img F (p + 0x20 + 0x20 * int i) (ss ! i)" "p + 0x20 + 0x20 * int i \<le> fend"
      using Cons.prems(1,2) [of "Suc i"] i by (simp_all add: algebra_simps)
  qed (use Cons.prems(3) in simp)
  moreover have "p \<le> fend" using Cons.prems(2) [of 0] by simp
  ultimately show ?case
    by (simp add: scan_from.simps [of img F fend p] r rep split: option.splits)
qed



section \<open>An image\<close>

lemma fetch_file:
  "0 \<le> p \<Longrightarrow> nat p + k \<le> length f \<Longrightarrow> fetch (mmap_file f) p k = Inr (dec_le (take k (drop (nat p) f)))"
  by (simp add: fetch_def mmap_file_def)

lemma length_mmap_file: "f \<noteq> [] \<Longrightarrow> length f < PAGE \<Longrightarrow> length (mmap_file f) = PAGE"
  by (simp add: mmap_file_def PAGE_def)

lemma fetch_behind:
  assumes "length f \<le> nat p" and "nat p + k \<le> length (mmap_file f)" and "0 \<le> p"
  shows "fetch (mmap_file f) p k = Inr 0"
proof -
  have "take k (drop (nat p) (mmap_file f)) = replicate k NUL"
    using assms by (simp add: mmap_file_def take_replicate)
  then show ?thesis using assms by (simp add: fetch_def)
qed

text \<open>
  Two sectors of 32 bytes are reserved; the directory at 96 has the two entries of \<open>a.bmp\<close>, the picture is
  in cluster 5, at 160.
\<close>

definition demo_image :: "char list" where
  "demo_image =
     replicate 11 NUL @ [CHR 0x20, NUL, CHR 0x01, CHR 0x02, NUL] @ replicate 80 NUL @
     [CHR ''A'', CHR ''a'', NUL, CHR ''.'', NUL, CHR ''b'', NUL, CHR ''m'', NUL, CHR ''p'', NUL, CHR 0x0F, NUL, NUL] @
     replicate 2 NUL @ replicate 10 CHR 0xFF @ replicate 2 NUL @ replicate 4 CHR 0xFF @
     ''A       BMP'' @ replicate 15 NUL @ [CHR 0x05, NUL] @ replicate 4 NUL @
     ''BM'' @ [CHR 0x08, NUL, NUL, NUL, CHR ''o'', CHR ''k''] @ replicate 24 NUL"

lemma demo_image_eval: "length demo_image = 192"
  by (simp add: demo_image_def)

lemmas demo_fetch = fetch_file [where f = demo_image, unfolded demo_image_eval]
  fetch_behind [where f = demo_image, unfolded demo_image_eval]

lemma demo_header: "read_header (mmap_file demo_image) = Inr \<lparr>BPS = 32, threecu = 96\<rparr>"
  by (simp add: read_header_def fetch_short_def fetch_int_def demo_fetch)
     (simp add: demo_image_def)

lemma all_less_13:
  "(\<forall>i < (13::nat). P i) \<longleftrightarrow> P 0 \<and> P 1 \<and> P 2 \<and> P 3 \<and> P 4 \<and> P 5 \<and> P 6 \<and> P 7 \<and> P 8 \<and> P 9 \<and> P 10 \<and> P 11 \<and> P 12"
  by (simp add: eval_nat_numeral All_less_Suc) blast

lemma demo_name: "lfn_at (mmap_file demo_image) 96 ''a.bmp'' 0"
  unfolding lfn_at_def all_less_13
  by (simp add: lfn_off_def name_unit_def demo_fetch) (simp add: demo_image_def numeral_2_eq_2)

lemma demo_picture:
  "picture_at (mmap_file demo_image) 160 [CHR ''B'', CHR ''M'', CHR 0x08, NUL, NUL, NUL, CHR ''o'', CHR ''k'']"
  (is "picture_at _ _ ?pic")
proof -
  have room: "160 + 6 \<le> length (mmap_file demo_image)" by (simp add: mmap_file_def demo_image_eval)
  have "take 8 (drop 160 demo_image) = ?pic" by (simp add: demo_image_def)
  then have pic: "take 8 (drop 160 (mmap_file demo_image)) = ?pic"
    by (simp add: mmap_file_def demo_image_eval)
  have "fetch (mmap_file demo_image) 160 2 = Inr 0x4D42" "fetch (mmap_file demo_image) 162 4 = Inr 8"
    by (simp_all add: demo_fetch) (simp_all add: demo_image_def)
  moreover have "length ?pic = 8" by simp
  ultimately show ?thesis using room pic unfolding picture_at_def by (simp only: nat_numeral) simp
qed

lemma demo_entry: "bmp_at (mmap_file demo_image) 128 ''a.bmp'' 5"
proof -
  have "\<not> 13 dvd length ''a.bmp''" by (auto dest: dvd_imp_le)
  then show ?thesis
    using demo_name unfolding bmp_at_def by (simp add: demo_fetch) (simp add: demo_image_def)
qed



section \<open>Images the walk fails on\<close>

text \<open>
  The loop runs to \<open>fend\<close> inclusive: on an image of whole pages, with the directory at a multiple of an
  entry before its end, the last step reads behind the mapping, whatever was reported before.
\<close>

lemma scan_from_end:
  assumes "fetch img fend 2 = Inl e" and "p \<le> fend" and "0x20 dvd (fend - p)"
  shows "snd (scan_from img F fend p) \<noteq> None"
  using assms
proof (induction "nat (fend - p)" arbitrary: p rule: less_induct)
  case less
  show ?case
  proof (cases "scan_entry img F p")
    case (Inl a)
    then show ?thesis using less.prems by (simp add: scan_from.simps [of img F fend p])
  next
    case (Inr r)
    then have "p \<noteq> fend" using less.prems(1) by (auto simp: scan_entry_def)
    then have p: "0 < fend - p" using less.prems(2) by simp
    with less.prems(3) have "0x20 \<le> fend - p" by (rule zdvd_imp_le)
    moreover have "0x20 dvd (fend - (p + 0x20))"
      using less.prems(3) by presburger
    ultimately have "snd (scan_from img F fend (p + 0x20)) \<noteq> None"
      using less.hyps [of "p + 0x20"] less.prems(1) by simp
    then show ?thesis
      using Inr less.prems(2)
      by (cases "scan_from img F fend (p + 0x20)") (simp add: scan_from.simps [of img F fend p])
  qed
qed

lemma whole_pages_fault:
  assumes "read_header (mmap_file f) = Inr F" and "threecu F \<le> int (length f)"
    and "0x20 dvd (int (length f) - threecu F)" and "PAGE dvd length f"
  shows "snd (frecov f) \<noteq> None"
proof -
  have "mmap_file f = f" using assms(4) by (simp add: mmap_file_def)
  then have "fetch (mmap_file f) (int (length f)) 2 = Inl Overrun" by (simp add: fetch_def)
  from scan_from_end [OF this assms(2,3)] show ?thesis by (simp add: frecov_def assms(1) Let_def)
qed

text \<open>An entry without a long name compares bytes in front of the buffer; the 51st character leaves it.\<close>

lemma no_long_name_faults: "is_bmp [] = Inl Overrun"
  by (simp add: is_bmp_def)

lemma fifty_one_characters_overrun:
  "fetch img p 2 = Inr u \<Longrightarrow> u \<noteq> 0 \<Longrightarrow> length nm = 50 \<Longrightarrow> name_part img p (Suc n) nm = Inl Overrun"
  by simp

end
