(* ===== verification/Vme.thy ===== *)
theory Vme
  imports Prelude
begin

text \<open>
  Address spaces of the abstract machine (\<open>am/src/x86/qemu/vme.c\<close>): two-level page tables of 32-bit x86.
  Memory that holds tables is seen as pages of 1024 words; the pages come from the allocator the caller
  registers, which is a parameter: the list of the addresses it hands out, \<open>NULL\<close> when there are none left.
\<close>

unbundle bit_operations_syntax

section \<open>Addresses and entries\<close>

type_synonym addr = "32 word"

definition PGSIZE :: addr where "PGSIZE = 4096"
definition NR_PDE :: nat where "NR_PDE = 1024"
definition PTE_P :: addr where "PTE_P = 0x001"
definition PTE_W :: addr where "PTE_W = 0x002"
definition PTE_U :: addr where "PTE_U = 0x004"

definition PDX :: "addr \<Rightarrow> nat" where "PDX va = unat (drop_bit 22 va AND 0x3FF)"
definition PTX :: "addr \<Rightarrow> nat" where "PTX va = unat (drop_bit 12 va AND 0x3FF)"
definition OFF :: "addr \<Rightarrow> addr" where "OFF va = va AND 0xFFF"
definition ROUNDDOWN :: "addr \<Rightarrow> addr \<Rightarrow> addr" where "ROUNDDOWN a sz = a AND NOT (sz - 1)"
definition PTE_ADDR :: "addr \<Rightarrow> addr" where "PTE_ADDR pte = pte AND NOT 0xFFF"

definition PROT_NONE :: addr where "PROT_NONE = 1"
definition PROT_WRITE :: addr where "PROT_WRITE = 4"

section \<open>State\<close>

record vm_area =
  a_start :: addr
  a_end :: addr
  physical :: bool

definition areas :: "vm_area list" where
  "areas =
     [\<lparr>a_start = 0x00000000, a_end = 0x20000000, physical = True\<rparr>,
      \<lparr>a_start = 0x40000000, a_end = 0x80000000, physical = False\<rparr>,
      \<lparr>a_start = 0xF0000000, a_end = 0x00000000, physical = True\<rparr>]"

definition in_range :: "addr \<Rightarrow> vm_area \<Rightarrow> bool" where
  "in_range p a \<longleftrightarrow> a_start a \<le> p \<and> p < a_end a"

definition uvm_area :: vm_area where
  "uvm_area = areas ! 1"

text \<open>The contents of pages, the pages left, and the control registers of the processor that runs.\<close>

record vm =
  pages :: "addr \<Rightarrow> nat \<Rightarrow> addr"
  pool :: "addr list"
  kpt :: addr
  cr0 :: addr
  cr3 :: addr

record aspace =
  pgsize :: addr
  area :: vm_area
  ptr :: addr

text \<open>\<open>tab[i] = v\<close> for a table that starts at the page \<open>tab\<close>.\<close>

definition set_entry :: "addr \<Rightarrow> nat \<Rightarrow> addr \<Rightarrow> vm \<Rightarrow> vm" where
  "set_entry tab i v s = s\<lparr>pages := (pages s)(tab := (pages s tab)(i := v))\<rparr>"

definition pgalloc :: "vm \<Rightarrow> (addr \<times> vm) res" where
  "pgalloc s =
     (let ret = (case pool s of [] \<Rightarrow> 0 | a # as \<Rightarrow> a); s1 = s\<lparr>pool := tl (pool s)\<rparr>
      in if ret = 0 then Inl (Panic ''page allocation fail'')
         else Inr (ret, s1\<lparr>pages := (pages s1)(ret := (\<lambda>i. if i < NR_PDE then 0 else pages s1 ret i))\<rparr>))"

definition pgfree :: "addr \<Rightarrow> vm \<Rightarrow> vm" where
  "pgfree p s = s\<lparr>pool := pool s @ [p]\<rparr>"

section \<open>The kernel's table\<close>

definition map_kernel_page :: "addr \<Rightarrow> vm \<Rightarrow> vm res" where
  "map_kernel_page pa s =
     rbind
       (if pages s (kpt s) (PDX pa) AND PTE_P = 0 then
          rbind (pgalloc s) (\<lambda>(ptab, s1).
            Inr (ptab, set_entry (kpt s1) (PDX pa) (PTE_P OR PTE_W OR ptab) s1))
        else Inr (PTE_ADDR (pages s (kpt s) (PDX pa)), s))
       (\<lambda>(ptab, s1). Inr (set_entry ptab (PTX pa) (PTE_P OR PTE_W OR pa) s1))"

text \<open>The loop over the pages of an area, with the test \<open>pa != end\<close> of the code.\<close>

partial_function (option) map_area :: "addr \<Rightarrow> addr \<Rightarrow> vm \<Rightarrow> vm res option" where
  "map_area pa stop s =
     (if pa = stop then Some (Inr s)
      else case map_kernel_page pa s of
             Inl e \<Rightarrow> Some (Inl e)
           | Inr s1 \<Rightarrow> map_area (pa + PGSIZE) stop s1)"

fun map_areas :: "vm_area list \<Rightarrow> vm \<Rightarrow> vm res option" where
  "map_areas [] s = Some (Inr s)"
| "map_areas (a # as) s =
     (if \<not> physical a then map_areas as s
      else case map_area (a_start a) (a_end a) s of
             None \<Rightarrow> None
           | Some (Inl e) \<Rightarrow> Some (Inl e)
           | Some (Inr s1) \<Rightarrow> map_areas as s1)"

definition CR0_PG :: addr where "CR0_PG = 0x80000000"

definition percpu_initpg :: "vm \<Rightarrow> vm" where
  "percpu_initpg s = (if kpt s \<noteq> 0 then s\<lparr>cr3 := kpt s, cr0 := cr0 s OR CR0_PG\<rparr> else s)"

definition vme_init :: "nat \<Rightarrow> vm \<Rightarrow> vm res option" where
  "vme_init cpu s =
     (if cpu \<noteq> 0 then Some (Inl (Panic ''init VME in non-bootstrap CPU''))
      else case pgalloc s of
             Inl e \<Rightarrow> Some (Inl e)
           | Inr (p, s1) \<Rightarrow>
               (case map_areas areas (s1\<lparr>kpt := p\<rparr>) of
                  None \<Rightarrow> None
                | Some (Inl e) \<Rightarrow> Some (Inl e)
                | Some (Inr s2) \<Rightarrow> Some (Inr (percpu_initpg s2))))"

section \<open>Address spaces\<close>

fun copy_entries :: "addr \<Rightarrow> nat \<Rightarrow> nat \<Rightarrow> vm \<Rightarrow> vm" where
  "copy_entries updir i 0 s = s"
| "copy_entries updir i (Suc n) s = copy_entries updir (i + 1) n (set_entry updir i (pages s (kpt s) i) s)"

definition protect :: "vm \<Rightarrow> (aspace \<times> vm) res" where
  "protect s =
     rbind (pgalloc s) (\<lambda>(updir, s1).
       Inr (\<lparr>pgsize = PGSIZE, area = uvm_area, ptr = updir\<rparr>, copy_entries updir 0 NR_PDE s1))"

partial_function (option) unprotect_from :: "addr \<Rightarrow> addr \<Rightarrow> vm \<Rightarrow> vm option" where
  "unprotect_from updir va s =
     (if va = a_end uvm_area then Some s
      else
        let pde = pages s updir (PDX va);
            s1 = (if pde AND PTE_P \<noteq> 0 then pgfree (PTE_ADDR pde) s else s)
        in unprotect_from updir (va + 0x400000) s1)"

definition unprotect :: "aspace \<Rightarrow> vm \<Rightarrow> vm option" where
  "unprotect p s =
     (case unprotect_from (ptr p) (a_start uvm_area) s of
        None \<Rightarrow> None
      | Some s1 \<Rightarrow> Some (pgfree (ptr p) s1))"

definition map_page :: "aspace \<Rightarrow> addr \<Rightarrow> addr \<Rightarrow> addr \<Rightarrow> vm \<Rightarrow> (nat \<times> vm) res" where
  "map_page p va pa prot s =
     (if prot AND PROT_NONE \<noteq> 0 \<and> prot \<noteq> PROT_NONE then Inl (Panic ''invalid protection flags'')
      else if va \<noteq> ROUNDDOWN va PGSIZE \<or> pa \<noteq> ROUNDDOWN pa PGSIZE then Inl (Panic ''unaligned memory address'')
      else if \<not> in_range va uvm_area then Inr (1, s)
      else
        let updir = ptr p
        in rbind
             (if pages s updir (PDX va) AND PTE_P = 0 then
                rbind (pgalloc s) (\<lambda>(t, s1). Inr (set_entry updir (PDX va) (PTE_P OR PTE_W OR PTE_U OR t) s1))
              else Inr s)
             (\<lambda>s1.
               let pte = PTE_ADDR (pages s1 updir (PDX va));
                   v = (if prot AND PROT_NONE \<noteq> 0 then 0
                        else PTE_P OR (if prot AND PROT_WRITE \<noteq> 0 then PTE_W else 0) OR PTE_U OR pa)
               in Inr (0, set_entry pte (PTX va) v s1)))"

section \<open>Translation\<close>

text \<open>
  What the processor does with the tables: the frame of an address and whether it may be written and used
  in user mode, or nothing when an entry on the way is not present.
\<close>

definition translate :: "vm \<Rightarrow> addr \<Rightarrow> addr \<Rightarrow> (addr \<times> bool \<times> bool) option" where
  "translate s pd va =
     (let pde = pages s pd (PDX va); pte = pages s (PTE_ADDR pde) (PTX va)
      in if pde AND PTE_P = 0 \<or> pte AND PTE_P = 0 then None
         else Some (PTE_ADDR pte OR OFF va, pde AND pte AND PTE_W \<noteq> 0, pde AND pte AND PTE_U \<noteq> 0))"

end
