(* ===== verification/Vme_Props.thy ===== *)
theory Vme_Props
  imports Vme
begin

text \<open>
  The page tables against the translation the processor makes: what putting an entry in a two-level table
  does to the translation, and the kernel's table, which is the identity on the physical areas.
\<close>

section \<open>Words\<close>

lemma mask_10: "(0x3FF :: addr) = mask 10" and mask_12: "(0xFFF :: addr) = mask 12"
  by (simp_all add: mask_eq_exp_minus_1)

lemma bit_not_page: "bit (NOT 0xFFF :: addr) n \<longleftrightarrow> 12 \<le> n \<and> n < 32"
  unfolding mask_12 by (auto simp: bit_not_iff bit_mask_iff)

lemma bit_PTE_ADDR: "bit (PTE_ADDR v) n \<longleftrightarrow> bit v n \<and> 12 \<le> n \<and> n < 32"
  by (simp only: PTE_ADDR_def bit_and_iff bit_not_page)

lemma PDX_less: "PDX va < 1024" and PTX_less: "PTX va < 1024"
  using take_bit_nat_less_exp [of 10 "unat (drop_bit 22 va)"] take_bit_nat_less_exp [of 10 "unat (drop_bit 12 va)"]
  by (simp_all add: PDX_def PTX_def mask_10 take_bit_eq_mask [symmetric] unsigned_take_bit_eq)

lemma PDX_div: "PDX va = unat va div 2 ^ 22"
proof -
  have "unat va < 2 ^ 32" using unsigned_less [of va, where ?'a = nat] by simp
  then have "unat va div 2 ^ 22 < 2 ^ 10" by (simp add: less_mult_imp_div_less)
  then show ?thesis
    by (simp add: PDX_def mask_10 take_bit_eq_mask [symmetric] unsigned_take_bit_eq unsigned_drop_bit_eq
        drop_bit_eq_div take_bit_nat_eq_self unat_div)
qed

lemma same_page: "PDX v = PDX w \<and> PTX v = PTX w \<longleftrightarrow> PTE_ADDR v = PTE_ADDR w"
proof
  assume eq: "PDX v = PDX w \<and> PTX v = PTX w"
  then have e: "drop_bit 22 v AND 0x3FF = drop_bit 22 w AND 0x3FF" "drop_bit 12 v AND 0x3FF = drop_bit 12 w AND 0x3FF"
    by (auto simp: PDX_def PTX_def intro: unsigned_word_eqI)
  show "PTE_ADDR v = PTE_ADDR w"
  proof (rule bit_word_eqI)
    fix n assume n: "n < LENGTH(32)"
    consider "n < 12" | "12 \<le> n" "n < 22" | "22 \<le> n" by linarith
    then show "bit (PTE_ADDR v) n = bit (PTE_ADDR w) n"
    proof cases
      case 1
      then show ?thesis by (simp add: bit_PTE_ADDR)
    next
      case 2
      then have "n - 12 < 10" "n - 12 < 32" by simp_all
      with 2 arg_cong [OF e(2), of "\<lambda>x. bit x (n - 12)"] n show ?thesis
        by (simp add: bit_PTE_ADDR bit_and_iff bit_drop_bit_eq mask_10 bit_mask_iff)
    next
      case 3
      then have "n - 22 < 10" "n - 22 < 32" using n by simp_all
      with 3 arg_cong [OF e(1), of "\<lambda>x. bit x (n - 22)"] n show ?thesis
        by (simp add: bit_PTE_ADDR bit_and_iff bit_drop_bit_eq mask_10 bit_mask_iff)
    qed
  qed
next
  assume eq: "PTE_ADDR v = PTE_ADDR w"
  have b: "bit v n = bit w n" if "12 \<le> n" "n < 32" for n
    using arg_cong [OF eq, of "\<lambda>x. bit x n"] that by (simp add: bit_PTE_ADDR)
  have "drop_bit 22 v AND 0x3FF = drop_bit 22 w AND 0x3FF"
    by (rule bit_word_eqI) (auto simp: bit_and_iff bit_drop_bit_eq mask_10 bit_mask_iff b)
  moreover have "drop_bit 12 v AND 0x3FF = drop_bit 12 w AND 0x3FF"
    by (rule bit_word_eqI) (auto simp: bit_and_iff bit_drop_bit_eq mask_10 bit_mask_iff b)
  ultimately show "PDX v = PDX w \<and> PTX v = PTX w" by (simp add: PDX_def PTX_def)
qed

text \<open>Flags and the address of a page.\<close>

definition page_ok :: "addr \<Rightarrow> bool" where
  "page_ok a \<longleftrightarrow> PTE_ADDR a = a"

definition flags_ok :: "addr \<Rightarrow> bool" where
  "flags_ok f \<longleftrightarrow> PTE_ADDR f = 0"

lemma page_ok_PTE_ADDR [simp]: "page_ok (PTE_ADDR a)"
  by (simp add: page_ok_def PTE_ADDR_def and.assoc)

lemma page_ok_ROUNDDOWN: "a = ROUNDDOWN a PGSIZE \<longleftrightarrow> page_ok a"
  by (auto simp: page_ok_def PTE_ADDR_def ROUNDDOWN_def PGSIZE_def)

lemma flags_ok_simps: "flags_ok PTE_P" "flags_ok PTE_W" "flags_ok PTE_U" "flags_ok 0"
  by (simp_all add: flags_ok_def PTE_ADDR_def PTE_P_def PTE_W_def PTE_U_def)

lemma flags_ok_OR: "flags_ok f \<Longrightarrow> flags_ok g \<Longrightarrow> flags_ok (f OR g)"
  by (simp add: flags_ok_def PTE_ADDR_def bit.conj_disj_distrib2)

lemma entry_addr: "page_ok a \<Longrightarrow> flags_ok f \<Longrightarrow> PTE_ADDR (f OR a) = a"
  by (simp add: page_ok_def flags_ok_def PTE_ADDR_def bit.conj_disj_distrib2)

lemma page_flag: "page_ok a \<Longrightarrow> flags_ok f \<Longrightarrow> a AND f = 0"
proof -
  assume a: "page_ok a" and f: "flags_ok f"
  have "a AND f = (a AND NOT 0xFFF) AND f" using a by (simp add: page_ok_def PTE_ADDR_def)
  also have "\<dots> = a AND (f AND NOT 0xFFF)" by (simp add: ac_simps)
  finally show ?thesis using f by (simp add: flags_ok_def PTE_ADDR_def)
qed

lemma entry_flag: "page_ok a \<Longrightarrow> flags_ok g \<Longrightarrow> (f OR a) AND g = f AND g"
  by (simp add: bit.conj_disj_distrib2 page_flag)

lemma page_and_offset: "PTE_ADDR v OR OFF v = v"
  by (rule bit_word_eqI) (auto simp: PTE_ADDR_def OFF_def bit_or_iff bit_and_iff bit_not_iff mask_12 bit_mask_iff)


section \<open>Tables\<close>

definition present :: "vm \<Rightarrow> addr \<Rightarrow> nat \<Rightarrow> bool" where
  "present s pd i \<longleftrightarrow> pages s pd i AND PTE_P \<noteq> 0"

definition tbl :: "vm \<Rightarrow> addr \<Rightarrow> nat \<Rightarrow> addr" where
  "tbl s pd i = PTE_ADDR (pages s pd i)"

definition pool_ok :: "vm \<Rightarrow> bool" where
  "pool_ok s \<longleftrightarrow> distinct (pool s) \<and> (\<forall>a \<in> set (pool s). page_ok a \<and> a \<noteq> 0)"

text \<open>
  A directory and its tables: each table is used once, none is the directory or a free page, and the
  entries of the directory have the flags \<open>fl i\<close>.
\<close>

definition pagedir_ok :: "vm \<Rightarrow> addr \<Rightarrow> bool" where
  "pagedir_ok s pd \<longleftrightarrow>
     pd \<notin> set (pool s) \<and>
     (\<forall>i < 1024. present s pd i \<longrightarrow> tbl s pd i \<notin> set (pool s) \<and> tbl s pd i \<noteq> pd) \<and>
     inj_on (tbl s pd) {i. i < 1024 \<and> present s pd i}"

lemma walk_alt:
  "translate s pd va =
    (let pte = pages s (tbl s pd (PDX va)) (PTX va) in
     if \<not> present s pd (PDX va) \<or> pte AND PTE_P = 0 then None
     else Some (PTE_ADDR pte OR OFF va, pages s pd (PDX va) AND pte AND PTE_W \<noteq> 0,
                pages s pd (PDX va) AND pte AND PTE_U \<noteq> 0))"
  by (simp add: translate_def present_def tbl_def Let_def)

lemma walk_cong:
  assumes "pages t pd (PDX va) = pages s pd (PDX va)"
    and "present s pd (PDX va) \<Longrightarrow> pages t (tbl s pd (PDX va)) (PTX va) = pages s (tbl s pd (PDX va)) (PTX va)"
  shows "translate t pd va = translate s pd va"
  using assms by (auto simp: walk_alt present_def tbl_def Let_def)

lemma pgalloc_run:
  assumes "pool_ok s" and "pool s = a # as"
  shows "\<exists>t. pgalloc s = Inr (a, t) \<and> pool t = as \<and> kpt t = kpt s \<and>
    (\<forall>p. p \<noteq> a \<longrightarrow> pages t p = pages s p) \<and> (\<forall>i < 1024. pages t a i = 0)"
  using assms by (auto simp: pgalloc_def pool_ok_def Let_def NR_PDE_def)

lemma pgalloc_empty: "pool s = [] \<Longrightarrow> pgalloc s = Inl (Panic ''page allocation fail'')"
  by (simp add: pgalloc_def Let_def)

lemma set_entry_simps [simp]:
  "pages (set_entry tab i v s) = (pages s)(tab := (pages s tab)(i := v))"
  "pool (set_entry tab i v s) = pool s" "kpt (set_entry tab i v s) = kpt s"
  by (simp_all add: set_entry_def)

text \<open>Both loops over pages put an entry in a table and make the table when it is missing.\<close>

definition need_table :: "addr \<Rightarrow> addr \<Rightarrow> nat \<Rightarrow> vm \<Rightarrow> vm res" where
  "need_table fl pd i s =
     (if \<not> present s pd i then rbind (pgalloc s) (\<lambda>(t, s1). Inr (set_entry pd i (fl OR t) s1)) else Inr s)"

definition put_page :: "addr \<Rightarrow> addr \<Rightarrow> addr \<Rightarrow> addr \<Rightarrow> vm \<Rightarrow> vm res" where
  "put_page fl pd va e s =
     rbind (need_table fl pd (PDX va) s) (\<lambda>s1. Inr (set_entry (tbl s1 pd (PDX va)) (PTX va) e s1))"

text \<open>The state \<open>t\<close> has the table for \<open>i\<close>, empty if it is new.\<close>

definition table_made :: "addr \<Rightarrow> addr \<Rightarrow> nat \<Rightarrow> vm \<Rightarrow> vm \<Rightarrow> bool" where
  "table_made fl pd i s t \<longleftrightarrow>
     pool_ok t \<and> pagedir_ok t pd \<and> kpt t = kpt s \<and> present t pd i \<and>
     (\<forall>j. j \<noteq> i \<longrightarrow> pages t pd j = pages s pd j) \<and>
     (if present s pd i then t = s
      else (\<exists>a as. pool s = a # as \<and> pool t = as \<and> tbl t pd i = a \<and> pages t pd i = fl OR a \<and>
        (\<forall>k < 1024. pages t a k = 0) \<and> (\<forall>p. p \<noteq> a \<longrightarrow> p \<noteq> pd \<longrightarrow> pages t p = pages s p)))"

lemma need_table_run:
  assumes pool: "pool_ok s" and dir: "pagedir_ok s pd" and fl: "flags_ok fl" "fl AND PTE_P \<noteq> 0" and i: "i < 1024"
  shows "if \<not> present s pd i \<and> pool s = [] then need_table fl pd i s = Inl (Panic ''page allocation fail'')
    else \<exists>t. need_table fl pd i s = Inr t \<and> table_made fl pd i s t"
proof (cases "present s pd i")
  case True
  then show ?thesis using pool dir by (simp add: need_table_def table_made_def)
next
  case False
  show ?thesis
  proof (cases "pool s")
    case Nil
    then show ?thesis using False by (simp add: need_table_def pgalloc_empty)
  next
    case (Cons a as)
    from pgalloc_run [OF pool Cons] obtain u where u: "pgalloc s = Inr (a, u)" "pool u = as" "kpt u = kpt s"
      "\<forall>p. p \<noteq> a \<longrightarrow> pages u p = pages s p" "\<forall>k < 1024. pages u a k = 0" by blast
    define t where "t = set_entry pd i (fl OR a) u"
    have a: "page_ok a" "a \<notin> set as" "a \<noteq> pd" "distinct as"
      using pool dir Cons by (auto simp: pool_ok_def pagedir_ok_def)
    have pd: "pages t pd j = (if j = i then fl OR a else pages s pd j)" for j
      using u(4) a(3) by (simp add: t_def)
    have at: "present t pd j \<longleftrightarrow> j = i \<or> present s pd j" "tbl t pd j = (if j = i then a else tbl s pd j)" for j
      using fl a(1) by (simp_all add: present_def tbl_def pd entry_addr entry_flag flags_ok_simps)
    have old: "tbl s pd j \<noteq> a" "tbl s pd j \<notin> set as" "tbl s pd j \<noteq> pd" if "j < 1024" "present s pd j" for j
      using dir Cons that by (auto simp: pagedir_ok_def)
    have "inj_on (tbl t pd) {j. j < 1024 \<and> present t pd j}"
    proof (rule inj_onI)
      fix j k assume "j \<in> {j. j < 1024 \<and> present t pd j}" "k \<in> {j. j < 1024 \<and> present t pd j}"
        and eq: "tbl t pd j = tbl t pd k"
      then have jk: "j < 1024" "k < 1024" "j = i \<or> present s pd j" "k = i \<or> present s pd k" by (auto simp: at)
      show "j = k"
      proof (cases "j = i \<or> k = i")
        case True
        then show ?thesis using eq jk old by (auto simp: at(2) split: if_splits)
      next
        case no: False
        then have "tbl s pd j = tbl s pd k" using eq by (simp add: at(2))
        then show ?thesis using dir jk no by (auto simp: pagedir_ok_def dest: inj_onD)
      qed
    qed
    moreover have pool_t: "pool t = as" by (simp add: t_def u(2))
    ultimately have "pagedir_ok t pd"
      using dir a old Cons by (auto simp: pagedir_ok_def at)
    moreover have "pool_ok t" using pool Cons by (simp add: pool_ok_def pool_t)
    ultimately have "table_made fl pd i s t"
      using False Cons u a(3) at pd by (simp add: table_made_def t_def)
    then show ?thesis using False Cons u(1) by (simp add: need_table_def t_def)
  qed
qed


definition entry_walk :: "addr \<Rightarrow> addr \<Rightarrow> addr \<Rightarrow> (addr \<times> bool \<times> bool) option" where
  "entry_walk pde e v =
     (if e AND PTE_P = 0 then None
      else Some (PTE_ADDR e OR OFF v, pde AND e AND PTE_W \<noteq> 0, pde AND e AND PTE_U \<noteq> 0))"

text \<open>The directory \<open>q\<close> does not use the table that \<open>pd\<close> has for \<open>i\<close>, nor \<open>pd\<close> itself.\<close>

definition unshared :: "vm \<Rightarrow> addr \<Rightarrow> addr \<Rightarrow> nat \<Rightarrow> bool" where
  "unshared s q pd i \<longleftrightarrow>
     q \<noteq> pd \<and> (present s pd i \<longrightarrow> q \<noteq> tbl s pd i) \<and>
     (\<forall>j < 1024. present s q j \<longrightarrow> tbl s q j \<noteq> pd \<and> (present s pd i \<longrightarrow> tbl s q j \<noteq> tbl s pd i))"

lemma put_entry_walk:
  assumes made: "table_made fl pd (PDX va) s t" and dir: "pagedir_ok s pd"
    and u: "u = set_entry (tbl t pd (PDX va)) (PTX va) e t"
  shows "pool_ok u" "pagedir_ok u pd" "kpt u = kpt s" "pool u = pool t"
    and "\<And>i. pages u pd i = pages t pd i"
    and "translate u pd v = (if PTE_ADDR v = PTE_ADDR va then entry_walk (pages t pd (PDX va)) e v else translate s pd v)"
    and "pagedir_ok s q \<Longrightarrow> unshared s q pd (PDX va) \<Longrightarrow> translate u q v = translate s q v \<and> pages u q = pages s q"
proof -
  let ?i = "PDX va"
  note made1 = made [unfolded table_made_def]
  have i: "?i < 1024" by (rule PDX_less)
  have ti: "present t pd ?i" "tbl t pd ?i \<noteq> pd" using made1 i by (auto simp: pagedir_ok_def)
  show pd: "pages u pd j = pages t pd j" for j using ti(2) by (simp add: u)
  have pu: "pages u (tbl t pd ?i) k = (if k = PTX va then e else pages t (tbl t pd ?i) k)" for k
    by (simp add: u)
  have same: "present u pd j = present t pd j" "tbl u pd j = tbl t pd j" for j
    by (simp_all add: present_def tbl_def pd)
  show "pool_ok u" "kpt u = kpt s" "pool u = pool t" using made1 by (simp_all add: u pool_ok_def)
  show "pagedir_ok u pd" using made1 unfolding pagedir_ok_def same by (simp add: u)
  have inj: "tbl t pd j \<noteq> tbl t pd ?i" if "j < 1024" "present t pd j" "j \<noteq> ?i" for j
    using made1 that i by (auto simp: pagedir_ok_def dest: inj_onD)
  show "translate u pd v = (if PTE_ADDR v = PTE_ADDR va then entry_walk (pages t pd ?i) e v else translate s pd v)"
  proof (cases "PDX v = ?i")
    case True
    show ?thesis
    proof (cases "PTX v = PTX va")
      case eq: True
      then have "PTE_ADDR v = PTE_ADDR va" using True same_page by blast
      then show ?thesis using ti(1) by (simp add: walk_alt same True eq Let_def entry_walk_def pu pd)
    next
      case False
      then have "PTE_ADDR v \<noteq> PTE_ADDR va" using same_page by blast
      moreover have "translate u pd v = translate s pd v"
      proof (cases "present s pd ?i")
        case True
        then have "t = s" using made1 by simp
        then show ?thesis using \<open>PDX v = ?i\<close> False pd pu [of "PTX v"] by (intro walk_cong) simp_all
      next
        case absent: False
        then have "pages t (tbl t pd ?i) (PTX v) = 0" using made1 PTX_less by auto
        then have "translate u pd v = None" using True False by (simp add: walk_alt same Let_def pu)
        moreover have "translate s pd v = None" using absent True by (simp add: walk_alt Let_def)
        ultimately show ?thesis by simp
      qed
      ultimately show ?thesis by simp
    qed
  next
    case False
    then have ne: "PTE_ADDR v \<noteq> PTE_ADDR va" using same_page by blast
    have e: "pages t pd (PDX v) = pages s pd (PDX v)" using made1 False by simp
    then have p: "present t pd (PDX v) = present s pd (PDX v)" "tbl t pd (PDX v) = tbl s pd (PDX v)"
      by (simp_all add: present_def tbl_def)
    have "translate u pd v = translate s pd v"
    proof (rule walk_cong)
      show "pages u pd (PDX v) = pages s pd (PDX v)" using e pd by simp
      assume pr: "present s pd (PDX v)"
      have "tbl s pd (PDX v) \<noteq> tbl t pd ?i" using inj [of "PDX v"] p pr False PDX_less by simp
      moreover have "pages t (tbl s pd (PDX v)) = pages s (tbl s pd (PDX v))"
      proof (cases "present s pd ?i")
        case False
        then obtain a as where "pool s = a # as" "\<forall>p. p \<noteq> a \<longrightarrow> p \<noteq> pd \<longrightarrow> pages t p = pages s p" using made1 by auto
        moreover have "tbl s pd (PDX v) \<notin> set (pool s)" "tbl s pd (PDX v) \<noteq> pd"
          using dir pr PDX_less by (auto simp: pagedir_ok_def)
        ultimately show ?thesis by auto
      qed (use made1 in simp)
      ultimately show "pages u (tbl s pd (PDX v)) (PTX v) = pages s (tbl s pd (PDX v)) (PTX v)" by (simp add: u)
    qed
    then show ?thesis using ne by simp
  qed
  assume q: "pagedir_ok s q" and un: "unshared s q pd ?i"
  have keep: "pages u p = pages s p" if "p \<noteq> pd" "p \<notin> set (pool s)" "present s pd ?i \<longrightarrow> p \<noteq> tbl s pd ?i" for p
  proof (cases "present s pd ?i")
    case True
    then have "t = s" using made1 by simp
    then show ?thesis using that True by (simp add: u)
  next
    case False
    then obtain a as where "pool s = a # as" "tbl t pd ?i = a" "\<forall>p. p \<noteq> a \<longrightarrow> p \<noteq> pd \<longrightarrow> pages t p = pages s p"
      using made1 by auto
    then show ?thesis using that by (simp add: u)
  qed
  have pq: "pages u q = pages s q" by (rule keep) (use q un in \<open>auto simp: pagedir_ok_def unshared_def\<close>)
  moreover have "translate u q v = translate s q v"
  proof (rule walk_cong)
    show "pages u q (PDX v) = pages s q (PDX v)" using pq by simp
    assume "present s q (PDX v)"
    then have "pages u (tbl s q (PDX v)) = pages s (tbl s q (PDX v))"
      using q un PDX_less by (intro keep) (auto simp: pagedir_ok_def unshared_def)
    then show "pages u (tbl s q (PDX v)) (PTX v) = pages s (tbl s q (PDX v)) (PTX v)" by simp
  qed
  ultimately show "translate u q v = translate s q v \<and> pages u q = pages s q" by simp
qed


section \<open>The kernel's table\<close>

lemma map_kernel_page_alt:
  assumes "pool_ok s"
  shows "map_kernel_page pa s = put_page (PTE_P OR PTE_W) (kpt s) pa (PTE_P OR PTE_W OR pa) s"
proof (cases "present s (kpt s) (PDX pa)")
  case True
  then show ?thesis
    by (simp add: map_kernel_page_def put_page_def need_table_def present_def tbl_def)
next
  case absent: False
  show ?thesis
  proof (cases "pool s")
    case Nil
    then show ?thesis using absent
      by (simp add: map_kernel_page_def put_page_def need_table_def present_def pgalloc_empty)
  next
    case (Cons a as)
    from pgalloc_run [OF assms Cons] obtain u where u: "pgalloc s = Inr (a, u)" "kpt u = kpt s" by blast
    have "PTE_ADDR ((PTE_P OR PTE_W) OR a) = a"
      using assms Cons by (intro entry_addr flags_ok_OR flags_ok_simps) (simp add: pool_ok_def)
    then show ?thesis using absent u
      by (simp add: map_kernel_page_def put_page_def need_table_def present_def tbl_def or.assoc)
  qed
qed

text \<open>The number of a page.\<close>

definition pnum :: "addr \<Rightarrow> nat" where
  "pnum v = unat v div 4096"

lemma PTE_ADDR_pnum: "unat (PTE_ADDR v) = 4096 * pnum v"
proof -
  have "PTE_ADDR v = push_bit 12 (drop_bit 12 v)"
    by (rule bit_word_eqI) (auto simp: bit_PTE_ADDR bit_push_bit_iff bit_drop_bit_eq)
  then have v: "PTE_ADDR v = 4096 * (v div 4096)" by (simp add: push_bit_eq_mult drop_bit_eq_div ac_simps)
  have "unat (v div 4096) = unat v div 4096" by (simp add: unat_div)
  moreover have "4096 * (unat v div 4096) < 2 ^ LENGTH(32)"
    using unsigned_less [of v, where ?'a = nat] by (simp add: order_le_less_trans [OF times_div_less_eq_dividend])
  ultimately have "unat (4096 :: addr) * unat (v div 4096) < 2 ^ LENGTH(32)" by simp
  then have "unat (4096 * (v div 4096)) = unat (4096 :: addr) * unat (v div 4096)" by (rule unat_mult_lem [THEN iffD1])
  then show ?thesis using \<open>unat (v div 4096) = unat v div 4096\<close> by (simp add: v pnum_def)
qed

lemma unat_eqD: "unat a = unat b \<Longrightarrow> a = b"
  by (auto intro: unsigned_word_eqI)

lemma same_pnum: "PTE_ADDR v = PTE_ADDR w \<longleftrightarrow> pnum v = pnum w"
proof
  assume "PTE_ADDR v = PTE_ADDR w"
  then have "unat (PTE_ADDR v) = unat (PTE_ADDR w)" by simp
  then show "pnum v = pnum w" by (simp add: PTE_ADDR_pnum)
next
  assume "pnum v = pnum w"
  then show "PTE_ADDR v = PTE_ADDR w" by (intro unat_eqD) (simp add: PTE_ADDR_pnum)
qed

lemma PDX_pnum: "PDX v = pnum v div 1024"
  by (simp add: PDX_div pnum_def div_mult2_eq [symmetric])

lemma page_pnum: "page_ok a \<Longrightarrow> unat a = 4096 * pnum a"
  using PTE_ADDR_pnum [of a] by (simp add: page_ok_def)

lemma page_okI: "unat a = 4096 * k \<Longrightarrow> page_ok a"
  unfolding page_ok_def by (intro unat_eqD) (simp add: PTE_ADDR_pnum pnum_def)

text \<open>Everything the kernel's table maps so far, by page number.\<close>

definition kmap :: "vm \<Rightarrow> nat set \<Rightarrow> nat set \<Rightarrow> nat \<Rightarrow> bool" where
  "kmap s S D n \<longleftrightarrow>
     pool_ok s \<and> pagedir_ok s (kpt s) \<and>
     (\<forall>i < 1024. present s (kpt s) i \<longrightarrow> pages s (kpt s) i = (PTE_P OR PTE_W) OR tbl s (kpt s) i) \<and>
     (\<forall>v. translate s (kpt s) v = (if pnum v \<in> S then Some (v, True, False) else None)) \<and>
     {i. i < 1024 \<and> present s (kpt s) i} \<subseteq> D \<and> finite D \<and>
     length (pool s) + card {i. i < 1024 \<and> present s (kpt s) i} = n"

lemma kernel_entry_walk:
  assumes "page_ok a" and "page_ok pa" and "PTE_ADDR v = pa"
  shows "entry_walk ((PTE_P OR PTE_W) OR a) ((PTE_P OR PTE_W) OR pa) v = Some (v, True, False)"
proof -
  have f: "flags_ok (PTE_P OR PTE_W)" by (intro flags_ok_OR flags_ok_simps)
  have "((PTE_P OR PTE_W) OR x) AND g = (PTE_P OR PTE_W) AND g" if "page_ok x" "flags_ok g" for x g
    using that by (rule entry_flag)
  note e = this [OF assms(2)] and d = this [OF assms(1)]
  have "flags_ok ((PTE_P OR PTE_W) AND PTE_W)" "flags_ok ((PTE_P OR PTE_W) AND PTE_U)"
    by (simp_all add: flags_ok_def PTE_ADDR_def PTE_P_def PTE_W_def PTE_U_def)
  note dd = d [OF this(1)] d [OF this(2)]
  have "PTE_ADDR ((PTE_P OR PTE_W) OR pa) OR OFF v = v"
    using entry_addr [OF assms(2) f] page_and_offset [of v] assms(3) by simp
  then show ?thesis
    unfolding entry_walk_def by (simp only: e flags_ok_simps dd) (simp add: PTE_P_def PTE_W_def PTE_U_def)
qed

lemma kernel_step:
  assumes km: "kmap s S D n" and pa: "page_ok pa" and D: "PDX pa \<in> D" "card D \<le> n"
  shows "\<exists>t. map_kernel_page pa s = Inr t \<and> kmap t (insert (pnum pa) S) D n \<and> kpt t = kpt s"
proof -
  let ?i = "PDX pa" and ?pd = "kpt s" and ?fl = "PTE_P OR PTE_W"
  note k = km [unfolded kmap_def]
  have pool: "pool_ok s" and dir: "pagedir_ok s ?pd" using k by blast+
  have fl: "flags_ok ?fl" "?fl AND PTE_P \<noteq> 0"
    by (intro flags_ok_OR flags_ok_simps) (simp add: PTE_P_def PTE_W_def)
  have i: "?i < 1024" by (rule PDX_less)
  have "\<not> (\<not> present s ?pd ?i \<and> pool s = [])"
  proof
    assume a: "\<not> present s ?pd ?i \<and> pool s = []"
    then have "{i. i < 1024 \<and> present s ?pd i} \<subset> D" using k D(1) by auto
    then have "card {i. i < 1024 \<and> present s ?pd i} < card D" using k by (intro psubset_card_mono) auto
    then show False using a k D(2) by simp
  qed
  with need_table_run [OF pool dir fl i] obtain t
    where t: "need_table ?fl ?pd ?i s = Inr t" "table_made ?fl ?pd ?i s t" by auto
  define u where "u = set_entry (tbl t ?pd ?i) (PTX pa) (?fl OR pa) t"
  note w = put_entry_walk [OF t(2) dir u_def]
  have run: "map_kernel_page pa s = Inr u"
    using t(1) by (simp add: map_kernel_page_alt [OF pool] put_page_def u_def or.assoc)
  note made = t(2) [unfolded table_made_def]
  have same: "present u ?pd j = present t ?pd j" "tbl u ?pd j = tbl t ?pd j" for j
    by (simp_all add: present_def tbl_def w(5))
  have at: "present t ?pd j \<longleftrightarrow> present s ?pd j \<or> j = ?i" for j
    using made by (cases "j = ?i") (auto simp: present_def)
  have ent: "pages t ?pd j = ?fl OR tbl t ?pd j" if "j < 1024" "present t ?pd j" for j
  proof (cases "j = ?i \<and> \<not> present s ?pd ?i")
    case True
    then show ?thesis using made by auto
  next
    case False
    then have e: "pages t ?pd j = pages s ?pd j" and "present s ?pd j" using made that at by auto
    then have "pages s ?pd j = ?fl OR tbl s ?pd j" using that(1) k by blast
    moreover have "tbl t ?pd j = tbl s ?pd j" by (simp add: tbl_def e)
    ultimately show ?thesis unfolding e by (rule ssubst [where P = "\<lambda>x. pages s ?pd j = ?fl OR x", rotated])
  qed
  have "translate u ?pd v = (if pnum v \<in> insert (pnum pa) S then Some (v, True, False) else None)" for v
  proof (cases "PTE_ADDR v = PTE_ADDR pa")
    case True
    then have "PTE_ADDR v = pa" using pa by (simp add: page_ok_def)
    have "page_ok (tbl t ?pd ?i)" by (simp add: tbl_def)
    from kernel_entry_walk [OF this pa \<open>PTE_ADDR v = pa\<close>] show ?thesis
      using True w(6) [of v] ent [OF i] at made by (simp add: same_pnum)
  next
    case False
    then show ?thesis using w(6) [of v] k by (simp add: same_pnum)
  qed
  moreover have "{i. i < 1024 \<and> present u ?pd i} = insert ?i {i. i < 1024 \<and> present s ?pd i}"
    using i by (auto simp: same at)
  moreover have "length (pool u) + card (insert ?i {i. i < 1024 \<and> present s ?pd i}) = n"
  proof (cases "present s ?pd ?i")
    case True
    then have "insert ?i {i. i < 1024 \<and> present s ?pd i} = {i. i < 1024 \<and> present s ?pd i}" using i by auto
    then show ?thesis using True made k w(4) by simp
  next
    case False
    then show ?thesis using made k w(4) by auto
  qed
  ultimately have "kmap u (insert (pnum pa) S) D n"
    using k w(1-3) ent D(1) by (simp add: kmap_def same w(5))
  then show ?thesis using run w(3) by blast
qed


lemma page_word: "page_ok a \<Longrightarrow> a = word_of_nat (4096 * pnum a)"
  using page_pnum [of a] by (metis word_nat_cases word_of_nat_eq_iff of_nat_unat ucast_id)

lemma page_pnum_less: "pnum a < 2 ^ 20"
proof -
  have "unat a < 2 ^ 20 * 4096" using unsigned_less [of a, where ?'a = nat] by simp
  then show ?thesis unfolding pnum_def by (rule less_mult_imp_div_less)
qed

lemma next_page:
  assumes "page_ok pa" and "pnum pa + 1 < 2 ^ 20"
  shows "page_ok (pa + PGSIZE)" and "pnum (pa + PGSIZE) = pnum pa + 1"
proof -
  have "unat pa + unat PGSIZE < 2 ^ LENGTH(32)" using page_pnum [OF assms(1)] assms(2) by (simp add: PGSIZE_def)
  then have "unat (pa + PGSIZE) = unat pa + unat PGSIZE" by (rule unat_add_lem [THEN iffD1])
  then have u: "unat (pa + PGSIZE) = 4096 * (pnum pa + 1)"
    using page_pnum [OF assms(1)] by (simp add: PGSIZE_def)
  show "page_ok (pa + PGSIZE)" by (rule page_okI [OF u])
  show "pnum (pa + PGSIZE) = pnum pa + 1" unfolding pnum_def [of "pa + PGSIZE"] u by simp
qed

lemma map_area_run:
  assumes "page_ok pa" and "kmap s S D n" and "card D \<le> n"
    and "stop = word_of_nat (4096 * (pnum pa + m))" and "pnum pa + m \<le> 2 ^ 20" and "0 < m" and "m < 2 ^ 20"
    and "\<And>k. k < m \<Longrightarrow> (pnum pa + k) div 1024 \<in> D"
  shows "\<exists>t. map_area pa stop s = Some (Inr t) \<and> kmap t (S \<union> {pnum pa..<pnum pa + m}) D n \<and> kpt t = kpt s"
  using assms
proof (induction m arbitrary: pa s S)
  case 0
  then show ?case by simp
next
  case (Suc m)
  have ne: "pa \<noteq> stop"
  proof
    assume "pa = stop"
    then have "unat pa = unat (word_of_nat (4096 * (pnum pa + Suc m)) :: addr)" using Suc.prems(4) by simp
    also have "\<dots> = 4096 * (pnum pa + Suc m) mod 2 ^ 32" by (simp only: unsigned_of_nat take_bit_eq_mod) simp
    finally have e: "4096 * pnum pa = 4096 * (pnum pa + Suc m) mod 2 ^ 32" using page_pnum [OF Suc.prems(1)] by simp
    show False
    proof (cases "pnum pa + Suc m = 2 ^ 20")
      case True
      then have "pnum pa = 0" using e by simp
      then show False using True Suc.prems(7) by simp
    next
      case False
      then have "4096 * (pnum pa + Suc m) < 2 ^ 32" using Suc.prems(5) by simp
      from e [unfolded mod_less [OF this]] show False by simp
    qed
  qed
  have "PDX pa \<in> D" using Suc.prems(8) [of 0] by (simp add: PDX_pnum)
  from kernel_step [OF Suc.prems(2,1) this Suc.prems(3)] obtain t
    where t: "map_kernel_page pa s = Inr t" "kmap t (insert (pnum pa) S) D n" "kpt t = kpt s" by blast
  have step: "map_area pa stop s = map_area (pa + PGSIZE) stop t"
    using ne t(1) by (subst map_area.simps) simp
  show ?case
  proof (cases "m = 0")
    case True
    have "pa + PGSIZE = word_of_nat (4096 * pnum pa) + word_of_nat 4096"
      using page_word [OF Suc.prems(1)] by (simp add: PGSIZE_def)
    also have "\<dots> = stop" using Suc.prems(4) True by (simp only: of_nat_add [symmetric]) simp
    finally have "map_area (pa + PGSIZE) stop t = Some (Inr t)" by (subst map_area.simps) simp
    moreover have "insert (pnum pa) S = S \<union> {pnum pa..<pnum pa + Suc m}" using True by auto
    ultimately show ?thesis using t step by auto
  next
    case False
    then have nx: "page_ok (pa + PGSIZE)" "pnum (pa + PGSIZE) = pnum pa + 1"
      using next_page [OF Suc.prems(1)] Suc.prems(5) by simp_all
    have sets: "insert (pnum pa) S \<union> {pnum pa + 1..<pnum pa + 1 + m} = S \<union> {pnum pa..<pnum pa + Suc m}" by auto
    have "\<exists>u. map_area (pa + PGSIZE) stop t = Some (Inr u) \<and>
        kmap u (insert (pnum pa) S \<union> {pnum (pa + PGSIZE)..<pnum (pa + PGSIZE) + m}) D n \<and> kpt u = kpt t"
    proof (rule Suc.IH [OF nx(1) t(2) Suc.prems(3)])
      show "stop = word_of_nat (4096 * (pnum (pa + PGSIZE) + m))" using Suc.prems(4) by (simp add: nx(2))
      show "pnum (pa + PGSIZE) + m \<le> 2 ^ 20" "0 < m" "m < 2 ^ 20" using Suc.prems(5,7) False by (simp_all add: nx(2))
      show "(pnum (pa + PGSIZE) + k) div 1024 \<in> D" if "k < m" for k
        using Suc.prems(8) [of "Suc k"] that by (simp add: nx(2))
    qed
    then show ?thesis unfolding nx(2) sets step using t(3) by simp
  qed
qed

text \<open>The state after the boot: the kernel's table and the free pages.\<close>

definition vm_booted :: "vm \<Rightarrow> bool" where
  "vm_booted s \<longleftrightarrow> pool_ok s \<and> pagedir_ok s (kpt s) \<and> (\<forall>i. 256 \<le> i \<longrightarrow> i < 512 \<longrightarrow> \<not> present s (kpt s) i)"

lemma vme_init_run:
  assumes "pool_ok s" and "193 \<le> length (pool s)"
  shows "\<exists>t. vme_init 0 s = Some (Inr t) \<and> vm_booted t \<and> cr3 t = kpt t \<and> cr0 t AND CR0_PG \<noteq> 0 \<and> length (pool s) \<le> length (pool t) + 193 \<and>
    (\<forall>v. translate t (kpt t) v = (if v < 0x20000000 \<or> 0xF0000000 \<le> v then Some (v, True, False) else None))"
proof -
  define D :: "nat set" where "D = {0..<128} \<union> {960..<1024}"
  have card: "card D = 192" unfolding D_def by (subst card_Un_disjoint) auto
  obtain a as where pool: "pool s = a # as" using assms(2) by (cases "pool s") auto
  from pgalloc_run [OF assms(1) pool] obtain u where u: "pgalloc s = Inr (a, u)" "pool u = as"
    "\<forall>k < 1024. pages u a k = 0" by blast
  let ?u = "u\<lparr>kpt := a\<rparr>"
  have none: "\<not> present ?u a i" if "i < 1024" for i using u(3) that by (simp add: present_def)
  then have empty: "{i. i < 1024 \<and> present ?u a i} = {}" by auto
  have "translate ?u a v = None" for v using none [OF PDX_less] by (simp add: walk_alt Let_def)
  moreover have "pool_ok ?u" "a \<notin> set as" using assms(1) by (auto simp: pool_ok_def pool u(2))
  ultimately have k0: "kmap ?u {} D (length as)"
    using none by (auto simp: kmap_def pagedir_ok_def u(2) D_def inj_on_def empty)
  have n: "card D \<le> length as" using assms(2) card by (simp add: pool)
  have p0: "page_ok 0" "pnum 0 = 0" by (simp_all add: page_ok_def PTE_ADDR_def pnum_def)
  have "\<exists>t. map_area 0 0x20000000 ?u = Some (Inr t) \<and> kmap t ({} \<union> {pnum 0..<pnum 0 + 0x20000}) D (length as) \<and> kpt t = kpt ?u"
  proof (rule map_area_run [OF p0(1) k0 n])
    show "(pnum 0 + k) div 1024 \<in> D" if "k < 0x20000" for k
      using that by (simp add: p0(2) D_def div_less_iff_less_mult)
  qed (simp_all add: p0(2))
  then obtain t where t: "map_area 0 0x20000000 ?u = Some (Inr t)" "kmap t {0..<0x20000} D (length as)" "kpt t = a"
    by (auto simp: p0(2))
  have p1: "page_ok 0xF0000000" "pnum 0xF0000000 = 0xF0000" by (simp_all add: page_ok_def PTE_ADDR_def pnum_def)
  have "\<exists>w. map_area 0xF0000000 0 t = Some (Inr w) \<and>
      kmap w ({0..<0x20000} \<union> {pnum 0xF0000000..<pnum 0xF0000000 + 0x10000}) D (length as) \<and> kpt w = kpt t"
  proof (rule map_area_run [OF p1(1) t(2) n])
    show "(pnum 0xF0000000 + k) div 1024 \<in> D" if "k < 0x10000" for k
    proof -
      have "(0xF0000 + k) div 1024 = 960 + k div 1024" by simp
      moreover have "k div 1024 < 64" using that by (simp add: div_less_iff_less_mult)
      ultimately show ?thesis by (simp add: p1(2) D_def)
    qed
  qed (simp_all add: p1(2))
  then obtain w where w: "map_area 0xF0000000 0 t = Some (Inr w)"
      "kmap w ({0..<0x20000} \<union> {0xF0000..<0x100000}) D (length as)" "kpt w = a"
    by (auto simp: p1(2) t(3))
  let ?w = "w\<lparr>cr3 := kpt w, cr0 := cr0 w OR CR0_PG\<rparr>"
  have "a \<noteq> 0" using assms(1) pool by (simp add: pool_ok_def)
  then have "percpu_initpg w = ?w" by (simp add: percpu_initpg_def w(3))
  then have run: "vme_init 0 s = Some (Inr ?w)"
    by (simp add: vme_init_def u(1) areas_def t(1) w(1))
  have pg: "cr0 ?w AND CR0_PG \<noteq> 0" by (simp add: CR0_PG_def bit.conj_disj_distrib2)
  have tp: "tbl ?w = tbl w" "present ?w = present w" by (simp_all add: tbl_def present_def fun_eq_iff)
  have "translate ?w = translate w" by (simp add: translate_def fun_eq_iff)
  moreover have "vm_booted ?w = vm_booted w" unfolding vm_booted_def pool_ok_def pagedir_ok_def tp by simp
  ultimately have same: "translate ?w = translate w" "vm_booted ?w = vm_booted w" .
  have "translate w (kpt w) v = (if v < 0x20000000 \<or> 0xF0000000 \<le> v then Some (v, True, False) else None)" for v
  proof -
    have "pnum v < 0x20000 \<longleftrightarrow> v < 0x20000000"
      unfolding pnum_def by (simp add: word_less_nat_alt div_less_iff_less_mult)
    moreover have "0xF0000 \<le> pnum v \<longleftrightarrow> 0xF0000000 \<le> v"
      unfolding pnum_def by (simp add: word_le_nat_alt less_eq_div_iff_mult_less_eq)
    moreover have "pnum v < 0x100000" using page_pnum_less [of v] by simp
    ultimately show ?thesis using w(2) by (simp add: kmap_def)
  qed
  moreover have "\<not> present w (kpt w) i" if "256 \<le> i" "i < 512" for i
  proof
    assume "present w (kpt w) i"
    then have "i \<in> D" using w(2) that unfolding kmap_def by auto
    then show False using that by (simp add: D_def)
  qed
  then have "vm_booted w" using w(2) by (simp add: kmap_def vm_booted_def)
  moreover have "length (pool s) \<le> length (pool w) + 193"
  proof -
    let ?P = "{i. i < 1024 \<and> present w (kpt w) i}"
    have "card ?P \<le> card D" by (rule card_mono) (use w(2) in \<open>auto simp: kmap_def\<close>)
    then show ?thesis using w(2) card by (simp add: kmap_def pool)
  qed
  ultimately show ?thesis using run pg same by auto
qed

end
