(* ===== verification/Vme_Space.thy ===== *)
theory Vme_Space
  imports Vme_Props "HOL-Library.Multiset"
begin

text \<open>
  Address spaces over the page tables: mapping a page changes the translation of that page and nothing
  else, a new space has the kernel's translation only, and a space that ends gives back the pages it took.
\<close>

section \<open>Address spaces\<close>

definition user :: "nat \<Rightarrow> bool" where
  "user i \<longleftrightarrow> 256 \<le> i \<and> i < 512"

abbreviation user_flags :: addr where
  "user_flags \<equiv> PTE_P OR PTE_W OR PTE_U"

lemma in_range_user: "in_range v uvm_area \<longleftrightarrow> user (PDX v)"
  by (simp add: in_range_def uvm_area_def areas_def user_def PDX_div word_less_nat_alt word_le_nat_alt
      div_less_iff_less_mult less_eq_div_iff_mult_less_eq)

text \<open>
  An address space has its own directory and tables for the user part and the entries of the kernel for the
  rest; it stands for the map \<open>T\<close> from pages to frames that may be written or not.
\<close>

definition space_ok :: "vm \<Rightarrow> aspace \<Rightarrow> bool" where
  "space_ok s p \<longleftrightarrow>
     vm_booted s \<and> pagedir_ok s (ptr p) \<and> ptr p \<noteq> kpt s \<and>
     (\<forall>i < 1024. \<not> user i \<longrightarrow> pages s (ptr p) i = pages s (kpt s) i) \<and>
     (\<forall>i. user i \<longrightarrow> present s (ptr p) i \<longrightarrow>
        pages s (ptr p) i = user_flags OR tbl s (ptr p) i \<and> tbl s (ptr p) i \<noteq> kpt s)"

definition space_rep :: "vm \<Rightarrow> aspace \<Rightarrow> (addr \<Rightarrow> (addr \<times> bool) option) \<Rightarrow> bool" where
  "space_rep s p T \<longleftrightarrow>
     space_ok s p \<and>
     (\<forall>v. translate s (ptr p) v =
        (if in_range v uvm_area then map_option (\<lambda>(f, w). (f OR OFF v, w, True)) (T (PTE_ADDR v))
         else translate s (kpt s) v))"

lemma kernel_unshared:
  assumes "space_ok s p" and "user i"
  shows "unshared s (kpt s) (ptr p) i"
proof -
  note ok = assms(1) [unfolded space_ok_def]
  have same: "present s (ptr p) j" "tbl s (ptr p) j = tbl s (kpt s) j" "j \<noteq> i"
    if "j < 1024" "present s (kpt s) j" for j
  proof -
    have "\<not> user j" using ok that by (auto simp: vm_booted_def user_def)
    then show "present s (ptr p) j" "tbl s (ptr p) j = tbl s (kpt s) j" "j \<noteq> i"
      using ok that assms(2) by (auto simp: present_def tbl_def)
  qed
  have i: "i < 1024" using assms(2) by (simp add: user_def)
  show ?thesis
    unfolding unshared_def
  proof (intro conjI impI allI)
    show "kpt s \<noteq> ptr p" using ok by metis
    show "kpt s \<noteq> tbl s (ptr p) i" if "present s (ptr p) i" using ok that assms(2) by auto
    fix j assume j: "j < 1024" "present s (kpt s) j"
    note sj = same [OF j]
    show "tbl s (kpt s) j \<noteq> ptr p" using ok j(1) sj by (auto simp: pagedir_ok_def)
    show "tbl s (kpt s) j \<noteq> tbl s (ptr p) i" if "present s (ptr p) i"
      using ok i j(1) sj that by (auto simp: pagedir_ok_def dest: inj_onD)
  qed
qed

definition user_entry :: "addr \<Rightarrow> addr \<Rightarrow> addr" where
  "user_entry pa prot =
     (if prot AND PROT_NONE \<noteq> 0 then 0
      else PTE_P OR (if prot AND PROT_WRITE \<noteq> 0 then PTE_W else 0) OR PTE_U OR pa)"

lemma user_flags_ok: "flags_ok user_flags" "user_flags AND PTE_P \<noteq> 0"
  by (intro flags_ok_OR flags_ok_simps) (simp add: PTE_P_def PTE_W_def PTE_U_def)

lemma map_page_alt:
  assumes "pool_ok s" and "in_range va uvm_area" and "page_ok va" and "page_ok pa"
    and "prot AND PROT_NONE \<noteq> 0 \<longrightarrow> prot = PROT_NONE"
  shows "map_page p va pa prot s = rbind (put_page user_flags (ptr p) va (user_entry pa prot) s) (\<lambda>t. Inr (0, t))"
proof -
  have pages: "va = ROUNDDOWN va PGSIZE" "pa = ROUNDDOWN pa PGSIZE"
    using assms(3,4) page_ok_ROUNDDOWN by blast+
  have "(if pages s (ptr p) (PDX va) AND PTE_P = 0 then
        rbind (pgalloc s) (\<lambda>(t, s1). Inr (set_entry (ptr p) (PDX va) (PTE_P OR PTE_W OR PTE_U OR t) s1))
      else Inr s) = need_table user_flags (ptr p) (PDX va) s"
    by (simp add: need_table_def present_def or.assoc)
  moreover have "(prot AND PROT_NONE \<noteq> 0 \<and> prot \<noteq> PROT_NONE) = False" using assms(5) by blast
  moreover have "(va \<noteq> ROUNDDOWN va PGSIZE \<or> pa \<noteq> ROUNDDOWN pa PGSIZE) = False" using pages by blast
  ultimately show ?thesis
    unfolding map_page_def Let_def
    by (simp only: if_False assms(2) not_True_eq_False) (simp add: put_page_def user_entry_def tbl_def rbind_assoc)
qed

lemma user_entry_walk:
  assumes "page_ok t" and "page_ok pa"
  shows "entry_walk (user_flags OR t) (user_entry pa prot) v =
    (if prot AND PROT_NONE \<noteq> 0 then None else Some (pa OR OFF v, prot AND PROT_WRITE \<noteq> 0, True))"
proof (cases "prot AND PROT_NONE \<noteq> 0")
  case True
  then show ?thesis by (simp add: entry_walk_def user_entry_def)
next
  case False
  define w where "w = (if prot AND PROT_WRITE \<noteq> 0 then PTE_W else 0)"
  have w: "flags_ok w" by (simp add: w_def flags_ok_simps)
  have f: "flags_ok (PTE_P OR w OR PTE_U)" by (intro flags_ok_OR flags_ok_simps w)
  have e: "user_entry pa prot = (PTE_P OR w OR PTE_U) OR pa" using False by (simp add: user_entry_def w_def or.assoc)
  have g: "((PTE_P OR w OR PTE_U) OR pa) AND g = (PTE_P OR w OR PTE_U) AND g" if "flags_ok g" for g
    by (rule entry_flag [OF assms(2) that])
  have d: "(user_flags OR t) AND g = user_flags AND g" if "flags_ok g" for g
    by (rule entry_flag [OF assms(1) that])
  have fl: "flags_ok ((PTE_P OR w OR PTE_U) AND h)" for h
    using f by (simp add: flags_ok_def PTE_ADDR_def ac_simps)
  note dd = d [OF fl]
  have "PTE_ADDR (user_entry pa prot) = pa" unfolding e by (rule entry_addr [OF assms(2) f])
  then show ?thesis
    using False unfolding entry_walk_def e
    by (simp only: g flags_ok_simps dd) (simp add: w_def PTE_P_def PTE_W_def PTE_U_def)
qed

lemma map_page_run:
  assumes rep: "space_rep s p T" and va: "in_range va uvm_area" "page_ok va" and pa: "page_ok pa"
    and prot: "prot AND PROT_NONE \<noteq> 0 \<longrightarrow> prot = PROT_NONE"
    and room: "present s (ptr p) (PDX va) \<or> pool s \<noteq> []"
  shows "\<exists>t. map_page p va pa prot s = Inr (0, t) \<and>
    space_rep t p (T(va := if prot AND PROT_NONE \<noteq> 0 then None else Some (pa, prot AND PROT_WRITE \<noteq> 0))) \<and>
    kpt t = kpt s \<and> (\<forall>v. translate t (kpt t) v = translate s (kpt s) v) \<and>
    (\<forall>q v. pagedir_ok s q \<longrightarrow> unshared s q (ptr p) (PDX va) \<longrightarrow> translate t q v = translate s q v)"
proof -
  let ?i = "PDX va" and ?pd = "ptr p" and ?e = "user_entry pa prot"
  note rep1 = rep [unfolded space_rep_def space_ok_def vm_booted_def]
  have pool: "pool_ok s" and dir: "pagedir_ok s ?pd" and kdir: "pagedir_ok s (kpt s)" using rep1 by blast+
  have ok: "space_ok s p" using rep by (simp add: space_rep_def)
  have i: "?i < 1024" "user ?i" using PDX_less va(1) by (simp_all add: in_range_user)
  from need_table_run [OF pool dir user_flags_ok i(1)] room obtain t
    where t: "need_table user_flags ?pd ?i s = Inr t" "table_made user_flags ?pd ?i s t" by auto
  define u where "u = set_entry (tbl t ?pd ?i) (PTX va) ?e t"
  note w = put_entry_walk [OF t(2) dir u_def]
  have run: "map_page p va pa prot s = Inr (0, u)"
    using t(1) by (simp add: map_page_alt [OF pool va pa prot] put_page_def u_def)
  note made = t(2) [unfolded table_made_def]
  have same: "present u ?pd j = present t ?pd j" "tbl u ?pd j = tbl t ?pd j" for j
    by (simp_all add: present_def tbl_def w(5))
  have kern: "translate u (kpt s) v = translate s (kpt s) v" "pages u (kpt s) = pages s (kpt s)" for v
    using w(7) [OF kdir kernel_unshared [OF ok i(2)]] by blast+
  have kpres: "present u (kpt s) j = present s (kpt s) j" "tbl u (kpt s) j = tbl s (kpt s) j" for j
    by (simp_all add: present_def tbl_def kern(2))
  have sub: "set (pool u) \<subseteq> set (pool s)" using made w(4) by (cases "present s ?pd ?i") auto
  have ent: "pages t ?pd j = user_flags OR tbl t ?pd j \<and> tbl t ?pd j \<noteq> kpt s" if "user j" "present t ?pd j" for j
  proof (cases "j = ?i \<and> \<not> present s ?pd ?i")
    case True
    then obtain a as where "pool s = a # as" "tbl t ?pd ?i = a" "pages t ?pd ?i = user_flags OR a" using made by auto
    then show ?thesis using True kdir by (auto simp: pagedir_ok_def)
  next
    case False
    then have e: "pages t ?pd j = pages s ?pd j" and "present s ?pd j"
      using made that by (auto simp: present_def)
    then have "pages s ?pd j = user_flags OR tbl s ?pd j \<and> tbl s ?pd j \<noteq> kpt s" using that(1) rep1 by blast
    moreover have tt: "tbl t ?pd j = tbl s ?pd j" by (simp add: tbl_def e)
    ultimately show ?thesis unfolding e tt by blast
  qed
  have "pagedir_ok u (kpt u)"
    using kdir sub unfolding pagedir_ok_def kpres w(3) by auto
  moreover have "pages u ?pd j = pages u (kpt u) j" if "j < 1024" "\<not> user j" for j
  proof -
    have "pages u ?pd j = pages s ?pd j" using made that i(2) w(5) by metis
    also have "\<dots> = pages s (kpt s) j" using rep1 that by blast
    finally show ?thesis by (simp add: w(3) kern(2))
  qed
  ultimately have "space_ok u p"
    using rep1 w(1,2,3) ent unfolding space_ok_def vm_booted_def w(3) same kpres w(5) by blast
  moreover have "translate u ?pd v = (if in_range v uvm_area
      then map_option (\<lambda>(f, w). (f OR OFF v, w, True))
        ((T(va := if prot AND PROT_NONE \<noteq> 0 then None else Some (pa, prot AND PROT_WRITE \<noteq> 0))) (PTE_ADDR v))
      else translate u (kpt u) v)" for v
  proof (cases "PTE_ADDR v = PTE_ADDR va")
    case True
    then have "PTE_ADDR v = va" using va(2) by (simp add: page_ok_def)
    moreover have "in_range v uvm_area" using True va(1) same_page by (metis in_range_user)
    moreover have "page_ok (tbl t ?pd ?i)" by (simp add: tbl_def)
    ultimately show ?thesis
      using True w(6) [of v] ent [OF i(2)] made user_entry_walk [OF _ pa] by simp
  next
    case False
    then have "PTE_ADDR v \<noteq> va" using va(2) by (auto simp: page_ok_def)
    then show ?thesis using False w(6) [of v] rep1 kern(1) [of v] by (simp add: w(3))
  qed
  ultimately have "space_rep u p (T(va := if prot AND PROT_NONE \<noteq> 0 then None else Some (pa, prot AND PROT_WRITE \<noteq> 0)))"
    by (simp add: space_rep_def)
  then show ?thesis using run kern(1) w(3,7) by auto
qed


section \<open>Making and giving back a space\<close>

lemma copy_entries_simps [simp]:
  "pool (copy_entries d i n s) = pool s" "kpt (copy_entries d i n s) = kpt s"
  by (induction d i n s rule: copy_entries.induct) simp_all

lemma copy_entries_pages:
  "d \<noteq> kpt s \<Longrightarrow> pages (copy_entries d i n s) =
     (pages s)(d := (\<lambda>j. if i \<le> j \<and> j < i + n then pages s (kpt s) j else pages s d j))"
proof (induction d i n s rule: copy_entries.induct)
  case (1 d i s)
  then show ?case by (auto simp: fun_eq_iff)
next
  case (2 d i n s)
  have "pages (copy_entries d i (Suc n) s) q j = ((pages s)(d := (\<lambda>j. if i \<le> j \<and> j < i + Suc n
      then pages s (kpt s) j else pages s d j))) q j" for q j
    using 2 by (cases "j = i") (auto simp: fun_upd_def)
  then show ?case by (simp add: fun_eq_iff)
qed

text \<open>The pages an address space holds: its directory and the tables of its user part.\<close>

definition owned :: "vm \<Rightarrow> aspace \<Rightarrow> addr multiset" where
  "owned s p = add_mset (ptr p) (image_mset (tbl s (ptr p)) (mset_set {i. user i \<and> present s (ptr p) i}))"

lemma finite_user: "finite {i. user i \<and> P i}"
  by (rule finite_subset [of _ "{..<512}"]) (auto simp: user_def)

lemma protect_run:
  assumes "vm_booted s" and "pool s \<noteq> []"
  shows "\<exists>p t. protect s = Inr (p, t) \<and> space_rep t p Map.empty \<and> kpt t = kpt s \<and> pool t = tl (pool s) \<and>
    owned t p + mset (pool t) = mset (pool s) \<and> (\<forall>v. translate t (kpt t) v = translate s (kpt s) v)"
proof -
  note ok = assms(1) [unfolded vm_booted_def]
  obtain a as where pool: "pool s = a # as" using assms(2) by (cases "pool s") auto
  from pgalloc_run [OF _ pool] ok obtain u where u: "pgalloc s = Inr (a, u)" "pool u = as" "kpt u = kpt s"
    "\<forall>p. p \<noteq> a \<longrightarrow> pages u p = pages s p" by blast
  define p where "p = \<lparr>pgsize = PGSIZE, area = uvm_area, ptr = a\<rparr>"
  define t where "t = copy_entries a 0 NR_PDE u"
  have run: "protect s = Inr (p, t)" by (simp add: protect_def u(1) p_def t_def)
  have a: "a \<noteq> kpt s" "a \<notin> set as" using ok pool by (auto simp: pagedir_ok_def pool_ok_def)
  have pt: "pages t q = (if q = a then (\<lambda>j. if j < 1024 then pages s (kpt s) j else pages u a j) else pages s q)" for q
    using u(3,4) a(1) copy_entries_pages [of a u 0 NR_PDE] by (simp add: t_def NR_PDE_def fun_eq_iff)
  have base: "pool t = as" "kpt t = kpt s" "ptr p = a" by (simp_all add: t_def p_def u(2,3))
  have at: "pages t a j = pages s (kpt s) j" if "j < 1024" for j using that by (simp add: pt)
  have ap: "present t a j = present s (kpt s) j" "tbl t a j = tbl s (kpt s) j" if "j < 1024" for j
    by (simp_all add: present_def tbl_def at [OF that])
  have kp: "present t (kpt s) = present s (kpt s)" "tbl t (kpt s) = tbl s (kpt s)"
    using a(1) by (simp_all add: present_def tbl_def pt fun_eq_iff)
  have kt: "tbl s (kpt s) j \<noteq> a" "tbl s (kpt s) j \<notin> set as" if "j < 1024" "present s (kpt s) j" for j
    using ok pool that by (auto simp: pagedir_ok_def)
  have inj: "inj_on (tbl t a) {j. j < 1024 \<and> present t a j}"
  proof -
    have "{j. j < 1024 \<and> present t a j} = {j. j < 1024 \<and> present s (kpt s) j}" using ap by auto
    moreover have "inj_on (tbl t a) {j. j < 1024 \<and> present s (kpt s) j} =
        inj_on (tbl s (kpt s)) {j. j < 1024 \<and> present s (kpt s) j}"
      by (rule inj_on_cong) (simp add: ap)
    ultimately show ?thesis using ok by (simp add: pagedir_ok_def)
  qed
  have kdir: "pagedir_ok t (kpt s)" using ok unfolding pagedir_ok_def by (auto simp: kp base pool)
  have adir: "pagedir_ok t a" using inj a kt ap unfolding pagedir_ok_def by (auto simp: base)
  have none: "\<not> present t a i" if "user i" for i
    using ok that ap(1) [of i] by (simp add: user_def)
  have kw: "translate t (kpt s) v = translate s (kpt s) v" for v
    by (rule walk_cong) (use a(1) kt(1) PDX_less in \<open>auto simp: pt\<close>)
  have "pool_ok t" using ok by (auto simp: pool_ok_def base pool)
  then have "vm_booted t" using ok kdir by (simp add: vm_booted_def base kp)
  then have "space_ok t p"
    using adir a(1) none by (auto simp: space_ok_def base at pt)
  moreover have "translate t a v = (if in_range v uvm_area then None else translate t (kpt s) v)" for v
  proof (cases "user (PDX v)")
    case True
    then show ?thesis using none [OF True] by (simp add: walk_alt in_range_user)
  next
    case False
    have "tbl t a (PDX v) = tbl t (kpt s) (PDX v)" "pages t a (PDX v) = pages t (kpt s) (PDX v)"
        "present t a (PDX v) = present t (kpt s) (PDX v)"
      using PDX_less [of v] ap kp at by (auto simp: pt)
    then show ?thesis using False unfolding walk_alt by (simp only: in_range_user if_False)
  qed
  ultimately have "space_rep t p Map.empty" by (simp add: space_rep_def base)
  moreover have "{i. user i \<and> present t a i} = {}" using none by auto
  then have "owned t p = {#a#}" by (simp only: owned_def base mset_set.empty image_mset_empty)
  ultimately show ?thesis using run kw by (auto simp: base pool)
qed


text \<open>Every call of \<open>map\<close> that returns keeps the space and the sum of its pages and the free ones.\<close>

lemma map_page_owned:
  assumes ok: "space_ok s p" and va: "in_range va uvm_area" "page_ok va" and pa: "page_ok pa"
    and prot: "prot AND PROT_NONE \<noteq> 0 \<longrightarrow> prot = PROT_NONE"
    and run: "map_page p va pa prot s = Inr (0, t)"
  shows "owned t p + mset (pool t) = owned s p + mset (pool s)"
proof -
  let ?i = "PDX va" and ?pd = "ptr p"
  note ok1 = ok [unfolded space_ok_def vm_booted_def]
  have pool: "pool_ok s" and dir: "pagedir_ok s ?pd" using ok1 by blast+
  have i: "?i < 1024" "user ?i" using PDX_less va(1) by (simp_all add: in_range_user)
  note alt = run [unfolded map_page_alt [OF pool va pa prot] put_page_def]
  from need_table_run [OF pool dir user_flags_ok i(1)] obtain w
    where w: "need_table user_flags ?pd ?i s = Inr w" "table_made user_flags ?pd ?i s w"
    using alt by (auto split: if_splits)
  have t: "t = set_entry (tbl w ?pd ?i) (PTX va) (user_entry pa prot) w" using alt w(1) by simp
  note pw = put_entry_walk [OF w(2) dir t]
  note made = w(2) [unfolded table_made_def]
  have same: "present t ?pd = present w ?pd" "tbl t ?pd = tbl w ?pd"
    by (simp_all add: present_def tbl_def pw(5) fun_eq_iff)
  show ?thesis
  proof (cases "present s ?pd ?i")
    case True
    then have "w = s" using made by simp
    then show ?thesis by (simp add: owned_def same pw(4))
  next
    case False
    then obtain a as where a: "pool s = a # as" "pool w = as" "tbl w ?pd ?i = a" using made by auto
    have old: "present w ?pd j = present s ?pd j" "tbl w ?pd j = tbl s ?pd j" if "j \<noteq> ?i" for j
      using made that by (simp_all add: present_def tbl_def)
    let ?S = "{j. user j \<and> present s ?pd j}"
    have "present w ?pd ?i" using made by blast
    then have "(user j \<and> present w ?pd j) = (j = ?i \<or> user j \<and> present s ?pd j)" for j
      by (cases "j = ?i") (simp_all add: i(2) old(1))
    then have "{j. user j \<and> present w ?pd j} = insert ?i ?S" by auto
    moreover have "?i \<notin> ?S" using False by simp
    moreover have "image_mset (tbl w ?pd) (mset_set ?S) = image_mset (tbl s ?pd) (mset_set ?S)"
    proof (rule image_mset_cong)
      fix j assume "j \<in># mset_set ?S"
      then have "j \<noteq> ?i" using False finite_user by auto
      then show "tbl w ?pd j = tbl s ?pd j" by (rule old(2))
    qed
    ultimately show ?thesis by (simp add: owned_def same pw(4) a finite_user)
  qed
qed

lemma map_page_cases:
  assumes "space_rep s p T" and "map_page p va pa prot s = Inr (r, t)"
  shows "(r = 1 \<and> \<not> in_range va uvm_area \<and> t = s) \<or>
    (r = 0 \<and> in_range va uvm_area \<and> page_ok va \<and> page_ok pa \<and> (prot AND PROT_NONE \<noteq> 0 \<longrightarrow> prot = PROT_NONE) \<and>
      (present s (ptr p) (PDX va) \<or> pool s \<noteq> []))"
proof -
  have flags: "prot AND PROT_NONE \<noteq> 0 \<longrightarrow> prot = PROT_NONE" and pages: "page_ok va" "page_ok pa"
    using assms(2) page_ok_ROUNDDOWN by (auto simp: map_page_def split: if_splits)
  show ?thesis
  proof (cases "in_range va uvm_area")
    case False
    then show ?thesis using assms(2) by (auto simp: map_page_def split: if_splits)
  next
    case True
    note ok = assms(1) [unfolded space_rep_def space_ok_def vm_booted_def]
    have pool: "pool_ok s" and dir: "pagedir_ok s (ptr p)" using ok by blast+
    note alt = assms(2) [unfolded map_page_alt [OF pool True pages flags] put_page_def]
    have "present s (ptr p) (PDX va) \<or> pool s \<noteq> []"
      using need_table_run [OF pool dir user_flags_ok PDX_less, of va] alt by (auto split: if_splits)
    moreover have "r = 0" using alt by (cases "need_table user_flags (ptr p) (PDX va) s") auto
    ultimately show ?thesis using True pages flags by blast
  qed
qed

lemma map_page_keeps:
  assumes "space_rep s p T" and "map_page p va pa prot s = Inr (r, t)"
  shows "\<exists>T'. space_rep t p T'" "owned t p + mset (pool t) = owned s p + mset (pool s)"
    "kpt t = kpt s" "translate t (kpt t) v = translate s (kpt s) v"
proof -
  have "(\<exists>T'. space_rep t p T') \<and> owned t p + mset (pool t) = owned s p + mset (pool s) \<and>
    kpt t = kpt s \<and> (\<forall>v. translate t (kpt t) v = translate s (kpt s) v)"
    using map_page_cases [OF assms]
  proof
    assume "r = 1 \<and> \<not> in_range va uvm_area \<and> t = s"
    then show ?thesis using assms(1) by blast
  next
    assume "r = 0 \<and> in_range va uvm_area \<and> page_ok va \<and> page_ok pa \<and>
      (prot AND PROT_NONE \<noteq> 0 \<longrightarrow> prot = PROT_NONE) \<and> (present s (ptr p) (PDX va) \<or> pool s \<noteq> [])"
    then have c: "r = 0" "in_range va uvm_area" "page_ok va" "page_ok pa"
      "prot AND PROT_NONE \<noteq> 0 \<longrightarrow> prot = PROT_NONE" "present s (ptr p) (PDX va) \<or> pool s \<noteq> []" by blast+
    have "space_ok s p" using assms(1) by (simp add: space_rep_def)
    from map_page_owned [OF this c(2-5)] assms(2) c(1) map_page_run [OF assms(1) c(2-6)]
    show ?thesis by auto
  qed
  then show "\<exists>T'. space_rep t p T'" "owned t p + mset (pool t) = owned s p + mset (pool s)"
    "kpt t = kpt s" "translate t (kpt t) v = translate s (kpt s) v" by blast+
qed

lemma unprotect_from_run:
  assumes "unat va = i * 2 ^ 22" and "256 \<le> i" and "i \<le> 512"
  shows "\<exists>t. unprotect_from d va s = Some t \<and> pages t = pages s \<and> kpt t = kpt s \<and>
    pool t = pool s @ map (tbl s d) (filter (present s d) [i..<512])"
  using assms
proof (induction "512 - i" arbitrary: va i s)
  case 0
  then have "i = 512" by simp
  then have "va = 0x80000000" using 0 by (simp add: unat_eqD)
  then show ?case using \<open>i = 512\<close> by (subst unprotect_from.simps) (simp add: uvm_area_def areas_def)
next
  case (Suc n)
  then have i: "i < 512" by simp
  have "va \<noteq> 0x80000000" using Suc.prems(1) i by auto
  then have ne: "va \<noteq> a_end uvm_area" by (simp add: uvm_area_def areas_def)
  have pdx: "PDX va = i" using Suc.prems(1) by (simp add: PDX_div)
  have next_va: "unat (va + 0x400000) = (i + 1) * 2 ^ 22"
    using Suc.prems(1) i by (simp add: unat_word_ariths)
  let ?s1 = "if present s d i then pgfree (tbl s d i) s else s"
  have "n = 512 - (i + 1)" "256 \<le> i + 1" "i + 1 \<le> 512" using Suc.hyps(2) Suc.prems(2) i by auto
  from Suc.hyps(1) [OF this(1) next_va this(2,3), of ?s1] obtain t
    where t: "unprotect_from d (va + 0x400000) ?s1 = Some t" "pages t = pages ?s1" "kpt t = kpt ?s1"
      "pool t = pool ?s1 @ map (tbl ?s1 d) (filter (present ?s1 d) [i + 1..<512])" by blast
  have "unprotect_from d va s = Some t"
    using ne t(1) by (subst unprotect_from.simps) (auto simp: pdx present_def tbl_def Let_def split: if_splits)
  moreover have "pages ?s1 = pages s" "kpt ?s1 = kpt s" by (simp_all add: pgfree_def)
  moreover have "present ?s1 d = present s d" "tbl ?s1 d = tbl s d"
    by (simp_all add: present_def tbl_def pgfree_def fun_eq_iff)
  moreover have "[i..<512] = i # [i + 1..<512]" using i by (simp add: upt_conv_Cons)
  ultimately show ?case using t by (auto simp: pgfree_def)
qed

lemma mset_filter_upt: "mset (filter P [a..<b]) = mset_set {i. a \<le> i \<and> i < b \<and> P i}"
proof -
  have "set (filter P [a..<b]) = {i. a \<le> i \<and> i < b \<and> P i}" by auto
  then show ?thesis by (metis distinct_filter distinct_upt mset_set_set)
qed

lemma unprotect_run:
  assumes rep: "space_rep s p T"
  shows "\<exists>t. unprotect p s = Some t \<and> pages t = pages s \<and> kpt t = kpt s \<and>
    mset (pool t) = owned s p + mset (pool s)"
proof -
  have "unat (a_start uvm_area) = 256 * 2 ^ 22" by (simp add: uvm_area_def areas_def)
  from unprotect_from_run [OF this] obtain t
    where t: "unprotect_from (ptr p) (a_start uvm_area) s = Some t" "pages t = pages s" "kpt t = kpt s"
      "pool t = pool s @ map (tbl s (ptr p)) (filter (present s (ptr p)) [256..<512])" by auto
  have "mset (filter (present s (ptr p)) [256..<512]) = mset_set {i. user i \<and> present s (ptr p) i}"
    by (simp only: mset_filter_upt user_def conj_assoc)
  then have "mset (map (tbl s (ptr p)) (filter (present s (ptr p)) [256..<512])) =
      image_mset (tbl s (ptr p)) (mset_set {i. user i \<and> present s (ptr p) i})"
    by (simp only: mset_map)
  then show ?thesis using t by (simp add: unprotect_def pgfree_def owned_def)
qed

lemma unprotect_translate:
  "pages t = pages s \<Longrightarrow> translate t q v = translate s q v"
  by (simp add: translate_def)

text \<open>A list of calls, each with its page, frame and protection; the results are dropped.\<close>

fun map_pages :: "aspace \<Rightarrow> (addr \<times> addr \<times> addr) list \<Rightarrow> vm \<Rightarrow> vm res" where
  "map_pages p [] s = Inr s"
| "map_pages p ((va, pa, prot) # rs) s = rbind (map_page p va pa prot s) (\<lambda>(_, t). map_pages p rs t)"

lemma map_pages_keeps:
  assumes "space_rep s p T" and "map_pages p rs s = Inr t"
  shows "(\<exists>T'. space_rep t p T') \<and> owned t p + mset (pool t) = owned s p + mset (pool s) \<and>
    kpt t = kpt s \<and> (\<forall>v. translate t (kpt t) v = translate s (kpt s) v)"
  using assms
proof (induction rs arbitrary: s T)
  case Nil
  then show ?case by auto
next
  case (Cons q rs)
  obtain va pa prot where q: "q = (va, pa, prot)" by (cases q)
  from Cons.prems(2) obtain r u where u: "map_page p va pa prot s = Inr (r, u)" "map_pages p rs u = Inr t"
    by (cases "map_page p va pa prot s") (auto simp: q)
  note k = map_page_keeps [OF Cons.prems(1) u(1)]
  from k(1) obtain T' where "space_rep u p T'" ..
  note i = Cons.IH [OF this u(2)]
  have "kpt t = kpt s" using i k(3) by simp
  moreover have "translate t (kpt t) v = translate s (kpt s) v" for v using i k(4) [of v] k(3) by metis
  ultimately show ?case using i k(2) by simp
qed


section \<open>Properties\<close>

text \<open>An allocator with the pages from 16 MiB on, for the witnesses.\<close>

definition ex_vm :: "nat \<Rightarrow> vm" where
  "ex_vm n = \<lparr>pages = (\<lambda>_ _. 0xFF), pool = map (\<lambda>i. 0x1000000 + word_of_nat (4096 * i)) [0..<n], kpt = 0, cr0 = 0x11, cr3 = 0\<rparr>"

lemma ex_vm_unat: "i < 4096 \<Longrightarrow> unat (0x1000000 + word_of_nat (4096 * i) :: addr) = 4096 * (4096 + i)"
  by (simp add: unat_word_ariths unat_of_nat)

lemma ex_vm_ok:
  assumes "n \<le> 4096"
  shows "pool_ok (ex_vm n)" "length (pool (ex_vm n)) = n" "kpt (ex_vm n) = 0"
proof -
  have "inj_on (\<lambda>i. 0x1000000 + word_of_nat (4096 * i) :: addr) {0..<n}"
  proof (rule inj_onI)
    fix i j assume "i \<in> {0..<n}" "j \<in> {0..<n}" "(0x1000000 + word_of_nat (4096 * i) :: addr) = 0x1000000 + word_of_nat (4096 * j)"
    then show "i = j" using ex_vm_unat [of i] ex_vm_unat [of j] assms by simp
  qed
  moreover have "page_ok a \<and> a \<noteq> 0" if a: "a \<in> set (pool (ex_vm n))" for a
  proof -
    obtain i where i: "i < n" "a = 0x1000000 + word_of_nat (4096 * i)" using a by (auto simp: ex_vm_def simp del: of_nat_mult)
    then have "unat a = 4096 * (4096 + i)" using ex_vm_unat [of i] assms by simp
    then show ?thesis using page_okI by fastforce
  qed
  ultimately show "pool_ok (ex_vm n)" by (auto simp: pool_ok_def ex_vm_def distinct_map)
qed (simp_all add: ex_vm_def)

text \<open>
  C27. The kernel's table is the identity on the physical areas. When the allocator hands out at least 193
  pages, all different, aligned and not \<open>NULL\<close>, \<open>vme_init\<close> ends on the first processor without a panic,
  although the loop over the last area runs until the address wraps to 0: then paging is on and the processor translates the
  addresses below 512 MiB and those from 0xF0000000 on to themselves, writable and for the kernel only, and
  no other address.
\<close>

theorem vme_init_maps_identity:
  assumes "distinct (pool s)" and "\<forall>a \<in> set (pool s). ROUNDDOWN a PGSIZE = a \<and> a \<noteq> 0"
    and "193 \<le> length (pool s)"
  shows "\<exists>t. vme_init 0 s = Some (Inr t) \<and> cr3 t = kpt t \<and> cr0 t AND CR0_PG \<noteq> 0 \<and>
    (\<forall>v. translate t (cr3 t) v = (if v < 0x20000000 \<or> 0xF0000000 \<le> v then Some (v, True, False) else None))"
proof -
  have "pool_ok s" using assms(1,2) page_ok_ROUNDDOWN by (metis pool_ok_def)
  from vme_init_run [OF this assms(3)] show ?thesis by metis
qed

lemma vme_init_maps_identity_witness:
  "\<exists>t. vme_init 0 (ex_vm 193) = Some (Inr t) \<and> cr3 t = kpt t \<and> cr0 t AND CR0_PG \<noteq> 0 \<and>
    (\<forall>v. translate t (cr3 t) v = (if v < 0x20000000 \<or> 0xF0000000 \<le> v then Some (v, True, False) else None))"
proof (rule vme_init_maps_identity)
  have ok: "pool_ok (ex_vm 193)" "length (pool (ex_vm 193)) = 193" using ex_vm_ok [of 193] by simp_all
  show "distinct (pool (ex_vm 193))" using ok(1) by (simp only: pool_ok_def)
  show "\<forall>a \<in> set (pool (ex_vm 193)). ROUNDDOWN a PGSIZE = a \<and> a \<noteq> 0"
    using ok(1) page_ok_ROUNDDOWN unfolding pool_ok_def by metis
  show "193 \<le> length (pool (ex_vm 193))" by (simp only: ok(2) le_refl)
qed

lemma ex_space:
  "\<exists>s p t. vme_init 0 (ex_vm 200) = Some (Inr s) \<and> vm_booted s \<and> protect s = Inr (p, t) \<and>
     space_rep t p Map.empty \<and> length (pool t) \<ge> 6"
proof -
  have ok: "pool_ok (ex_vm 200)" "length (pool (ex_vm 200)) = 200" using ex_vm_ok [of 200] by simp_all
  have "193 \<le> length (pool (ex_vm 200))" unfolding ok(2) by simp
  from vme_init_run [OF ok(1) this] obtain s where s: "vme_init 0 (ex_vm 200) = Some (Inr s)" "vm_booted s"
    "200 \<le> length (pool s) + 193" unfolding ok(2) by blast
  have "pool s \<noteq> []" using s(3) by auto
  from protect_run [OF s(2) this] obtain p t where t: "protect s = Inr (p, t)" "space_rep t p Map.empty"
    "pool t = tl (pool s)" by blast
  then show ?thesis using s by auto
qed

text \<open>
  C26. Mapping a page refines the update of a map. The space \<open>p\<close> stands for a map \<open>T\<close> from the pages of the
  user area to frames, writable or not, over the kernel's translation. A call of \<open>map\<close> panics when the
  flags mix \<open>_PROT_NONE\<close> with others, when an address is not aligned, and when the table of the page is
  missing and no page is left; it returns 1 and changes nothing when the address is outside the user area;
  else it returns 0 and the space stands for \<open>T\<close> with that one page set, or unset for \<open>_PROT_NONE\<close>, with the
  translation of the kernel's table as it was.
\<close>

theorem map_page_refines:
  assumes "space_rep s p T"
  shows
    "if prot AND PROT_NONE \<noteq> 0 \<and> prot \<noteq> PROT_NONE then map_page p va pa prot s = Inl (Panic ''invalid protection flags'')
     else if va \<noteq> ROUNDDOWN va PGSIZE \<or> pa \<noteq> ROUNDDOWN pa PGSIZE then map_page p va pa prot s = Inl (Panic ''unaligned memory address'')
     else if \<not> in_range va uvm_area then map_page p va pa prot s = Inr (1, s)
     else if pages s (ptr p) (PDX va) AND PTE_P = 0 \<and> pool s = [] then map_page p va pa prot s = Inl (Panic ''page allocation fail'')
     else \<exists>t. map_page p va pa prot s = Inr (0, t) \<and>
       space_rep t p (T(va := if prot AND PROT_NONE \<noteq> 0 then None else Some (pa, prot AND PROT_WRITE \<noteq> 0))) \<and>
       (\<forall>v. translate t (kpt t) v = translate s (kpt s) v)"
proof -
  have full: "map_page p va pa prot s = Inl (Panic ''page allocation fail'')"
    if "prot AND PROT_NONE \<noteq> 0 \<longrightarrow> prot = PROT_NONE" "page_ok va" "page_ok pa" "in_range va uvm_area"
      "pages s (ptr p) (PDX va) AND PTE_P = 0" "pool s = []"
  proof -
    have "pool_ok s" using assms by (simp add: space_rep_def space_ok_def vm_booted_def)
    then show ?thesis
      using that by (simp add: map_page_alt put_page_def need_table_def present_def pgalloc_empty)
  qed
  show ?thesis
  proof (cases "(prot AND PROT_NONE \<noteq> 0 \<and> prot \<noteq> PROT_NONE) \<or> (va \<noteq> ROUNDDOWN va PGSIZE \<or> pa \<noteq> ROUNDDOWN pa PGSIZE) \<or>
      \<not> in_range va uvm_area")
    case True
    then show ?thesis by (auto simp: map_page_def)
  next
    case False
    then have prot: "prot AND PROT_NONE \<noteq> 0 \<longrightarrow> prot = PROT_NONE" and ok: "page_ok va" "page_ok pa"
      and range: "in_range va uvm_area" using page_ok_ROUNDDOWN by blast+
    have conds: "(prot AND PROT_NONE \<noteq> 0 \<and> prot \<noteq> PROT_NONE) = False"
      "(va \<noteq> ROUNDDOWN va PGSIZE \<or> pa \<noteq> ROUNDDOWN pa PGSIZE) = False"
      "(\<not> in_range va uvm_area) = False" using False by blast+
    show ?thesis
    proof (cases "pages s (ptr p) (PDX va) AND PTE_P = 0 \<and> pool s = []")
      case True
      then show ?thesis using full [OF prot ok range] conds by simp
    next
      case some: False
      then have "present s (ptr p) (PDX va) \<or> pool s \<noteq> []" by (auto simp: present_def)
      from map_page_run [OF assms range ok prot this] show ?thesis
        unfolding conds using some by auto
    qed
  qed
qed

lemma map_page_refines_witness:
  "\<exists>s p t u. vme_init 0 (ex_vm 200) = Some (Inr s) \<and> protect s = Inr (p, t) \<and>
     map_page p 0x40001000 0x5000 PROT_WRITE t = Inr (0, u) \<and>
     translate u (ptr p) 0x40001234 = Some (0x5234, True, True) \<and> translate u (ptr p) 0x40002000 = None"
proof -
  obtain s p t where s: "vme_init 0 (ex_vm 200) = Some (Inr s)" "protect s = Inr (p, t)" "space_rep t p Map.empty"
    "pool t \<noteq> []" using ex_space by fastforce
  from map_page_refines [OF s(3), of PROT_WRITE "0x40001000" "0x5000"] s(4) obtain u
    where u: "map_page p 0x40001000 0x5000 PROT_WRITE t = Inr (0, u)"
      "space_rep u p [0x40001000 \<mapsto> (0x5000, True)]"
    by (auto simp: PROT_WRITE_def PROT_NONE_def ROUNDDOWN_def PGSIZE_def in_range_def uvm_area_def areas_def)
  have "translate u (ptr p) 0x40001234 = Some (0x5234, True, True)" "translate u (ptr p) 0x40002000 = None"
    using u(2) by (simp_all add: space_rep_def in_range_def uvm_area_def areas_def PTE_ADDR_def OFF_def)
  then show ?thesis using s u by blast
qed

text \<open>
  C28. What a space takes it gives back. After the boot, let a space be made with \<open>protect\<close> and let any
  sequence of calls of \<open>map\<close> on it return, those outside the user area included. Then \<open>unprotect\<close> ends, the
  free pages are the same as before the space was made, each as often, and the kernel's table translates
  every address as before.
\<close>

theorem space_gives_pages_back:
  assumes "vm_booted s" and "protect s = Inr (p, t)" and "map_pages p rs t = Inr u"
  shows "\<exists>w. unprotect p u = Some w \<and> mset (pool w) = mset (pool s) \<and>
    (\<forall>v. translate w (kpt w) v = translate s (kpt s) v)"
proof -
  have "pool s \<noteq> []" using assms(2) pgalloc_empty [of s] by (auto simp: protect_def)
  from protect_run [OF assms(1) this] assms(2) have t: "space_rep t p Map.empty" "kpt t = kpt s"
    "owned t p + mset (pool t) = mset (pool s)" "\<forall>v. translate t (kpt t) v = translate s (kpt s) v" by auto
  from map_pages_keeps [OF t(1) assms(3)] obtain T where u: "space_rep u p T"
    "owned u p + mset (pool u) = mset (pool s)" "kpt u = kpt s"
    "\<forall>v. translate u (kpt u) v = translate s (kpt s) v" using t by auto
  from unprotect_run [OF u(1)] obtain w where w: "unprotect p u = Some w" "pages w = pages u" "kpt w = kpt u"
    "mset (pool w) = owned u p + mset (pool u)" by blast
  then show ?thesis using u unprotect_translate [OF w(2)] by auto
qed

lemma space_gives_pages_back_witness:
  "\<exists>s p t u w. vme_init 0 (ex_vm 200) = Some (Inr s) \<and> protect s = Inr (p, t) \<and>
     map_pages p [(0x40001000, 0x5000, PROT_WRITE), (0x80000000, 0x6000, PROT_WRITE)] t = Inr u \<and>
     unprotect p u = Some w \<and> mset (pool w) = mset (pool s)"
proof -
  obtain s p t where s: "vme_init 0 (ex_vm 200) = Some (Inr s)" "vm_booted s" "protect s = Inr (p, t)"
    "space_rep t p Map.empty" "pool t \<noteq> []" using ex_space by fastforce
  have pages: "in_range 0x40001000 uvm_area" "page_ok 0x40001000" "page_ok 0x5000"
    by (simp_all add: in_range_def uvm_area_def areas_def page_ok_def PTE_ADDR_def)
  have flags: "PROT_WRITE AND PROT_NONE \<noteq> 0 \<longrightarrow> PROT_WRITE = PROT_NONE" by (simp add: PROT_WRITE_def PROT_NONE_def)
  from map_page_run [OF s(4) pages flags] s(5) obtain u
    where u: "map_page p 0x40001000 0x5000 PROT_WRITE t = Inr (0, u)" by blast
  have "map_page p 0x80000000 0x6000 PROT_WRITE u = Inr (1, u)"
    by (simp add: map_page_def PROT_WRITE_def PROT_NONE_def ROUNDDOWN_def PGSIZE_def in_range_def uvm_area_def areas_def)
  with u have run: "map_pages p [(0x40001000, 0x5000, PROT_WRITE), (0x80000000, 0x6000, PROT_WRITE)] t = Inr u" by simp
  from space_gives_pages_back [OF s(2,3) run] show ?thesis using s run by blast
qed

end
