(* ===== verification/Cte.thy ===== *)
theory Cte
  imports Vme
begin

text \<open>
  Interrupts of the abstract machine (\<open>am/src/x86/qemu/cte.c\<close>, with the entry code of \<open>cte_trap.S\<close>): the
  frame an interrupt leaves on the stack, the context made of it, the event given to the handler, and the
  return to a context.  Memory is bytes at 32-bit addresses; a context is a value, and so is the handler,
  a parameter.
\<close>

unbundle bit_operations_syntax

section \<open>The processor\<close>

record regs =
  m_eax :: addr
  m_ebx :: addr
  m_ecx :: addr
  m_edx :: addr
  m_esi :: addr
  m_edi :: addr
  m_ebp :: addr
  m_esp :: addr
  m_eip :: addr
  m_eflags :: addr
  m_cs :: "16 word"
  m_ds :: "16 word"
  m_es :: "16 word"
  m_ss :: "16 word"

text \<open>
  \<open>m_tss_ss0\<close> and \<open>m_tss_esp0\<close> are the stack of the kernel in the task state segment, \<open>m_prot\<close> is
  \<open>CPU->prot\<close> (\<open>None\<close> for \<open>NULL\<close>) and \<open>m_eois\<close> counts the ends of interrupts sent.
\<close>

record machine = regs +
  m_mem :: "addr \<Rightarrow> 8 word"
  m_tss_ss0 :: addr
  m_tss_esp0 :: addr
  m_cr2 :: addr
  m_cr3 :: addr
  m_prot :: "aspace option"
  m_eois :: nat

definition store32 :: "(addr \<Rightarrow> 8 word) \<Rightarrow> addr \<Rightarrow> addr \<Rightarrow> addr \<Rightarrow> 8 word" where
  "store32 m a v =
     m(a := ucast v, a + 1 := ucast (drop_bit 8 v), a + 2 := ucast (drop_bit 16 v), a + 3 := ucast (drop_bit 24 v))"

definition load32 :: "(addr \<Rightarrow> 8 word) \<Rightarrow> addr \<Rightarrow> addr" where
  "load32 m a =
     ucast (m a) OR push_bit 8 (ucast (m (a + 1))) OR push_bit 16 (ucast (m (a + 2))) OR push_bit 24 (ucast (m (a + 3)))"

definition push32 :: "addr \<Rightarrow> machine \<Rightarrow> machine" where
  "push32 v m = m\<lparr>m_esp := m_esp m - 4, m_mem := store32 (m_mem m) (m_esp m - 4) v\<rparr>"

definition pop32 :: "machine \<Rightarrow> addr \<times> machine" where
  "pop32 m = (load32 (m_mem m) (m_esp m), m\<lparr>m_esp := m_esp m + 4\<rparr>)"

definition DPL_KERN :: addr where "DPL_KERN = 0"
definition DPL_USER :: addr where "DPL_USER = 3"
definition FL_IF :: addr where "FL_IF = 0x200"
definition KSEL :: "addr \<Rightarrow> addr" where "KSEL d = push_bit 3 d OR DPL_KERN"
definition USEL :: "addr \<Rightarrow> addr" where "USEL d = push_bit 3 d OR DPL_USER"
definition SEG_KCODE :: addr where "SEG_KCODE = 1"
definition SEG_KDATA :: addr where "SEG_KDATA = 2"
definition SEG_UCODE :: addr where "SEG_UCODE = 3"
definition SEG_UDATA :: addr where "SEG_UDATA = 4"

section \<open>Entry of an interrupt\<close>

text \<open>
  What the processor does at an interrupt: from user code it first takes the kernel's stack and pushes the
  stack of the user on it; some exceptions push an error code.
\<close>

definition int_entry :: "addr option \<Rightarrow> machine \<Rightarrow> machine" where
  "int_entry code m =
     (let m1 = (if (ucast (m_cs m) :: addr) AND 3 \<noteq> 0
                then push32 (m_esp m) (push32 (ucast (m_ss m))
                       (m\<lparr>m_ss := ucast (m_tss_ss0 m), m_esp := m_tss_esp0 m\<rparr>))
                else m);
          m2 = push32 (m_eip m) (push32 (ucast (m_cs m)) (push32 (m_eflags m) m1));
          m3 = (case code of None \<Rightarrow> m2 | Some e \<Rightarrow> push32 e m2)
      in m3\<lparr>m_cs := ucast (KSEL SEG_KCODE)\<rparr>)"

text \<open>The stub of the vector and the common entry; the result's \<open>esp\<close> is the argument of \<open>irq_handle\<close>.\<close>

definition pushal :: "machine \<Rightarrow> machine" where
  "pushal m =
     push32 (m_edi m) (push32 (m_esi m) (push32 (m_ebp m) (push32 (m_esp m)
       (push32 (m_ebx m) (push32 (m_edx m) (push32 (m_ecx m) (push32 (m_eax m) m)))))))"

definition trap_entry :: "int \<Rightarrow> addr option \<Rightarrow> machine \<Rightarrow> machine" where
  "trap_entry irq code m =
     (let m1 = int_entry code m;
          m2 = m1\<lparr>m_eflags := m_eflags m1 AND NOT FL_IF\<rparr>;
          m3 = (case code of None \<Rightarrow> push32 0 m2 | Some _ \<Rightarrow> m2);
          m4 = push32 (word_of_int irq) m3;
          m5 = push32 (ucast (m_es m)) (push32 (ucast (m_ds m)) m4);
          m6 = pushal m5
      in m6\<lparr>m_ds := ucast (KSEL SEG_KDATA), m_es := ucast (KSEL SEG_KDATA)\<rparr>)"

record trap_frame =
  t_edi :: addr
  t_esi :: addr
  t_ebp :: addr
  t_espx :: addr
  t_ebx :: addr
  t_edx :: addr
  t_ecx :: addr
  t_eax :: addr
  t_es :: addr
  t_ds :: addr
  t_irq :: int
  t_err :: addr
  t_eip :: addr
  t_cs :: addr
  t_eflags :: addr
  t_esp :: addr
  t_ss :: addr

definition read_frame :: "(addr \<Rightarrow> 8 word) \<Rightarrow> addr \<Rightarrow> trap_frame" where
  "read_frame m tf =
     \<lparr>t_edi = load32 m tf, t_esi = load32 m (tf + 4), t_ebp = load32 m (tf + 8), t_espx = load32 m (tf + 12),
      t_ebx = load32 m (tf + 16), t_edx = load32 m (tf + 20), t_ecx = load32 m (tf + 24), t_eax = load32 m (tf + 28),
      t_es = load32 m (tf + 32), t_ds = load32 m (tf + 36), t_irq = sint (load32 m (tf + 40)),
      t_err = load32 m (tf + 44), t_eip = load32 m (tf + 48), t_cs = load32 m (tf + 52),
      t_eflags = load32 m (tf + 56), t_esp = load32 m (tf + 60), t_ss = load32 m (tf + 64)\<rparr>"

section \<open>Contexts and events\<close>

record pcontext =
  prot :: "aspace option"
  eax :: addr
  ebx :: addr
  ecx :: addr
  edx :: addr
  esi :: addr
  edi :: addr
  ebp :: addr
  esp3 :: addr
  eip :: addr
  eflags :: addr
  cs :: addr
  ds :: addr
  es :: addr
  ss :: addr
  ss0 :: addr
  esp0 :: addr

definition zero_context :: pcontext where
  "zero_context =
     \<lparr>prot = None, eax = 0, ebx = 0, ecx = 0, edx = 0, esi = 0, edi = 0, ebp = 0, esp3 = 0, eip = 0, eflags = 0,
      cs = 0, ds = 0, es = 0, ss = 0, ss0 = 0, esp0 = 0\<rparr>"

datatype event_kind =
  Ev_null | Ev_error | Ev_irq_timer | Ev_irq_iodev | Ev_pagefault | Ev_yield | Ev_syscall

record am_event =
  ev_kind :: event_kind
  ev_cause :: addr
  ev_ref :: addr
  ev_msg :: string

definition PROT_READ :: addr where "PROT_READ = 2"

definition save_context :: "aspace option \<Rightarrow> addr \<Rightarrow> trap_frame \<Rightarrow> pcontext" where
  "save_context cpu_prot tf f =
     (let ctx = \<lparr>prot = cpu_prot, eax = t_eax f, ebx = t_ebx f, ecx = t_ecx f, edx = t_edx f, esi = t_esi f,
                 edi = t_edi f, ebp = t_ebp f, esp3 = 0, eip = t_eip f, eflags = t_eflags f, cs = t_cs f,
                 ds = t_ds f, es = t_es f, ss = 0, ss0 = KSEL SEG_KDATA, esp0 = tf + 68\<rparr>
      in if t_cs f AND DPL_USER \<noteq> 0 then ctx\<lparr>ss := t_ss f, esp3 := t_esp f\<rparr>
         else ctx\<lparr>esp0 := esp0 ctx - 8\<rparr>)"

definition event_of :: "addr \<Rightarrow> trap_frame \<Rightarrow> am_event" where
  "event_of cr2 f =
     (let ev = (\<lambda>k msg. \<lparr>ev_kind = k, ev_cause = 0, ev_ref = 0, ev_msg = msg\<rparr>); irq = t_irq f
      in if irq = 32 then ev Ev_irq_timer ''timer interrupt (lapic)''
         else if irq = 33 then ev Ev_irq_iodev ''I/O device IRQ1 (keyboard)''
         else if irq = 0x80 then
           ev (if (sint (t_eax f)) = -1 then Ev_yield else Ev_syscall) ''int $0x80 trap: _yield() or system call''
         else if irq = 0 then ev Ev_error ''divide by zero''
         else if irq = 6 then ev Ev_error ''UD #6 invalid opcode''
         else if irq = 7 then ev Ev_error ''NM #7 coprocessor error''
         else if irq = 8 then ev Ev_error ''DF #8 double fault''
         else if irq = 10 then ev Ev_error ''TS #10 invalid TSS''
         else if irq = 11 then ev Ev_error ''NP #11 segment/gate not present''
         else if irq = 12 then ev Ev_error ''SS #12 stack fault''
         else if irq = 13 then ev Ev_error ''GP #13, general protection fault''
         else if irq = 14 then
           (ev Ev_pagefault ''PF #14, page fault, @cause: _PROT_XXX'')
             \<lparr>ev_cause := (if t_err f AND 1 \<noteq> 0 then PROT_NONE else 0) OR
                          (if t_err f AND 2 \<noteq> 0 then PROT_WRITE else PROT_READ),
              ev_ref := cr2\<rparr>
         else (ev Ev_error ''unrecognized interrupt/exception'')\<lparr>ev_cause := t_err f\<rparr>)"

section \<open>Return to a context\<close>

definition popal :: "machine \<Rightarrow> machine" where
  "popal m =
     (let (v_edi, m1) = pop32 m; (v_esi, m2) = pop32 m1; (v_ebp, m3) = pop32 m2; (_, m4) = pop32 m3;
          (v_ebx, m5) = pop32 m4; (v_edx, m6) = pop32 m5; (v_ecx, m7) = pop32 m6; (v_eax, m8) = pop32 m7
      in m8\<lparr>m_edi := v_edi, m_esi := v_esi, m_ebp := v_ebp, m_ebx := v_ebx, m_edx := v_edx, m_ecx := v_ecx,
            m_eax := v_eax\<rparr>)"

definition iret :: "machine \<Rightarrow> machine" where
  "iret m =
     (let (v_eip, m1) = pop32 m; (v_cs, m2) = pop32 m1; (v_eflags, m3) = pop32 m2;
          m4 = m3\<lparr>m_eip := v_eip, m_cs := ucast v_cs, m_eflags := v_eflags\<rparr>
      in if v_cs AND 3 \<noteq> 0
         then let (v_esp, m5) = pop32 m4; (v_ss, m6) = pop32 m5 in m6\<lparr>m_esp := v_esp, m_ss := ucast v_ss\<rparr>
         else m4)"

definition restore :: "machine \<Rightarrow> machine" where
  "restore m =
     (let m1 = popal m; (v_es, m2) = pop32 m1; (v_ds, m3) = pop32 (m2\<lparr>m_es := ucast v_es\<rparr>)
      in iret (m3\<lparr>m_ds := ucast v_ds\<rparr>))"

definition regs_kernel :: "pcontext \<Rightarrow> addr list" where
  "regs_kernel c =
     [eflags c, cs c, eip c, ds c, es c, eax c, ecx c, edx c, ebx c, esp0 c, ebp c, esi c, edi c]"

definition regs_user :: "pcontext \<Rightarrow> addr list" where
  "regs_user c = [ss c, esp3 c] @ regs_kernel c"

definition return_to :: "pcontext \<Rightarrow> machine \<Rightarrow> machine" where
  "return_to c m =
     (let m1 = m\<lparr>m_prot := prot c\<rparr>
      in if cs c AND DPL_USER \<noteq> 0 then
           let m2 = (case prot c of None \<Rightarrow> m1 | Some p \<Rightarrow> m1\<lparr>m_cr3 := ptr p\<rparr>);
               m3 = m2\<lparr>m_tss_ss0 := ss0 c, m_tss_esp0 := esp0 c\<rparr>
           in restore (fold push32 (regs_user c) (m3\<lparr>m_esp := esp0 c\<rparr>))
         else restore (fold push32 (regs_kernel c) (m1\<lparr>m_esp := esp0 c\<rparr>)))"

type_synonym irq_handler = "am_event \<Rightarrow> pcontext \<Rightarrow> machine \<Rightarrow> pcontext option \<times> machine"

definition irq_handle :: "irq_handler option \<Rightarrow> addr \<Rightarrow> machine \<Rightarrow> machine res" where
  "irq_handle user_handler tf m =
     (let f = read_frame (m_mem m) tf;
          ctx = save_context (m_prot m) tf f;
          m1 = (if 32 \<le> t_irq f \<and> t_irq f < 64 then m\<lparr>m_eois := m_eois m + 1\<rparr> else m);
          ev = event_of (m_cr2 m1) f
      in case user_handler of
           None \<Rightarrow> Inr (return_to ctx m1)
         | Some h \<Rightarrow>
             (case h ev ctx m1 of
                (None, m2) \<Rightarrow> Inl (Panic ''return to a null context'')
              | (Some next_ctx, m2) \<Rightarrow> Inr (return_to next_ctx m2)))"

section \<open>New contexts\<close>

text \<open>\<open>values\<close> is stored at the end of the stack: a return address that panics, and the argument.\<close>

definition kcontext :: "addr \<Rightarrow> addr \<Rightarrow> addr \<Rightarrow> addr \<Rightarrow> (addr \<Rightarrow> 8 word) \<Rightarrow> pcontext \<times> (addr \<Rightarrow> 8 word)" where
  "kcontext panic_on_return stack_end entry arg m =
     (let ctx = zero_context\<lparr>ss0 := 0, esp0 := stack_end, cs := KSEL SEG_KCODE, eip := entry, eflags := FL_IF,
                             ds := KSEL SEG_KDATA, es := KSEL SEG_KDATA, ss := KSEL SEG_KDATA, prot := None\<rparr>;
          ctx1 = ctx\<lparr>esp0 := esp0 ctx - 8\<rparr>
      in (ctx1, store32 (store32 m (esp0 ctx1) panic_on_return) (esp0 ctx1 + 4) arg))"

definition ucontext :: "aspace \<Rightarrow> addr \<Rightarrow> addr \<Rightarrow> addr \<Rightarrow> addr \<Rightarrow> pcontext" where
  "ucontext p ustack_end kstack_end entry args =
     zero_context\<lparr>cs := USEL SEG_UCODE, eip := entry, eflags := FL_IF, ds := USEL SEG_UDATA, es := USEL SEG_UDATA,
       ss := USEL SEG_UDATA, esp3 := ustack_end, ss0 := KSEL SEG_KDATA, esp0 := kstack_end, eax := args, prot := Some p\<rparr>"

definition yield :: "irq_handler option \<Rightarrow> machine \<Rightarrow> machine res" where
  "yield user_handler m =
     (if user_handler = None then Inl (Panic ''no interrupt handler'')
      else let m1 = trap_entry 0x80 None (m\<lparr>m_eax := -1\<rparr>) in irq_handle user_handler (m_esp m1) m1)"

definition intr_read :: "irq_handler option \<Rightarrow> machine \<Rightarrow> bool res" where
  "intr_read user_handler m =
     (if user_handler = None then Inl (Panic ''no interrupt handler'') else Inr (m_eflags m AND FL_IF \<noteq> 0))"

definition intr_write :: "irq_handler option \<Rightarrow> bool \<Rightarrow> machine \<Rightarrow> machine res" where
  "intr_write user_handler enable m =
     (if user_handler = None then Inl (Panic ''no interrupt handler'')
      else if enable then Inr (m\<lparr>m_eflags := m_eflags m OR FL_IF\<rparr>)
      else Inr (m\<lparr>m_eflags := m_eflags m AND NOT FL_IF\<rparr>))"

section \<open>The table of vectors\<close>

record gate =
  off_lo :: "16 word"
  g_cs :: "16 word"
  g_type :: nat
  g_dpl :: addr
  off_hi :: "16 word"

definition GATE :: "nat \<Rightarrow> addr \<Rightarrow> addr \<Rightarrow> addr \<Rightarrow> gate" where
  "GATE ty sel entry dpl =
     \<lparr>off_lo = ucast (entry AND 0xFFFF), g_cs = ucast sel, g_type = ty, g_dpl = dpl, off_hi = ucast (drop_bit 16 entry)\<rparr>"

definition STS_TG32 :: nat where "STS_TG32 = 0xF"

text \<open>The vectors with a stub of their own, the level that may call them, and whether they have an error code.\<close>

definition irqs :: "(nat \<times> addr \<times> bool) list" where
  "irqs =
     [(0, DPL_KERN, False), (1, DPL_KERN, False), (2, DPL_KERN, False), (3, DPL_KERN, False),
      (4, DPL_KERN, False), (5, DPL_KERN, False), (6, DPL_KERN, False), (7, DPL_KERN, False),
      (8, DPL_KERN, True), (9, DPL_KERN, False), (10, DPL_KERN, True), (11, DPL_KERN, True),
      (12, DPL_KERN, True), (13, DPL_KERN, True), (14, DPL_KERN, True), (15, DPL_KERN, False),
      (16, DPL_KERN, False), (19, DPL_KERN, False), (31, DPL_KERN, False),
      (32, DPL_KERN, False), (33, DPL_KERN, False), (34, DPL_KERN, False), (35, DPL_KERN, False),
      (36, DPL_KERN, False), (37, DPL_KERN, False), (38, DPL_KERN, False), (39, DPL_KERN, False),
      (40, DPL_KERN, False), (41, DPL_KERN, False), (42, DPL_KERN, False), (43, DPL_KERN, False),
      (44, DPL_KERN, False), (45, DPL_KERN, False), (46, DPL_KERN, False), (47, DPL_KERN, False),
      (128, DPL_USER, False)]"

definition cte_init :: "nat \<Rightarrow> (nat \<Rightarrow> addr) \<Rightarrow> addr \<Rightarrow> irq_handler \<Rightarrow> (gate list \<times> irq_handler option) res" where
  "cte_init cpu stub irqall handler =
     (if cpu \<noteq> 0 then Inl (Panic ''init CTE in non-bootstrap CPU'')
      else
        let idt = map (\<lambda>i. GATE STS_TG32 (KSEL SEG_KCODE) irqall DPL_KERN) [0..<256];
            idt1 = fold (\<lambda>(i, dpl, _) t. t[i := GATE STS_TG32 (KSEL SEG_KCODE) (stub i) dpl]) irqs idt
        in Inr (idt1, Some handler))"

end
