(* ===== verification/Cte_Props.thy ===== *)
theory Cte_Props
  imports Cte
begin

text \<open>
  Interrupts: words on the stack, the frame an interrupt leaves and the context made of it, and that
  returning to a context puts back the registers that were saved.
\<close>

section \<open>Words in memory\<close>

lemma load_store_same [simp]: "load32 (store32 m a v) a = v"
proof -
  have "load32 (store32 m a v) a = ucast (ucast v :: 8 word) OR push_bit 8 (ucast (ucast (drop_bit 8 v) :: 8 word)) OR
      push_bit 16 (ucast (ucast (drop_bit 16 v) :: 8 word)) OR push_bit 24 (ucast (ucast (drop_bit 24 v) :: 8 word))"
    by (simp add: load32_def store32_def)
  also have "\<dots> = v" (is "?x = v")
  proof (rule bit_word_eqI)
    fix n assume n: "n < LENGTH(32)"
    consider "n < 8" | "8 \<le> n" "n < 16" | "16 \<le> n" "n < 24" | "24 \<le> n" by linarith
    then show "bit ?x n = bit v n"
      by cases (use n in \<open>auto simp: bit_simps\<close>)
  qed
  finally show ?thesis .
qed

lemma store32_other:
  assumes "4 \<le> unat (b - a)"
  shows "store32 m a v b = m b"
proof -
  have "b \<noteq> a + 0" "b \<noteq> a + 1" "b \<noteq> a + 2" "b \<noteq> a + 3" using assms by auto
  then show ?thesis by (simp add: store32_def)
qed

lemma load_store_other:
  assumes "4 \<le> unat (b - a)" and "unat (b - a) + 4 \<le> 2 ^ 32"
  shows "load32 (store32 m a v) b = load32 m b"
proof -
  have "store32 m a v (b + j) = m (b + j)" if "unat j < 4" for j
  proof (rule store32_other)
    have "unat (b - a + j) = unat (b - a) + unat j" using assms that by (subst unat_add_lem [THEN iffD1]) auto
    then show "4 \<le> unat (b + j - a)" using assms(1) by (simp add: algebra_simps)
  qed
  from this [of 0] this [of 1] this [of 2] this [of 3] show ?thesis by (simp add: load32_def)
qed

section \<open>The stack\<close>

text \<open>The words \<open>ws\<close> lie in memory from the address \<open>sp\<close> on.\<close>

fun stack_at :: "(addr \<Rightarrow> 8 word) \<Rightarrow> addr \<Rightarrow> addr list \<Rightarrow> bool" where
  "stack_at m sp [] \<longleftrightarrow> True"
| "stack_at m sp (w # ws) \<longleftrightarrow> load32 m sp = w \<and> stack_at m (sp + 4) ws"

lemma stack_at_store:
  "stack_at m b ws \<Longrightarrow> 4 \<le> unat (b - a) \<Longrightarrow> unat (b - a) + 4 * length ws \<le> 2 ^ 32 \<Longrightarrow>
    stack_at (store32 m a v) b ws"
proof (induction ws arbitrary: b)
  case (Cons w ws)
  show ?case
  proof (cases ws)
    case Nil
    then show ?thesis using Cons.prems load_store_other by simp
  next
    case (Cons w' ws')
    then have "unat (b - a + 4) = unat (b - a) + 4" using Cons.prems(3) by (subst unat_add_lem [THEN iffD1]) auto
    then have "unat (b + 4 - a) = unat (b - a) + 4" by (simp add: algebra_simps)
    then have "stack_at (store32 m a v) (b + 4) ws" using Cons.prems by (intro Cons.IH) auto
    then show ?thesis using Cons.prems load_store_other by simp
  qed
qed simp

lemma stack_at_nth:
  "stack_at m sp ws \<Longrightarrow> k < length ws \<Longrightarrow> load32 m (sp + word_of_nat (4 * k)) = ws ! k"
proof (induction ws arbitrary: sp k)
  case (Cons w ws)
  then show ?case
  proof (cases k)
    case (Suc j)
    then have "load32 m (sp + 4 + word_of_nat (4 * j)) = ws ! j" using Cons by simp
    then show ?thesis using Suc by (simp add: algebra_simps)
  qed simp
qed simp

lemma stack_at_append: "stack_at m sp (xs @ ys) \<longleftrightarrow> stack_at m sp xs \<and> stack_at m (sp + word_of_nat (4 * length xs)) ys"
  by (induction xs arbitrary: sp) (simp_all add: algebra_simps)

text \<open>Pushing a list changes only the bytes below the old top.\<close>

lemma push_list:
  "4 * (length xs + length ws) < 2 ^ 32 \<Longrightarrow> stack_at (m_mem m) (m_esp m) ws \<Longrightarrow>
    \<exists>\<mu>. fold push32 xs m = m\<lparr>m_esp := m_esp m - word_of_nat (4 * length xs), m_mem := \<mu>\<rparr> \<and>
      stack_at \<mu> (m_esp m - word_of_nat (4 * length xs)) (rev xs @ ws) \<and>
      (\<forall>b. 4 * length xs \<le> unat (b - (m_esp m - word_of_nat (4 * length xs))) \<longrightarrow> \<mu> b = m_mem m b)"
proof (induction xs arbitrary: m ws)
  case Nil
  then show ?case by (intro exI [of _ "m_mem m"]) simp
next
  case (Cons x xs)
  define e where "e = m_esp m - 4"
  have d: "unat (m_esp m - e) = 4" by (simp add: e_def)
  have st: "stack_at (store32 (m_mem m) e x) (m_esp m) ws"
    by (rule stack_at_store [OF Cons.prems(2)]) (use d Cons.prems(1) in auto)
  let ?m = "push32 x m"
  have m1: "m_esp ?m = e" "m_mem ?m = store32 (m_mem m) e x" by (simp_all add: push32_def e_def)
  have "stack_at (m_mem ?m) (m_esp ?m) (x # ws)" using st by (simp add: m1) (simp add: e_def)
  from Cons.IH [OF _ this] Cons.prems(1) obtain \<mu> where
    r: "fold push32 xs ?m = ?m\<lparr>m_esp := e - word_of_nat (4 * length xs), m_mem := \<mu>\<rparr>"
    "stack_at \<mu> (e - word_of_nat (4 * length xs)) (rev xs @ x # ws)"
    "\<forall>b. 4 * length xs \<le> unat (b - (e - word_of_nat (4 * length xs))) \<longrightarrow> \<mu> b = store32 (m_mem m) e x b"
    by (auto simp: m1)
  have e: "e - word_of_nat (4 * length xs) = m_esp m - word_of_nat (4 * length (x # xs))"
    by (simp add: e_def algebra_simps)
  have "\<mu> b = m_mem m b" if far: "4 * length (x # xs) \<le> unat (b - (m_esp m - word_of_nat (4 * length (x # xs))))" for b
  proof -
    have f: "4 * length xs + 4 \<le> unat (b - (e - word_of_nat (4 * length xs)))" using far by (simp only: e) simp
    have n: "unat (word_of_nat (4 * length xs) :: addr) = 4 * length xs"
      using Cons.prems(1) by (simp add: unat_of_nat del: of_nat_mult)
    have "b - e = (b - (e - word_of_nat (4 * length xs))) - word_of_nat (4 * length xs)" by simp
    then have "unat (b - e) = unat (b - (e - word_of_nat (4 * length xs))) - 4 * length xs"
      using f n by (metis unat_sub word_le_nat_alt add_leD1)
    then have "4 \<le> unat (b - e)" using f by simp
    then show ?thesis using r(3) f store32_other [of b e] by simp
  qed
  moreover have "fold push32 (x # xs) m = m\<lparr>m_esp := m_esp m - word_of_nat (4 * length (x # xs)), m_mem := \<mu>\<rparr>"
    unfolding e [symmetric] fold.simps comp_apply r(1) by (simp add: push32_def)
  moreover have "stack_at \<mu> (m_esp m - word_of_nat (4 * length (x # xs))) (rev (x # xs) @ ws)"
    unfolding e [symmetric] using r(2) by simp
  ultimately show ?case by blast
qed


section \<open>Returning to a context\<close>

lemma restore_run:
  assumes "stack_at (m_mem m) (m_esp m)
    ([v_edi, v_esi, v_ebp, x, v_ebx, v_edx, v_ecx, v_eax, v_es, v_ds, v_eip, v_cs, v_eflags] @
     (if v_cs AND 3 \<noteq> 0 then [v_esp, v_ss] else []))"
  shows "restore m = m\<lparr>m_eax := v_eax, m_ebx := v_ebx, m_ecx := v_ecx, m_edx := v_edx, m_esi := v_esi,
    m_edi := v_edi, m_ebp := v_ebp, m_esp := (if v_cs AND 3 \<noteq> 0 then v_esp else m_esp m + 52), m_eip := v_eip,
    m_eflags := v_eflags, m_cs := ucast v_cs, m_ds := ucast v_ds, m_es := ucast v_es,
    m_ss := (if v_cs AND 3 \<noteq> 0 then ucast v_ss else m_ss m)\<rparr>"
  using assms by (cases "v_cs AND 3 = 0") (simp_all add: restore_def popal_def iret_def pop32_def Let_def)

text \<open>The registers a context stands for; a context of the kernel does not say the stack segment.\<close>

definition context_regs :: "16 word \<Rightarrow> pcontext \<Rightarrow> regs" where
  "context_regs seg c =
     \<lparr>m_eax = eax c, m_ebx = ebx c, m_ecx = ecx c, m_edx = edx c, m_esi = esi c, m_edi = edi c, m_ebp = ebp c,
      m_esp = (if cs c AND 3 \<noteq> 0 then esp3 c else esp0 c), m_eip = eip c, m_eflags = eflags c,
      m_cs = ucast (cs c), m_ds = ucast (ds c), m_es = ucast (es c),
      m_ss = (if cs c AND 3 \<noteq> 0 then ucast (ss c) else seg)\<rparr>"

lemma return_to_run:
  fixes n :: machine
  shows "regs.truncate (return_to c n) = context_regs (m_ss n) c"
    and "m_prot (return_to c n) = prot c"
    and "cs c AND 3 \<noteq> 0 \<Longrightarrow> m_tss_ss0 (return_to c n) = ss0 c \<and> m_tss_esp0 (return_to c n) = esp0 c \<and>
      m_cr3 (return_to c n) = (case prot c of None \<Rightarrow> m_cr3 n | Some p \<Rightarrow> ptr p)"
    and "60 \<le> unat (b - (esp0 c - 60)) \<Longrightarrow> m_mem (return_to c n) b = m_mem n b"
proof -
  have "regs.truncate (return_to c n) = context_regs (m_ss n) c \<and> m_prot (return_to c n) = prot c \<and>
    (cs c AND 3 \<noteq> 0 \<longrightarrow> m_tss_ss0 (return_to c n) = ss0 c \<and> m_tss_esp0 (return_to c n) = esp0 c \<and>
      m_cr3 (return_to c n) = (case prot c of None \<Rightarrow> m_cr3 n | Some p \<Rightarrow> ptr p)) \<and>
    (60 \<le> unat (b - (esp0 c - 60)) \<longrightarrow> m_mem (return_to c n) b = m_mem n b)"
  proof (cases "cs c AND 3 = 0")
    case True
    let ?m = "n\<lparr>m_prot := prot c, m_esp := esp0 c\<rparr>"
    from push_list [of "regs_kernel c" "[]" ?m] obtain \<mu> where
      r: "fold push32 (regs_kernel c) ?m = ?m\<lparr>m_esp := esp0 c - 52, m_mem := \<mu>\<rparr>"
      "stack_at \<mu> (esp0 c - 52) (rev (regs_kernel c))"
      "\<forall>b. 52 \<le> unat (b - (esp0 c - 52)) \<longrightarrow> \<mu> b = m_mem n b"
      by (auto simp: regs_kernel_def simp del: fold.simps)
    have "return_to c n = restore (?m\<lparr>m_esp := esp0 c - 52, m_mem := \<mu>\<rparr>)"
      using True r(1) by (simp add: return_to_def DPL_USER_def)
    also have "\<dots> = n\<lparr>m_prot := prot c, m_mem := \<mu>, m_eax := eax c, m_ebx := ebx c, m_ecx := ecx c, m_edx := edx c,
        m_esi := esi c, m_edi := edi c, m_ebp := ebp c, m_esp := esp0 c, m_eip := eip c, m_eflags := eflags c,
        m_cs := ucast (cs c), m_ds := ucast (ds c), m_es := ucast (es c)\<rparr>"
      by (subst restore_run [where v_cs = "cs c" and x = "esp0 c"]) (use True r(2) in \<open>simp_all add: regs_kernel_def\<close>)
    finally have run: "return_to c n = \<dots>" .
    have "\<mu> b = m_mem n b" if "60 \<le> unat (b - (esp0 c - 60))"
    proof -
      define d where "d = b - (esp0 c - 60)"
      have e: "b - (esp0 c - 52) = d - 8" by (simp add: d_def)
      have far: "60 \<le> unat d" using that by (simp only: d_def)
      then have "unat (d - 8) = unat d - unat (8 :: addr)" by (intro unat_sub) (simp add: word_le_nat_alt)
      then have "52 \<le> unat (b - (esp0 c - 52))" unfolding e using far by simp
      then show ?thesis using r(3) by simp
    qed
    then show ?thesis unfolding run using True by (simp add: context_regs_def regs.defs)
  next
    case False
    define k where "k = (case prot c of None \<Rightarrow> m_cr3 n | Some p \<Rightarrow> ptr p)"
    let ?m = "n\<lparr>m_prot := prot c, m_cr3 := k, m_tss_ss0 := ss0 c, m_tss_esp0 := esp0 c, m_esp := esp0 c\<rparr>"
    from push_list [of "regs_user c" "[]" ?m] obtain \<mu> where
      r: "fold push32 (regs_user c) ?m = ?m\<lparr>m_esp := esp0 c - 60, m_mem := \<mu>\<rparr>"
      "stack_at \<mu> (esp0 c - 60) (rev (regs_user c))"
      "\<forall>b. 60 \<le> unat (b - (esp0 c - 60)) \<longrightarrow> \<mu> b = m_mem n b"
      by (auto simp: regs_kernel_def regs_user_def simp del: fold.simps)
    have "return_to c n = restore (?m\<lparr>m_esp := esp0 c - 60, m_mem := \<mu>\<rparr>)"
      using False r(1) by (cases "prot c") (simp_all add: return_to_def DPL_USER_def k_def)
    also have "\<dots> = n\<lparr>m_prot := prot c, m_cr3 := k, m_tss_ss0 := ss0 c, m_tss_esp0 := esp0 c, m_mem := \<mu>,
        m_eax := eax c, m_ebx := ebx c, m_ecx := ecx c, m_edx := edx c,
        m_esi := esi c, m_edi := edi c, m_ebp := ebp c, m_esp := esp3 c, m_eip := eip c, m_eflags := eflags c,
        m_cs := ucast (cs c), m_ds := ucast (ds c), m_es := ucast (es c), m_ss := ucast (ss c)\<rparr>"
      by (subst restore_run [where v_cs = "cs c" and x = "esp0 c" and v_esp = "esp3 c" and v_ss = "ss c"])
        (use False r(2) in \<open>simp_all add: regs_kernel_def regs_user_def\<close>)
    finally have run: "return_to c n = \<dots>" .
    show ?thesis unfolding run using False r(3) by (simp add: context_regs_def regs.defs k_def)
  qed
  then show "regs.truncate (return_to c n) = context_regs (m_ss n) c" "m_prot (return_to c n) = prot c"
    "cs c AND 3 \<noteq> 0 \<Longrightarrow> m_tss_ss0 (return_to c n) = ss0 c \<and> m_tss_esp0 (return_to c n) = esp0 c \<and>
      m_cr3 (return_to c n) = (case prot c of None \<Rightarrow> m_cr3 n | Some p \<Rightarrow> ptr p)"
    "60 \<le> unat (b - (esp0 c - 60)) \<Longrightarrow> m_mem (return_to c n) b = m_mem n b" by blast+
qed


section \<open>The frame of an interrupt\<close>

text \<open>The words the entry pushes, in order; \<open>x\<close> is the stack pointer that \<open>pushal\<close> stores.\<close>

definition frame_words :: "int \<Rightarrow> addr option \<Rightarrow> addr \<Rightarrow> regs \<Rightarrow> addr list" where
  "frame_words irq code x r =
     (if (ucast (m_cs r) :: addr) AND 3 \<noteq> 0 then [ucast (m_ss r), m_esp r] else []) @
     [m_eflags r, ucast (m_cs r), m_eip r, case code of None \<Rightarrow> 0 | Some e \<Rightarrow> e, word_of_int irq,
      ucast (m_ds r), ucast (m_es r), m_eax r, m_ecx r, m_edx r, m_ebx r, x, m_ebp r, m_esi r, m_edi r]"

definition entry_stack :: "machine \<Rightarrow> machine" where
  "entry_stack m =
     (if (ucast (m_cs m) :: addr) AND 3 \<noteq> 0 then m\<lparr>m_ss := ucast (m_tss_ss0 m), m_esp := m_tss_esp0 m\<rparr> else m)"

lemma push32_more:
  "m_eax (push32 v m) = m_eax m" "m_ebx (push32 v m) = m_ebx m" "m_ecx (push32 v m) = m_ecx m"
  "m_edx (push32 v m) = m_edx m" "m_esi (push32 v m) = m_esi m" "m_edi (push32 v m) = m_edi m"
  "m_ebp (push32 v m) = m_ebp m" "m_eip (push32 v m) = m_eip m" "m_eflags (push32 v m) = m_eflags m"
  "m_cs (push32 v m) = m_cs m" "m_ds (push32 v m) = m_ds m" "m_es (push32 v m) = m_es m"
  "m_ss (push32 v m) = m_ss m" "m_prot (push32 v m) = m_prot m" "m_cr2 (push32 v m) = m_cr2 m"
  "push32 v (m\<lparr>m_eflags := f\<rparr>) = (push32 v m)\<lparr>m_eflags := f\<rparr>"
  "push32 v (m\<lparr>m_cs := s\<rparr>) = (push32 v m)\<lparr>m_cs := s\<rparr>"
  by (simp_all add: push32_def)

lemma trap_entry_pushes:
  "\<exists>x. trap_entry irq code m =
    (fold push32 (frame_words irq code x (regs.truncate m)) (entry_stack m))
      \<lparr>m_cs := ucast (KSEL SEG_KCODE), m_eflags := m_eflags m AND NOT FL_IF, m_ds := ucast (KSEL SEG_KDATA),
       m_es := ucast (KSEL SEG_KDATA)\<rparr>"
  by (cases code; cases "(ucast (m_cs m) :: addr) AND 3 = 0")
    (simp_all add: trap_entry_def int_entry_def pushal_def frame_words_def entry_stack_def Let_def push32_more
      regs.defs, auto)


text \<open>The context \<open>irq_handle\<close> makes of an interrupt stands for the registers at the interrupt.\<close>

definition in_user :: "machine \<Rightarrow> bool" where
  "in_user m \<longleftrightarrow> (ucast (m_cs m) :: addr) AND 3 \<noteq> 0"

lemma trap_entry_run:
  fixes seg :: "16 word"
  defines "fr m' \<equiv> read_frame (m_mem m') (m_esp m')"
  shows "\<exists>m'. trap_entry irq code m = m' \<and>
    context_regs seg (save_context p (m_esp m') (fr m')) =
      (regs.truncate m)\<lparr>m_ss := (if in_user m then m_ss m else seg)\<rparr> \<and>
    t_irq (fr m') = sint (word_of_int irq :: addr) \<and> t_err (fr m') = (case code of None \<Rightarrow> 0 | Some e \<Rightarrow> e) \<and>
    t_eax (fr m') = m_eax m \<and> m_prot m' = m_prot m \<and> m_cr2 m' = m_cr2 m \<and> m_eois m' = m_eois m \<and>
    m_ss m' = (if in_user m then ucast (m_tss_ss0 m) else m_ss m) \<and>
    esp0 (save_context p (m_esp m') (fr m')) = (if in_user m then m_tss_esp0 m else m_esp m)"
proof -
  let ?r = "regs.truncate m"
  obtain x where x: "trap_entry irq code m =
    (fold push32 (frame_words irq code x ?r) (entry_stack m))
      \<lparr>m_cs := ucast (KSEL SEG_KCODE), m_eflags := m_eflags m AND NOT FL_IF, m_ds := ucast (KSEL SEG_KDATA),
       m_es := ucast (KSEL SEG_KDATA)\<rparr>" using trap_entry_pushes by blast
  let ?w = "frame_words irq code x ?r" and ?E = "m_esp (entry_stack m)"
  have len: "length ?w = (if in_user m then 17 else 15)"
    by (simp add: frame_words_def in_user_def regs.defs)
  from push_list [of ?w "[]" "entry_stack m"] len obtain \<mu> where
    r: "fold push32 ?w (entry_stack m) = (entry_stack m)\<lparr>m_esp := ?E - word_of_nat (4 * length ?w), m_mem := \<mu>\<rparr>"
    "stack_at \<mu> (?E - word_of_nat (4 * length ?w)) (rev ?w)" by (auto split: if_splits)
  define tf where "tf = ?E - word_of_nat (4 * length ?w)"
  define m' where "m' = trap_entry irq code m"
  have m': "m_esp m' = tf" "m_mem m' = \<mu>" "m_prot m' = m_prot m" "m_cr2 m' = m_cr2 m" "m_eois m' = m_eois m"
      "m_ss m' = (if in_user m then ucast (m_tss_ss0 m) else m_ss m)"
    unfolding m'_def x r(1) tf_def by (simp_all add: entry_stack_def in_user_def)
  have E: "?E = (if in_user m then m_tss_esp0 m else m_esp m)" by (simp add: entry_stack_def in_user_def)
  have w: "load32 \<mu> (tf + word_of_nat (4 * k)) = rev ?w ! k" if "k < length ?w" for k
    using stack_at_nth [OF r(2)] that by (simp add: tf_def)
  let ?rw = "[m_edi m, m_esi m, m_ebp m, x, m_ebx m, m_edx m, m_ecx m, m_eax m, ucast (m_es m), ucast (m_ds m),
      word_of_int irq, case code of None \<Rightarrow> 0 | Some e \<Rightarrow> e, m_eip m, ucast (m_cs m), m_eflags m] @
      (if in_user m then [m_esp m, ucast (m_ss m)] else [])"
  have rw: "rev ?w = ?rw" by (simp add: frame_words_def in_user_def regs.defs)
  have l: "load32 \<mu> (tf + word_of_nat (4 * k)) = ?rw ! k" if "k < 15" for k
    using w [of k] that len unfolding rw by (simp split: if_splits)
  note ls = l [of 0, simplified] l [of 1, simplified] l [of 2, simplified] l [of 3, simplified] l [of 4, simplified]
    l [of 5, simplified] l [of 6, simplified] l [of 7, simplified] l [of 8, simplified] l [of 9, simplified]
    l [of 10, simplified] l [of 11, simplified] l [of 12, simplified] l [of 13, simplified] l [of 14, simplified]
  have lu: "load32 \<mu> (tf + 60) = m_esp m" "load32 \<mu> (tf + 64) = ucast (m_ss m)" if "in_user m"
    using w [of 15] w [of 16] len that unfolding rw by simp_all
  have fr: "fr m' = read_frame \<mu> tf" by (simp add: fr_def m')
  have seg: "(ucast (ucast z :: addr) :: 16 word) = z" for z :: "16 word" by (rule bit_word_eqI) (simp add: bit_simps)
  have top: "in_user m \<Longrightarrow> tf + 68 = m_tss_esp0 m" "\<not> in_user m \<Longrightarrow> tf + 60 = m_esp m"
    using E len by (simp_all add: tf_def)
  have ctx: "save_context p tf (read_frame \<mu> tf) =
    \<lparr>prot = p, eax = m_eax m, ebx = m_ebx m, ecx = m_ecx m, edx = m_edx m, esi = m_esi m, edi = m_edi m, ebp = m_ebp m,
      esp3 = (if in_user m then m_esp m else 0), eip = m_eip m, eflags = m_eflags m, cs = ucast (m_cs m),
      ds = ucast (m_ds m), es = ucast (m_es m), ss = (if in_user m then ucast (m_ss m) else 0),
      ss0 = KSEL SEG_KDATA, esp0 = (if in_user m then m_tss_esp0 m else m_esp m)\<rparr>"
    by (cases "in_user m")
      (use top in \<open>simp_all add: save_context_def read_frame_def ls lu DPL_USER_def Let_def, simp_all add: in_user_def add.commute\<close>)
  show ?thesis
  proof (intro exI [of _ m'] conjI)
    show "context_regs seg (save_context p (m_esp m') (fr m')) =
      (regs.truncate m)\<lparr>m_ss := (if in_user m then m_ss m else seg)\<rparr>"
      unfolding fr m'(1) ctx by (simp add: context_regs_def seg in_user_def regs.defs)
    show "esp0 (save_context p (m_esp m') (fr m')) = (if in_user m then m_tss_esp0 m else m_esp m)"
      unfolding fr m'(1) ctx by simp
  qed (simp_all add: fr read_frame_def ls m' m'_def [symmetric])
qed


section \<open>The table of gates\<close>

definition gate_entry :: "gate \<Rightarrow> addr" where
  "gate_entry g = push_bit 16 (ucast (off_hi g)) OR ucast (off_lo g)"

lemma GATE_entry: "gate_entry (GATE ty sel entry dpl) = entry"
proof (rule bit_word_eqI)
  fix n assume "n < LENGTH(32)"
  moreover have m: "(0xFFFF :: addr) = mask 16" by (simp add: mask_eq_decr_exp)
  ultimately show "bit (gate_entry (GATE ty sel entry dpl)) n = bit entry n"
    by (cases "n < 16") (auto simp: gate_entry_def GATE_def m bit_simps)
qed

lemma fold_gates:
  fixes mk :: "nat \<Rightarrow> addr \<Rightarrow> gate"
  assumes "distinct (map fst xs)" and "i < length t"
  shows "fold (\<lambda>(i, dpl, _ :: bool) t. t[i := mk i dpl]) xs t ! i =
    (case map_of xs i of None \<Rightarrow> t ! i | Some (dpl, _) \<Rightarrow> mk i dpl)"
  using assms
proof (induction xs arbitrary: t)
  case (Cons x xs)
  obtain j dpl e where x: "x = (j, dpl, e)" by (cases x)
  have "map_of xs j = None" using Cons.prems(1) by (simp add: x map_of_eq_None_iff)
  then show ?case using Cons by (auto simp: x nth_list_update split: option.splits)
qed simp

text \<open>Each vector with a stub enters it at its level, every other one enters \<open>irqall\<close> at the kernel's.\<close>

lemma cte_init_gates:
  assumes "i < 256"
  shows "\<exists>idt. cte_init 0 stub irqall h = Inr (idt, Some h) \<and> length idt = 256 \<and>
    gate_entry (idt ! i) = (if i \<in> fst ` set irqs then stub i else irqall) \<and>
    g_dpl (idt ! i) = (if i = 128 then DPL_USER else DPL_KERN)"
proof -
  let ?mk = "\<lambda>i dpl. GATE STS_TG32 (KSEL SEG_KCODE) (stub i) dpl"
  let ?t = "map (\<lambda>i. GATE STS_TG32 (KSEL SEG_KCODE) irqall DPL_KERN) [0..<256]"
  have d: "distinct (map fst irqs)" by (simp add: irqs_def)
  have len: "length (fold (\<lambda>(i, dpl, _ :: bool) t. t[i := ?mk i dpl]) xs t) = length t" for xs t
    by (induction xs arbitrary: t) auto
  have t: "?t ! i = GATE STS_TG32 (KSEL SEG_KCODE) irqall DPL_KERN" using assms by (simp del: upt_rec_numeral)
  have f: "fold (\<lambda>(i, dpl, _ :: bool) t. t[i := ?mk i dpl]) irqs ?t ! i =
      (case map_of irqs i of None \<Rightarrow> ?t ! i | Some (dpl, _) \<Rightarrow> ?mk i dpl)"
    by (rule fold_gates [OF d]) (use assms in simp)
  have dpl: "dpl = (if j = 128 then DPL_USER else DPL_KERN)" if "(j, dpl, e) \<in> set irqs" for j dpl e
    using that by (auto simp: irqs_def)
  have "gate_entry (fold (\<lambda>(i, dpl, _ :: bool) t. t[i := ?mk i dpl]) irqs ?t ! i) = (if i \<in> fst ` set irqs then stub i else irqall) \<and>
    g_dpl (fold (\<lambda>(i, dpl, _ :: bool) t. t[i := ?mk i dpl]) irqs ?t ! i) = (if i = 128 then DPL_USER else DPL_KERN)"
  proof (cases "map_of irqs i")
    case None
    moreover from None have "i \<notin> fst ` set irqs" by (simp add: map_of_eq_None_iff)
    moreover from this have "i \<noteq> 128" by (auto simp: irqs_def)
    ultimately show ?thesis unfolding f t by (simp add: GATE_entry) (simp add: GATE_def)
  next
    case (Some y)
    obtain dp e where y: "y = (dp, e)" by (cases y)
    then have m: "(i, dp, e) \<in> set irqs" using Some map_of_SomeD by fastforce
    then have "i \<in> fst ` set irqs" by force
    then show ?thesis unfolding f using Some y dpl [OF m] by (simp add: GATE_entry) (simp add: GATE_def)
  qed
  then show ?thesis by (auto simp: cte_init_def Let_def len simp del: upt_rec_numeral)
qed

section \<open>Properties\<close>

text \<open>The context of the registers at an interrupt, as \<open>irq_handle\<close> makes it from the frame.\<close>

definition interrupted :: "int \<Rightarrow> addr option \<Rightarrow> machine \<Rightarrow> pcontext" where
  "interrupted irq code m =
     (let m1 = trap_entry irq code m in save_context (m_prot m1) (m_esp m1) (read_frame (m_mem m1) (m_esp m1)))"

lemma irq_saves_and_restores_run:
  assumes "-1 \<le> irq" and "irq < 256"
  shows "let m1 = trap_entry irq code m; c = interrupted irq code m in
    (\<exists>ev.
      ev_kind ev =
        (if irq = 32 then Ev_irq_timer else if irq = 33 then Ev_irq_iodev
         else if irq = 128 then (if m_eax m = -1 then Ev_yield else Ev_syscall)
         else if irq = 14 then Ev_pagefault else Ev_error) \<and>
      (irq = 14 \<longrightarrow> ev_ref ev = m_cr2 m) \<and>
      irq_handle (Some h) (m_esp m1) m1 =
        (case h ev c (m1\<lparr>m_eois := m_eois m + (if 32 \<le> irq \<and> irq < 64 then 1 else 0)\<rparr>) of
           (None, m2) \<Rightarrow> Inl (Panic ''return to a null context'')
         | (Some next_ctx, m2) \<Rightarrow> Inr (return_to next_ctx m2))) \<and>
    regs.truncate (return_to c n) = (regs.truncate m)\<lparr>m_ss := (if in_user m then m_ss m else m_ss n)\<rparr> \<and>
    m_prot (return_to c n) = m_prot m \<and>
    (\<forall>b. 60 \<le> unat (b - ((if in_user m then m_tss_esp0 m else m_esp m) - 60)) \<longrightarrow> m_mem (return_to c n) b = m_mem n b)"
proof -
  define m1 where "m1 = trap_entry irq code m"
  define c where "c = interrupted irq code m"
  let ?f = "read_frame (m_mem m1) (m_esp m1)"
  have run: "context_regs (m_ss n) c = (regs.truncate m)\<lparr>m_ss := (if in_user m then m_ss m else m_ss n)\<rparr>"
      "t_irq ?f = sint (word_of_int irq :: addr)" "t_eax ?f = m_eax m" "m_prot m1 = m_prot m" "m_cr2 m1 = m_cr2 m"
      "m_eois m1 = m_eois m" "esp0 c = (if in_user m then m_tss_esp0 m else m_esp m)"
    using trap_entry_run [of irq code m "m_ss n" "m_prot m1"] by (auto simp: m1_def c_def interrupted_def Let_def)
  have irq: "t_irq ?f = irq" unfolding run(2) int_word_sint using assms(1,2) by simp
  have "sint (-1 :: addr) = -1" by simp
  then have minus: "sint (m_eax m) = -1 \<longleftrightarrow> m_eax m = -1" by (metis word_eq_iff_signed)
  have prot: "prot c = m_prot m" by (simp add: c_def interrupted_def save_context_def Let_def m1_def [symmetric] run(4))
  let ?ev = "event_of (m_cr2 m) ?f"
  have "ev_kind ?ev =
        (if irq = 32 then Ev_irq_timer else if irq = 33 then Ev_irq_iodev
         else if irq = 128 then (if m_eax m = -1 then Ev_yield else Ev_syscall)
         else if irq = 14 then Ev_pagefault else Ev_error)"
    by (simp add: event_of_def Let_def irq run(3) minus)
  moreover have "irq = 14 \<longrightarrow> ev_ref ?ev = m_cr2 m" by (simp add: event_of_def Let_def irq)
  moreover have "irq_handle (Some h) (m_esp m1) m1 =
        (case h ?ev c (m1\<lparr>m_eois := m_eois m + (if 32 \<le> irq \<and> irq < 64 then 1 else 0)\<rparr>) of
           (None, m2) \<Rightarrow> Inl (Panic ''return to a null context'')
         | (Some next_ctx, m2) \<Rightarrow> Inr (return_to next_ctx m2))"
  proof -
    have "c = save_context (m_prot m1) (m_esp m1) ?f" by (simp add: c_def interrupted_def Let_def m1_def)
    moreover have "(if 32 \<le> irq \<and> irq < 64 then m1\<lparr>m_eois := m_eois m1 + 1\<rparr> else m1) =
        m1\<lparr>m_eois := m_eois m + (if 32 \<le> irq \<and> irq < 64 then 1 else 0)\<rparr>" by (simp add: run(6))
    ultimately show ?thesis by (simp add: irq_handle_def Let_def irq run(5))
  qed
  ultimately have "(\<exists>ev.
      ev_kind ev =
        (if irq = 32 then Ev_irq_timer else if irq = 33 then Ev_irq_iodev
         else if irq = 128 then (if m_eax m = -1 then Ev_yield else Ev_syscall)
         else if irq = 14 then Ev_pagefault else Ev_error) \<and>
      (irq = 14 \<longrightarrow> ev_ref ev = m_cr2 m) \<and>
      irq_handle (Some h) (m_esp m1) m1 =
        (case h ev c (m1\<lparr>m_eois := m_eois m + (if 32 \<le> irq \<and> irq < 64 then 1 else 0)\<rparr>) of
           (None, m2) \<Rightarrow> Inl (Panic ''return to a null context'')
         | (Some next_ctx, m2) \<Rightarrow> Inr (return_to next_ctx m2)))" by blast
  moreover have "m_mem (return_to c n) b = m_mem n b"
    if "60 \<le> unat (b - ((if in_user m then m_tss_esp0 m else m_esp m) - 60))" for b
    using that return_to_run(4) [of b c n] unfolding run(7) by blast
  ultimately show ?thesis
    using return_to_run(1,2) [of c n] run(1) prot by (simp add: Let_def m1_def [symmetric] c_def [symmetric])
qed


lemma irq_run:
  assumes "-1 \<le> irq" and "irq < 256"
  shows "\<exists>ev.
      ev_kind ev =
        (if irq = 32 then Ev_irq_timer else if irq = 33 then Ev_irq_iodev
         else if irq = 128 then (if m_eax m = -1 then Ev_yield else Ev_syscall)
         else if irq = 14 then Ev_pagefault else Ev_error) \<and>
      irq_handle (Some h) (m_esp (trap_entry irq code m)) (trap_entry irq code m) =
        (case h ev (interrupted irq code m) ((trap_entry irq code m)\<lparr>m_eois := m_eois m + (if 32 \<le> irq \<and> irq < 64 then 1 else 0)\<rparr>) of
           (None, m2) \<Rightarrow> Inl (Panic ''return to a null context'')
         | (Some next_ctx, m2) \<Rightarrow> Inr (return_to next_ctx m2))"
  using irq_saves_and_restores_run [OF assms, of code m h] unfolding Let_def by blast


definition ex_machine :: machine where
  "ex_machine =
     \<lparr>m_eax = 0xFFFFFFFF, m_ebx = 2, m_ecx = 3, m_edx = 4, m_esi = 5, m_edi = 6, m_ebp = 7, m_esp = 0x1000, m_eip = 0x5678,
      m_eflags = 0x202, m_cs = 0x1B, m_ds = 0x23, m_es = 0x23, m_ss = 0x23, m_mem = (\<lambda>_. 0xAB), m_tss_ss0 = 0x10,
      m_tss_esp0 = 0x8000, m_cr2 = 0, m_cr3 = 0, m_prot = None, m_eois = 0\<rparr>"


lemma kcontext_run:
  assumes "kcontext ret top f a \<mu> = (c, \<mu>')"
  shows "context_regs seg c = \<lparr>m_eax = 0, m_ebx = 0, m_ecx = 0, m_edx = 0, m_esi = 0, m_edi = 0, m_ebp = 0,
      m_esp = top - 8, m_eip = f, m_eflags = FL_IF, m_cs = 0x08, m_ds = 0x10, m_es = 0x10, m_ss = seg\<rparr>"
    "prot c = None" "esp0 c = top - 8" "cs c AND 3 = 0" "stack_at \<mu>' (top - 8) [ret, a]"
proof -
  have c: "c = zero_context\<lparr>esp0 := top - 8, cs := 0x08, eip := f, eflags := FL_IF, ds := 0x10, es := 0x10, ss := 0x10\<rparr>"
    "\<mu>' = store32 (store32 \<mu> (top - 8) ret) (top - 8 + 4) a"
    using assms by (simp_all add: kcontext_def Let_def KSEL_def DPL_KERN_def SEG_KCODE_def SEG_KDATA_def zero_context_def)
  show "context_regs seg c = \<lparr>m_eax = 0, m_ebx = 0, m_ecx = 0, m_edx = 0, m_esi = 0, m_edi = 0, m_ebp = 0,
      m_esp = top - 8, m_eip = f, m_eflags = FL_IF, m_cs = 0x08, m_ds = 0x10, m_es = 0x10, m_ss = seg\<rparr>"
    "prot c = None" "esp0 c = top - 8" "cs c AND 3 = 0"
    by (simp_all add: c(1) context_regs_def zero_context_def)
  have "load32 \<mu>' (top - 8) = ret" unfolding c(2) by (subst load_store_other) simp_all
  then show "stack_at \<mu>' (top - 8) [ret, a]" by (simp only: c(2) stack_at.simps load_store_same)
qed

text \<open>
  C30. A new context starts where it should.  A context of \<open>kcontext\<close>, returned to in any state whose memory
  still has the two words it stored at the end of the stack, begins at the entry in kernel mode with
  interrupts on, all general registers zero, and the stack a called C function finds: on its top the
  return address that panics, above it the argument.  A context of \<open>ucontext\<close> begins at its entry in user mode
  with interrupts on, the end of the user's stack as its stack pointer and the argument in \<open>eax\<close>; its
  address space is selected, and the next interrupt will use the given stack of the kernel.
\<close>

theorem new_contexts_start:
  "(let (c, \<mu>) = kcontext ret top f a (m_mem n); t = return_to c (n\<lparr>m_mem := \<mu>\<rparr>) in
     regs.truncate t = \<lparr>m_eax = 0, m_ebx = 0, m_ecx = 0, m_edx = 0, m_esi = 0, m_edi = 0, m_ebp = 0, m_esp = top - 8,
       m_eip = f, m_eflags = FL_IF, m_cs = 0x08, m_ds = 0x10, m_es = 0x10, m_ss = m_ss n\<rparr> \<and>
     load32 (m_mem t) (m_esp t) = ret \<and> load32 (m_mem t) (m_esp t + 4) = a \<and> m_prot t = None) \<and>
   (let t = return_to (ucontext p utop ktop g b) n in
     regs.truncate t = \<lparr>m_eax = b, m_ebx = 0, m_ecx = 0, m_edx = 0, m_esi = 0, m_edi = 0, m_ebp = 0, m_esp = utop,
       m_eip = g, m_eflags = FL_IF, m_cs = 0x1B, m_ds = 0x23, m_es = 0x23, m_ss = 0x23\<rparr> \<and>
     m_prot t = Some p \<and> m_cr3 t = ptr p \<and> m_tss_ss0 t = 0x10 \<and> m_tss_esp0 t = ktop)"
proof -
  obtain c \<mu> where k: "kcontext ret top f a (m_mem n) = (c, \<mu>)" by fastforce
  note kr = kcontext_run [OF k]
  let ?t = "return_to c (n\<lparr>m_mem := \<mu>\<rparr>)"
  have regs: "regs.truncate ?t = \<lparr>m_eax = 0, m_ebx = 0, m_ecx = 0, m_edx = 0, m_esi = 0, m_edi = 0, m_ebp = 0,
      m_esp = top - 8, m_eip = f, m_eflags = FL_IF, m_cs = 0x08, m_ds = 0x10, m_es = 0x10, m_ss = m_ss n\<rparr>"
    using return_to_run(1) [of c "n\<lparr>m_mem := \<mu>\<rparr>"] kr(1) by simp
  then have esp: "m_esp ?t = top - 8" by (simp add: regs.defs)
  have same: "m_mem ?t b = \<mu> b" if "unat (b - (top - 8)) < 8" for b
  proof -
    define d where "d = b - (top - 8)"
    have e: "b - (esp0 c - 60) = d + 60" by (simp add: kr(3) d_def)
    have "unat (d + 60) = unat d + 60" using that unfolding d_def [symmetric] by (subst unat_add_lem [THEN iffD1]) auto
    then have "60 \<le> unat (b - (esp0 c - 60))" unfolding e by simp
    then show ?thesis using return_to_run(4) [of b c "n\<lparr>m_mem := \<mu>\<rparr>"] by simp
  qed
  have l: "load32 (m_mem ?t) (top - 8 + j) = load32 \<mu> (top - 8 + j)" if "unat j \<le> 4" for j
  proof -
    have "m_mem ?t (top - 8 + j + i) = \<mu> (top - 8 + j + i)" if i: "unat i < 4" for i
    proof (rule same)
      have "top - 8 + j + i - (top - 8) = j + i" by simp
      moreover have "unat (j + i) = unat j + unat i" using \<open>unat j \<le> 4\<close> i by (subst unat_add_lem [THEN iffD1]) auto
      ultimately show "unat (top - 8 + j + i - (top - 8)) < 8" using \<open>unat j \<le> 4\<close> i by simp
    qed
    from this [of 0] this [of 1] this [of 2] this [of 3] show ?thesis by (simp add: load32_def)
  qed
  have "load32 (m_mem ?t) (m_esp ?t) = ret" "load32 (m_mem ?t) (m_esp ?t + 4) = a"
    using l [of 0] l [of 4] kr(5) by (simp_all add: esp)
  moreover have "m_prot ?t = None" using return_to_run(2) [of c "n\<lparr>m_mem := \<mu>\<rparr>"] kr(2) by simp
  moreover have "let t = return_to (ucontext p utop ktop g b) n in
     regs.truncate t = \<lparr>m_eax = b, m_ebx = 0, m_ecx = 0, m_edx = 0, m_esi = 0, m_edi = 0, m_ebp = 0, m_esp = utop,
       m_eip = g, m_eflags = FL_IF, m_cs = 0x1B, m_ds = 0x23, m_es = 0x23, m_ss = 0x23\<rparr> \<and>
     m_prot t = Some p \<and> m_cr3 t = ptr p \<and> m_tss_ss0 t = 0x10 \<and> m_tss_esp0 t = ktop"
  proof -
    let ?u = "ucontext p utop ktop g b"
    have u: "?u = zero_context\<lparr>cs := 0x1B, eip := g, eflags := FL_IF, ds := 0x23, es := 0x23, ss := 0x23, esp3 := utop,
        ss0 := 0x10, esp0 := ktop, eax := b, prot := Some p\<rparr>"
      by (simp add: ucontext_def USEL_def KSEL_def DPL_USER_def DPL_KERN_def SEG_UCODE_def SEG_UDATA_def SEG_KDATA_def)
    show ?thesis
      using return_to_run(1-3) [of ?u n] by (simp add: Let_def u context_regs_def zero_context_def)
  qed
  ultimately show ?thesis using regs by (simp add: k)
qed

end
