(* ===== verification/Stdlib.thy ===== *)
theory Stdlib
  imports Prelude
begin

text \<open>
  The random numbers of \<open>klib\<close> (\<open>klib/src/stdlib.c\<close>): a linear congruential generator on the 32 bits of an
  \<open>unsigned long\<close>, whose middle bits are returned.
\<close>

definition rand_next :: "32 word \<Rightarrow> 32 word" where
  "rand_next s = s * 1103515245 + 12345"

definition rand :: "32 word \<Rightarrow> nat \<times> 32 word" where
  "rand s = (let s' = rand_next s in (unat (s' div 65536) mod 32768, s'))"

definition srand :: "32 word \<Rightarrow> 32 word \<Rightarrow> 32 word" where
  "srand seed s = seed"

text \<open>The result of the call number \<open>n\<close> after the state \<open>s\<close>, counted from 0.\<close>

definition nth_rand :: "32 word \<Rightarrow> nat \<Rightarrow> nat" where
  "nth_rand s n = fst (rand ((rand_next ^^ n) s))"

section \<open>The period\<close>

text \<open>\<open>2 ^ k\<close> steps of the generator are again an affine map, which moves every state by an odd multiple of \<open>2 ^ k\<close>.\<close>

definition affine :: "int \<Rightarrow> int \<Rightarrow> 32 word \<Rightarrow> 32 word" where
  "affine a c s = of_int a * s + of_int c"

lemma affine_twice: "affine a c (affine a c s) = affine (a * a) ((a + 1) * c) s"
  by (simp add: affine_def algebra_simps)

lemma steps_affine:
  "\<exists>a c. (\<forall>s. (rand_next ^^ (2 ^ k)) s = affine a c s) \<and> 2 ^ (k + 2) dvd a - 1 \<and> (\<exists>r. c = 2 ^ k * (2 * r + 1))"
proof (induction k)
  case 0
  have "rand_next s = affine 1103515245 12345 s" for s by (simp add: rand_next_def affine_def mult.commute)
  then have "\<forall>s. (rand_next ^^ (2 ^ 0)) s = affine 1103515245 12345 s" by simp
  moreover have "(2::int) ^ (0 + 2) dvd 1103515245 - 1" by simp
  moreover have "(12345::int) = 2 ^ 0 * (2 * 6172 + 1)" by simp
  ultimately show ?case by blast
next
  case (Suc k)
  then obtain a c r where k: "\<forall>s. (rand_next ^^ (2 ^ k)) s = affine a c s" "2 ^ (k + 2) dvd a - 1" "c = 2 ^ k * (2 * r + 1)"
    by blast
  obtain q where q: "a = 2 ^ (k + 2) * q + 1" using k(2) by (metis dvdE diff_add_cancel)
  have "(rand_next ^^ (2 ^ Suc k)) s = affine (a * a) ((a + 1) * c) s" for s
  proof -
    have "(2::nat) ^ Suc k = 2 ^ k + 2 ^ k" by simp
    then show ?thesis using k(1) by (simp only: funpow_add comp_apply affine_twice)
  qed
  moreover have "2 ^ (Suc k + 2) dvd a * a - 1"
  proof -
    have "a * a - 1 = 2 ^ (Suc k + 2) * (q * (2 ^ (k + 1) * q + 1))" unfolding q by (simp add: algebra_simps power_add)
    then show ?thesis by simp
  qed
  moreover have "(a + 1) * c = 2 ^ Suc k * (2 * (2 ^ k * 2 * q * r + 2 ^ k * q + r) + 1)"
    unfolding q k(3) by (simp add: algebra_simps power_add)
  ultimately show ?case by blast
qed

lemma of_int_power_dvd: "(of_int x :: 32 word) = 0 \<longleftrightarrow> 2 ^ 32 dvd x"
  by (simp add: word_of_int_eq_0_iff)

lemma full_cycle: "(rand_next ^^ (2 ^ 32)) s = s"
proof -
  obtain a c r where k: "(rand_next ^^ (2 ^ 32)) s = affine a c s" "2 ^ (32 + 2) dvd a - 1" "c = 2 ^ 32 * (2 * r + 1)"
    using steps_affine [of 32] by blast
  have "2 ^ 32 dvd a - 1" using k(2) by (rule dvd_trans [rotated]) (simp add: le_imp_power_dvd)
  then have "(of_int (a - 1) :: 32 word) = 0" using of_int_power_dvd by blast
  moreover have "(of_int c :: 32 word) = 0" unfolding of_int_power_dvd k(3) by simp
  ultimately show ?thesis unfolding k(1) affine_def by simp
qed

lemma half_cycle: "(rand_next ^^ (2 ^ 31)) s \<noteq> s"
proof
  obtain a c r where k: "(rand_next ^^ (2 ^ 31)) s = affine a c s" "2 ^ (31 + 2) dvd a - 1" "c = 2 ^ 31 * (2 * r + 1)"
    using steps_affine [of 31] by blast
  assume "(rand_next ^^ (2 ^ 31)) s = s"
  moreover have "2 ^ 32 dvd a - 1" using k(2) by (rule dvd_trans [rotated]) (simp add: le_imp_power_dvd)
  then have "(of_int (a - 1) :: 32 word) = 0" using of_int_power_dvd by blast
  ultimately have "(of_int c :: 32 word) = 0" unfolding k(1) affine_def by simp
  then have "(2::int) ^ 32 dvd 2 ^ 31 * (2 * r + 1)" unfolding of_int_power_dvd k(3) .
  then have "(2::int) ^ 31 * 2 dvd 2 ^ 31 * (2 * r + 1)" by simp
  then have "(2::int) dvd 2 * r + 1" by (subst (asm) dvd_times_left_cancel_iff) auto
  then show False by presburger
qed


lemma cycles: "(f ^^ p) s = s \<Longrightarrow> (f ^^ (p * k)) s = s"
  by (induction k) (simp_all add: funpow_add)

lemma divisor_power2: "d dvd (2 :: nat) ^ m \<Longrightarrow> \<exists>j \<le> m. d = 2 ^ j"
proof (induction m arbitrary: d)
  case (Suc m)
  show ?case
  proof (cases "even d")
    case True
    then obtain d' where d': "d = 2 * d'" by (elim evenE)
    then have "d' dvd 2 ^ m" using Suc.prems by simp
    then obtain j where "j \<le> m" "d' = 2 ^ j" using Suc.IH by blast
    then show ?thesis using d' by (intro exI [of _ "Suc j"]) simp
  next
    case False
    then have "coprime d (2 ^ Suc m)" by (simp add: coprime_right_2_iff_odd)
    then have "d = 1" using Suc.prems by (meson coprime_absorb_left nat_dvd_1_iff_1)
    then show ?thesis by (intro exI [of _ 0]) simp
  qed
qed simp

lemma period_of_powers:
  fixes f :: "'a \<Rightarrow> 'a"
  assumes full: "(f ^^ (2 ^ Suc m)) s = s" and half: "(f ^^ (2 ^ m)) s \<noteq> s"
  shows "(f ^^ n) s = s \<longleftrightarrow> 2 ^ Suc m dvd n"
proof
  assume "2 ^ Suc m dvd n"
  then show "(f ^^ n) s = s" using cycles [OF full] by (metis dvdE)
next
  assume n: "(f ^^ n) s = s"
  show "2 ^ Suc m dvd n"
  proof (rule ccontr)
    assume no: "\<not> 2 ^ Suc m dvd n"
    define d where "d = gcd n (2 ^ Suc m)"
    have "n \<noteq> 0" using no by (metis dvd_0_right)
    then obtain x y where xy: "n * x = 2 ^ Suc m * y + d" using bezout_nat [of n "2 ^ Suc m"] by (auto simp: d_def)
    have "(f ^^ (n * x)) s = (f ^^ d) ((f ^^ (2 ^ Suc m * y)) s)"
      unfolding xy by (metis add.commute comp_apply funpow_add)
    then have d: "(f ^^ d) s = s" using cycles [OF n, of x] cycles [OF full, of y] by metis
    have "d dvd 2 ^ Suc m" unfolding d_def by (rule gcd_dvd2)
    then obtain j where j: "j \<le> Suc m" "d = 2 ^ j" using divisor_power2 by blast
    have "j \<noteq> Suc m" using no j(2) unfolding d_def by (metis gcd_dvd1)
    then have "d dvd 2 ^ m" using j by (simp add: le_imp_power_dvd)
    then show False using half cycles [OF d] by (metis dvdE)
  qed
qed

lemma rand_period: "(rand_next ^^ n) s = s \<longleftrightarrow> 2 ^ 32 dvd n"
proof -
  have "Suc 31 = 32" by simp
  then show ?thesis using period_of_powers [where f = rand_next and m = 31 and s = s and n = n] full_cycle half_cycle by metis
qed

lemma states_distinct: "inj_on (\<lambda>n. (rand_next ^^ n) s) {..<2 ^ 32}"
proof -
  have no: False if "n < m" "m < 2 ^ 32" "(rand_next ^^ n) s = (rand_next ^^ m) s" for n m
  proof -
    have "(rand_next ^^ m) s = (rand_next ^^ (m - n)) ((rand_next ^^ n) s)"
      using that(1) by (metis comp_apply funpow_add le_add_diff_inverse2 less_imp_le)
    then have "2 ^ 32 dvd m - n" using rand_period that(3) by metis
    then have "2 ^ 32 \<le> m - n" using that(1) by (intro dvd_imp_le) auto
    then show False using that(2) by linarith
  qed
  show ?thesis
    by (rule inj_onI) (metis no lessThan_iff linorder_neqE_nat)
qed

lemma states_all: "bij_betw (\<lambda>n. (rand_next ^^ n) s) {..<2 ^ 32} UNIV"
proof -
  have "card ((\<lambda>n. (rand_next ^^ n) s) ` {..<2 ^ 32}) = card (UNIV :: 32 word set)"
    using card_image [OF states_distinct] by (simp add: card_word)
  then have "(\<lambda>n. (rand_next ^^ n) s) ` {..<2 ^ 32} = UNIV" by (intro card_subset_eq) simp_all
  then show ?thesis using states_distinct by (simp only: bij_betw_def)
qed

section \<open>Each result is as frequent as any other\<close>

definition middle :: "32 word \<Rightarrow> nat" where
  "middle w = unat w div 65536 mod 32768"

lemma middle_card:
  assumes "v < 32768"
  shows "card {w. middle w = v} = 2 ^ 17"
proof -
  let ?g = "\<lambda>(b, l). b * 2147483648 + v * 65536 + (l :: nat)"
  let ?A = "{..<2 :: nat} \<times> {..<65536 :: nat}"
  have "{x. x < 4294967296 \<and> x div 65536 mod 32768 = v} = ?g ` ?A"
  proof (rule set_eqI)
    fix x
    show "x \<in> {x. x < 4294967296 \<and> x div 65536 mod 32768 = v} \<longleftrightarrow> x \<in> ?g ` ?A"
    proof
      assume x: "x \<in> {x. x < 4294967296 \<and> x div 65536 mod 32768 = v}"
      have "x div 65536 div 32768 < 2" using x by auto
      moreover have "x = x div 65536 div 32768 * 2147483648 + v * 65536 + x mod 65536"
      proof -
        have "x div 65536 = x div 65536 div 32768 * 32768 + v" using x div_mult_mod_eq [of "x div 65536" 32768] by simp
        then show ?thesis using div_mult_mod_eq [of x 65536] by linarith
      qed
      ultimately show "x \<in> ?g ` ?A" by (intro image_eqI [of _ _ "(x div 65536 div 32768, x mod 65536)"]) auto
    next
      assume "x \<in> ?g ` ?A"
      then obtain b l where x: "x = b * 2147483648 + v * 65536 + l" "b < 2" "l < 65536" by auto
      then have "x div 65536 = b * 32768 + v" by simp
      then show "x \<in> {x. x < 4294967296 \<and> x div 65536 mod 32768 = v}" using x assms by auto
    qed
  qed
  moreover have "inj_on ?g ?A"
  proof (rule inj_onI)
    fix p q assume "p \<in> ?A" "q \<in> ?A" "?g p = ?g q"
    moreover obtain a b c d where p: "p = (a, b)" "q = (c, d)" by (cases p; cases q)
    ultimately have "b < 65536" "d < 65536" "a * 2147483648 + b = c * 2147483648 + d" by auto
    then show "p = q" unfolding p by (cases a c rule: linorder_cases) auto
  qed
  moreover have "bij_betw unat {w :: 32 word. middle w = v} {x. x < 4294967296 \<and> x div 65536 mod 32768 = v}"
  proof (rule bij_betwI')
    fix y assume "y \<in> {x. x < 4294967296 \<and> x div 65536 mod 32768 = v}"
    then show "\<exists>w \<in> {w :: 32 word. middle w = v}. y = unat w"
      by (intro bexI [of _ "word_of_nat y"]) (simp_all add: middle_def unat_of_nat)
  next
    fix w assume "w \<in> {w :: 32 word. middle w = v}"
    moreover have "unat w < 4294967296" using unsigned_less [of w] by simp
    ultimately show "unat w \<in> {x. x < 4294967296 \<and> x div 65536 mod 32768 = v}" by (simp add: middle_def)
  qed (simp add: word_unat_eq_iff)
  ultimately have "bij_betw unat {w. middle w = v} (?g ` ?A)" "card (?g ` ?A) = card ?A"
    by (simp_all only: card_image)
  then have "card {w. middle w = v} = card ?A" by (metis bij_betw_same_card)
  then show ?thesis by simp
qed

lemma nth_rand_middle: "nth_rand s n = middle ((rand_next ^^ n) (rand_next s))"
  by (simp add: nth_rand_def rand_def middle_def Let_def unat_div funpow_swap1)

text \<open>
  The generator runs through all of its states and the results of \<open>rand\<close> are uniform.  From any state, that is
  after any seed, the state comes back after \<open>n\<close> calls exactly when \<open>n\<close> is a multiple of 2 to the 32; and
  among any 2 to the 32 results in a row each number from 0 to 32767 occurs exactly 131072 times.
\<close>

theorem rand_is_uniform:
  "((rand_next ^^ n) s = s \<longleftrightarrow> 2 ^ 32 dvd n) \<and>
   (\<forall>v. card {k. k < 2 ^ 32 \<and> nth_rand s k = v} = (if v < 32768 then 131072 else 0))"
proof (intro conjI allI)
  show "(rand_next ^^ n) s = s \<longleftrightarrow> 2 ^ 32 dvd n" by (rule rand_period)
  fix v
  let ?h = "\<lambda>k. (rand_next ^^ k) (rand_next s)"
  have b: "bij_betw ?h {..<2 ^ 32} UNIV" by (rule states_all)
  have "bij_betw ?h {k \<in> {..<2 ^ 32}. nth_rand s k = v} {w. middle w = v}"
  proof (rule bij_betw_subset [OF b])
    show "?h ` {k \<in> {..<2 ^ 32}. nth_rand s k = v} = {w. middle w = v}"
    proof (intro equalityI subsetI)
      fix w assume w: "w \<in> {w. middle w = v}"
      have "w \<in> ?h ` {..<2 ^ 32}" using b unfolding bij_betw_def by simp
      then show "w \<in> ?h ` {k \<in> {..<2 ^ 32}. nth_rand s k = v}" using w by (auto simp: nth_rand_middle)
    qed (auto simp: nth_rand_middle)
  qed blast
  then have "card {k \<in> {..<2 ^ 32}. nth_rand s k = v} = card {w. middle w = v}" by (rule bij_betw_same_card)
  moreover have "{w. middle w = v} = {}" if "\<not> v < 32768" using that by (auto simp: middle_def)
  ultimately show "card {k. k < 2 ^ 32 \<and> nth_rand s k = v} = (if v < 32768 then 131072 else 0)"
    using middle_card [of v] by simp
qed

end
