(* ===== verification/Sperf.thy ===== *)
theory Sperf
  imports Complex_Main Prelude "HOL-Library.Multiset"
begin

text \<open>
  The system call profiler (\<open>sperf/sperf.c\<close>): the lines of \<open>strace -T\<close> are read one character at a time, and the
  time at the end of each is added to the entry of the call at its beginning.  A \<open>double\<close> is a rational
  number and each operation on it is followed by the rounding \<open>rnd\<close>, a parameter; \<open>qsort\<close> and the clock are
  parameters too.
\<close>

section \<open>Lines\<close>

text \<open>The match of \<open>^[A-z_]+\<close>, and the part in brackets of the match of \<open><[0-9|\.]+>$\<close>.\<close>

definition name_char :: "char \<Rightarrow> bool" where
  "name_char c \<longleftrightarrow> 65 \<le> (of_char c :: nat) \<and> (of_char c :: nat) \<le> 122 \<or> c = CHR ''_''"

definition decimal_digit :: "char \<Rightarrow> bool" where
  "decimal_digit c \<longleftrightarrow> 48 \<le> (of_char c :: nat) \<and> (of_char c :: nat) \<le> 57"

definition time_char :: "char \<Rightarrow> bool" where
  "time_char c \<longleftrightarrow> decimal_digit c \<or> c = CHR ''|'' \<or> c = CHR 0x5C \<or> c = CHR ''.''"

definition line_name :: "string \<Rightarrow> string" where
  "line_name s = takeWhile name_char s"

definition time_part :: "string \<Rightarrow> string option" where
  "time_part s =
     (case rev s of
        [] \<Rightarrow> None
      | c # r \<Rightarrow>
          let body = takeWhile time_char r
          in if c = CHR ''>'' \<and> body \<noteq> [] \<and> take 1 (dropWhile time_char r) = ''<'' then Some (rev body) else None)"

text \<open>\<open>atof\<close> on such a text: the digits up to a character that is none, with a point among them.\<close>

definition decimal_value :: "string \<Rightarrow> rat" where
  "decimal_value s =
     (let ip = takeWhile decimal_digit s; r = dropWhile decimal_digit s;
          fp = (if take 1 r = ''.'' then takeWhile decimal_digit (drop 1 r) else [])
      in foldl (\<lambda>v c. 10 * v + of_int (int (of_char c) - 48)) 0 (ip @ fp) / 10 ^ length fp)"

definition findtime :: "(rat \<Rightarrow> rat) \<Rightarrow> string \<Rightarrow> rat res" where
  "findtime rnd s =
     (case time_part s of
        None \<Rightarrow> Inr (- 1)
      | Some body \<Rightarrow> if length body < 20 then Inr (rnd (decimal_value body)) else Inl Overrun)"

section \<open>The table\<close>

record tab_entry =
  s_name :: string
  s_t :: rat
  s_per :: "rat option"

record sperf =
  tab :: "tab_entry list"
  s_sum :: rat
  s_last :: int
  s_clocks :: nat

text \<open>The loop over the table: \<open>None\<close> when the name is new.\<close>

fun add_known :: "(rat \<Rightarrow> rat) \<Rightarrow> string \<Rightarrow> string \<Rightarrow> tab_entry list \<Rightarrow> rat \<Rightarrow> (tab_entry list \<times> rat) option res" where
  "add_known rnd s n [] sm = Inr None"
| "add_known rnd s n (e # es) sm =
     (if s_name e = n then
        rbind (findtime rnd s) (\<lambda>tt.
          Inr (Some (if 0 \<le> tt then (e\<lparr>s_t := rnd (s_t e + tt)\<rparr> # es, rnd (sm + tt)) else (e # es, sm))))
      else rbind (add_known rnd s n es sm) (\<lambda>r.
        Inr (case r of None \<Rightarrow> None | Some (es', sm') \<Rightarrow> Some (e # es', sm'))))"

definition add_new :: "(rat \<Rightarrow> rat) \<Rightarrow> string \<Rightarrow> string \<Rightarrow> sperf \<Rightarrow> sperf res" where
  "add_new rnd s n st =
     rbind (findtime rnd s) (\<lambda>tt.
       if 0 \<le> tt then
         rbind (require (length (tab st) < 100) Overrun) (\<lambda>_.
         rbind (require (length n < 20) Overrun) (\<lambda>_.
         rbind (findtime rnd s) (\<lambda>t2.
           Inr (st\<lparr>tab := tab st @ [\<lparr>s_name = n, s_t = t2, s_per = Some 0\<rparr>], s_sum := rnd (s_sum st + t2)\<rparr>))))
       else Inr st)"

definition match :: "(rat \<Rightarrow> rat) \<Rightarrow> string \<Rightarrow> sperf \<Rightarrow> sperf res" where
  "match rnd s st =
     (let n = line_name s
      in if n = [] then Inr st
         else if 20 < length n then Inl Overrun
         else if tab st = [] then add_new rnd s n st
         else rbind (add_known rnd s n (tab st) (s_sum st)) (\<lambda>r.
           case r of None \<Rightarrow> add_new rnd s n st
           | Some (es, sm) \<Rightarrow> Inr (st\<lparr>tab := es, s_sum := sm\<rparr>)))"

section \<open>Reading and showing\<close>

type_synonym tab_sort = "tab_entry list \<Rightarrow> tab_entry list"

text \<open>The shares of the total, none when the total is zero (the division gives NaN), and the sorting.\<close>

definition show_tab :: "(rat \<Rightarrow> rat) \<Rightarrow> tab_sort \<Rightarrow> sperf \<Rightarrow> sperf" where
  "show_tab rnd qs st =
     (let per = (\<lambda>e. if s_sum st = 0 then None else Some (rnd (rnd (s_t e / s_sum st) * 100)))
      in st\<lparr>tab := qs (map (\<lambda>e. e\<lparr>s_per := per e\<rparr>) (tab st))\<rparr>)"

fun trace_loop :: "(rat \<Rightarrow> rat) \<Rightarrow> tab_sort \<Rightarrow> (nat \<Rightarrow> int) \<Rightarrow> string \<Rightarrow> string \<Rightarrow> sperf \<Rightarrow> sperf res" where
  "trace_loop rnd qs clk s [] st = Inr st"
| "trace_loop rnd qs clk s (c # cs) st =
     (if c = CHR 0x0A then
        rbind (require (length s < 1000) Overrun) (\<lambda>_.
        rbind (match rnd (cstr s) st) (\<lambda>st1.
          let now = clk (s_clocks st1); st2 = st1\<lparr>s_clocks := s_clocks st1 + 1\<rparr>;
              st3 = (if now - s_last st2 > 10000 then (show_tab rnd qs st2)\<lparr>s_last := now\<rparr> else st2)
          in trace_loop rnd qs clk [] cs st3))
      else if length s < 1000 then trace_loop rnd qs clk (s @ [c]) cs st else Inl Overrun)"

definition sperf_main :: "(rat \<Rightarrow> rat) \<Rightarrow> tab_sort \<Rightarrow> (nat \<Rightarrow> int) \<Rightarrow> string \<Rightarrow> sperf res" where
  "sperf_main rnd qs clk input =
     rbind (trace_loop rnd qs clk [] input \<lparr>tab = [], s_sum = 0, s_last = clk 0, s_clocks = 1\<rparr>)
       (\<lambda>st. Inr (show_tab rnd qs st))"

end
