(* ===== verification/Sperf_Props.thy ===== *)
theory Sperf_Props
  imports Sperf
begin

text \<open>
  The table of the profiler as a map from names to sums_up, and that the lines of a whole run are summed up in
  it, whenever the table was shown and sorted in between.
\<close>

section \<open>What a line adds\<close>

text \<open>The entry of a line: a name and a time.  A line that has no time or no name adds nothing.\<close>

definition line_entry :: "(rat \<Rightarrow> rat) \<Rightarrow> string \<Rightarrow> (string \<times> rat) option" where
  "line_entry rnd l =
     (if line_name l = [] then None else map_option (\<lambda>b. (line_name l, rnd (decimal_value b))) (time_part l))"

definition line_ok :: "string \<Rightarrow> bool" where
  "line_ok l \<longleftrightarrow> length l < 1000 \<and> NUL \<notin> set l \<and> CHR 0x0A \<notin> set l \<and> length (line_name l) < 20 \<and>
     (\<forall>b. time_part l = Some b \<longrightarrow> length b < 20)"

text \<open>The sum of times as the profiler makes it: the first one as it is, the others added with rounding.\<close>

definition total :: "(rat \<Rightarrow> rat) \<Rightarrow> rat list \<Rightarrow> rat option" where
  "total rnd ts = (case ts of [] \<Rightarrow> None | t # ts' \<Rightarrow> Some (foldl (\<lambda>a x. rnd (a + x)) t ts'))"

definition times :: "string \<Rightarrow> (string \<times> rat) list \<Rightarrow> rat list" where
  "times n es = map snd (filter (\<lambda>e. fst e = n) es)"

lemma total_snoc: "total rnd (ts @ [t]) = Some (case total rnd ts of None \<Rightarrow> t | Some a \<Rightarrow> rnd (a + t))"
  by (cases ts) (simp_all add: total_def)

lemma times_snoc: "times n (es @ [(m, t)]) = (if m = n then times n es @ [t] else times n es)"
  by (simp add: times_def)

definition tab_map :: "tab_entry list \<Rightarrow> string \<Rightarrow> rat option" where
  "tab_map es = map_of (map (\<lambda>e. (s_name e, s_t e)) es)"

definition sums_up :: "(rat \<Rightarrow> rat) \<Rightarrow> sperf \<Rightarrow> (string \<times> rat) list \<Rightarrow> bool" where
  "sums_up rnd st es \<longleftrightarrow>
     distinct (map s_name (tab st)) \<and> (\<forall>n. tab_map (tab st) n = total rnd (times n es)) \<and>
     s_sum st = foldl (\<lambda>a x. rnd (a + x)) 0 (map snd es)"

lemma tab_map_names: "dom (tab_map es) = s_name ` set es"
  by (simp add: tab_map_def dom_map_of_conv_image_fst image_image)

lemma tab_map_perm:
  assumes "distinct (map s_name es)" and "mset fs = mset es"
  shows "distinct (map s_name fs)" "tab_map fs = tab_map es"
proof -
  have "mset (map s_name fs) = mset (map s_name es)" using assms(2) by simp
  then show d: "distinct (map s_name fs)" using assms(1) by (metis mset_eq_imp_distinct_iff)
  have k: "map fst (map (\<lambda>e. (s_name e, s_t e)) gs) = map s_name gs" for gs by simp
  have "set fs = set es" using assms(2) by (rule mset_eq_setD)
  then have "set (map (\<lambda>e. (s_name e, s_t e)) fs) = set (map (\<lambda>e. (s_name e, s_t e)) es)" by simp
  moreover have "distinct (map fst (map (\<lambda>e. (s_name e, s_t e)) fs))" "distinct (map fst (map (\<lambda>e. (s_name e, s_t e)) es))"
    unfolding k using d assms(1) by blast+
  ultimately show "tab_map fs = tab_map es" unfolding tab_map_def by (simp only: map_of_inject_set)
qed


lemma show_tab_keeps:
  assumes "sums_up rnd st es" and "\<And>t. mset (qs t) = mset t"
  shows "sums_up rnd (show_tab rnd qs st) es" "length (tab (show_tab rnd qs st)) = length (tab st)"
    "s_name ` set (tab (show_tab rnd qs st)) = s_name ` set (tab st)"
proof -
  define per where "per = (\<lambda>e :: tab_entry. if s_sum st = 0 then None else Some (rnd (rnd (s_t e / s_sum st) * 100)))"
  define us where "us = map (\<lambda>e. e\<lparr>s_per := per e\<rparr>) (tab st)"
  have u: "tab (show_tab rnd qs st) = qs us" "s_sum (show_tab rnd qs st) = s_sum st"
    by (simp_all add: show_tab_def Let_def per_def us_def)
  have n: "map s_name us = map s_name (tab st)" "tab_map us = tab_map (tab st)" "length us = length (tab st)"
    by (simp_all add: us_def tab_map_def comp_def)
  have "distinct (map s_name us)" using assms(1) n(1) by (simp only: sums_up_def)
  from tab_map_perm [OF this assms(2)]
  have p: "distinct (map s_name (qs us))" "tab_map (qs us) = tab_map (tab st)" using n(2) by simp_all
  show "sums_up rnd (show_tab rnd qs st) es"
    using assms(1) p unfolding sums_up_def u by simp
  show "length (tab (show_tab rnd qs st)) = length (tab st)"
    using arg_cong [OF assms(2) [of us], of size] n(3) by (simp add: u(1))
  have "set (qs us) = set us" by (rule mset_eq_setD [OF assms(2)])
  then have "s_name ` set (qs us) = set (map s_name us)" by simp
  then show "s_name ` set (tab (show_tab rnd qs st)) = s_name ` set (tab st)"
    unfolding u(1) n(1) by simp
qed

section \<open>One line\<close>

lemma decimal_value_nonneg: "0 \<le> decimal_value s"
proof -
  let ?f = "\<lambda>v c. 10 * v + of_int (int (of_char c) - 48) :: rat"
  have pos: "0 \<le> foldl ?f a cs" if "\<forall>c \<in> set cs. decimal_digit c" "0 \<le> a" for cs a
    using that by (induction cs arbitrary: a) (auto simp: decimal_digit_def)
  define A where "A = takeWhile decimal_digit s"
  define B where "B = (if take 1 (dropWhile decimal_digit s) = ''.'' then
      takeWhile decimal_digit (drop 1 (dropWhile decimal_digit s)) else [])"
  have "\<forall>c \<in> set (A @ B). decimal_digit c" by (auto simp: A_def B_def dest: set_takeWhileD)
  then have "0 \<le> foldl ?f 0 (A @ B) / 10 ^ length B" using pos by (intro divide_nonneg_nonneg) auto
  then show ?thesis by (simp only: decimal_value_def Let_def A_def [symmetric] B_def [symmetric])
qed

lemma add_known_new: "n \<notin> s_name ` set es \<Longrightarrow> add_known rnd s n es sm = Inr None"
  by (induction es) (auto simp: res_simps)

lemma add_known_skip:
  "n \<in> s_name ` set es \<Longrightarrow> findtime rnd s = Inr tt \<Longrightarrow> \<not> 0 \<le> tt \<Longrightarrow> add_known rnd s n es sm = Inr (Some (es, sm))"
  by (induction es) (auto simp: res_simps)

lemma add_known_run:
  "n \<in> s_name ` set es \<Longrightarrow> distinct (map s_name es) \<Longrightarrow> findtime rnd s = Inr tt \<Longrightarrow> 0 \<le> tt \<Longrightarrow>
    add_known rnd s n es sm =
      Inr (Some (map (\<lambda>e. if s_name e = n then e\<lparr>s_t := rnd (s_t e + tt)\<rparr> else e) es, rnd (sm + tt)))"
proof (induction es)
  case (Cons e es)
  show ?case
  proof (cases "s_name e = n")
    case True
    then have "map (\<lambda>e. if s_name e = n then e\<lparr>s_t := rnd (s_t e + tt)\<rparr> else e) es = es"
      using Cons.prems(2) True by (intro map_idI) (auto simp: image_iff)
    then show ?thesis using True Cons.prems by (simp add: res_simps)
  next
    case False
    then show ?thesis using Cons by (auto simp: res_simps)
  qed
qed simp

lemma tab_map_update:
  "tab_map (map (\<lambda>e. if s_name e = n then e\<lparr>s_t := f (s_t e)\<rparr> else e) es) m =
    (if m = n then map_option f (tab_map es m) else tab_map es m)"
  by (induction es) (auto simp: tab_map_def)

lemma match_run:
  assumes sums_up: "sums_up rnd st es" and ok: "line_ok l"
    and room: "line_entry rnd l \<noteq> None \<Longrightarrow> line_name l \<in> s_name ` set (tab st) \<or> length (tab st) < 100"
    and rnd: "\<And>x. 0 \<le> x \<Longrightarrow> 0 \<le> rnd x"
  shows "\<exists>u. match rnd l st = Inr u \<and> s_last u = s_last st \<and> s_clocks u = s_clocks st \<and>
    (case line_entry rnd l of
       None \<Rightarrow> u = st
     | Some (n, t) \<Rightarrow> sums_up rnd u (es @ [(n, t)]) \<and> s_name ` set (tab u) = insert n (s_name ` set (tab st)))"
proof (cases "line_name l = []")
  case True
  then show ?thesis by (simp add: match_def line_entry_def)
next
  case False
  let ?n = "line_name l"
  note s = sums_up [unfolded sums_up_def]
  have n: "length ?n < 20" using ok by (simp add: line_ok_def)
  have m: "match rnd l st = rbind (add_known rnd l ?n (tab st) (s_sum st)) (\<lambda>r.
           case r of None \<Rightarrow> add_new rnd l ?n st | Some (es, sm) \<Rightarrow> Inr (st\<lparr>tab := es, s_sum := sm\<rparr>))"
    using False n by (simp add: match_def Let_def res_simps)
  show ?thesis
  proof (cases "time_part l")
    case None
    then have f: "findtime rnd l = Inr (- 1)" by (simp add: findtime_def)
    have "match rnd l st = Inr st"
    proof (cases "?n \<in> s_name ` set (tab st)")
      case True
      then show ?thesis unfolding m by (simp add: add_known_skip [OF True f] res_simps)
    next
      case no: False
      then show ?thesis unfolding m by (simp add: add_known_new res_simps add_new_def f)
    qed
    then show ?thesis using None by (simp add: line_entry_def)
  next
    case (Some b)
    define tt where "tt = rnd (decimal_value b)"
    have f: "findtime rnd l = Inr tt" using Some ok by (simp add: findtime_def line_ok_def tt_def)
    have pos: "0 \<le> tt" unfolding tt_def by (intro rnd decimal_value_nonneg)
    have e: "line_entry rnd l = Some (?n, tt)" using Some False by (simp add: line_entry_def tt_def)
    have sum: "foldl (\<lambda>a x. rnd (a + x)) 0 (map snd (es @ [(?n, tt)])) = rnd (s_sum st + tt)" using s by simp
    show ?thesis
    proof (cases "?n \<in> s_name ` set (tab st)")
      case True
      let ?es = "map (\<lambda>e. if s_name e = ?n then e\<lparr>s_t := rnd (s_t e + tt)\<rparr> else e) (tab st)"
      let ?u = "st\<lparr>tab := ?es, s_sum := rnd (s_sum st + tt)\<rparr>"
      have run: "match rnd l st = Inr ?u" unfolding m using s by (simp add: add_known_run [OF True _ f pos] res_simps)
      have names: "map s_name ?es = map s_name (tab st)" by simp
      have distinct: "distinct (map s_name ?es)" unfolding names using s by blast
      have "tab_map ?es k = total rnd (times k (es @ [(?n, tt)]))" for k
      proof -
        have "tab_map (tab st) ?n \<noteq> None" using True tab_map_names by blast
        then show ?thesis
          using s tab_map_update [of ?n "\<lambda>t. rnd (t + tt)" "tab st" k] by (auto simp: times_snoc total_snoc)
      qed
      then have "sums_up rnd ?u (es @ [(?n, tt)])"
        unfolding sums_up_def using distinct sum by simp
      moreover have "s_name ` set ?es = s_name ` set (tab st)" using names by (metis set_map)
      ultimately show ?thesis using run e True by (auto simp: insert_absorb)
    next
      case no: False
      then have len: "length (tab st) < 100" using room e by simp
      let ?u = "st\<lparr>tab := tab st @ [\<lparr>s_name = ?n, s_t = tt, s_per = Some 0\<rparr>], s_sum := rnd (s_sum st + tt)\<rparr>"
      have run: "match rnd l st = Inr ?u"
        unfolding m using no len n pos by (simp add: add_known_new add_new_def f res_simps)
      have none: "tab_map (tab st) ?n = None" using no tab_map_names by blast
      have "tab_map (tab ?u) k = total rnd (times k (es @ [(?n, tt)]))" for k
      proof -
        have "tab_map (tab ?u) k = (if k = ?n then Some tt else tab_map (tab st) k)"
          using none by (auto simp: tab_map_def map_add_def split: option.splits)
        then show ?thesis using s none by (auto simp: times_snoc total_snoc)
      qed
      then have "sums_up rnd ?u (es @ [(?n, tt)])" using s no sum by (simp add: sums_up_def)
      then show ?thesis using run e by auto
    qed
  qed
qed


section \<open>The whole input\<close>

lemma read_chars:
  "CHR 0x0A \<notin> set l \<Longrightarrow> length b + length l \<le> 1000 \<Longrightarrow>
    trace_loop rnd qs clk b (l @ cs) st = trace_loop rnd qs clk (b @ l) cs st"
  by (induction l arbitrary: b) auto

definition line_entries :: "(rat \<Rightarrow> rat) \<Rightarrow> string list \<Rightarrow> (string \<times> rat) list" where
  "line_entries rnd ls = List.map_filter (line_entry rnd) ls"

lemma line_entries_simps [simp]:
  "line_entries rnd [] = []"
  "line_entries rnd (l # ls) = (case line_entry rnd l of None \<Rightarrow> line_entries rnd ls | Some e \<Rightarrow> e # line_entries rnd ls)"
  by (simp_all add: line_entries_def map_filter_simps split: option.split)

definition names :: "sperf \<Rightarrow> string set" where
  "names st = s_name ` set (tab st)"

lemma names_card: "sums_up rnd st es \<Longrightarrow> length (tab st) = card (names st)"
  unfolding sums_up_def names_def by (metis distinct_card length_map set_map)

lemma read_run:
  assumes "sums_up rnd st es" and "\<forall>l \<in> set ls. line_ok l"
    and "card (names st \<union> fst ` set (line_entries rnd ls)) \<le> 100"
    and qs: "\<And>t. mset (qs t) = mset t" and rnd: "\<And>x. 0 \<le> x \<Longrightarrow> 0 \<le> rnd x"
  shows "\<exists>u. trace_loop rnd qs clk [] (concat (map (\<lambda>l. l @ [CHR 0x0A]) ls)) st = Inr u \<and> sums_up rnd u (es @ line_entries rnd ls)"
  using assms(1-3)
proof (induction ls arbitrary: st es)
  case Nil
  then show ?case by simp
next
  case (Cons l ls)
  let ?rest = "concat (map (\<lambda>l. l @ [CHR 0x0A]) ls)"
  have ok: "line_ok l" using Cons.prems(2) by simp
  then have l: "length l < 1000" "cstr l = l" "CHR 0x0A \<notin> set l" by (auto simp: line_ok_def cstr_def takeWhile_eq_all_conv)
  have fin: "finite (names st \<union> fst ` set (line_entries rnd (l # ls)))" by (simp add: names_def)
  have room: "line_name l \<in> s_name ` set (tab st) \<or> length (tab st) < 100" if some: "line_entry rnd l \<noteq> None"
  proof (rule ccontr)
    assume no: "\<not> ?thesis"
    have "line_name l \<in> fst ` set (line_entries rnd (l # ls))"
      using some by (auto simp: line_entry_def split: if_splits option.splits)
    then have "insert (line_name l) (names st) \<subseteq> names st \<union> fst ` set (line_entries rnd (l # ls))" by blast
    then have "card (insert (line_name l) (names st)) \<le> 100" using card_mono [OF fin] Cons.prems(3) by (meson order_trans)
    moreover have "finite (names st)" "line_name l \<notin> names st" "100 \<le> card (names st)"
      using no names_card [OF Cons.prems(1)] by (simp_all add: names_def)
    ultimately show False by simp
  qed
  from match_run [OF Cons.prems(1) ok room rnd] obtain u where u: "match rnd l st = Inr u"
    "case line_entry rnd l of None \<Rightarrow> u = st
     | Some (n, t) \<Rightarrow> sums_up rnd u (es @ [(n, t)]) \<and> s_name ` set (tab u) = insert n (s_name ` set (tab st))" by blast
  define es1 where "es1 = es @ (case line_entry rnd l of None \<Rightarrow> [] | Some e \<Rightarrow> [e])"
  have u1: "sums_up rnd u es1" "names u \<union> fst ` set (line_entries rnd ls) = names st \<union> fst ` set (line_entries rnd (l # ls))"
    "es1 @ line_entries rnd ls = es @ line_entries rnd (l # ls)"
    using u(2) Cons.prems(1) by (auto simp: es1_def names_def split: option.splits)
  define st2 where "st2 = u\<lparr>s_clocks := s_clocks u + 1\<rparr>"
  define now where "now = clk (s_clocks u)"
  define st3 where "st3 = (if now - s_last st2 > 10000 then (show_tab rnd qs st2)\<lparr>s_last := now\<rparr> else st2)"
  have st2: "sums_up rnd st2 es1" "names st2 = names u" using u1(1) by (simp_all add: st2_def sums_up_def names_def)
  have st3: "sums_up rnd st3 es1 \<and> names st3 = names u"
  proof (cases "now - s_last st2 > 10000")
    case True
    have "sums_up rnd (show_tab rnd qs st2) es1" "names (show_tab rnd qs st2) = names u"
      using show_tab_keeps [of rnd st2 es1 qs, OF st2(1) qs] st2(2) by (simp_all add: names_def)
    then show ?thesis using True by (simp add: st3_def sums_up_def names_def)
  qed (simp add: st3_def st2)
  have "trace_loop rnd qs clk [] (concat (map (\<lambda>l. l @ [CHR 0x0A]) (l # ls))) st = trace_loop rnd qs clk [] ?rest st3"
  proof -
    have "trace_loop rnd qs clk [] (l @ CHR 0x0A # ?rest) st = trace_loop rnd qs clk l (CHR 0x0A # ?rest) st"
      using read_chars [of l "[]" rnd qs clk "CHR 0x0A # ?rest" st] l by simp
    also have "\<dots> = trace_loop rnd qs clk [] ?rest st3"
      using l u(1) by (simp add: res_simps Let_def st3_def st2_def now_def)
    finally show ?thesis by simp
  qed
  moreover have "\<exists>v. trace_loop rnd qs clk [] ?rest st3 = Inr v \<and> sums_up rnd v (es1 @ line_entries rnd ls)"
    using Cons.prems(2,3) st3 u1(2) by (intro Cons.IH) auto
  ultimately show ?case unfolding u1(3) by simp
qed

text \<open>
  C39. The profiler sums up the times of each call.  Let the lines of the trace be shorter than the buffer, the
  names and times in them shorter than 20 characters and at most 100 names among the lines with a time;
  let \<open>qsort\<close> permute the table and the rounding of a number that is not negative be none that is.  Then
  the run ends without a fault, whenever the table is shown and sorted in between; the final table
  has each name once, with the sum of the times of exactly its lines in their order, and the total is
  the sum of all of them.
\<close>

theorem sperf_sums_up:
  assumes "\<forall>l \<in> set ls. line_ok l" and "card (fst ` set (line_entries rnd ls)) \<le> 100"
    and "\<forall>t. mset (qs t) = mset t" and "\<forall>x. 0 \<le> x \<longrightarrow> 0 \<le> rnd x"
  shows "\<exists>u. sperf_main rnd qs clk (concat (map (\<lambda>l. l @ [CHR 0x0A]) ls)) = Inr u \<and>
    distinct (map s_name (tab u)) \<and>
    (\<forall>n. map_of (map (\<lambda>e. (s_name e, s_t e)) (tab u)) n = total rnd (times n (line_entries rnd ls))) \<and>
    s_sum u = foldl (\<lambda>a x. rnd (a + x)) 0 (map snd (line_entries rnd ls))"
proof -
  let ?st = "\<lparr>tab = [], s_sum = 0, s_last = clk 0, s_clocks = 1\<rparr>"
  have "sums_up rnd ?st []" "names ?st = {}" by (simp_all add: sums_up_def tab_map_def total_def times_def names_def)
  then obtain u where u: "trace_loop rnd qs clk [] (concat (map (\<lambda>l. l @ [CHR 0x0A]) ls)) ?st = Inr u"
    "sums_up rnd u (line_entries rnd ls)"
    using read_run [of rnd ?st "[]" ls qs clk] assms by auto
  have "sums_up rnd (show_tab rnd qs u) (line_entries rnd ls)" using assms(3) by (intro show_tab_keeps(1) [OF u(2)]) blast
  then show ?thesis using u(1) by (simp add: sperf_main_def res_simps sums_up_def tab_map_def)
qed

theorem sperf_sums_up_witness:
  "\<exists>u. sperf_main id rev (\<lambda>k. int k * 20000)
      (concat (map (\<lambda>l. l @ [CHR 0x0A]) [''read(3) = 1 <0.5>'', ''exit_group(0)'', ''open() <0.2>'', ''read(3) = 0 <1.25>''])) = Inr u \<and>
    map_of (map (\<lambda>e. (s_name e, s_t e)) (tab u)) ''read'' = Some (7 / 4) \<and> s_sum u = 39 / 20"
proof -
  let ?ls = "[''read(3) = 1 <0.5>'', ''exit_group(0)'', ''open() <0.2>'', ''read(3) = 0 <1.25>'']"
  note chars = name_char_def decimal_digit_def time_char_def
  have e: "line_entries id ?ls = [(''read'', 1 / 2), (''open'', 1 / 5), (''read'', 5 / 4)]"
    by (simp add: line_entry_def line_name_def time_part_def decimal_value_def chars Let_def)
  have "\<forall>l \<in> set ?ls. line_ok l"
    by (simp add: line_ok_def line_name_def time_part_def chars Let_def)
  moreover have "card (fst ` set (line_entries id ?ls)) \<le> 100" unfolding e by (simp add: card_insert_if)
  moreover have "\<forall>t :: tab_entry list. mset (rev t) = mset t" "\<forall>x :: rat. 0 \<le> x \<longrightarrow> 0 \<le> id x" by simp_all
  ultimately obtain u where u: "sperf_main id rev (\<lambda>k. int k * 20000) (concat (map (\<lambda>l. l @ [CHR 0x0A]) ?ls)) = Inr u"
    "\<forall>n. map_of (map (\<lambda>e. (s_name e, s_t e)) (tab u)) n = total id (times n (line_entries id ?ls))"
    "s_sum u = foldl (\<lambda>a x. id (a + x)) 0 (map snd (line_entries id ?ls))"
    using sperf_sums_up [of ?ls id rev "\<lambda>k. int k * 20000"] by blast
  have "map_of (map (\<lambda>e. (s_name e, s_t e)) (tab u)) ''read'' = Some (7 / 4)" "s_sum u = 39 / 20"
    unfolding u(2) [rule_format] u(3) e by (simp_all add: times_def total_def)
  then show ?thesis using u(1) by blast
qed

section \<open>Where it goes wrong\<close>

text \<open>A name ends before its first digit, so the times of different calls are added up.\<close>

lemma digits_cut_names:
  "line_name ''dup(3) = 4 <0.5>'' = ''dup''" "line_name ''dup2(3, 5) = 5 <0.5>'' = ''dup''"
  by (simp_all add: line_name_def name_char_def)

text \<open>The name of a system call with more than 20 characters is written behind its buffer.\<close>

lemma long_name_overruns: "match rnd ''sched_get_priority_max(1) = 99 <0.5>'' st = Inl Overrun"
  by (simp add: match_def line_name_def name_char_def)

text \<open>The bar and the backslash are characters of a time.\<close>

lemma bar_is_a_time: "findtime id ''read() <|>'' = Inr 0"
  by (simp add: findtime_def time_part_def time_char_def decimal_digit_def decimal_value_def)

end
