(* ===== verification/Crepl.thy ===== *)
theory Crepl
  imports Prelude
begin

text \<open>
  The C shell (\<open>crepl/crepl.c\<close>): lines of C are read one character at a time, a function definition or an
  expression, and made into one unit of source each, which is compiled and loaded.  The compiler and the
  loader are parameters: whether a unit builds, and the value its wrapper returns over the loaded units.
\<close>

section \<open>State\<close>

record crepl =
  cr_txt :: string
  cr_flag :: nat
  sfunc :: "string list"
  cntf :: nat
  cntexpr :: nat
  loaded :: "string list"

datatype shown = Added string | Value string int

datatype ended = Quit "shown list" | Exit_failure "shown list"

definition crepl_init :: crepl where
  "crepl_init = \<lparr>cr_txt = [], cr_flag = 0, sfunc = [], cntf = 0, cntexpr = 0, loaded = []\<rparr>"

section \<open>Reading a line\<close>

text \<open>
  The first loop, with the buffer \<open>juge\<close>: a whole line of at most three characters, the word \<open>EOF\<close>, or the first
  four characters of a line and the flag; \<open>Nothing\<close> when the input ends.
\<close>

datatype head = Whole string string | Word_EOF | Start nat string string | Nothing

fun read_head :: "string \<Rightarrow> string \<Rightarrow> head" where
  "read_head juge [] = Nothing"
| "read_head juge (c # cs) =
     (if c = CHR 0x0A \<and> cstr juge \<noteq> ''EOF'' then Whole juge cs
      else if length juge = 3 \<and> cstr juge = ''EOF'' then Word_EOF
      else if length juge = 3 then
        Start (if cstr juge = ''int'' \<and> c = CHR '' '' then 0 else 1) (juge @ [c]) cs
      else read_head (juge @ [c]) cs)"

text \<open>The second loop: the rest of the line; the text in front of each brace is kept as a declaration.\<close>

fun read_tail :: "string \<Rightarrow> string list \<Rightarrow> string \<Rightarrow> (string \<times> string list \<times> string) res" where
  "read_tail t fs [] = Inr (t, fs, [])"
| "read_tail t fs (c # cs) =
     (if c = CHR 0x0A then Inr (t, fs, cs)
      else if 199 \<le> length t then Inl Overrun
      else if c = CHR ''{'' then
        rbind (require (length fs < 500) Overrun) (\<lambda>_. read_tail (t @ [c]) (fs @ [cstr t]) cs)
      else read_tail (t @ [c]) fs cs)"

definition read_line :: "crepl \<Rightarrow> string \<Rightarrow> (crepl \<times> string) option res" where
  "read_line s inp =
     (case read_head [] inp of
        Word_EOF \<Rightarrow> Inr None
      | Whole j cs \<Rightarrow> Inr (Some (s\<lparr>cr_txt := cstr j, cr_flag := 1\<rparr>, cs))
      | Start f j cs \<Rightarrow>
          rbind (read_tail (cstr j @ replicate (4 - length (cstr j)) NUL) (sfunc s) cs) (\<lambda>(t, fs, cs').
            Inr (Some (s\<lparr>cr_txt := cstr t, cr_flag := f, sfunc := fs\<rparr>, cs')))
      | Nothing \<Rightarrow> Inr (Some (s, [])))"

section \<open>The unit of source\<close>

fun number_text :: "nat \<Rightarrow> string" where
  "number_text n = (if n < 10 then [] else number_text (n div 10)) @ [char_of (48 + n mod 10)]"

declare number_text.simps [simp del]

text \<open>\<open>sprintf\<close> into \<open>temp[100]\<close>, then \<open>strcat\<close> to \<open>ntxt[3000]\<close>.\<close>

definition append_temp :: "string \<Rightarrow> string \<Rightarrow> string res" where
  "append_temp ntxt temp =
     rbind (require (length temp < 100) Overrun) (\<lambda>_.
     rbind (require (length ntxt + length temp < 3000) Overrun) (\<lambda>_. Inr (ntxt @ temp)))"

fun externs :: "string list \<Rightarrow> string \<Rightarrow> string res" where
  "externs [] ntxt = Inr ntxt"
| "externs (f # fs) ntxt = rbind (append_temp ntxt (''extern '' @ f @ ''; '')) (externs fs)"

definition wrapper :: "nat \<Rightarrow> string \<Rightarrow> string" where
  "wrapper n t = ''int __expr_wrap_'' @ number_text n @ ''() {return ('' @ t @ '');}''"

definition make_unit :: "crepl \<Rightarrow> (string \<times> crepl) res" where
  "make_unit s =
     rbind (externs (sfunc s) []) (\<lambda>ntxt.
       if cr_flag s = 1 then
         rbind (append_temp ntxt (wrapper (cntexpr s) (cr_txt s))) (\<lambda>u. Inr (u, s\<lparr>cntexpr := cntexpr s + 1\<rparr>))
       else
         rbind (require (length ntxt + length (cr_txt s) < 3000) Overrun) (\<lambda>_. Inr (ntxt @ cr_txt s, s)))"

section \<open>The loop of the shell\<close>

text \<open>
  One round after a line is read: a unit that does not build leaves no library, and then the program ends.  A
  definition stays loaded, the library of an expression is closed again.
\<close>

definition run_unit ::
  "(string \<Rightarrow> bool) \<Rightarrow> (string list \<Rightarrow> string \<Rightarrow> int) \<Rightarrow> crepl \<Rightarrow> (shown list \<times> crepl) option res"
where
  "run_unit builds call s =
     rbind (require (cntf s < 500) Overrun) (\<lambda>_.
     rbind (make_unit (s\<lparr>cntf := cntf s + 1\<rparr>)) (\<lambda>(u, s1).
       if \<not> builds u then Inr None
       else if cr_flag s1 = 0 then Inr (Some ([Added (cr_txt s1)], s1\<lparr>loaded := loaded s1 @ [u], cr_txt := []\<rparr>))
       else Inr (Some ([Value (cr_txt s1) (call (loaded s1) u)], s1\<lparr>cr_txt := []\<rparr>))))"

lemma make_unit_cntf: "make_unit s = Inr (u, t) \<Longrightarrow> cntf t = cntf s"
  by (auto simp: make_unit_def res_simps split: if_splits)

lemma run_unit_cntf: "run_unit builds call s = Inr (Some (o1, t)) \<Longrightarrow> cntf s < 500 \<and> cntf t = cntf s + 1"
  by (auto simp: run_unit_def res_simps split: if_splits dest!: make_unit_cntf)

lemma read_line_cntf: "read_line s inp = Inr (Some (t, cs)) \<Longrightarrow> cntf t = cntf s"
  by (auto simp: read_line_def res_simps split: head.splits)

lemma round_cntf:
  "read_line s inp = Inr (Some (s1, cs)) \<Longrightarrow> run_unit builds call s1 = Inr (Some (o1, s2)) \<Longrightarrow>
    cntf s < 500 \<and> cntf s2 = cntf s + 1"
  using read_line_cntf run_unit_cntf by metis

function crepl_loop ::
  "(string \<Rightarrow> bool) \<Rightarrow> (string list \<Rightarrow> string \<Rightarrow> int) \<Rightarrow> shown list \<Rightarrow> crepl \<Rightarrow> string \<Rightarrow> ended res"
where
  "crepl_loop builds call out s inp =
     (case read_line s inp of
        Inl e \<Rightarrow> Inl e
      | Inr None \<Rightarrow> Inr (Quit out)
      | Inr (Some (s1, cs)) \<Rightarrow>
          (case run_unit builds call s1 of
             Inl e \<Rightarrow> Inl e
           | Inr None \<Rightarrow> Inr (Exit_failure out)
           | Inr (Some (o1, s2)) \<Rightarrow> crepl_loop builds call (out @ o1) s2 cs))"
  by pat_completeness auto
termination
  by (relation "measure (\<lambda>(_, _, _, s, _). 500 - cntf s)") (auto dest: round_cntf)

declare crepl_loop.simps [simp del]

definition crepl_main :: "(string \<Rightarrow> bool) \<Rightarrow> (string list \<Rightarrow> string \<Rightarrow> int) \<Rightarrow> string \<Rightarrow> ended res" where
  "crepl_main builds call inp = crepl_loop builds call [] crepl_init inp"

end
