(* ===== verification/Crepl_Props.thy ===== *)
theory Crepl_Props
  imports Crepl
begin

text \<open>
  The shell against what its lines should do: each line is one command, a definition is declared to all later
  units, an expression is wrapped and called.
\<close>

section \<open>What the lines should do\<close>

definition is_def :: "string \<Rightarrow> bool" where
  "is_def l \<longleftrightarrow> take 4 l = ''int ''"

definition header :: "string \<Rightarrow> string" where
  "header l = takeWhile (\<lambda>c. c \<noteq> CHR ''{'') l"

definition externs_text :: "string list \<Rightarrow> string" where
  "externs_text fs = concat (map (\<lambda>f. ''extern '' @ f @ ''; '') fs)"

text \<open>
  \<open>hs\<close> are the headers so far, \<open>k\<close> counts the expressions, \<open>libs\<close> are the definitions loaded.
\<close>

fun outcome ::
  "(string \<Rightarrow> bool) \<Rightarrow> (string list \<Rightarrow> string \<Rightarrow> int) \<Rightarrow> shown list \<Rightarrow> string list \<Rightarrow> nat \<Rightarrow> string list \<Rightarrow> string list \<Rightarrow> ended"
where
  "outcome builds call out hs k libs [] = Quit out"
| "outcome builds call out hs k libs (l # ls) =
     (if is_def l then
        (let hs' = hs @ [header l]; u = externs_text hs' @ l
         in if builds u then outcome builds call (out @ [Added l]) hs' k (libs @ [u]) ls else Exit_failure out)
      else
        (let u = externs_text hs @ wrapper k l
         in if builds u then outcome builds call (out @ [Value l (call libs u)]) hs (k + 1) libs ls else Exit_failure out))"

text \<open>The lines the buffers can hold: one brace in the line of a definition, none in an expression.\<close>

definition plain :: "string \<Rightarrow> bool" where
  "plain l \<longleftrightarrow> NUL \<notin> set l \<and> CHR 0x0A \<notin> set l \<and> take 3 l \<noteq> ''EOF'' \<and> length l < 200 \<and>
     (if is_def l then \<exists>b. l = header l @ CHR ''{'' # b \<and> CHR ''{'' \<notin> set b else CHR ''{'' \<notin> set l)"

fun lines_fit :: "string list \<Rightarrow> nat \<Rightarrow> string list \<Rightarrow> bool" where
  "lines_fit hs k [] \<longleftrightarrow> True"
| "lines_fit hs k (l # ls) \<longleftrightarrow> plain l \<and>
     (if is_def l then length (header l) \<le> 90 \<and> length (externs_text (hs @ [header l]) @ l) < 3000 \<and> lines_fit (hs @ [header l]) k ls
      else length (wrapper k l) < 100 \<and> length (externs_text hs @ wrapper k l) < 3000 \<and> lines_fit hs (k + 1) ls)"

section \<open>Reading\<close>

lemma cstr_no_NUL: "NUL \<notin> set s \<Longrightarrow> cstr s = s"
  by (auto simp: cstr_def takeWhile_eq_all_conv)

lemma read_head_short:
  "length j + length l \<le> 3 \<Longrightarrow> NUL \<notin> set (j @ l) \<Longrightarrow> CHR 0x0A \<notin> set l \<Longrightarrow> j @ l \<noteq> ''EOF'' \<Longrightarrow>
    read_head j (l @ CHR 0x0A # cs) = Whole (j @ l) cs"
proof (induction l arbitrary: j)
  case Nil
  then show ?case by (simp add: cstr_no_NUL)
next
  case (Cons c l)
  then show ?case using Cons.IH [of "j @ [c]"] by auto
qed

lemma read_head_long:
  assumes "4 \<le> length l" and "NUL \<notin> set l" and "CHR 0x0A \<notin> set (take 4 l)" and "take 3 l \<noteq> ''EOF''"
  shows "read_head [] (l @ cs) = Start (if is_def l then 0 else 1) (take 4 l) (drop 4 l @ cs)"
proof -
  obtain a b c d m where l: "l = [a, b, c, d] @ m"
    using assms(1) by (cases l; cases "tl l"; cases "tl (tl l)"; cases "tl (tl (tl l))") auto
  show ?thesis using assms(2-4) unfolding l by (auto simp: cstr_def is_def_def)
qed

lemma read_tail_plain:
  "CHR ''{'' \<notin> set l \<Longrightarrow> CHR 0x0A \<notin> set l \<Longrightarrow> length t + length l < 200 \<Longrightarrow>
    read_tail t fs (l @ CHR 0x0A # cs) = Inr (t @ l, fs, cs)"
  by (induction l arbitrary: t) auto

lemma read_tail_brace:
  "CHR ''{'' \<notin> set (t @ l) \<Longrightarrow> CHR 0x0A \<notin> set (l @ b) \<Longrightarrow> CHR ''{'' \<notin> set b \<Longrightarrow> NUL \<notin> set (t @ l) \<Longrightarrow>
    length (t @ l @ CHR ''{'' # b) < 200 \<Longrightarrow> length fs < 500 \<Longrightarrow>
    read_tail t fs (l @ CHR ''{'' # b @ CHR 0x0A # cs) = Inr (t @ l @ CHR ''{'' # b, fs @ [t @ l], cs)"
proof (induction l arbitrary: t)
  case Nil
  then show ?case using read_tail_plain [of b "t @ [CHR ''{'']"] by (simp add: cstr_no_NUL res_simps)
next
  case (Cons c l)
  then show ?case using Cons.IH [of "t @ [c]"] by auto
qed

lemma header_int: "header (''int '' @ m) = ''int '' @ header m"
  by (simp add: header_def)

lemma is_def_split: "is_def l \<Longrightarrow> \<exists>m. l = ''int '' @ m \<and> header l = ''int '' @ header m"
  by (intro exI [of _ "drop 4 l"]) (metis append_take_drop_id is_def_def header_int)

lemma read_line_run:
  assumes p: "plain l" and room: "is_def l \<Longrightarrow> length (sfunc s) < 500"
  shows "read_line s (l @ CHR 0x0A # cs) = Inr (Some
    (if is_def l then s\<lparr>cr_txt := l, cr_flag := 0, sfunc := sfunc s @ [header l]\<rparr> else s\<lparr>cr_txt := l, cr_flag := 1\<rparr>, cs))"
proof (cases "length l \<le> 3")
  case True
  have no: "\<not> is_def l" using True by (auto simp: is_def_def dest: arg_cong [where f = length])
  have "l \<noteq> ''EOF''" using p by (auto simp: plain_def)
  then have "read_head [] (l @ CHR 0x0A # cs) = Whole l cs"
    using read_head_short [of "[]" l cs] True p by (simp add: plain_def)
  then show ?thesis using no p by (simp add: read_line_def plain_def cstr_no_NUL)
next
  case False
  have "CHR 0x0A \<notin> set (take 4 l)" using p by (auto simp: plain_def dest: in_set_takeD)
  then have h: "read_head [] (l @ CHR 0x0A # cs) = Start (if is_def l then 0 else 1) (take 4 l) (drop 4 l @ CHR 0x0A # cs)"
    using read_head_long [of l "CHR 0x0A # cs"] False p by (simp add: plain_def)
  have t4: "NUL \<notin> set (take 4 l)" "length (take 4 l) = 4" "cstr (take 4 l) = take 4 l"
    using p False cstr_no_NUL [of "take 4 l"] by (auto simp: plain_def dest: in_set_takeD)
  show ?thesis
  proof (cases "is_def l")
    case True
    then obtain b where b: "l = header l @ CHR ''{'' # b" "CHR ''{'' \<notin> set b" using p by (auto simp: plain_def)
    obtain m where m: "l = ''int '' @ m" "header l = ''int '' @ header m" using is_def_split [OF True] by blast
    have hb: "CHR ''{'' \<notin> set (header m)" by (auto simp: header_def dest: set_takeWhileD)
    have mb: "m = header m @ CHR ''{'' # b" using b(1) m by simp
    then have sub: "set (header m) \<subseteq> set m" "set b \<subseteq> set m" by (metis set_append Un_upper1, metis set_append set_subset_Cons sup.coboundedI2)
    have "read_tail ''int '' (sfunc s) (header m @ CHR ''{'' # b @ CHR 0x0A # cs) =
        Inr (''int '' @ header m @ CHR ''{'' # b, sfunc s @ [''int '' @ header m], cs)"
    proof (rule read_tail_brace)
      show "CHR 0x0A \<notin> set (header m @ b)" "NUL \<notin> set (''int '' @ header m)" using sub p unfolding m(1) by (auto simp: plain_def)
      show "length (''int '' @ header m @ CHR ''{'' # b) < 200" using p unfolding mb [symmetric] m(1) by (simp add: plain_def)
    qed (use hb b(2) room True in auto)
    then have "read_tail ''int '' (sfunc s) (m @ CHR 0x0A # cs) = Inr (l, sfunc s @ [header l], cs)"
      using mb m by (metis append.assoc append_Cons)
    then show ?thesis using True h t4 p m by (simp add: read_line_def res_simps cstr_no_NUL plain_def)
  next
    case no: False
    have "read_tail (take 4 l) (sfunc s) (drop 4 l @ CHR 0x0A # cs) = Inr (take 4 l @ drop 4 l, sfunc s, cs)"
      by (rule read_tail_plain) (use no p False in \<open>auto simp: plain_def dest: in_set_dropD\<close>)
    then show ?thesis using no h t4 p by (simp add: read_line_def res_simps cstr_no_NUL plain_def)
  qed
qed


section \<open>Running\<close>

lemma externs_run:
  "\<forall>f \<in> set hs. length f \<le> 90 \<Longrightarrow> length (n @ externs_text hs) < 3000 \<Longrightarrow> externs hs n = Inr (n @ externs_text hs)"
  by (induction hs arbitrary: n) (simp_all add: append_temp_def externs_text_def res_simps)

definition crepl_rep :: "string list \<Rightarrow> nat \<Rightarrow> string list \<Rightarrow> nat \<Rightarrow> crepl \<Rightarrow> bool" where
  "crepl_rep hs k libs c s \<longleftrightarrow>
     sfunc s = hs \<and> cntexpr s = k \<and> loaded s = libs \<and> cntf s = c \<and> length hs \<le> c \<and> (\<forall>f \<in> set hs. length f \<le> 90)"

lemma run_def_line:
  assumes "crepl_rep hs k libs c s" and "c < 500" and "length (header l) \<le> 90"
    and "length (externs_text (hs @ [header l]) @ l) < 3000"
  shows "run_unit builds call (s\<lparr>cr_txt := l, cr_flag := 0, sfunc := sfunc s @ [header l]\<rparr>) =
      (let u = externs_text (hs @ [header l]) @ l
       in if builds u then Inr (Some ([Added l], s\<lparr>cr_txt := [], cr_flag := 0, sfunc := hs @ [header l], cntf := c + 1,
            loaded := libs @ [u]\<rparr>)) else Inr None)"
    and "crepl_rep (hs @ [header l]) k (libs @ [u]) (c + 1)
      (s\<lparr>cr_txt := [], cr_flag := 0, sfunc := hs @ [header l], cntf := c + 1, loaded := libs @ [u]\<rparr>)"
proof -
  have "externs (hs @ [header l]) [] = Inr (externs_text (hs @ [header l]))"
    using externs_run [of "hs @ [header l]" "[]"] assms by (simp add: crepl_rep_def)
  then show "run_unit builds call (s\<lparr>cr_txt := l, cr_flag := 0, sfunc := sfunc s @ [header l]\<rparr>) =
      (let u = externs_text (hs @ [header l]) @ l
       in if builds u then Inr (Some ([Added l], s\<lparr>cr_txt := [], cr_flag := 0, sfunc := hs @ [header l], cntf := c + 1,
            loaded := libs @ [u]\<rparr>)) else Inr None)"
    using assms by (simp add: run_unit_def make_unit_def res_simps crepl_rep_def Let_def)
qed (use assms in \<open>auto simp: crepl_rep_def\<close>)

lemma run_expr_line:
  assumes "crepl_rep hs k libs c s" and "c < 500" and "length (wrapper k l) < 100" and "length (externs_text hs @ wrapper k l) < 3000"
  shows "run_unit builds call (s\<lparr>cr_txt := l, cr_flag := 1\<rparr>) =
      (let u = externs_text hs @ wrapper k l
       in if builds u then Inr (Some ([Value l (call libs u)], s\<lparr>cr_txt := [], cr_flag := 1, cntf := c + 1, cntexpr := k + 1\<rparr>))
          else Inr None)"
    and "crepl_rep hs (k + 1) libs (c + 1) (s\<lparr>cr_txt := [], cr_flag := 1, cntf := c + 1, cntexpr := k + 1\<rparr>)"
proof -
  have "externs hs [] = Inr (externs_text hs)"
    using externs_run [of hs "[]"] assms by (simp add: crepl_rep_def)
  then show "run_unit builds call (s\<lparr>cr_txt := l, cr_flag := 1\<rparr>) =
      (let u = externs_text hs @ wrapper k l
       in if builds u then Inr (Some ([Value l (call libs u)], s\<lparr>cr_txt := [], cr_flag := 1, cntf := c + 1, cntexpr := k + 1\<rparr>))
          else Inr None)"
    using assms by (simp add: run_unit_def make_unit_def append_temp_def res_simps crepl_rep_def Let_def)
qed (use assms in \<open>auto simp: crepl_rep_def\<close>)

lemma loop_run:
  assumes "crepl_rep hs k libs c s" and "lines_fit hs k ls" and "c + length ls \<le> 500"
  shows "crepl_loop builds call out s (concat (map (\<lambda>l. l @ [CHR 0x0A]) ls) @ ''EOF'' @ [CHR 0x0A]) =
    Inr (outcome builds call out hs k libs ls)"
  using assms
proof (induction ls arbitrary: hs k libs c s out)
  case Nil
  show ?case by (subst crepl_loop.simps) (simp add: read_line_def cstr_def)
next
  case (Cons l ls)
  define rest where "rest = concat (map (\<lambda>l. l @ [CHR 0x0A]) ls) @ ''EOF'' @ [CHR 0x0A]"
  have p: "plain l" and c: "c < 500" and c1: "c + 1 + length ls \<le> 500" using Cons.prems by auto
  have room: "length (sfunc s) < 500" using Cons.prems(1) c by (simp add: crepl_rep_def)
  have inp: "concat (map (\<lambda>l. l @ [CHR 0x0A]) (l # ls)) @ ''EOF'' @ [CHR 0x0A] = l @ CHR 0x0A # rest"
    by (simp add: rest_def)
  note rd = read_line_run [OF p room, of rest]
  show ?case
  proof (cases "is_def l")
    case True
    define u where "u = externs_text (hs @ [header l]) @ l"
    have f: "length (header l) \<le> 90" "length (externs_text (hs @ [header l]) @ l) < 3000" "lines_fit (hs @ [header l]) k ls"
      using Cons.prems(2) True by simp_all
    note run = run_def_line(1) [OF Cons.prems(1) c f(1,2), of builds call] and st = run_def_line(2) [OF Cons.prems(1) c f(1,2), of u]
    show ?thesis
      unfolding inp using True Cons.IH [OF st f(3) c1, folded rest_def]
      by (subst crepl_loop.simps) (simp add: rd run Let_def u_def)
  next
    case False
    have f: "length (wrapper k l) < 100" "length (externs_text hs @ wrapper k l) < 3000" "lines_fit hs (k + 1) ls"
      using Cons.prems(2) False by simp_all
    note run = run_expr_line(1) [OF Cons.prems(1) c f(1,2), of builds call] and st = run_expr_line(2) [OF Cons.prems(1) c f(1,2)]
    show ?thesis
      unfolding inp using False Cons.IH [OF st f(3) c1, folded rest_def]
      by (subst crepl_loop.simps) (simp add: rd run [unfolded One_nat_def] Let_def)
  qed
qed


lemma number_text_small: "n < 10 \<Longrightarrow> number_text n = [char_of (48 + n)]"
  by (subst number_text.simps) simp


section \<open>Where it goes wrong\<close>

text \<open>Every brace that opens makes a declaration, so a body with a block leaves one that is not C.\<close>

lemma inner_brace_declared:
  "read_tail ''int '' [] (''g(int a) {if(a) {a=2;} return a;}'' @ [CHR 0x0A]) =
    Inr (''int g(int a) {if(a) {a=2;} return a;}'', [''int g(int a) '', ''int g(int a) {if(a) ''], [])"
  by (simp add: res_simps cstr_def)

text \<open>At the end of the input without \<open>EOF\<close> the shell goes on with empty units until its tables overrun.\<close>

lemma end_of_input_overruns:
  assumes "\<forall>u. builds u"
  shows "crepl_main builds call [] = Inl Overrun"
proof -
  have "crepl_loop builds call out s [] = Inl Overrun" if "cr_flag s = 0" "sfunc s = []" "cr_txt s = []" "cntf s \<le> 500" for out s
    using that
  proof (induction "500 - cntf s" arbitrary: s out)
    case 0
    then have "cntf s = 500" by simp
    then show ?case by (subst crepl_loop.simps) (simp add: read_line_def run_unit_def res_simps)
  next
    case (Suc n)
    then have c: "cntf s < 500" "n = 500 - Suc (cntf s)" by simp_all
    have "run_unit builds call s = Inr (Some ([Added []], s\<lparr>cntf := cntf s + 1, loaded := loaded s @ [[]]\<rparr>))"
      using assms Suc.prems c(1) by (simp add: run_unit_def make_unit_def res_simps)
    then show ?case using Suc.prems Suc.hyps(1) c
      by (subst crepl_loop.simps) (simp add: read_line_def)
  qed
  then show ?thesis by (simp add: crepl_main_def crepl_init_def)
qed

end
