(* ===== verification/Resume.thy ===== *)
theory Resume
  imports Os Cte_Props
begin

text \<open>
  The scheduler and the interrupts of the abstract machine together: the handler that \<open>main\<close> registers
  with \<open>cte_init\<close> is \<open>os_trap\<close>, whose contexts are addresses.  Every task goes on with the registers it was
  interrupted with, whatever ran in between and on whatever processor.
\<close>

section \<open>The system\<close>

text \<open>
  \<open>ctxs\<close> is the memory that holds the contexts.  \<open>was\<close> is no part of the program: the registers of each task at
  its last interrupt, or those it was created with.
\<close>

record sys =
  kt :: kmt
  ctxs :: "nat \<Rightarrow> pcontext"
  was :: "nat \<Rightarrow> regs"

text \<open>The registers in user mode have the segment of the stack, those in the kernel leave it.\<close>

definition with_ss :: "16 word \<Rightarrow> regs \<Rightarrow> regs" where
  "with_ss seg r = (if (ucast (m_cs r) :: addr) AND 3 \<noteq> 0 then r else r\<lparr>m_ss := seg\<rparr>)"

definition stands_for :: "pcontext \<Rightarrow> regs \<Rightarrow> bool" where
  "stands_for c r \<longleftrightarrow> (\<forall>seg. context_regs seg c = with_ss seg r)"

definition sys_inv :: "sys \<Rightarrow> bool" where
  "sys_inv S \<longleftrightarrow>
     kmt_inv (kt S) \<and>
     (\<forall>t \<in> all_tasks (kt S). t_context (k_task (kt S) t) \<noteq> 0 \<and> stands_for (ctxs S (t_context (k_task (kt S) t))) (was S t)) \<and>
     inj_on (\<lambda>t. t_context (k_task (kt S) t)) (all_tasks (kt S))"

section \<open>Steps\<close>

text \<open>\<open>os_trap\<close> as the handler; \<open>ev_code\<close> is the number of an event in \<open>am.h\<close>.\<close>

fun ev_code :: "event_kind \<Rightarrow> int" where
  "ev_code Ev_null = 0"
| "ev_code Ev_error = 1"
| "ev_code Ev_irq_timer = 2"
| "ev_code Ev_irq_iodev = 3"
| "ev_code Ev_pagefault = 4"
| "ev_code Ev_yield = 5"
| "ev_code Ev_syscall = 6"

definition trap_handler :: "nat \<Rightarrow> nat \<Rightarrow> os \<Rightarrow> (nat \<Rightarrow> pcontext) \<Rightarrow> irq_handler" where
  "trap_handler c a s cx ev ctx m =
     (case os_trap c (ev_code (ev_kind ev)) a s of
        Some (Inr (r, _)) \<Rightarrow> (Some ((cx(a := ctx)) r), m)
      | _ \<Rightarrow> (None, m))"

text \<open>
  A timer interrupt (vector 32) or a yield comes on processor \<open>c\<close>, the locks of the trap being free, and the
  context is put at an address that is not that of another task's.
\<close>

definition trap_ready :: "sys \<Rightarrow> nat \<Rightarrow> nat \<Rightarrow> os \<Rightarrow> int \<Rightarrow> machine \<Rightarrow> bool" where
  "trap_ready S c a s irq m \<longleftrightarrow>
     o_kmt s = kt S \<and> (irq = 32 \<or> irq = 128 \<and> m_eax m = - 1) \<and>
     (\<exists>z \<in> tasks_of (kt S) c. t_status (k_task (kt S) z) \<noteq> Suspend) \<and>
     registered (o_list s) boot_handlers \<and> cpu_ok (cpu_info (o_spins s) c) \<and>
     \<not> lk_locked (locks (o_spins s) TRAP_LOCK) \<and> \<not> lk_locked (locks (o_spins s) HL_LOCK) \<and>
     a \<noteq> 0 \<and> (\<forall>t \<in> all_tasks (kt S). t \<noteq> current_tasks (kt S) c \<longrightarrow> t_context (k_task (kt S) t) \<noteq> a)"

text \<open>
  Between interrupts a task may be created, and the status of tasks may change, as by the semaphores.
\<close>

inductive sys_step :: "sys \<Rightarrow> sys \<Rightarrow> bool" where
  trap: "trap_ready S c a s irq m \<Longrightarrow> os_trap c (if irq = 32 then EVENT_IRQ_TIMER else EVENT_YIELD) a s = Some (Inr (r, s')) \<Longrightarrow>
    sys_step S \<lparr>kt = o_kmt s', ctxs = (ctxs S)(a := interrupted irq code m),
      was = (was S)(current_tasks (kt S) c := regs.truncate m)\<rparr>"
| create: "kmt_create ncpu (kt S) t a = Inr k \<Longrightarrow> t \<noteq> 0 \<Longrightarrow> t \<notin> all_tasks (kt S) \<Longrightarrow> a \<noteq> 0 \<Longrightarrow>
    \<forall>u \<in> all_tasks (kt S). t_context (k_task (kt S) u) \<noteq> a \<Longrightarrow>
    sys_step S \<lparr>kt = k, ctxs = (ctxs S)(a := ctx), was = (was S)(t := context_regs 0 ctx)\<rparr>"
| status: "kmt_inv k \<Longrightarrow> (\<And>c. tasks_of k c = tasks_of (kt S) c) \<Longrightarrow>
    (\<And>t. t_context (k_task k t) = t_context (k_task (kt S) t)) \<Longrightarrow> sys_step S (S\<lparr>kt := k\<rparr>)"

section \<open>The invariant\<close>

lemma context_stands_for: "stands_for c (context_regs 0 c)"
proof -
  have "(ucast (ucast (cs c) :: 16 word) :: addr) AND 3 = cs c AND 3"
  proof (rule bit_word_eqI)
    fix n assume "n < LENGTH(32)"
    have three: "(3 :: addr) = mask 2" by (simp add: mask_eq_decr_exp)
    show "bit ((ucast (ucast (cs c) :: 16 word) :: addr) AND 3) n = bit (cs c AND 3) n"
      unfolding three by (auto simp: bit_simps)
  qed
  then show ?thesis by (simp add: stands_for_def with_ss_def context_regs_def)
qed

lemma interrupted_stands_for: "stands_for (interrupted irq code m) (regs.truncate m)"
proof -
  have u: "in_user m \<longleftrightarrow> (ucast (m_cs (regs.truncate m)) :: addr) AND 3 \<noteq> 0" by (simp add: in_user_def regs.defs)
  show ?thesis
    unfolding stands_for_def
  proof
    fix seg
    have "context_regs seg (interrupted irq code m) = (regs.truncate m)\<lparr>m_ss := (if in_user m then m_ss m else seg)\<rparr>"
      using trap_entry_run [of irq code m seg "m_prot (trap_entry irq code m)"] by (auto simp: interrupted_def Let_def)
    then show "context_regs seg (interrupted irq code m) = with_ss seg (regs.truncate m)"
      by (simp add: with_ss_def u regs.defs)
  qed
qed

lemma switched_contexts:
  assumes "kmt_inv k" and "switched k c a = Inr (r, k')"
  shows "kmt_inv k'" "tasks_of k' d = tasks_of k d" "all_tasks k' = all_tasks k"
    "t \<in> all_tasks k \<Longrightarrow> t_context (k_task k' t) = (if t = current_tasks k c then a else t_context (k_task k t))"
proof -
  let ?k1 = "kmt_context_save k c a"
  have inv: "kmt_inv ?k1" using assms(1) by (rule context_save_inv)
  have sw: "kmt_context_switch ?k1 c = Inr (r, k')" using assms(2) by (simp add: switched_def)
  have tasks: "tasks_of ?k1 e = tasks_of k e" for e by (simp add: kmt_context_save_def tasks_of_def)
  show "kmt_inv k'" by (rule switch_inv(1) [OF inv sw])
  show t: "tasks_of k' d = tasks_of k d" for d using switch_inv(2) [OF inv sw] tasks by metis
  then show "all_tasks k' = all_tasks k" by (simp add: all_tasks_def)
  show "t_context (k_task k' t) = (if t = current_tasks k c then a else t_context (k_task k t))" if "t \<in> all_tasks k"
  proof -
    have "t_id (k_task k t) \<noteq> - 1" using that listed_id [OF assms(1)] by (auto simp: all_tasks_def)
    then show ?thesis using switch_context [OF sw, of t] by (auto simp: kmt_context_save_def cur_def)
  qed
qed

lemma trap_run:
  assumes inv: "sys_inv S" and ready: "trap_ready S c a s irq m"
  shows "\<exists>r s'. os_trap c (if irq = 32 then EVENT_IRQ_TIMER else EVENT_YIELD) a s = Some (Inr (r, s')) \<and>
    switched (kt S) c a = Inr (r, o_kmt s') \<and> current_tasks (o_kmt s') c \<in> tasks_of (kt S) c \<and>
    t_status (cur (o_kmt s') c) = Running \<and> r = t_context (cur (o_kmt s') c)"
proof -
  note R = ready [unfolded trap_ready_def]
  obtain z where z: "z \<in> tasks_of (kt S) c" "t_status (k_task (kt S) z) \<noteq> Suspend" using R by blast
  let ?ev = "if irq = 32 then EVENT_IRQ_TIMER else EVENT_YIELD"
  have "\<exists>r k sp. os_trap c ?ev a s = Some (Inr (r, s\<lparr>o_kmt := k, o_spins := sp\<rparr>)) \<and>
    switched (o_kmt s) c a = Inr (r, k) \<and> kmt_inv k \<and> current_tasks k c \<in> tasks_of (o_kmt s) c \<and>
    t_status (cur k c) = Running \<and> r = t_context (cur k c) \<and>
    \<not> lk_locked (locks sp TRAP_LOCK) \<and> \<not> lk_locked (locks sp HL_LOCK) \<and>
    c_ncli (cpu_info sp c) = c_ncli (cpu_info (o_spins s) c) \<and> c_if (cpu_info sp c) = c_if (cpu_info (o_spins s) c)"
    by (rule os_trap_switches_run [where z = z]) (use R z inv in \<open>auto simp: sys_inv_def all_tasks_def\<close>)
  then show ?thesis using R by fastforce
qed

lemma trap_keeps:
  assumes inv: "sys_inv S" and ready: "trap_ready S c a s irq m" and sw: "switched (kt S) c a = Inr (r, k')"
  shows "sys_inv \<lparr>kt = k', ctxs = (ctxs S)(a := interrupted irq code m),
      was = (was S)(current_tasks (kt S) c := regs.truncate m)\<rparr>" (is "sys_inv ?T")
proof -
  note I = inv [unfolded sys_inv_def] and R = ready [unfolded trap_ready_def]
  have k: "kmt_inv (kt S)" using I by blast
  note c = switched_contexts [OF k sw]
  let ?old = "\<lambda>t. t_context (k_task (kt S) t)" and ?new = "\<lambda>t. t_context (k_task k' t)"
  have a: "?old t \<noteq> a" if "t \<in> all_tasks (kt S)" "t \<noteq> current_tasks (kt S) c" for t using R that by blast
  have "?new t \<noteq> 0 \<and> stands_for (ctxs ?T (?new t)) (was ?T t)" if t: "t \<in> all_tasks (kt S)" for t
    using c(4) [OF t] a [OF t] I R t interrupted_stands_for by (cases "t = current_tasks (kt S) c") auto
  moreover have "inj_on ?new (all_tasks (kt S))"
  proof (rule inj_onI)
    fix t u assume t: "t \<in> all_tasks (kt S)" and u: "u \<in> all_tasks (kt S)" and e: "?new t = ?new u"
    have i: "inj_on ?old (all_tasks (kt S))" using I by blast
    show "t = u"
      using e a [OF t] a [OF u] inj_onD [OF i _ t u] unfolding c(4) [OF t] c(4) [OF u] by (auto split: if_splits)
  qed
  ultimately show ?thesis using c(1,3) by (simp add: sys_inv_def)
qed

lemma sys_step_keeps: "sys_step S T \<Longrightarrow> sys_inv S \<Longrightarrow> sys_inv T"
proof (induction rule: sys_step.induct)
  case (trap S c a s irq m r s' code)
  from trap_run [OF trap(3,1)] trap(2) have "switched (kt S) c a = Inr (r, o_kmt s')" by auto
  then show ?case by (rule trap_keeps [OF trap(3,1)])
next
  case (create ncpu S t a k ctx)
  note I = create(6) [unfolded sys_inv_def]
  have len: "length (k_tl (kt S) (k_tidcnt (kt S))) < NTHREAD"
    using create(1) by (auto simp: kmt_create_def Let_def res_simps split: if_splits)
  have no: "t \<notin> tasks_of (kt S) c" for c using create(3) by (auto simp: all_tasks_def)
  have inv: "kmt_inv k" using kmt_create_inv [OF _ create(2) no len, of ncpu a] I create(1) by auto
  have k: "k_task k u = (if u = t then k_task k t else k_task (kt S) u)" "t_context (k_task k t) = a"
    "all_tasks k = insert t (all_tasks (kt S))" for u
    using create(1) len by (auto simp: kmt_create_def Let_def res_simps all_tasks_def tasks_of_def split: if_splits)
  have old: "t_context (k_task k u) = t_context (k_task (kt S) u)" "u \<noteq> t" "t_context (k_task (kt S) u) \<noteq> a"
    if "u \<in> all_tasks (kt S)" for u
    using that create(3,5) k(1) [of u] by auto
  have "inj_on (\<lambda>u. t_context (k_task k u)) (all_tasks (kt S))"
    using I old(1) by (auto simp: inj_on_def)
  moreover have "t_context (k_task k t) \<notin> (\<lambda>u. t_context (k_task k u)) ` all_tasks (kt S)"
    using old k(2) by (metis imageE)
  ultimately have "inj_on (\<lambda>u. t_context (k_task k u)) (insert t (all_tasks (kt S)))"
    using create(3) by (simp add: inj_on_insert)
  moreover have "t_context (k_task k u) \<noteq> 0 \<and> stands_for (((ctxs S)(a := ctx)) (t_context (k_task k u)))
      (((was S)(t := context_regs 0 ctx)) u)" if "u \<in> insert t (all_tasks (kt S))" for u
  proof (cases "u = t")
    case True
    then show ?thesis using k(2) create(4) context_stands_for by simp
  next
    case False
    then have "u \<in> all_tasks (kt S)" using that by simp
    then show ?thesis using I old False by simp
  qed
  ultimately show ?case using inv unfolding sys_inv_def by (simp add: k(3))
next
  case (status k S)
  then show ?case by (auto simp: sys_inv_def all_tasks_def)
qed


lemma sys_reach_keeps: "sys_step\<^sup>*\<^sup>* S T \<Longrightarrow> sys_inv S \<Longrightarrow> sys_inv T"
  by (induction rule: rtranclp_induct) (auto intro: sys_step_keeps)

section \<open>Property\<close>

text \<open>
  C20. A task goes on exactly where it was interrupted.  Take any state that is reached from a consistent one by
  traps of all processors, new tasks and changes of their status, and let a timer interrupt or a yield come
  on a processor that has a task which is not suspended, in user or kernel mode and with any registers.
  Then the frame, the context made of it, the handlers of \<open>os_trap\<close> and the return end without a panic: a
  task of that processor is running then, and the processor has the registers that task had at its last
  interrupt, or was created with, those of now if it is the interrupted task itself.
\<close>

theorem task_goes_on:
  assumes "sys_inv S0" and "sys_step\<^sup>*\<^sup>* S0 S" and "trap_ready S c a s irq m"
  shows "\<exists>r s' m'. os_trap c (if irq = 32 then EVENT_IRQ_TIMER else EVENT_YIELD) a s = Some (Inr (r, s')) \<and>
    irq_handle (Some (trap_handler c a s (ctxs S))) (m_esp (trap_entry irq None m)) (trap_entry irq None m) = Inr m' \<and>
    current_tasks (o_kmt s') c \<in> tasks_of (kt S) c \<and> t_status (cur (o_kmt s') c) = Running \<and>
    regs.truncate m' = with_ss (m_ss (trap_entry irq None m))
      (if current_tasks (o_kmt s') c = current_tasks (kt S) c then regs.truncate m else was S (current_tasks (o_kmt s') c))"
proof -
  have inv: "sys_inv S" by (rule sys_reach_keeps [OF assms(2,1)])
  note R = assms(3) [unfolded trap_ready_def]
  obtain r s' where t: "os_trap c (if irq = 32 then EVENT_IRQ_TIMER else EVENT_YIELD) a s = Some (Inr (r, s'))"
    "switched (kt S) c a = Inr (r, o_kmt s')" "current_tasks (o_kmt s') c \<in> tasks_of (kt S) c"
    "t_status (cur (o_kmt s') c) = Running" "r = t_context (cur (o_kmt s') c)"
    using trap_run [OF inv assms(3)] by blast
  define T where "T = \<lparr>kt = o_kmt s', ctxs = (ctxs S)(a := interrupted irq None m),
      was = (was S)(current_tasks (kt S) c := regs.truncate m)\<rparr>"
  have invT: "sys_inv T" unfolding T_def by (rule trap_keeps [OF inv assms(3) t(2)])
  have "kmt_inv (kt S)" using inv by (simp add: sys_inv_def)
  note c = switched_contexts [OF this t(2)]
  let ?t = "current_tasks (o_kmt s') c"
  have "?t \<in> all_tasks (kt T)" using t(3) c(2) by (auto simp: T_def all_tasks_def)
  then have st: "stands_for (ctxs T r) (was T ?t)" using invT t(5) by (simp add: sys_inv_def T_def cur_def)
  let ?m1 = "trap_entry irq None m"
  define m2 where "m2 = ?m1\<lparr>m_eois := m_eois m + (if 32 \<le> irq \<and> irq < 64 then 1 else 0)\<rparr>"
  have irq: "-1 \<le> irq" "irq < 256" using R by auto
  obtain ev where ev: "ev_kind ev = (if irq = 32 then Ev_irq_timer else if irq = 33 then Ev_irq_iodev
         else if irq = 128 then (if m_eax m = -1 then Ev_yield else Ev_syscall)
         else if irq = 14 then Ev_pagefault else Ev_error)"
    "irq_handle (Some (trap_handler c a s (ctxs S))) (m_esp ?m1) ?m1 =
      (case trap_handler c a s (ctxs S) ev (interrupted irq None m) m2 of
           (None, m2) \<Rightarrow> Inl (Panic ''return to a null context'')
         | (Some next_ctx, m2) \<Rightarrow> Inr (return_to next_ctx m2))"
    using irq_run [OF irq, where code = None and m = m and h = "trap_handler c a s (ctxs S)"] unfolding m2_def by blast
  have "ev_code (ev_kind ev) = (if irq = 32 then EVENT_IRQ_TIMER else EVENT_YIELD)"
    using R ev(1) by (auto simp: EVENT_IRQ_TIMER_def EVENT_YIELD_def)
  then have "trap_handler c a s (ctxs S) ev (interrupted irq None m) m2 = (Some (ctxs T r), m2)"
    using t(1) by (simp add: trap_handler_def T_def)
  then have run: "irq_handle (Some (trap_handler c a s (ctxs S))) (m_esp ?m1) ?m1 = Inr (return_to (ctxs T r) m2)"
    using ev(2) by simp
  have "regs.truncate (return_to (ctxs T r) m2) = with_ss (m_ss ?m1) (was T ?t)"
    using return_to_run(1) [of "ctxs T r" m2] st by (simp add: stands_for_def m2_def)
  then show ?thesis using t run by (intro exI [of _ r] exI [of _ s'] exI [of _ "return_to (ctxs T r) m2"]) (auto simp: T_def)
qed


text \<open>Three tasks that were just created, on two processors.\<close>

definition ex_context :: pcontext where
  "ex_context = zero_context\<lparr>eip := 0x100000, cs := KSEL SEG_KCODE, eflags := FL_IF\<rparr>"

definition ex_sys :: sys where
  "ex_sys = \<lparr>kt = demo_kmt, ctxs = (\<lambda>_. ex_context), was = (\<lambda>_. context_regs 0 ex_context)\<rparr>"

lemma task_goes_on_witness:
  "\<exists>r s' m'. os_trap 0 EVENT_YIELD 5 demo_os = Some (Inr (r, s')) \<and>
    irq_handle (Some (trap_handler 0 5 demo_os (\<lambda>_. ex_context))) (m_esp (trap_entry 128 None ex_machine))
      (trap_entry 128 None ex_machine) = Inr m' \<and> m_eip m' = 0x100000 \<and> m_eflags m' = FL_IF"
proof -
  have all: "all_tasks demo_kmt = {100, 200, 300}" by (auto simp: all_tasks_def demo_kmt_def tasks_of_def split: if_splits)
  have "sys_inv ex_sys"
    using demo_kmt_inv context_stands_for
    by (auto simp: sys_inv_def ex_sys_def all inj_on_def) (auto simp: demo_kmt_def demo_task_def)
  moreover have "trap_ready ex_sys 0 5 demo_os 128 ex_machine"
  proof -
    have "300 \<in> tasks_of demo_kmt 0" "t_status (k_task demo_kmt 300) \<noteq> Suspend"
      by (simp_all add: demo_kmt_def tasks_of_def demo_task_def)
    moreover have "cpu_ok (cpu_info (o_spins demo_os) 0)" "\<not> lk_locked (locks (o_spins demo_os) l)" for l
      by (simp_all add: demo_os_def cpu_ok_def cpu_init_def my_spinlock_init_def)
    moreover have "\<forall>t \<in> all_tasks demo_kmt. t_context (k_task demo_kmt t) \<noteq> 5"
      unfolding all by (simp add: demo_kmt_def demo_task_def)
    moreover have "m_eax ex_machine = - 1" by (simp add: ex_machine_def)
    moreover have "registered (o_list demo_os) boot_handlers" "o_kmt demo_os = demo_kmt"
      using boot_list_registered by (simp_all add: demo_os_def)
    ultimately show ?thesis by (auto simp: trap_ready_def ex_sys_def)
  qed
  ultimately obtain r s' m' where t: "os_trap 0 EVENT_YIELD 5 demo_os = Some (Inr (r, s'))"
    "irq_handle (Some (trap_handler 0 5 demo_os (\<lambda>_. ex_context))) (m_esp (trap_entry 128 None ex_machine))
      (trap_entry 128 None ex_machine) = Inr m'"
    "current_tasks (o_kmt s') 0 \<in> tasks_of demo_kmt 0"
    "regs.truncate m' = with_ss (m_ss (trap_entry 128 None ex_machine))
      (if current_tasks (o_kmt s') 0 = current_tasks demo_kmt 0 then regs.truncate ex_machine else context_regs 0 ex_context)"
    using task_goes_on [of ex_sys ex_sys 0 5 demo_os 128 ex_machine] by (auto simp: ex_sys_def)
  have "current_tasks (o_kmt s') 0 \<noteq> current_tasks demo_kmt 0"
    using t(3) by (auto simp: demo_kmt_def tasks_of_def)
  then have "regs.truncate m' = with_ss (m_ss (trap_entry 128 None ex_machine)) (context_regs 0 ex_context)" using t(4) by simp
  then have "m_eip (regs.truncate m') = 0x100000" "m_eflags (regs.truncate m') = FL_IF"
    by (simp_all add: with_ss_def context_regs_def ex_context_def)
  then show ?thesis using t by (auto simp: regs.defs)
qed

end
