(* ===== verification/Spec2Isabelle.thy ===== *)
theory Spec2Isabelle
  imports CString Fs_Main Vfs_Boot Input Video Tty Dev Spinlock Kmt Sem Stdio Alloc Slab_Props Os_Init Shell_Props
    Kvdb_Props Game_Props Pstree_Props Co_Props Frecov_Props
    Vme_Space Cte_Props Stdlib Sperf_Props Crepl_Props Resume
begin

text \<open>
  A verification development for the operating-system laboratory of this repository: a small
  multiprocessor kernel (\<open>kernel/\<close>) on the runtime library \<open>klib\<close> of the abstract machine, and the
  stand-alone programs beside it.

  \<^bold>\<open>The kernel and how its parts interact.\<close>  \<open>os->init\<close> (\<open>os.c\<close>) initialises the memory manager
  (\<open>alloc.c\<close>), the tasks (\<open>kmthread.c\<close>), the devices (\<open>devices/\<close>) and the file system (\<open>vfs.c\<close>), and creates
  one idle task per processor and four shells.  An interrupt enters \<open>os_trap\<close>, which runs the registered
  handlers in order: saving the context, waking the keyboard task, choosing the next task.  Tasks wait on
  semaphores (\<open>sem.c\<close>) built on spin locks (\<open>spinlock.c\<close>).  The keyboard task feeds key events to the
  terminals, a shell reads lines from its terminal and runs commands (\<open>cmd.c\<close>) on the virtual file system,
  which keeps its directory tree on a RAM disk and shows \<open>/dev\<close> and \<open>/proc\<close> beside it.

  \<^bold>\<open>Theories.\<close>
  \<^item> \<open>Prelude\<close>: faults and results, C strings, circular buffers; \<open>Queues\<close>: the interface (a locale) of a
    bounded queue, interpreted on the event queue of \<open>Input\<close> and the waiting list of \<open>Sem\<close>.
  \<^item> \<open>CString\<close>, \<open>Stdio\<close> (\<open>klib/src/string.c\<close>, \<open>stdio.c\<close>, \<open>ctype.c\<close>): byte-memory routines, formatted output
    and number parsing, with functional specifications and a round trip of numbers; \<open>Stdlib\<close>
    (\<open>klib/src/stdlib.c\<close>): the random numbers, whose full period makes every result equally frequent.
  \<^item> \<open>Ramdisk\<close>, \<open>Input\<close>, \<open>Video\<close>, \<open>Tty\<close>, \<open>Dev\<close> (\<open>kernel/src/devices\<close>): the devices as records of their state, one
    definition per operation; the terminal's line editing refines an abstract editor.
  \<^item> \<open>Fs\<close>, \<open>Fs_Inv\<close>, \<open>Fs_Ops\<close>, \<open>Fs_Main\<close> (first half of \<open>vfs.c\<close>): the on-disk file system byte by byte, its
    invariant, the tree of directories it stands for, and \<open>fslookup\<close> in its three uses as operations of
    that tree.
  \<^item> \<open>Vfs\<close>, \<open>Vfs_Props\<close>, \<open>Vfs_Boot\<close> (the rest of \<open>vfs.c\<close>): mount table, descriptors, \<open>procfs\<close>; each operation of
    the module as an operation of the tree; the boot establishes the invariant.
  \<^item> \<open>Spinlock\<close>, \<open>Kmt\<close>, \<open>Sem\<close>: locks as functions and as interleaved memory accesses with mutual exclusion;
    the scheduler; semaphores as a step relation on any number of processors, with the invariants that no
    wakeup is lost and no operation panics.
  \<^item> \<open>Slab\<close>, \<open>Slab_Props\<close> (the other half of \<open>alloc.c\<close>): the allocator with linked lists of blocks, its
    invariant of lists and layout, and that live blocks never overlap.
  \<^item> \<open>Alloc\<close>, \<open>Os\<close>, \<open>Os_Init\<close>: allocation, traps and handlers, and the whole boot, which composes the
    components above.
  \<^item> \<open>Cmd\<close>, \<open>Shell\<close>, \<open>Shell_Props\<close>: the commands and the reading of a line, as operations of the file system.
  \<^item> \<open>Vme\<close>, \<open>Vme_Props\<close>, \<open>Vme_Space\<close> (\<open>am/src/x86/qemu/vme.c\<close>): page tables, with the processor's walk over
    them as specification: the kernel's table is the identity on the physical areas, an address space is a
    map from pages to frames that each call updates at one page, and it gives back what it took.
  \<^item> \<open>Cte\<close>, \<open>Cte_Props\<close> (\<open>am/src/x86/qemu/cte.c\<close>, \<open>cte_trap.S\<close>): the frame of an interrupt on a memory of bytes,
    the context and the event made of it, and the return to a context, which restores every register.
  \<^item> \<open>Resume\<close>: interrupts, \<open>os_trap\<close> and the scheduler together; a task goes on exactly where it was interrupted.
  \<^item> \<open>Kvdb\<close>, \<open>Kvdb_Props\<close> (\<open>libkvdb/kvdb.c\<close>): a key-value store with a journal; the file as a map, and recovery
    after a crash.
  \<^item> \<open>Game\<close>, \<open>Game_Props\<close> (\<open>amgame/src/game.c\<close>): the Gomoku game; the search for a winner against the
    definition of five in a row on all reachable boards.
  \<^item> \<open>Pstree\<close>, \<open>Pstree_Props\<close> (\<open>pstree/pstree.c\<close>): the lists of brothers kept in the array of processes, and the
    drawing with shared prefix buffers against the drawing of the tree.
  \<^item> \<open>Co\<close>, \<open>Co_Props\<close> (\<open>libco/co.c\<close>): co-routines with saved contexts as values; programs run as the queue of
    an abstract scheduler would run them, and the programs that do not.
  \<^item> \<open>Frecov\<close>, \<open>Frecov_Props\<close> (\<open>frecov/frecov.c\<close>): the walk over a FAT32 image against the layout of its
    directory entries.
  \<^item> \<open>Sperf\<close>, \<open>Sperf_Props\<close> (\<open>sperf/sperf.c\<close>): the lines of a trace and the table of system calls, as the sums of
    the times of each name.
  \<^item> \<open>Crepl\<close>, \<open>Crepl_Props\<close> (\<open>crepl/crepl.c\<close>): the reading of lines of C and the units of source made of them.

  \<^bold>\<open>How the code is modelled.\<close>  A C function is an Isabelle function with the same name on a record of
  the state it uses; it returns \<open>fault + result\<close>, where \<open>assert\<close>, \<open>panic\<close>, a \<open>NULL\<close> access and an access
  outside an object are faults.  Integers that can wrap are words; offsets and counters that cannot are
  natural numbers or integers.  A loop that may not end is a \<open>partial_function (option)\<close> whose value \<open>None\<close>
  means that it does not return; termination is then proved where it holds.  Fuel appears only where a
  bound is in the code (\<open>run_len\<close>: four stones) or the loop counts a range.  Addresses that come from the
  allocator, contexts, times and processor counts are arguments.

  \<^bold>\<open>Not modelled.\<close>  Console messages; the boot code and device registers of the abstract machine; the parts
  of the C library and the host system that the stand-alone programs only call (processes, pipes, dynamic
  loading); vendored libraries and benchmarks.  In the kernel, code under \<open>#ifdef\<close>s
  that the build does not set (except the allocator of lists), and the memory barriers.  An operation under one lock is one step; where
  the lock does not cover the whole operation (\<open>kalloc\<close>, spin locks, semaphores) the pieces are steps.
\<close>

end
